(* ===== verification/HS_Prelude.thy ===== *)
theory HS_Prelude
  imports Main "HOL-Library.Word" "HOL-Library.Monad_Syntax"
begin

text \<open>
  Shared vocabulary of the development: the collections of simplification rules, unsigned
  64-bit size arithmetic (\<open>size_t\<close>, the address arithmetic of
  \<open>src/src/share/vm/utilities/globalDefinitions.hpp\<close>), and generic lemmas on alignment,
  function updates and lists that several components use.
\<close>

unbundle bit_operations_syntax

named_theorems size_simps \<open>unsigned size arithmetic when nothing wraps\<close>
named_theorems vs_defs \<open>field-level definitions of the virtual space\<close>
named_theorems heap_defs \<open>field-level definitions of the code heap\<close>

type_synonym addr = nat
type_synonym size_t = nat

section \<open>Unsigned 64-bit sizes\<close>

text \<open>\<open>size_t\<close> values are natural numbers below \<open>2 ^ 64\<close>; a subtraction wraps around.\<close>

definition size_max :: nat where
  "size_max = 2 ^ 64"

definition usub64 :: "size_t \<Rightarrow> size_t \<Rightarrow> size_t" where
  "usub64 a b = (a + (size_max - b)) mod size_max"

definition uadd64 :: "size_t \<Rightarrow> size_t \<Rightarrow> size_t" where
  "uadd64 a b = (a + b) mod size_max"

lemma usub64_le [size_simps]:
  assumes "b \<le> a" and "a < size_max"
  shows "usub64 a b = a - b"
proof -
  have eq: "a + (size_max - b) = (a - b) + size_max"
    using assms by simp
  have "usub64 a b = (a - b) mod size_max"
    by (simp only: usub64_def eq mod_add_self2)
  also have "\<dots> = a - b"
    using assms by (intro mod_less) linarith
  finally show ?thesis .
qed

lemma usub64_wraps:
  assumes "a < b" and "b < size_max"
  shows "usub64 a b = size_max - (b - a)"
  using assms by (simp add: usub64_def size_max_def)

lemma uadd64_less [size_simps]: "a + b < size_max \<Longrightarrow> uadd64 a b = a + b"
  by (simp add: uadd64_def)

lemma usub64_bound: "usub64 a b < size_max"
  by (simp add: usub64_def size_max_def)

section \<open>Alignment\<close>

text \<open>
  \<open>round_to\<close> and \<open>round_down\<close> (globalDefinitions.hpp) mask the low bits away; the masks are
  those of the source. For a power of two they are the usual roundings.
\<close>

definition round_to :: "nat \<Rightarrow> nat \<Rightarrow> nat" where
  "round_to x s = (let m = s - 1 in nat (int (x + m) AND NOT (int m)))"

definition round_down :: "nat \<Rightarrow> nat \<Rightarrow> nat" where
  "round_down x s = (let m = s - 1 in nat (int x AND NOT (int m)))"

lemma int_and_not_mask: "x AND NOT (2 ^ k - 1) = x div 2 ^ k * (2 ^ k :: int)"
proof -
  have "x AND NOT (2 ^ k - 1) = x AND NOT (mask k)"
    by (simp add: mask_eq_exp_minus_1)
  also have "\<dots> = push_bit k (drop_bit k x)"
    by (rule bit_eqI) (auto simp: bit_simps)
  finally show ?thesis
    by (simp add: push_bit_eq_mult drop_bit_eq_div)
qed

lemma round_down_pow2: "round_down x (2 ^ k) = x div 2 ^ k * 2 ^ k"
proof -
  have "int (2 ^ k - 1) = 2 ^ k - 1"
    by (simp add: of_nat_diff)
  then have "int x AND NOT (int (2 ^ k - 1)) = int (x div 2 ^ k * 2 ^ k)"
    by (simp add: int_and_not_mask zdiv_int)
  then show ?thesis by (simp only: round_down_def Let_def nat_int)
qed

lemma round_to_eq_down: "round_to x s = round_down (x + (s - 1)) s"
  by (simp add: round_to_def round_down_def Let_def)

lemma round_to_pow2: "round_to x (2 ^ k) = (x + (2 ^ k - 1)) div 2 ^ k * 2 ^ k"
  by (simp add: round_to_eq_down round_down_pow2)

lemma round_down_le: "round_down x (2 ^ k) \<le> x"
  by (simp add: round_down_pow2)

lemma round_to_ge: "x \<le> round_to x (2 ^ k)"
proof -
  have "x + (2 ^ k - 1) < ((x + (2 ^ k - 1)) div 2 ^ k + 1) * 2 ^ k"
    by (metis dividend_less_div_times add.commute distrib_right mult_1 zero_less_numeral zero_less_power)
  then show ?thesis by (simp add: round_to_pow2)
qed

lemma round_to_less: "round_to x (2 ^ k) < x + 2 ^ k"
proof -
  have "(x + (2 ^ k - 1)) div 2 ^ k * 2 ^ k \<le> x + (2 ^ k - 1)"
    by (rule div_times_less_eq_dividend)
  also have "\<dots> < x + 2 ^ k" by simp
  finally show ?thesis by (simp only: round_to_pow2)
qed

lemma round_to_dvd: "2 ^ k dvd round_to x (2 ^ k)"
  by (simp add: round_to_pow2)

lemma round_down_dvd: "2 ^ k dvd round_down x (2 ^ k)"
  by (simp add: round_down_pow2)

text \<open>The least aligned address above \<open>x\<close>: rounding never passes an aligned bound.\<close>

lemma round_to_least:
  assumes "x \<le> b" and "2 ^ k dvd b"
  shows "round_to x (2 ^ k) \<le> b"
proof -
  from assms(2) obtain c where b: "b = c * 2 ^ k" by (auto elim: dvdE)
  have "(x + (2 ^ k - 1)) div 2 ^ k \<le> (c * 2 ^ k + (2 ^ k - 1)) div 2 ^ k"
    using assms(1) b by (simp add: div_le_mono)
  also have "\<dots> = c"
    by (subst div_mult_self3) simp_all
  finally show ?thesis by (simp add: round_to_pow2 b)
qed

lemma round_to_aligned: "2 ^ k dvd x \<Longrightarrow> round_to x (2 ^ k) = x"
  by (simp add: round_to_ge round_to_least order_antisym)

section \<open>Lists\<close>

lemma sorted_wrt_less_distinct: "sorted_wrt (<) (xs :: nat list) \<Longrightarrow> distinct xs"
  by (simp add: strict_sorted_iff)

end
