(* ===== verification/VirtualSpace.thy ===== *)
theory VirtualSpace
  imports HS_Prelude
begin

text \<open>
  \<open>VirtualSpace\<close> (\<open>src/src/share/vm/runtime/virtualspace.cpp\<close>): a reserved address range that
  is committed from its low end, in a lower, a middle and an upper region with their own
  alignments. The answers of \<open>os::commit_memory\<close> and \<open>os::uncommit_memory\<close> are parameters: functions from
  the address and the size of the request to success. What the OS has done for the reservation is part
  of the state: \<open>vs_os\<close> lists the calls it has accepted, the latest first, and an address is committed when
  the latest of them that covers it was a commit.
\<close>

section \<open>The virtual space and its operations\<close>

datatype os_call = OsCommit addr size_t | OsUncommit addr size_t

record virtual_space =
  vs_low_boundary :: addr
  vs_high_boundary :: addr
  vs_low :: addr
  vs_high :: addr
  vs_special :: bool
  vs_executable :: bool
  vs_lower_high :: addr
  vs_middle_high :: addr
  vs_upper_high :: addr
  vs_lower_high_boundary :: addr
  vs_middle_high_boundary :: addr
  vs_upper_high_boundary :: addr
  vs_lower_alignment :: size_t
  vs_middle_alignment :: size_t
  vs_upper_alignment :: size_t
  vs_os :: "os_call list"

record reserved_space =
  rs_base :: addr
  rs_size :: size_t
  rs_special :: bool
  rs_executable :: bool

type_synonym os_mem = "addr \<Rightarrow> size_t \<Rightarrow> bool"

text \<open>A call of the OS: it takes effect when, and only when, the OS accepts it.\<close>

definition os_commit_memory :: "os_mem \<Rightarrow> addr \<Rightarrow> size_t \<Rightarrow> virtual_space \<Rightarrow> virtual_space \<times> bool" where
  "os_commit_memory commit a n vs = (if commit a n then (vs\<lparr>vs_os := OsCommit a n # vs_os vs\<rparr>, True) else (vs, False))"

definition os_uncommit_memory :: "os_mem \<Rightarrow> addr \<Rightarrow> size_t \<Rightarrow> virtual_space \<Rightarrow> virtual_space \<times> bool" where
  "os_uncommit_memory uncommit a n vs = (if uncommit a n then (vs\<lparr>vs_os := OsUncommit a n # vs_os vs\<rparr>, True) else (vs, False))"

fun os_backed :: "os_call list \<Rightarrow> addr \<Rightarrow> bool" where
  "os_backed [] a \<longleftrightarrow> False"
| "os_backed (OsCommit b n # cs) a \<longleftrightarrow> b \<le> a \<and> a < b + n \<or> os_backed cs a"
| "os_backed (OsUncommit b n # cs) a \<longleftrightarrow> \<not> (b \<le> a \<and> a < b + n) \<and> os_backed cs a"

definition vs_release :: virtual_space where
  "vs_release = \<lparr>vs_low_boundary = 0, vs_high_boundary = 0, vs_low = 0, vs_high = 0,
     vs_special = False, vs_executable = False,
     vs_lower_high = 0, vs_middle_high = 0, vs_upper_high = 0,
     vs_lower_high_boundary = 0, vs_middle_high_boundary = 0, vs_upper_high_boundary = 0,
     vs_lower_alignment = 0, vs_middle_alignment = 0, vs_upper_alignment = 0,
     vs_os = []\<rparr>"

definition vs_committed_size :: "virtual_space \<Rightarrow> size_t" where
  "vs_committed_size vs = usub64 (vs_high vs) (vs_low vs)"

definition vs_reserved_size :: "virtual_space \<Rightarrow> size_t" where
  "vs_reserved_size vs = usub64 (vs_high_boundary vs) (vs_low_boundary vs)"

definition vs_uncommitted_size :: "virtual_space \<Rightarrow> size_t" where
  "vs_uncommitted_size vs = usub64 (vs_reserved_size vs) (vs_committed_size vs)"

definition vs_actual_committed_size :: "virtual_space \<Rightarrow> size_t" where
  "vs_actual_committed_size vs =
     (if vs_special vs then vs_reserved_size vs
      else (let committed_low = usub64 (vs_lower_high vs) (vs_low_boundary vs);
                committed_middle = usub64 (vs_middle_high vs) (vs_lower_high_boundary vs);
                committed_high = usub64 (vs_upper_high vs) (vs_middle_high_boundary vs)
            in uadd64 (uadd64 committed_low committed_middle) committed_high))"

definition vs_contains :: "virtual_space \<Rightarrow> addr \<Rightarrow> bool" where
  "vs_contains vs p \<longleftrightarrow> vs_low vs \<le> p \<and> p < vs_high vs"

text \<open>
  \<open>expand_by\<close>: the three regions are committed in order; the first refusal of the OS returns
  with the regions before it already grown, and \<open>_high\<close> moves only at the very end.
\<close>

definition vs_expand_by :: "os_mem \<Rightarrow> virtual_space \<Rightarrow> size_t \<Rightarrow> virtual_space \<times> bool" where
  "vs_expand_by commit vs bytes =
    (if vs_uncommitted_size vs < bytes then (vs, False)
     else if vs_special vs then (vs\<lparr>vs_high := vs_high vs + bytes\<rparr>, True)
     else
      let unaligned_new_high = vs_high vs + bytes;
          unaligned_lower_new_high = min unaligned_new_high (vs_lower_high_boundary vs);
          unaligned_middle_new_high = min unaligned_new_high (vs_middle_high_boundary vs);
          unaligned_upper_new_high = min unaligned_new_high (vs_upper_high_boundary vs);
          aligned_lower_new_high = round_to unaligned_lower_new_high (vs_lower_alignment vs);
          aligned_middle_new_high = round_to unaligned_middle_new_high (vs_middle_alignment vs);
          aligned_upper_new_high = round_to unaligned_upper_new_high (vs_upper_alignment vs);
          lower_needs = (if vs_lower_high vs < aligned_lower_new_high
                         then aligned_lower_new_high - vs_lower_high vs else 0);
          middle_needs = (if vs_middle_high vs < aligned_middle_new_high
                          then aligned_middle_new_high - vs_middle_high vs else 0);
          upper_needs = (if vs_upper_high vs < aligned_upper_new_high
                         then aligned_upper_new_high - vs_upper_high vs else 0)
      in case (if 0 < lower_needs then os_commit_memory commit (vs_lower_high vs) lower_needs vs else (vs, True)) of (vs1, lower_ok) \<Rightarrow>
      if \<not> lower_ok then (vs1, False)
      else let vs1 = vs1\<lparr>vs_lower_high := vs_lower_high vs1 + lower_needs\<rparr>
      in case (if 0 < middle_needs then os_commit_memory commit (vs_middle_high vs1) middle_needs vs1 else (vs1, True)) of (vs2, middle_ok) \<Rightarrow>
      if \<not> middle_ok then (vs2, False)
      else let vs2 = vs2\<lparr>vs_middle_high := vs_middle_high vs2 + middle_needs\<rparr>
      in case (if 0 < upper_needs then os_commit_memory commit (vs_upper_high vs2) upper_needs vs2 else (vs2, True)) of (vs3, upper_ok) \<Rightarrow>
      if \<not> upper_ok then (vs3, False)
      else let vs3 = vs3\<lparr>vs_upper_high := vs_upper_high vs3 + upper_needs\<rparr>
      in (vs3\<lparr>vs_high := vs_high vs3 + bytes\<rparr>, True))"

text \<open>
  \<open>shrink_by\<close>: \<open>None\<close> is the \<open>fatal\<close> error of an oversized request. The regions are
  uncommitted from the top; the first refusal of the OS returns at once.
\<close>

definition vs_shrink_by :: "os_mem \<Rightarrow> virtual_space \<Rightarrow> size_t \<Rightarrow> virtual_space option" where
  "vs_shrink_by uncommit vs sz =
    (if vs_committed_size vs < sz then None
     else if vs_special vs then Some (vs\<lparr>vs_high := vs_high vs - sz\<rparr>)
     else
      let unaligned_new_high = vs_high vs - sz;
          unaligned_upper_new_high = max unaligned_new_high (vs_middle_high_boundary vs);
          unaligned_middle_new_high = max unaligned_new_high (vs_lower_high_boundary vs);
          unaligned_lower_new_high = max unaligned_new_high (vs_low_boundary vs);
          aligned_upper_new_high = round_to unaligned_upper_new_high (vs_upper_alignment vs);
          aligned_middle_new_high = round_to unaligned_middle_new_high (vs_middle_alignment vs);
          aligned_lower_new_high = round_to unaligned_lower_new_high (vs_lower_alignment vs);
          upper_needs = (if aligned_upper_new_high < vs_upper_high vs
                         then vs_upper_high vs - aligned_upper_new_high else 0);
          middle_needs = (if aligned_middle_new_high < vs_middle_high vs
                          then vs_middle_high vs - aligned_middle_new_high else 0);
          lower_needs = (if aligned_lower_new_high < vs_lower_high vs
                         then vs_lower_high vs - aligned_lower_new_high else 0)
      in case (if 0 < upper_needs then os_uncommit_memory uncommit aligned_upper_new_high upper_needs vs else (vs, True)) of (vs1, upper_ok) \<Rightarrow>
      if \<not> upper_ok then Some vs1
      else let vs1 = vs1\<lparr>vs_upper_high := vs_upper_high vs1 - upper_needs\<rparr>
      in case (if 0 < middle_needs then os_uncommit_memory uncommit aligned_middle_new_high middle_needs vs1 else (vs1, True)) of (vs2, middle_ok) \<Rightarrow>
      if \<not> middle_ok then Some vs2
      else let vs2 = vs2\<lparr>vs_middle_high := vs_middle_high vs2 - middle_needs\<rparr>
      in case (if 0 < lower_needs then os_uncommit_memory uncommit aligned_lower_new_high lower_needs vs2 else (vs2, True)) of (vs3, lower_ok) \<Rightarrow>
      if \<not> lower_ok then Some vs3
      else let vs3 = vs3\<lparr>vs_lower_high := vs_lower_high vs3 - lower_needs\<rparr>
      in Some (vs3\<lparr>vs_high := vs_high vs3 - sz\<rparr>))"

text \<open>The memory of a special reservation is committed by the OS when it is reserved.\<close>

definition vs_initialize_with_granularity ::
    "os_mem \<Rightarrow> size_t \<Rightarrow> reserved_space option \<Rightarrow> size_t \<Rightarrow> size_t \<Rightarrow> virtual_space \<times> bool" where
  "vs_initialize_with_granularity commit page rs committed_size max_commit_granularity =
    (case rs of
       None \<Rightarrow> (vs_release, False)
     | Some r \<Rightarrow>
        let low_b = rs_base r;
            high_b = rs_base r + rs_size r;
            lower_hb = round_to low_b max_commit_granularity;
            middle_hb = round_down high_b max_commit_granularity;
            vs = \<lparr>vs_low_boundary = low_b, vs_high_boundary = high_b,
                  vs_low = low_b, vs_high = low_b,
                  vs_special = rs_special r, vs_executable = rs_executable r,
                  vs_lower_high = low_b, vs_middle_high = lower_hb, vs_upper_high = middle_hb,
                  vs_lower_high_boundary = lower_hb, vs_middle_high_boundary = middle_hb,
                  vs_upper_high_boundary = high_b,
                  vs_lower_alignment = page, vs_middle_alignment = max_commit_granularity,
                  vs_upper_alignment = page,
                  vs_os = (if rs_special r then [OsCommit low_b (rs_size r)] else [])\<rparr>
        in if 0 < committed_size then vs_expand_by commit vs committed_size else (vs, True))"

text \<open>\<open>initialize\<close> asks the OS (\<open>page_size_for_region_unaligned\<close>) for the commit granularity.\<close>

definition vs_initialize ::
    "os_mem \<Rightarrow> size_t \<Rightarrow> (size_t \<Rightarrow> nat \<Rightarrow> size_t) \<Rightarrow> reserved_space option \<Rightarrow> size_t \<Rightarrow> virtual_space \<times> bool" where
  "vs_initialize commit page region_page rs committed_size =
     vs_initialize_with_granularity commit page rs committed_size
       (region_page (case rs of None \<Rightarrow> 0 | Some r \<Rightarrow> rs_size r) 1)"

lemmas vs_size_defs =
  vs_committed_size_def vs_reserved_size_def vs_uncommitted_size_def

section \<open>The invariant\<close>

text \<open>
  \<open>vs_layout\<close>: the boundaries, the alignments, and each region's high-water mark inside its
  region (the contiguity assertions of \<open>expand_by\<close>, \<open>shrink_by\<close> and \<open>check_for_contiguity\<close>).
  \<open>vs_backed\<close>: every byte below \<open>_high\<close> lies below its region's high-water mark.
  \<open>vs_synced\<close>: the marks tell the truth about the OS: the addresses below them, and no others, are committed.
\<close>

definition power_of_2 :: "nat \<Rightarrow> bool" where
  "power_of_2 n \<longleftrightarrow> (\<exists>k. n = 2 ^ k)"

definition vs_boundaries :: "virtual_space \<Rightarrow> bool" where
  "vs_boundaries vs \<longleftrightarrow>
     power_of_2 (vs_lower_alignment vs) \<and> power_of_2 (vs_middle_alignment vs) \<and>
     vs_upper_alignment vs = vs_lower_alignment vs \<and>
     vs_lower_alignment vs dvd vs_middle_alignment vs \<and>
     vs_lower_alignment vs dvd vs_low_boundary vs \<and>
     vs_lower_alignment vs dvd vs_high_boundary vs \<and>
     vs_middle_alignment vs dvd vs_lower_high_boundary vs \<and>
     vs_middle_alignment vs dvd vs_middle_high_boundary vs \<and>
     vs_low vs = vs_low_boundary vs \<and>
     vs_low_boundary vs \<le> vs_lower_high_boundary vs \<and>
     vs_lower_high_boundary vs \<le> vs_middle_high_boundary vs \<and>
     vs_middle_high_boundary vs \<le> vs_upper_high_boundary vs \<and>
     vs_upper_high_boundary vs = vs_high_boundary vs \<and>
     vs_high_boundary vs < size_max"

definition vs_layout :: "virtual_space \<Rightarrow> bool" where
  "vs_layout vs \<longleftrightarrow> vs_boundaries vs \<and>
     vs_low vs \<le> vs_high vs \<and> vs_high vs \<le> vs_high_boundary vs \<and>
     vs_low_boundary vs \<le> vs_lower_high vs \<and> vs_lower_high vs \<le> vs_lower_high_boundary vs \<and>
     vs_lower_high_boundary vs \<le> vs_middle_high vs \<and> vs_middle_high vs \<le> vs_middle_high_boundary vs \<and>
     vs_middle_high_boundary vs \<le> vs_upper_high vs \<and> vs_upper_high vs \<le> vs_upper_high_boundary vs"

definition region_covers :: "addr \<Rightarrow> addr \<Rightarrow> addr \<Rightarrow> bool" where
  "region_covers high mark boundary \<longleftrightarrow> high \<le> mark \<or> mark = boundary"

definition vs_backed :: "virtual_space \<Rightarrow> bool" where
  "vs_backed vs \<longleftrightarrow> vs_special vs \<or>
     (region_covers (vs_high vs) (vs_lower_high vs) (vs_lower_high_boundary vs) \<and>
      region_covers (vs_high vs) (vs_middle_high vs) (vs_middle_high_boundary vs) \<and>
      region_covers (vs_high vs) (vs_upper_high vs) (vs_upper_high_boundary vs))"

definition marked :: "virtual_space \<Rightarrow> addr \<Rightarrow> addr \<Rightarrow> addr \<Rightarrow> addr \<Rightarrow> bool" where
  "marked vs l m u a \<longleftrightarrow>
     (if vs_special vs then vs_low_boundary vs \<le> a \<and> a < vs_high_boundary vs
      else vs_low_boundary vs \<le> a \<and> a < l \<or> vs_lower_high_boundary vs \<le> a \<and> a < m \<or>
           vs_middle_high_boundary vs \<le> a \<and> a < u)"

text \<open>An address the OS has committed to the space.\<close>

definition vs_os_committed :: "virtual_space \<Rightarrow> addr \<Rightarrow> bool" where
  "vs_os_committed vs a \<longleftrightarrow> os_backed (vs_os vs) a"

definition vs_synced :: "virtual_space \<Rightarrow> bool" where
  "vs_synced vs \<longleftrightarrow> (\<forall>a. vs_os_committed vs a \<longleftrightarrow> marked vs (vs_lower_high vs) (vs_middle_high vs) (vs_upper_high vs) a)"

definition vs_inv :: "virtual_space \<Rightarrow> bool" where
  "vs_inv vs \<longleftrightarrow> vs_layout vs \<and> vs_backed vs \<and> vs_synced vs"

lemma vs_inv_backed:
  assumes "vs_inv vs" and "vs_contains vs a"
  shows "vs_os_committed vs a"
proof -
  have "marked vs (vs_lower_high vs) (vs_middle_high vs) (vs_upper_high vs) a"
    using assms by (auto simp: vs_inv_def vs_backed_def vs_layout_def vs_boundaries_def vs_contains_def marked_def region_covers_def)
  then show ?thesis using assms(1) by (simp add: vs_inv_def vs_synced_def)
qed

lemma vs_sizes:
  assumes "vs_layout vs"
  shows "vs_committed_size vs = vs_high vs - vs_low vs"
    and "vs_reserved_size vs = vs_high_boundary vs - vs_low vs"
    and "vs_uncommitted_size vs = vs_high_boundary vs - vs_high vs"
  using assms by (auto simp: vs_layout_def vs_boundaries_def vs_size_defs usub64_le)

section \<open>Growing and shrinking a region\<close>

lemmas vs_inv_defs = vs_inv_def vs_layout_def vs_boundaries_def vs_backed_def

lemma region_mark_ge:
  assumes "power_of_2 al"
  shows "x \<le> round_to x al"
  using assms by (auto simp: power_of_2_def round_to_ge)

lemma region_mark_le:
  assumes "power_of_2 al" and "al dvd hb" and "x \<le> hb"
  shows "round_to x al \<le> hb"
  using assms by (auto simp: power_of_2_def round_to_least)

text \<open>A region grown to the rounded request stays inside its boundary and covers the request.\<close>

lemma region_grown_covers:
  assumes "power_of_2 al" and "al dvd hb" and "m \<le> hb"
  shows "region_covers n (max m (round_to (min n hb) al)) hb"
proof (cases "n \<le> hb")
  case True
  then show ?thesis
    using region_mark_ge [OF assms(1), of n] by (simp add: region_covers_def max_def)
next
  case False
  then have "min n hb = hb" by simp
  then show ?thesis
    using region_mark_ge [OF assms(1), of hb] region_mark_le [OF assms(1,2), of hb] assms(3)
    by (simp add: region_covers_def max_def)
qed

lemma region_grown_le:
  assumes "power_of_2 al" and "al dvd hb" and "m \<le> hb"
  shows "max m (round_to (min n hb) al) \<le> hb"
  using region_mark_le [OF assms(1,2), of "min n hb"] assms(3) by simp

lemma region_covers_mono: "region_covers h m b \<Longrightarrow> m \<le> m' \<Longrightarrow> m' \<le> b \<Longrightarrow> region_covers h m' b"
  by (auto simp: region_covers_def)

lemma grow_mark: "h + (if h < a then a - h else 0) = max h (a :: nat)"
  by simp

text \<open>A special space only moves its end.\<close>

lemma vs_inv_set_high:
  assumes "vs_inv vs" and "vs_special vs" and "vs_low vs \<le> h" and "h \<le> vs_high_boundary vs"
  shows "vs_inv (vs\<lparr>vs_high := h\<rparr>)"
  using assms by (simp add: vs_inv_defs vs_synced_def vs_os_committed_def marked_def)

lemma marked_grown:
  assumes "vs_layout vs" and "\<not> vs_special vs"
    and "vs_lower_high vs \<le> l" and "vs_middle_high vs \<le> m" and "vs_upper_high vs \<le> u"
  shows "marked vs l m u a \<longleftrightarrow>
    marked vs (vs_lower_high vs) (vs_middle_high vs) (vs_upper_high vs) a \<or>
    vs_lower_high vs \<le> a \<and> a < l \<or> vs_middle_high vs \<le> a \<and> a < m \<or> vs_upper_high vs \<le> a \<and> a < u"
  using assms by (auto simp: marked_def vs_layout_def)

text \<open>The log after a call that is made only when there is something to do.\<close>

definition os_logged :: "addr \<Rightarrow> size_t \<Rightarrow> os_call list \<Rightarrow> os_call list" where
  "os_logged a n os = (if 0 < n then OsCommit a n # os else os)"

definition os_unlogged :: "addr \<Rightarrow> size_t \<Rightarrow> os_call list \<Rightarrow> os_call list" where
  "os_unlogged a n os = (if 0 < n then OsUncommit a n # os else os)"

lemma os_backed_logged [simp]: "os_backed (os_logged b n os) a \<longleftrightarrow> b \<le> a \<and> a < b + n \<or> os_backed os a"
  by (auto simp: os_logged_def)

lemma os_backed_unlogged [simp]: "os_backed (os_unlogged b n os) a \<longleftrightarrow> \<not> (b \<le> a \<and> a < b + n) \<and> os_backed os a"
  by (auto simp: os_unlogged_def)

lemma vs_inv_update:
  assumes "vs_boundaries vs" and "vs_low vs \<le> h" and "h \<le> vs_high_boundary vs"
    and "vs_low_boundary vs \<le> l" and "l \<le> vs_lower_high_boundary vs"
    and "vs_lower_high_boundary vs \<le> m" and "m \<le> vs_middle_high_boundary vs"
    and "vs_middle_high_boundary vs \<le> u" and "u \<le> vs_upper_high_boundary vs"
    and "region_covers h l (vs_lower_high_boundary vs)"
    and "region_covers h m (vs_middle_high_boundary vs)"
    and "region_covers h u (vs_upper_high_boundary vs)"
    and "\<And>a. os_backed os a \<longleftrightarrow> marked vs l m u a"
  shows "vs_inv (vs\<lparr>vs_lower_high := l, vs_middle_high := m, vs_upper_high := u, vs_high := h, vs_os := os\<rparr>)"
  using assms by (simp add: vs_inv_defs vs_synced_def vs_os_committed_def marked_def)

text \<open>The marks an expansion to \<open>n\<close> aims at.\<close>

definition lower_target :: "virtual_space \<Rightarrow> addr \<Rightarrow> addr" where
  "lower_target vs n = max (vs_lower_high vs)
     (round_to (min n (vs_lower_high_boundary vs)) (vs_lower_alignment vs))"

definition middle_target :: "virtual_space \<Rightarrow> addr \<Rightarrow> addr" where
  "middle_target vs n = max (vs_middle_high vs)
     (round_to (min n (vs_middle_high_boundary vs)) (vs_middle_alignment vs))"

definition upper_target :: "virtual_space \<Rightarrow> addr \<Rightarrow> addr" where
  "upper_target vs n = max (vs_upper_high vs)
     (round_to (min n (vs_upper_high_boundary vs)) (vs_upper_alignment vs))"

lemma grow_need: "(if h < a then a - h else 0) = max h a - (h :: nat)"
  by simp

text \<open>The four outcomes of an expansion that is not refused at once.\<close>

lemma vs_expand_by_eq:
  assumes "\<not> vs_uncommitted_size vs < bytes" and "\<not> vs_special vs"
  shows "vs_expand_by commit vs bytes =
    (let n = vs_high vs + bytes; l = lower_target vs n; m = middle_target vs n; u = upper_target vs n;
         os1 = os_logged (vs_lower_high vs) (l - vs_lower_high vs) (vs_os vs);
         os2 = os_logged (vs_middle_high vs) (m - vs_middle_high vs) os1;
         os3 = os_logged (vs_upper_high vs) (u - vs_upper_high vs) os2
     in if 0 < l - vs_lower_high vs \<and> \<not> commit (vs_lower_high vs) (l - vs_lower_high vs) then (vs, False)
     else if 0 < m - vs_middle_high vs \<and> \<not> commit (vs_middle_high vs) (m - vs_middle_high vs)
     then (vs\<lparr>vs_lower_high := l, vs_os := os1\<rparr>, False)
     else if 0 < u - vs_upper_high vs \<and> \<not> commit (vs_upper_high vs) (u - vs_upper_high vs)
     then (vs\<lparr>vs_lower_high := l, vs_middle_high := m, vs_os := os2\<rparr>, False)
     else (vs\<lparr>vs_lower_high := l, vs_middle_high := m, vs_upper_high := u, vs_high := n, vs_os := os3\<rparr>, True))"
proof -
  define l m u where "l = lower_target vs (vs_high vs + bytes)" and "m = middle_target vs (vs_high vs + bytes)"
    and "u = upper_target vs (vs_high vs + bytes)"
  have le: "vs_lower_high vs \<le> l" "vs_middle_high vs \<le> m" "vs_upper_high vs \<le> u"
    by (simp_all add: l_def m_def u_def lower_target_def middle_target_def upper_target_def)
  show ?thesis
    using assms le
    unfolding vs_expand_by_def Let_def grow_need lower_target_def [symmetric] middle_target_def [symmetric]
      upper_target_def [symmetric] l_def [symmetric] m_def [symmetric] u_def [symmetric]
    by (cases "vs_lower_high vs = l"; cases "vs_middle_high vs = m"; cases "vs_upper_high vs = u")
      (simp_all add: os_commit_memory_def os_logged_def virtual_space.equality)
qed

lemma targets:
  assumes "vs_layout vs"
  shows "vs_lower_high vs \<le> lower_target vs n" "lower_target vs n \<le> vs_lower_high_boundary vs"
    "vs_middle_high vs \<le> middle_target vs n" "middle_target vs n \<le> vs_middle_high_boundary vs"
    "vs_upper_high vs \<le> upper_target vs n" "upper_target vs n \<le> vs_upper_high_boundary vs"
    "region_covers n (lower_target vs n) (vs_lower_high_boundary vs)"
    "region_covers n (middle_target vs n) (vs_middle_high_boundary vs)"
    "region_covers n (upper_target vs n) (vs_upper_high_boundary vs)"
  using assms
  by (auto simp: vs_layout_def vs_boundaries_def lower_target_def middle_target_def upper_target_def
      intro!: region_grown_covers region_grown_le intro: dvd_trans simp del: max.bounded_iff)

lemma vs_expand_by_inv:
  assumes inv: "vs_inv vs"
  shows "vs_inv (fst (vs_expand_by commit vs bytes))"
proof (cases "vs_uncommitted_size vs < bytes \<or> vs_special vs")
  case True
  show ?thesis
  proof (cases "vs_uncommitted_size vs < bytes")
    case True
    with inv show ?thesis by (simp add: vs_expand_by_def)
  next
    case False
    with True have sp: "vs_special vs" by simp
    from inv have lay: "vs_layout vs" by (simp add: vs_inv_def)
    with False have "vs_high vs + bytes \<le> vs_high_boundary vs"
      by (auto simp: vs_sizes(3) vs_layout_def)
    moreover have "vs_low vs \<le> vs_high vs + bytes" using lay by (simp add: vs_layout_def)
    ultimately show ?thesis using sp False inv by (simp add: vs_expand_by_def vs_inv_set_high)
  qed
next
  case False
  from inv have lay: "vs_layout vs" and bnd: "vs_boundaries vs"
    by (simp_all add: vs_inv_def vs_layout_def)
  have n: "vs_high vs + bytes \<le> vs_high_boundary vs"
    using False lay by (auto simp: vs_sizes(3) vs_layout_def)
  note T = targets [OF lay, of "vs_high vs + bytes"]
  have L: "vs_low vs \<le> vs_high vs" "vs_high vs \<le> vs_high_boundary vs"
    "vs_low_boundary vs \<le> vs_lower_high vs" "vs_lower_high vs \<le> vs_lower_high_boundary vs"
    "vs_lower_high_boundary vs \<le> vs_middle_high vs" "vs_middle_high vs \<le> vs_middle_high_boundary vs"
    "vs_middle_high_boundary vs \<le> vs_upper_high vs" "vs_upper_high vs \<le> vs_upper_high_boundary vs"
    using lay by (simp_all add: vs_layout_def)
  have K: "region_covers (vs_high vs) (vs_lower_high vs) (vs_lower_high_boundary vs)"
    "region_covers (vs_high vs) (vs_middle_high vs) (vs_middle_high_boundary vs)"
    "region_covers (vs_high vs) (vs_upper_high vs) (vs_upper_high_boundary vs)"
    using False inv by (simp_all add: vs_inv_def vs_backed_def)
  define l where "l = lower_target vs (vs_high vs + bytes)"
  define m where "m = middle_target vs (vs_high vs + bytes)"
  define u where "u = upper_target vs (vs_high vs + bytes)"
  note T = T [folded l_def m_def u_def]
  note K' = K(1) [THEN region_covers_mono, OF T(1,2)] K(2) [THEN region_covers_mono, OF T(3,4)]
  have lo: "vs_low_boundary vs \<le> l" "vs_lower_high_boundary vs \<le> m" "vs_middle_high_boundary vs \<le> u"
    using L T by linarith+
  have S: "os_backed (vs_os vs) a \<longleftrightarrow> marked vs (vs_lower_high vs) (vs_middle_high vs) (vs_upper_high vs) a" for a
    using inv by (simp add: vs_inv_def vs_synced_def vs_os_committed_def)
  define os1 where "os1 = os_logged (vs_lower_high vs) (l - vs_lower_high vs) (vs_os vs)"
  define os2 where "os2 = os_logged (vs_middle_high vs) (m - vs_middle_high vs) os1"
  define os3 where "os3 = os_logged (vs_upper_high vs) (u - vs_upper_high vs) os2"
  note M = marked_grown [OF lay]
  have S1: "os_backed os1 a \<longleftrightarrow> marked vs l (vs_middle_high vs) (vs_upper_high vs) a" for a
    using False T(1) by (auto simp: os1_def S M [of l "vs_middle_high vs" "vs_upper_high vs"])
  have S2: "os_backed os2 a \<longleftrightarrow> marked vs l m (vs_upper_high vs) a" for a
    using False T(1,3) by (auto simp: os1_def os2_def S M [of l m "vs_upper_high vs"])
  have S3: "os_backed os3 a \<longleftrightarrow> marked vs l m u a" for a
    using False T(1,3,5) by (auto simp: os1_def os2_def os3_def S M [of l m u])
  note upd = vs_inv_update [OF bnd]
  have 1: "vs_inv (vs\<lparr>vs_lower_high := l, vs_os := os1\<rparr>)"
    using upd [OF L(1,2) lo(1) T(2) L(5,6,7,8) K'(1) K(2,3) S1] by simp
  have 2: "vs_inv (vs\<lparr>vs_lower_high := l, vs_middle_high := m, vs_os := os2\<rparr>)"
    using upd [OF L(1,2) lo(1) T(2) lo(2) T(4) L(7,8) K' K(3) S2] by simp
  have 3: "vs_inv (vs\<lparr>vs_lower_high := l, vs_middle_high := m, vs_upper_high := u,
      vs_high := vs_high vs + bytes, vs_os := os3\<rparr>)"
    using upd [OF _ n lo(1) T(2) lo(2) T(4) lo(3) T(6,7,8,9) S3] L(1) by simp
  from False show ?thesis
    using inv 1 2 3 by (simp add: vs_expand_by_eq Let_def l_def m_def u_def os1_def os2_def os3_def)
qed

lemma vs_expand_by_frame:
  "vs_low (fst (vs_expand_by commit vs bytes)) = vs_low vs"
  "vs_low_boundary (fst (vs_expand_by commit vs bytes)) = vs_low_boundary vs"
  "vs_high_boundary (fst (vs_expand_by commit vs bytes)) = vs_high_boundary vs"
proof -
  have *: "vs_uncommitted_size vs < bytes \<or> vs_special vs \<or> \<not> vs_uncommitted_size vs < bytes \<and> \<not> vs_special vs"
    by blast
  show "vs_low (fst (vs_expand_by commit vs bytes)) = vs_low vs"
    "vs_low_boundary (fst (vs_expand_by commit vs bytes)) = vs_low_boundary vs"
    "vs_high_boundary (fst (vs_expand_by commit vs bytes)) = vs_high_boundary vs"
    using * by (auto simp: vs_expand_by_eq Let_def) (auto simp: vs_expand_by_def)
qed

lemma vs_expand_by_high:
  "vs_high (fst (vs_expand_by commit vs bytes)) =
     vs_high vs + (if snd (vs_expand_by commit vs bytes) then bytes else 0)"
proof (cases "vs_uncommitted_size vs < bytes \<or> vs_special vs")
  case True
  then show ?thesis by (auto simp: vs_expand_by_def)
next
  case False
  then show ?thesis by (simp add: vs_expand_by_eq Let_def)
qed

lemma vs_expand_by_refuses:
  "vs_uncommitted_size vs < bytes \<Longrightarrow> vs_expand_by commit vs bytes = (vs, False)"
  by (simp add: vs_expand_by_def)

lemma vs_expand_by_succeeds:
  assumes "bytes \<le> vs_uncommitted_size vs" and "\<And>a n. commit a n"
  shows "snd (vs_expand_by commit vs bytes)"
  using assms by (simp add: vs_expand_by_def Let_def os_commit_memory_def)

text \<open>
  \<open>os_grants\<close>: the OS refuses no commit inside the reservation. An expansion then fails only for lack
  of room.
\<close>

definition os_grants :: "os_mem \<Rightarrow> virtual_space \<Rightarrow> bool" where
  "os_grants commit vs \<longleftrightarrow> (\<forall>a n. vs_low_boundary vs \<le> a \<and> a + n \<le> vs_high_boundary vs \<longrightarrow> commit a n)"

lemma vs_expand_by_granted:
  assumes lay: "vs_layout vs" and room: "bytes \<le> vs_uncommitted_size vs" and os: "os_grants commit vs"
  shows "snd (vs_expand_by commit vs bytes)"
proof (cases "vs_special vs")
  case True
  then show ?thesis using room by (simp add: vs_expand_by_def)
next
  case False
  define n where "n = vs_high vs + bytes"
  note T = targets(1-6) [OF lay, of n]
  have g: "commit a (b - a)" if "vs_low_boundary vs \<le> a" "a \<le> b" "b \<le> vs_high_boundary vs" for a b
    using os that by (simp add: os_grants_def)
  have "commit (vs_lower_high vs) (lower_target vs n - vs_lower_high vs)"
    "commit (vs_middle_high vs) (middle_target vs n - vs_middle_high vs)"
    "commit (vs_upper_high vs) (upper_target vs n - vs_upper_high vs)"
    using T lay by (auto intro!: g simp: vs_layout_def vs_boundaries_def)
  then show ?thesis using room False by (simp add: vs_expand_by_eq Let_def flip: n_def)
qed

text \<open>Shrinking: each mark is cut down to the rounded new end, never below it.\<close>

lemma shrink_mark: "m - (if a < m then m - a else 0) = min m (a :: nat)"
  by simp

lemma region_trimmed_covers:
  assumes "region_covers h m b" and "n \<le> h" and "n \<le> a"
  shows "region_covers n (min m a) b"
  using assms by (auto simp: region_covers_def min_def)

definition lower_trim :: "virtual_space \<Rightarrow> addr \<Rightarrow> addr" where
  "lower_trim vs n = min (vs_lower_high vs)
     (round_to (max n (vs_low_boundary vs)) (vs_lower_alignment vs))"

definition middle_trim :: "virtual_space \<Rightarrow> addr \<Rightarrow> addr" where
  "middle_trim vs n = min (vs_middle_high vs)
     (round_to (max n (vs_lower_high_boundary vs)) (vs_middle_alignment vs))"

definition upper_trim :: "virtual_space \<Rightarrow> addr \<Rightarrow> addr" where
  "upper_trim vs n = min (vs_upper_high vs)
     (round_to (max n (vs_middle_high_boundary vs)) (vs_upper_alignment vs))"

lemma vs_shrink_by_all:
  assumes "\<not> vs_committed_size vs < bytes" and "\<not> vs_special vs" and "\<And>a n. uncommit a n"
  shows "vs_shrink_by uncommit vs bytes =
    (let n = vs_high vs - bytes
     in Some (vs\<lparr>vs_lower_high := lower_trim vs n, vs_middle_high := middle_trim vs n,
                vs_upper_high := upper_trim vs n, vs_high := n,
                vs_os := os_unlogged (lower_trim vs n) (vs_lower_high vs - lower_trim vs n)
                  (os_unlogged (middle_trim vs n) (vs_middle_high vs - middle_trim vs n)
                    (os_unlogged (upper_trim vs n) (vs_upper_high vs - upper_trim vs n) (vs_os vs)))\<rparr>))"
proof -
  define al where "al = round_to (max (vs_high vs - bytes) (vs_low_boundary vs)) (vs_lower_alignment vs)"
  define am where "am = round_to (max (vs_high vs - bytes) (vs_lower_high_boundary vs)) (vs_middle_alignment vs)"
  define au where "au = round_to (max (vs_high vs - bytes) (vs_middle_high_boundary vs)) (vs_upper_alignment vs)"
  show ?thesis
    using assms unfolding vs_shrink_by_def lower_trim_def middle_trim_def upper_trim_def Let_def
      al_def [symmetric] am_def [symmetric] au_def [symmetric]
    by (cases "al < vs_lower_high vs"; cases "am < vs_middle_high vs"; cases "au < vs_upper_high vs")
      (simp_all add: os_uncommit_memory_def os_unlogged_def min_def virtual_space.equality)
qed

lemma trims:
  assumes "vs_layout vs" and "vs_backed vs" and "\<not> vs_special vs" and "n \<le> vs_high vs"
  shows "vs_low_boundary vs \<le> lower_trim vs n" "lower_trim vs n \<le> vs_lower_high_boundary vs"
    "vs_lower_high_boundary vs \<le> middle_trim vs n" "middle_trim vs n \<le> vs_middle_high_boundary vs"
    "vs_middle_high_boundary vs \<le> upper_trim vs n" "upper_trim vs n \<le> vs_upper_high_boundary vs"
    "region_covers n (lower_trim vs n) (vs_lower_high_boundary vs)"
    "region_covers n (middle_trim vs n) (vs_middle_high_boundary vs)"
    "region_covers n (upper_trim vs n) (vs_upper_high_boundary vs)"
proof -
  have al: "power_of_2 (vs_lower_alignment vs)" "power_of_2 (vs_middle_alignment vs)"
    "power_of_2 (vs_upper_alignment vs)"
    using assms(1) by (simp_all add: vs_layout_def vs_boundaries_def)
  note ge = region_mark_ge [OF al(1), of "max n (vs_low_boundary vs)"]
    region_mark_ge [OF al(2), of "max n (vs_lower_high_boundary vs)"]
    region_mark_ge [OF al(3), of "max n (vs_middle_high_boundary vs)"]
  show "vs_low_boundary vs \<le> lower_trim vs n" "lower_trim vs n \<le> vs_lower_high_boundary vs"
    "vs_lower_high_boundary vs \<le> middle_trim vs n" "middle_trim vs n \<le> vs_middle_high_boundary vs"
    "vs_middle_high_boundary vs \<le> upper_trim vs n" "upper_trim vs n \<le> vs_upper_high_boundary vs"
    using assms(1) ge
    by (simp_all add: vs_layout_def lower_trim_def middle_trim_def upper_trim_def min.coboundedI1)
  show "region_covers n (lower_trim vs n) (vs_lower_high_boundary vs)"
    "region_covers n (middle_trim vs n) (vs_middle_high_boundary vs)"
    "region_covers n (upper_trim vs n) (vs_upper_high_boundary vs)"
    unfolding lower_trim_def middle_trim_def upper_trim_def
    using assms(2-4) ge
    by (simp_all add: vs_backed_def region_trimmed_covers [where h = "vs_high vs"])
qed

lemma trim_le:
  "lower_trim vs n \<le> vs_lower_high vs" "middle_trim vs n \<le> vs_middle_high vs" "upper_trim vs n \<le> vs_upper_high vs"
  by (simp_all add: lower_trim_def middle_trim_def upper_trim_def)

lemma trim_sub:
  "lower_trim vs n + (vs_lower_high vs - lower_trim vs n) = vs_lower_high vs"
  "middle_trim vs n + (vs_middle_high vs - middle_trim vs n) = vs_middle_high vs"
  "upper_trim vs n + (vs_upper_high vs - upper_trim vs n) = vs_upper_high vs"
  by (simp_all add: trim_le)

lemma marked_trimmed:
  assumes "vs_layout vs" and "\<not> vs_special vs"
    and "vs_low_boundary vs \<le> l" "l \<le> vs_lower_high vs" "vs_lower_high_boundary vs \<le> m" "m \<le> vs_middle_high vs"
    and "vs_middle_high_boundary vs \<le> u" "u \<le> vs_upper_high vs"
  shows "marked vs l m u a \<longleftrightarrow>
    \<not> (l \<le> a \<and> a < vs_lower_high vs) \<and> \<not> (m \<le> a \<and> a < vs_middle_high vs) \<and> \<not> (u \<le> a \<and> a < vs_upper_high vs) \<and>
    marked vs (vs_lower_high vs) (vs_middle_high vs) (vs_upper_high vs) a"
  using assms by (auto simp: marked_def vs_layout_def)

lemma vs_shrink_by_inv:
  assumes inv: "vs_inv vs" and ok: "\<And>a n. uncommit a n"
    and ret: "vs_shrink_by uncommit vs bytes = Some vs'"
  shows "vs_inv vs'"
proof -
  from inv have lay: "vs_layout vs" and bnd: "vs_boundaries vs" and bk: "vs_backed vs"
    by (simp_all add: vs_inv_def vs_layout_def)
  from ret have le: "\<not> vs_committed_size vs < bytes"
    by (auto simp: vs_shrink_by_def split: if_splits)
  then have n: "vs_low vs \<le> vs_high vs - bytes" "vs_high vs - bytes \<le> vs_high_boundary vs"
    using lay by (auto simp: vs_sizes(1) vs_layout_def)
  show ?thesis
  proof (cases "vs_special vs")
    case True
    with ret le have "vs' = vs\<lparr>vs_high := vs_high vs - bytes\<rparr>"
      by (simp add: vs_shrink_by_def)
    with True inv n show ?thesis by (simp add: vs_inv_set_high)
  next
    case False
    note T = trims [OF lay bk False, of "vs_high vs - bytes"]
    have S: "os_backed (vs_os vs) a \<longleftrightarrow> marked vs (vs_lower_high vs) (vs_middle_high vs) (vs_upper_high vs) a" for a
      using inv by (simp add: vs_inv_def vs_synced_def vs_os_committed_def)
    note M = marked_trimmed [OF lay False, of "lower_trim vs (vs_high vs - bytes)"
        "middle_trim vs (vs_high vs - bytes)" "upper_trim vs (vs_high vs - bytes)"]
    show ?thesis
      using ret ok
      by (auto simp: vs_shrink_by_all [OF le False] Let_def S M T trim_le trim_sub
          intro!: vs_inv_update [OF bnd n, OF T(1-9)])
  qed
qed

lemma vs_initialize_inv:
  assumes page: "page = 2 ^ p" and gran: "gran = 2 ^ g" and "p \<le> g"
    and base: "page dvd rs_base r" and sz: "page dvd rs_size r"
    and fits: "rs_base r + rs_size r < size_max"
    and large: "round_to (rs_base r) gran \<le> round_down (rs_base r + rs_size r) gran"
  shows "vs_inv (fst (vs_initialize_with_granularity commit page (Some r) n gran))"
proof -
  define vs where "vs = \<lparr>vs_low_boundary = rs_base r, vs_high_boundary = rs_base r + rs_size r,
    vs_low = rs_base r, vs_high = rs_base r, vs_special = rs_special r, vs_executable = rs_executable r,
    vs_lower_high = rs_base r, vs_middle_high = round_to (rs_base r) gran,
    vs_upper_high = round_down (rs_base r + rs_size r) gran,
    vs_lower_high_boundary = round_to (rs_base r) gran,
    vs_middle_high_boundary = round_down (rs_base r + rs_size r) gran,
    vs_upper_high_boundary = rs_base r + rs_size r,
    vs_lower_alignment = page, vs_middle_alignment = gran, vs_upper_alignment = page,
    vs_os = (if rs_special r then [OsCommit (rs_base r) (rs_size r)] else [])\<rparr>"
  have "page dvd gran" using assms by (simp add: le_imp_power_dvd)
  moreover have "rs_base r \<le> round_to (rs_base r) gran" by (simp add: gran round_to_ge)
  moreover have "round_down (rs_base r + rs_size r) gran \<le> rs_base r + rs_size r"
    by (simp add: gran round_down_le)
  moreover have "vs_synced vs"
    by (auto simp: vs_def vs_synced_def vs_os_committed_def marked_def)
  ultimately have "vs_inv vs"
    using assms
    by (auto simp: vs_def vs_inv_defs region_covers_def power_of_2_def round_to_dvd round_down_dvd)
  then show ?thesis
    using vs_expand_by_inv [of vs commit n]
    by (simp add: vs_initialize_with_granularity_def Let_def vs_def [symmetric])
qed

section \<open>What the OS keeps when a space shrinks\<close>

lemma marked_region:
  assumes "vs_layout vs" and "\<not> vs_special vs"
    and "l \<le> vs_lower_high_boundary vs" and "m \<le> vs_middle_high_boundary vs"
  shows "marked vs l m u a \<longleftrightarrow> vs_low_boundary vs \<le> a \<and>
    (if a < vs_lower_high_boundary vs then a < l else if a < vs_middle_high_boundary vs then a < m else a < u)"
  using assms by (auto simp: marked_def vs_layout_def vs_boundaries_def)

text \<open>
  The end of the memory that stays committed when the space is cut down to \<open>n\<close>: the new end rounded
  up to the alignment of the region that \<open>a\<close> lies in.
\<close>

definition kept_end :: "virtual_space \<Rightarrow> addr \<Rightarrow> addr \<Rightarrow> addr" where
  "kept_end vs n a =
     (if a < vs_lower_high_boundary vs then round_to (max n (vs_low_boundary vs)) (vs_lower_alignment vs)
      else if a < vs_middle_high_boundary vs then round_to (max n (vs_lower_high_boundary vs)) (vs_middle_alignment vs)
      else round_to (max n (vs_middle_high_boundary vs)) (vs_upper_alignment vs))"

lemma marked_shrunk:
  assumes lay: "vs_layout vs" and bk: "vs_backed vs" and sp: "\<not> vs_special vs" and n: "n \<le> vs_high vs"
  shows "marked vs (lower_trim vs n) (middle_trim vs n) (upper_trim vs n) a \<longleftrightarrow>
    marked vs (vs_lower_high vs) (vs_middle_high vs) (vs_upper_high vs) a \<and> a < kept_end vs n a"
proof -
  note T = trims [OF lay bk sp n]
  have L: "vs_lower_high vs \<le> vs_lower_high_boundary vs" "vs_middle_high vs \<le> vs_middle_high_boundary vs"
    using lay by (simp_all add: vs_layout_def)
  show ?thesis
    unfolding marked_region [OF lay sp T(2,4)] marked_region [OF lay sp L]
    by (auto simp: kept_end_def lower_trim_def middle_trim_def upper_trim_def)
qed

lemma vs_shrink_by_os:
  assumes inv: "vs_inv vs" and ok: "\<And>a n. uncommit a n" and sp: "\<not> vs_special vs"
    and ret: "vs_shrink_by uncommit vs bytes = Some vs'"
  shows "vs_os_committed vs' a \<longleftrightarrow> vs_os_committed vs a \<and> a < kept_end vs (vs_high vs - bytes) a"
proof -
  from ret have le: "\<not> vs_committed_size vs < bytes"
    by (auto simp: vs_shrink_by_def split: if_splits)
  have inv': "vs_inv vs'" by (rule vs_shrink_by_inv [OF inv ok ret])
  have vs': "marked vs' (vs_lower_high vs') (vs_middle_high vs') (vs_upper_high vs') a \<longleftrightarrow>
      marked vs (lower_trim vs (vs_high vs - bytes)) (middle_trim vs (vs_high vs - bytes))
        (upper_trim vs (vs_high vs - bytes)) a"
    using ret unfolding vs_shrink_by_all [OF le sp ok] Let_def option.inject
    by - (drule sym, simp add: marked_def sp)
  show ?thesis
    using inv inv' vs' marked_shrunk [of vs "vs_high vs - bytes" a, OF _ _ sp]
    unfolding vs_inv_def vs_synced_def by simp
qed

section \<open>The interface to the code heap\<close>

text \<open>
  What a client of a committed space relies on: an expansion either adds exactly the requested
  bytes or leaves the committed size alone, and it is refused when the reservation is used up.
\<close>

locale committed_space =
  fixes expand :: "'s \<Rightarrow> size_t \<Rightarrow> 's \<times> bool"
    and committed :: "'s \<Rightarrow> size_t"
    and reserved :: "'s \<Rightarrow> size_t"
    and invar :: "'s \<Rightarrow> bool"
  assumes invar_expand: "invar s \<Longrightarrow> invar (fst (expand s n))"
    and expand_committed: "invar s \<Longrightarrow>
      committed (fst (expand s n)) = committed s + (if snd (expand s n) then n else 0)"
    and expand_reserved: "invar s \<Longrightarrow> reserved (fst (expand s n)) = reserved s"
    and committed_le: "invar s \<Longrightarrow> committed s \<le> reserved s"
    and expand_refused: "invar s \<Longrightarrow> reserved s < committed s + n \<Longrightarrow> \<not> snd (expand s n)"
begin

text \<open>The room left strictly shrinks with every successful expansion of a positive size.\<close>

lemma room_decreases:
  assumes "invar s" and "snd (expand s n)" and "0 < n"
  shows "reserved (fst (expand s n)) - committed (fst (expand s n)) < reserved s - committed s"
proof -
  have "committed s + n \<le> reserved s"
    using assms expand_refused [of s n] by (meson not_less)
  then show ?thesis
    using assms by (simp add: expand_committed expand_reserved)
qed

end

interpretation vspace: committed_space "vs_expand_by commit" vs_committed_size vs_reserved_size vs_inv
  for commit
proof
  fix s :: virtual_space and n
  assume inv: "vs_inv s"
  then have lay: "vs_layout s" by (simp add: vs_inv_def)
  show inv': "vs_inv (fst (vs_expand_by commit s n))"
    by (rule vs_expand_by_inv [OF inv])
  then have lay': "vs_layout (fst (vs_expand_by commit s n))" by (simp add: vs_inv_def)
  show "vs_committed_size (fst (vs_expand_by commit s n)) =
      vs_committed_size s + (if snd (vs_expand_by commit s n) then n else 0)"
    using lay
    by (simp add: vs_sizes(1) [OF lay] vs_sizes(1) [OF lay'] vs_expand_by_high vs_expand_by_frame
        vs_layout_def)
  show "vs_reserved_size (fst (vs_expand_by commit s n)) = vs_reserved_size s"
    by (simp add: vs_sizes(2) lay lay' vs_expand_by_frame)
  show "vs_committed_size s \<le> vs_reserved_size s"
    using lay by (simp add: vs_sizes(1,2) lay vs_layout_def diff_le_mono)
  assume "vs_reserved_size s < vs_committed_size s + n"
  then have "vs_uncommitted_size s < n"
    using lay by (auto simp: vs_sizes [OF lay] vs_layout_def)
  then show "\<not> snd (vs_expand_by commit s n)" by (simp add: vs_expand_by_refuses)
qed

section \<open>Properties\<close>

text \<open>
  C21: an expansion keeps the layout of the three regions and the agreement of their marks with what
  the OS has committed, whether or not the OS refuses one of the commits; every usable byte is then
  committed by the OS. When it succeeds, exactly \<open>bytes\<close> become usable, and when it fails, none do; it
  is refused without a call of the OS when the reservation has no room, and succeeds when it has room
  and the OS grants every commit.
\<close>

theorem vs_expand_by_correct:
  assumes "vs_inv vs"
  shows "vs_inv (fst (vs_expand_by commit vs bytes)) \<and>
    vs_committed_size (fst (vs_expand_by commit vs bytes)) =
      vs_committed_size vs + (if snd (vs_expand_by commit vs bytes) then bytes else 0) \<and>
    (\<forall>a. vs_contains (fst (vs_expand_by commit vs bytes)) a \<longrightarrow>
      vs_os_committed (fst (vs_expand_by commit vs bytes)) a) \<and>
    (vs_uncommitted_size vs < bytes \<longrightarrow> vs_expand_by commit vs bytes = (vs, False)) \<and>
    (bytes \<le> vs_uncommitted_size vs \<longrightarrow> (\<forall>a n. commit a n) \<longrightarrow> snd (vs_expand_by commit vs bytes))"
  using vspace.invar_expand [OF assms, of commit bytes] vspace.expand_committed [OF assms, of commit bytes]
    vs_inv_backed [of "fst (vs_expand_by commit vs bytes)"] vs_expand_by_refuses [of vs bytes commit]
    vs_expand_by_succeeds [of bytes vs commit]
  by simp

text \<open>The space of the witnesses: 64 KB at 4 KB with 4 KB pages and one granularity.\<close>

definition demo_space :: virtual_space where
  "demo_space = fst (vs_initialize_with_granularity (\<lambda>_ _. True) 4096
     (Some \<lparr>rs_base = 4096, rs_size = 65536, rs_special = False, rs_executable = True\<rparr>) 8192 4096)"

lemma demo_space_eq:
  "demo_space = \<lparr>vs_low_boundary = 4096, vs_high_boundary = 69632, vs_low = 4096, vs_high = 12288,
     vs_special = False, vs_executable = True, vs_lower_high = 4096, vs_middle_high = 12288, vs_upper_high = 69632,
     vs_lower_high_boundary = 4096, vs_middle_high_boundary = 69632, vs_upper_high_boundary = 69632,
     vs_lower_alignment = 4096, vs_middle_alignment = 4096, vs_upper_alignment = 4096, vs_os = [OsCommit 4096 8192]\<rparr>"
  by (simp add: demo_space_def vs_initialize_with_granularity_def vs_expand_by_def Let_def os_commit_memory_def
      round_to_def round_down_def vs_size_defs usub64_def size_max_def)

lemma demo_space_inv: "vs_inv demo_space"
  unfolding demo_space_def
  by (rule vs_initialize_inv [where p = 12 and g = 12])
    (simp_all add: size_max_def round_to_def round_down_def)

lemma demo_space_sizes: "vs_committed_size demo_space = 8192" "vs_reserved_size demo_space = 65536"
  by (simp_all add: demo_space_eq vs_size_defs usub64_def size_max_def)

theorem vs_expand_by_correct_witness:
  "vs_inv demo_space \<and> vs_committed_size (fst (vs_expand_by (\<lambda>_ _. True) demo_space 4096)) = 12288 \<and>
   vs_committed_size (fst (vs_expand_by (\<lambda>_ _. False) demo_space 4096)) = 8192"
proof -
  have "vs_uncommitted_size demo_space = 57344"
    by (simp add: demo_space_eq vs_size_defs usub64_def size_max_def)
  moreover have "\<not> snd (vs_expand_by (\<lambda>_ _. False) demo_space 4096)"
    by (simp add: demo_space_eq vs_expand_by_def os_commit_memory_def round_to_def vs_size_defs usub64_def size_max_def)
  ultimately show ?thesis
    using vs_expand_by_correct [OF demo_space_inv, of "\<lambda>_ _. True" 4096] demo_space_inv
      vs_expand_by_correct [OF demo_space_inv, of "\<lambda>_ _. False" 4096]
    by (simp add: demo_space_sizes)
qed

text \<open>
  C22: when the OS accepts every uncommit, shrinking keeps the layout, the agreement with the OS and
  the backing of every usable byte, and takes exactly the requested bytes off the space. A space that
  is not special gives back to the OS all of its memory above the new end, rounded up to the
  alignment of the region, and nothing below it; a special one gives nothing back. A request larger
  than the committed size is the fatal error.
\<close>

theorem vs_shrink_by_correct:
  assumes "vs_inv vs" and "\<And>a n. uncommit a n"
  shows "vs_shrink_by uncommit vs bytes = None \<and> vs_committed_size vs < bytes \<or>
    (\<exists>vs'. vs_shrink_by uncommit vs bytes = Some vs' \<and> vs_inv vs' \<and>
       vs_committed_size vs' + bytes = vs_committed_size vs \<and>
       (\<forall>a. vs_contains vs' a \<longrightarrow> vs_os_committed vs' a) \<and>
       (\<forall>a. vs_os_committed vs' a \<longleftrightarrow>
          vs_os_committed vs a \<and> (vs_special vs \<or> a < kept_end vs (vs_high vs - bytes) a)))"
proof (cases "vs_committed_size vs < bytes")
  case True
  then show ?thesis by (simp add: vs_shrink_by_def)
next
  case False
  then obtain vs' where ret: "vs_shrink_by uncommit vs bytes = Some vs'"
    and hi: "vs_high vs' = vs_high vs - bytes" "vs_low vs' = vs_low vs"
    and sp: "vs_special vs \<longrightarrow> vs_os vs' = vs_os vs"
    using vs_shrink_by_all [OF False _ assms(2)]
    by (cases "vs_special vs") (auto simp: vs_shrink_by_def Let_def)
  from assms ret have inv': "vs_inv vs'" by (rule vs_shrink_by_inv)
  from False assms(1) have "vs_committed_size vs' + bytes = vs_committed_size vs"
    using inv' hi by (auto simp: vs_inv_def vs_sizes(1) vs_layout_def)
  moreover have "vs_os_committed vs' a \<longleftrightarrow>
      vs_os_committed vs a \<and> (vs_special vs \<or> a < kept_end vs (vs_high vs - bytes) a)" for a
    using vs_shrink_by_os [OF assms _ ret] sp by (cases "vs_special vs") (simp_all add: vs_os_committed_def)
  ultimately show ?thesis using ret inv' vs_inv_backed [OF inv'] by blast
qed

theorem vs_shrink_by_correct_witness:
  "\<exists>vs'. vs_shrink_by (\<lambda>_ _. True) demo_space 4096 = Some vs' \<and> vs_inv vs' \<and>
     vs_committed_size vs' + 4096 = 8192 \<and> vs_os_committed vs' 8191 \<and> \<not> vs_os_committed vs' 8192"
proof -
  have "kept_end demo_space (vs_high demo_space - 4096) 8191 = 8192"
    "kept_end demo_space (vs_high demo_space - 4096) 8192 = 8192" "vs_os_committed demo_space 8191"
    "\<not> vs_special demo_space"
    by (simp_all add: kept_end_def demo_space_eq round_to_def vs_os_committed_def)
  then show ?thesis
    using vs_shrink_by_correct [OF demo_space_inv, of "\<lambda>_ _. True" 4096]
    by (auto simp: demo_space_sizes)
qed

text \<open>
  C23: the early return of \<open>shrink_by\<close> is not safe. Whenever the request makes the upper and the middle
  region give memory back and the OS takes the upper one and then refuses the middle one, the function
  returns without lowering \<open>_high\<close>: every byte from the rounded new end of the upper region up to
  \<open>_high\<close> is still usable by \<open>contains\<close> and is not committed any more.
\<close>

theorem vs_shrink_by_partial_refusal:
  assumes "vs_inv vs" and "\<not> vs_special vs" and "bytes \<le> vs_committed_size vs"
    and "au = round_to (max (vs_high vs - bytes) (vs_middle_high_boundary vs)) (vs_upper_alignment vs)"
    and "am = round_to (max (vs_high vs - bytes) (vs_lower_high_boundary vs)) (vs_middle_alignment vs)"
    and "au < vs_high vs" and "am < vs_middle_high vs"
    and "uncommit au (vs_upper_high vs - au)" and "\<not> uncommit am (vs_middle_high vs - am)"
  shows "\<exists>vs'. vs_shrink_by uncommit vs bytes = Some vs' \<and> vs_high vs' = vs_high vs \<and>
    vs_contains vs' au \<and> (\<forall>a. au \<le> a \<and> a < vs_high vs \<longrightarrow> vs_contains vs' a \<and> \<not> vs_os_committed vs' a)"
proof -
  from assms(1) have lay: "vs_layout vs" and bk: "vs_backed vs" by (simp_all add: vs_inv_def)
  have hi: "vs_high vs \<le> vs_upper_high vs"
    using lay bk assms(2) by (auto simp: vs_layout_def vs_boundaries_def vs_backed_def region_covers_def)
  have "vs_middle_high_boundary vs \<le> au"
    using lay region_mark_ge [of "vs_upper_alignment vs" "max (vs_high vs - bytes) (vs_middle_high_boundary vs)"]
    by (simp add: assms(4) vs_layout_def vs_boundaries_def)
  then have lo: "vs_low vs \<le> au" using lay by (auto simp: vs_layout_def vs_boundaries_def)
  have "vs_shrink_by uncommit vs bytes = Some (vs\<lparr>vs_os := OsUncommit au (vs_upper_high vs - au) # vs_os vs,
      vs_upper_high := au\<rparr>)"
    using assms(2,3,6-9) hi unfolding vs_shrink_by_def Let_def assms(4,5) [symmetric]
    by (simp add: os_uncommit_memory_def)
  then show ?thesis
    using hi lo assms(6) by (auto simp: vs_contains_def vs_os_committed_def)
qed

definition demo_split :: virtual_space where
  "demo_split = fst (vs_initialize_with_granularity (\<lambda>_ _. True) 4096
     (Some \<lparr>rs_base = 4096, rs_size = 16384, rs_special = False, rs_executable = True\<rparr>) 16384 8192)"

lemma demo_split_eq:
  "demo_split = \<lparr>vs_low_boundary = 4096, vs_high_boundary = 20480, vs_low = 4096, vs_high = 20480,
     vs_special = False, vs_executable = True, vs_lower_high = 8192, vs_middle_high = 16384, vs_upper_high = 20480,
     vs_lower_high_boundary = 8192, vs_middle_high_boundary = 16384, vs_upper_high_boundary = 20480,
     vs_lower_alignment = 4096, vs_middle_alignment = 8192, vs_upper_alignment = 4096, vs_os = [OsCommit 16384 4096, OsCommit 8192 8192, OsCommit 4096 4096]\<rparr>"
  by (simp add: demo_split_def vs_initialize_with_granularity_def vs_expand_by_def Let_def os_commit_memory_def
      round_to_def round_down_def vs_size_defs usub64_def size_max_def)

lemma demo_split_inv: "vs_inv demo_split"
  unfolding demo_split_def
  by (rule vs_initialize_inv [where p = 12 and g = 13])
    (simp_all add: size_max_def round_to_def round_down_def)

theorem vs_shrink_by_partial_refusal_witness:
  "\<exists>vs'. vs_shrink_by (\<lambda>a n. a = 16384) demo_split 12288 = Some vs' \<and> vs_high vs' = 20480 \<and>
     vs_contains vs' 16384 \<and> \<not> vs_os_committed vs' 16384"
proof -
  have D: "\<not> vs_special demo_split" "vs_committed_size demo_split = 16384" "vs_high demo_split = 20480"
    "vs_middle_high_boundary demo_split = 16384" "vs_upper_alignment demo_split = 4096"
    "vs_lower_high_boundary demo_split = 8192" "vs_middle_alignment demo_split = 8192"
    "vs_middle_high demo_split = 16384"
    by (simp_all add: demo_split_eq vs_size_defs usub64_def size_max_def)
  have R: "round_to 16384 4096 = (16384 :: nat)" "round_to 8192 8192 = (8192 :: nat)"
    by (simp_all add: round_to_def)
  obtain vs' where "vs_shrink_by (\<lambda>a n. a = 16384) demo_split 12288 = Some vs'" "vs_high vs' = 20480"
    "vs_contains vs' 16384" "\<forall>a. 16384 \<le> a \<and> a < 20480 \<longrightarrow> vs_contains vs' a \<and> \<not> vs_os_committed vs' a"
    using vs_shrink_by_partial_refusal [OF demo_split_inv D(1), of 12288 16384 8192 "\<lambda>a n. a = 16384"]
    unfolding D by (simp add: R) blast
  then show ?thesis by (intro exI [of _ vs']) simp
qed

end
