(* ===== verification/CodeHeap.thy ===== *)
theory CodeHeap
  imports VirtualSpace
begin

text \<open>
  \<open>CodeHeap\<close> (\<open>src/src/share/vm/memory/heap.hpp\<close>, \<open>heap.cpp\<close>): the segmented heap behind the
  code cache. A block is a run of segments with a header in its first one; the segment map has
  one byte per segment that leads back to the first segment of the block; free blocks are
  linked in address order and coalesced.

  A \<open>HeapBlock*\<close> is modelled by the index of its first segment (\<open>block_at\<close> and \<open>segment_for\<close> are
  the bijection), a client's pointer by its byte address.
\<close>

section \<open>State\<close>

record heap_block =
  blk_length :: nat
  blk_used :: bool
  blk_link :: "nat option"

record code_heap =
  ch_memory :: virtual_space
  ch_segmap_space :: virtual_space
  ch_segmap :: "nat \<Rightarrow> nat"
  ch_blocks :: "nat \<Rightarrow> heap_block"
  ch_number_of_committed_segments :: nat
  ch_number_of_reserved_segments :: nat
  ch_segment_size :: size_t
  ch_log2_segment_size :: nat
  ch_next_segment :: nat
  ch_freelist :: "nat option"
  ch_freelist_segments :: nat

text \<open>The flags of \<open>globals.hpp\<close> the heap reads.\<close>

record code_flags =
  CodeCacheMinBlockLength :: nat
  CodeCacheMinimumFreeSpace :: size_t

definition sizeof_HeapBlock :: size_t where
  "sizeof_HeapBlock = 16"

definition sizeof_FreeBlock :: size_t where
  "sizeof_FreeBlock = 24"

section \<open>Operations\<close>

subsection \<open>Segments and addresses\<close>

definition size_to_segments :: "code_heap \<Rightarrow> size_t \<Rightarrow> nat" where
  "size_to_segments h sz = drop_bit (ch_log2_segment_size h) (uadd64 sz (ch_segment_size h - 1))"

definition segments_to_size :: "code_heap \<Rightarrow> nat \<Rightarrow> size_t" where
  "segments_to_size h n = push_bit (ch_log2_segment_size h) n mod size_max"

definition segment_for :: "code_heap \<Rightarrow> addr \<Rightarrow> nat" where
  "segment_for h p = drop_bit (ch_log2_segment_size h) (usub64 p (vs_low (ch_memory h)))"

definition block_at :: "code_heap \<Rightarrow> nat \<Rightarrow> addr" where
  "block_at h i = vs_low (ch_memory h) + push_bit (ch_log2_segment_size h) i"

definition allocated_space :: "code_heap \<Rightarrow> nat \<Rightarrow> addr" where
  "allocated_space h b = block_at h b + sizeof_HeapBlock"

definition ch_high_boundary :: "code_heap \<Rightarrow> addr" where
  "ch_high_boundary h = vs_high_boundary (ch_memory h)"

definition ch_contains :: "code_heap \<Rightarrow> addr \<Rightarrow> bool" where
  "ch_contains h p \<longleftrightarrow> vs_low_boundary (ch_memory h) \<le> p \<and> p < vs_high (ch_memory h)"

definition heap_unallocated_capacity :: "code_heap \<Rightarrow> size_t" where
  "heap_unallocated_capacity h =
     segments_to_size h (usub64 (ch_number_of_reserved_segments h) (ch_next_segment h))"

definition allocated_capacity :: "code_heap \<Rightarrow> size_t" where
  "allocated_capacity h = segments_to_size h (usub64 (ch_next_segment h) (ch_freelist_segments h))"

subsection \<open>Headers\<close>

definition set_length :: "code_heap \<Rightarrow> nat \<Rightarrow> nat \<Rightarrow> code_heap" where
  "set_length h b l = h\<lparr>ch_blocks := (ch_blocks h)(b := (ch_blocks h b)\<lparr>blk_length := l\<rparr>)\<rparr>"

definition set_used :: "code_heap \<Rightarrow> nat \<Rightarrow> bool \<Rightarrow> code_heap" where
  "set_used h b u = h\<lparr>ch_blocks := (ch_blocks h)(b := (ch_blocks h b)\<lparr>blk_used := u\<rparr>)\<rparr>"

definition set_link :: "code_heap \<Rightarrow> nat \<Rightarrow> nat option \<Rightarrow> code_heap" where
  "set_link h b k = h\<lparr>ch_blocks := (ch_blocks h)(b := (ch_blocks h b)\<lparr>blk_link := k\<rparr>)\<rparr>"

abbreviation ch_length :: "code_heap \<Rightarrow> nat \<Rightarrow> nat" where
  "ch_length h b \<equiv> blk_length (ch_blocks h b)"

abbreviation ch_link :: "code_heap \<Rightarrow> nat \<Rightarrow> nat option" where
  "ch_link h b \<equiv> blk_link (ch_blocks h b)"

abbreviation ch_free :: "code_heap \<Rightarrow> nat \<Rightarrow> bool" where
  "ch_free h b \<equiv> \<not> blk_used (ch_blocks h b)"

subsection \<open>The segment map\<close>

function mark_free_loop :: "nat \<Rightarrow> nat \<Rightarrow> (nat \<Rightarrow> nat) \<Rightarrow> (nat \<Rightarrow> nat)" where
  "mark_free_loop p q m = (if p < q then mark_free_loop (p + 1) q (m(p := 255)) else m)"
  by pat_completeness auto
termination
  by (relation "measure (\<lambda>(p, q, m). q - p)") auto

function mark_used_loop :: "nat \<Rightarrow> nat \<Rightarrow> nat \<Rightarrow> (nat \<Rightarrow> nat) \<Rightarrow> (nat \<Rightarrow> nat)" where
  "mark_used_loop p q i m =
     (if p < q then mark_used_loop (p + 1) q (if i + 1 = 255 then 1 else i + 1) (m(p := i)) else m)"
  by pat_completeness auto
termination
  by (relation "measure (\<lambda>(p, q, i, m). q - p)") auto

declare mark_free_loop.simps [simp del] mark_used_loop.simps [simp del]

definition mark_segmap_as_free :: "code_heap \<Rightarrow> nat \<Rightarrow> nat \<Rightarrow> code_heap" where
  "mark_segmap_as_free h b e = h\<lparr>ch_segmap := mark_free_loop b e (ch_segmap h)\<rparr>"

definition mark_segmap_as_used :: "code_heap \<Rightarrow> nat \<Rightarrow> nat \<Rightarrow> code_heap" where
  "mark_segmap_as_used h b e = h\<lparr>ch_segmap := mark_used_loop b e 0 (ch_segmap h)\<rparr>"

definition ch_clear :: "code_heap \<Rightarrow> code_heap" where
  "ch_clear h = mark_segmap_as_free (h\<lparr>ch_next_segment := 0\<rparr>) 0 (ch_number_of_committed_segments h)"

text \<open>
  The loop \<open>while (b[i] > 0) i -= (int)b[i]\<close> of \<open>find_start\<close>; \<open>None\<close> is an index that runs below
  the map.
\<close>

function segmap_start :: "(nat \<Rightarrow> nat) \<Rightarrow> nat \<Rightarrow> nat option" where
  "segmap_start m i =
     (if m i = 0 then Some i else if m i \<le> i then segmap_start m (i - m i) else None)"
  by pat_completeness auto
termination
  by (relation "measure snd") auto

declare segmap_start.simps [simp del]

text \<open>\<open>find_start\<close>: \<open>Some None\<close> is the \<open>NULL\<close> of the source, \<open>None\<close> a read outside the map.\<close>

definition find_start :: "code_heap \<Rightarrow> addr \<Rightarrow> addr option option" where
  "find_start h p =
     (if \<not> ch_contains h p then Some None
      else let i = segment_for h p
      in if ch_segmap h i = 255 then Some None
      else case segmap_start (ch_segmap h) i of
          None \<Rightarrow> None
        | Some j \<Rightarrow> if ch_free h j then Some None else Some (Some (allocated_space h j)))"

subsection \<open>Iteration\<close>

definition first_block :: "code_heap \<Rightarrow> nat option" where
  "first_block h = (if 0 < ch_next_segment h then Some 0 else None)"

definition next_block :: "code_heap \<Rightarrow> nat option \<Rightarrow> nat option" where
  "next_block h b =
     (case b of None \<Rightarrow> None
      | Some j \<Rightarrow> let i = j + ch_length h j in if i < ch_next_segment h then Some i else None)"

definition next_free :: "code_heap \<Rightarrow> nat option \<Rightarrow> addr option" where
  "next_free h b =
     (let b' = (case b of None \<Rightarrow> None | Some j \<Rightarrow> if ch_free h j then next_block h b else b)
      in map_option (allocated_space h) b')"

definition block_start :: "code_heap \<Rightarrow> addr \<Rightarrow> nat option option" where
  "block_start h q = map_option (map_option (\<lambda>p. segment_for h (p - sizeof_HeapBlock))) (find_start h q)"

definition ch_first :: "code_heap \<Rightarrow> addr option" where
  "ch_first h = next_free h (first_block h)"

definition ch_next :: "code_heap \<Rightarrow> addr \<Rightarrow> addr option option" where
  "ch_next h p = map_option (\<lambda>b. next_free h (next_block h b)) (block_start h p)"

subsection \<open>The free list\<close>

definition following_block :: "code_heap \<Rightarrow> nat \<Rightarrow> nat" where
  "following_block h b = b + ch_length h b"

definition merge_right :: "code_heap \<Rightarrow> nat \<Rightarrow> code_heap" where
  "merge_right h a =
     (case ch_link h a of
        None \<Rightarrow> h
      | Some k \<Rightarrow>
          if following_block h a = k then
            let h1 = set_length h a (ch_length h a + ch_length h k);
                h2 = set_link h1 a (ch_link h1 k)
            in mark_segmap_as_used h2 a (a + ch_length h2 a)
          else h)"

definition insert_after :: "code_heap \<Rightarrow> nat \<Rightarrow> nat \<Rightarrow> code_heap" where
  "insert_after h a b =
     (let h1 = set_link h b (ch_link h a);
          h2 = set_link h1 a (Some b)
      in merge_right (merge_right h2 b) a)"

text \<open>
  The list walks are loops over links in memory; a walk that never reaches \<open>NULL\<close> is \<open>None\<close>.
\<close>

partial_function (option) freelist_scan ::
    "code_heap \<Rightarrow> nat \<Rightarrow> nat option \<Rightarrow> nat option \<Rightarrow> nat option option" where
  "freelist_scan h b prev cur =
     (if cur \<noteq> None \<and> the cur < b then freelist_scan h b cur (ch_link h (the cur)) else Some prev)"

definition add_to_freelist :: "code_heap \<Rightarrow> nat \<Rightarrow> code_heap option" where
  "add_to_freelist h b =
     (let h1 = h\<lparr>ch_freelist_segments := ch_freelist_segments h + ch_length h b\<rparr>;
          h2 = set_used h1 b False
      in case ch_freelist h2 of
           None \<Rightarrow> Some (set_link (h2\<lparr>ch_freelist := Some b\<rparr>) b None)
         | Some f \<Rightarrow>
             do { prev \<leftarrow> freelist_scan h2 b None (Some f);
                  Some (case prev of
                      None \<Rightarrow> merge_right ((set_link h2 b (Some f))\<lparr>ch_freelist := Some b\<rparr>) b
                    | Some a \<Rightarrow> insert_after h2 a b) })"

text \<open>
  The search for the best fit: the best block so far, its predecessor and its length are the
  accumulator; a non-critical request stops at the first candidate that ends in the reserved
  last part of the heap.
\<close>

type_synonym best_fit = "nat option \<times> nat option \<times> nat"

partial_function (option) search_loop ::
    "code_flags \<Rightarrow> code_heap \<Rightarrow> nat \<Rightarrow> bool \<Rightarrow> nat option \<Rightarrow> nat option \<Rightarrow> best_fit \<Rightarrow> best_fit option" where
  "search_loop fl h len crit prev cur best =
     (if cur = None then Some best
      else let l = ch_length h (the cur) in
        if len \<le> l \<and> (fst best = None \<or> l < snd (snd best)) then
          if \<not> crit \<and>
             usub64 (ch_high_boundary h) (CodeCacheMinimumFreeSpace fl) < uadd64 (block_at h (the cur)) len
          then Some best
          else search_loop fl h len crit cur (ch_link h (the cur)) (cur, prev, l)
        else search_loop fl h len crit cur (ch_link h (the cur)) best)"

definition search_freelist ::
    "code_flags \<Rightarrow> code_heap \<Rightarrow> nat \<Rightarrow> bool \<Rightarrow> (code_heap \<times> nat option) option" where
  "search_freelist fl h len crit =
     do { best \<leftarrow> search_loop fl h len crit None (ch_freelist h) (None, None, 0);
          Some (case best of
              (None, _, _) \<Rightarrow> (h, None)
            | (Some b, best_prev, best_length) \<Rightarrow>
                if best_length < len + CodeCacheMinBlockLength fl then
                  let h1 = (case best_prev of
                        None \<Rightarrow> h\<lparr>ch_freelist := ch_link h (the (ch_freelist h))\<rparr>
                      | Some a \<Rightarrow> set_link h a (ch_link h b));
                      h2 = set_used h1 b True
                  in (h2\<lparr>ch_freelist_segments := usub64 (ch_freelist_segments h2) best_length\<rparr>, Some b)
                else
                  let h1 = set_length h b (best_length - len);
                      b' = following_block h1 b;
                      h2 = mark_segmap_as_used h1 b' (b' + len);
                      h3 = set_length h2 b' len;
                      h4 = set_used h3 b' True
                  in (h4\<lparr>ch_freelist_segments := usub64 (ch_freelist_segments h4) len\<rparr>, Some b')) }"

subsection \<open>Allocation, deallocation, expansion\<close>

definition ch_allocate ::
    "code_flags \<Rightarrow> code_heap \<Rightarrow> size_t \<Rightarrow> bool \<Rightarrow> (code_heap \<times> addr option) option" where
  "ch_allocate fl h instance_size crit =
     (let n = size_to_segments h (uadd64 instance_size sizeof_HeapBlock) in
      do { (h1, block) \<leftarrow> search_freelist fl h n crit;
           Some (case block of
               Some b \<Rightarrow> (h1, Some (allocated_space h1 b))
             | None \<Rightarrow>
                 let n' = (if n < CodeCacheMinBlockLength fl then CodeCacheMinBlockLength fl else n) in
                 if \<not> crit \<and>
                    usub64 (heap_unallocated_capacity h1) (CodeCacheMinimumFreeSpace fl)
                      < segments_to_size h1 n'
                 then (h1, None)
                 else if ch_next_segment h1 + n' \<le> ch_number_of_committed_segments h1 then
                   let i = ch_next_segment h1;
                       h2 = mark_segmap_as_used h1 i (i + n');
                       h3 = set_used (set_length h2 i n') i True;
                       h4 = h3\<lparr>ch_next_segment := i + n'\<rparr>
                   in (h4, Some (allocated_space h4 i))
                 else (h1, None)) })"

definition ch_deallocate :: "code_heap \<Rightarrow> addr \<Rightarrow> code_heap option" where
  "ch_deallocate h p = add_to_freelist h (segment_for h (p - sizeof_HeapBlock))"

definition align_to_page_size :: "size_t \<Rightarrow> size_t \<Rightarrow> size_t" where
  "align_to_page_size page n = nat (int (usub64 (uadd64 n page) 1) AND NOT (int (page - 1)))"

definition ch_expand_by :: "os_mem \<Rightarrow> size_t \<Rightarrow> code_heap \<Rightarrow> size_t \<Rightarrow> code_heap \<times> bool" where
  "ch_expand_by commit page h bytes =
     (let old = vs_committed_size (ch_memory h);
          dm = usub64 (align_to_page_size page (uadd64 old bytes)) old
      in if 0 < dm then
        (case vs_expand_by commit (ch_memory h) dm of (mem, ok) \<Rightarrow>
          if \<not> ok then (h\<lparr>ch_memory := mem\<rparr>, False)
          else
            let i = ch_number_of_committed_segments h;
                h1 = h\<lparr>ch_memory := mem,
                       ch_number_of_committed_segments := size_to_segments h (vs_committed_size mem)\<rparr>;
                ds = usub64 (align_to_page_size page (ch_number_of_committed_segments h1))
                       (vs_committed_size (ch_segmap_space h1));
                sm_ok = (if 0 < ds then vs_expand_by commit (ch_segmap_space h1) ds
                         else (ch_segmap_space h1, True));
                h2 = h1\<lparr>ch_segmap_space := fst sm_ok\<rparr>
            in if \<not> snd sm_ok then (h2, False)
               else (mark_segmap_as_free h2 i (ch_number_of_committed_segments h2), True))
      else (h, True))"

subsection \<open>Reservation\<close>

text \<open>
  \<open>log2_intptr\<close>: the loop doubles \<open>p\<close> in 64 bits until it exceeds \<open>x\<close> or wraps to 0, which it does
  after 64 doublings, so 65 rounds of fuel are enough.
\<close>

fun log2_loop :: "nat \<Rightarrow> nat \<Rightarrow> nat \<Rightarrow> int \<Rightarrow> int" where
  "log2_loop 0 x p i = i"
| "log2_loop (Suc fuel) x p i =
     (if p \<noteq> 0 \<and> p \<le> x then log2_loop fuel x (2 * p mod size_max) (i + 1) else i)"

definition log2_intptr :: "nat \<Rightarrow> int" where
  "log2_intptr x = log2_loop 65 x 1 (- 1)"

definition align_size_up :: "size_t \<Rightarrow> size_t \<Rightarrow> size_t" where
  "align_size_up n alignment = nat (int (uadd64 n (alignment - 1)) AND NOT (int (alignment - 1)))"

text \<open>What the OS layer provides to \<open>reserve\<close>.\<close>

record os_iface =
  os_vm_page_size :: size_t
  os_vm_allocation_granularity :: size_t
  os_can_execute_large_page_memory :: bool
  os_page_size_for_region_unaligned :: "size_t \<Rightarrow> nat \<Rightarrow> size_t"
  os_reserved_code_space :: "size_t \<Rightarrow> size_t \<Rightarrow> bool \<Rightarrow> reserved_space option"
  os_reserved_space :: "size_t \<Rightarrow> reserved_space option"
  os_commit :: os_mem

definition new_code_heap :: code_heap where
  "new_code_heap = \<lparr>ch_memory = vs_release, ch_segmap_space = vs_release, ch_segmap = (\<lambda>_. 0),
     ch_blocks = (\<lambda>_. \<lparr>blk_length = 0, blk_used = False, blk_link = None\<rparr>),
     ch_number_of_committed_segments = 0, ch_number_of_reserved_segments = 0,
     ch_segment_size = 0, ch_log2_segment_size = 0, ch_next_segment = 0,
     ch_freelist = None, ch_freelist_segments = 0\<rparr>"

definition ch_reserve :: "os_iface \<Rightarrow> code_heap \<Rightarrow> size_t \<Rightarrow> size_t \<Rightarrow> size_t \<Rightarrow> code_heap \<times> bool" where
  "ch_reserve os h reserved_size committed_size seg_size =
     (let h1 = h\<lparr>ch_segment_size := seg_size, ch_log2_segment_size := nat (log2_intptr seg_size)\<rparr>;
          page_size = (if os_can_execute_large_page_memory os
                       then os_page_size_for_region_unaligned os reserved_size 8 else os_vm_page_size os);
          granularity = os_vm_allocation_granularity os;
          r_align = max page_size granularity;
          r_size = align_size_up reserved_size r_align;
          c_size = align_size_up committed_size page_size;
          rs_align = (if page_size = os_vm_page_size os then 0 else max page_size granularity);
          rs = os_reserved_code_space os r_size rs_align (0 < rs_align)
      in case vs_initialize (os_commit os) (os_vm_page_size os) (os_page_size_for_region_unaligned os) rs c_size of
           (mem, ok) \<Rightarrow>
             if \<not> ok then (h1\<lparr>ch_memory := mem\<rparr>, False)
             else
               let h2 = h1\<lparr>ch_memory := mem,
                     ch_number_of_committed_segments := size_to_segments h1 (vs_committed_size mem),
                     ch_number_of_reserved_segments := size_to_segments h1 (vs_reserved_size mem)\<rparr>;
                   reserved_segments_alignment = max (os_vm_page_size os) granularity;
                   reserved_segments_size =
                     align_size_up (ch_number_of_reserved_segments h2) reserved_segments_alignment;
                   committed_segments_size =
                     align_to_page_size (os_vm_page_size os) (ch_number_of_committed_segments h2)
               in case vs_initialize (os_commit os) (os_vm_page_size os) (os_page_size_for_region_unaligned os)
                         (os_reserved_space os reserved_segments_size) committed_segments_size of
                    (sm, ok) \<Rightarrow>
                      if \<not> ok then (h2\<lparr>ch_segmap_space := sm\<rparr>, False)
                      else (ch_clear (h2\<lparr>ch_segmap_space := sm\<rparr>), True))"

subsection \<open>Statistics\<close>

definition ch_capacity :: "code_heap \<Rightarrow> size_t" where
  "ch_capacity h = vs_committed_size (ch_memory h)"

definition ch_max_capacity :: "code_heap \<Rightarrow> size_t" where
  "ch_max_capacity h = vs_reserved_size (ch_memory h)"

definition ch_unallocated_capacity :: "code_heap \<Rightarrow> size_t" where
  "ch_unallocated_capacity h = usub64 (ch_max_capacity h) (allocated_capacity h)"

definition alignment_unit :: "code_heap \<Rightarrow> size_t" where
  "alignment_unit h = ch_segment_size h"

definition alignment_offset :: "code_heap \<Rightarrow> size_t" where
  "alignment_offset h = sizeof_HeapBlock AND (ch_segment_size h - 1)"

section \<open>The block structure\<close>

text \<open>
  The abstract heap is the list of its blocks: first segment, length, used or free. \<open>contig\<close>
  says that the blocks tile the segments between two bounds.
\<close>

type_synonym ablock = "nat \<times> nat \<times> bool"

fun contig :: "nat \<Rightarrow> ablock list \<Rightarrow> nat \<Rightarrow> bool" where
  "contig i [] n \<longleftrightarrow> i = n"
| "contig i ((s, l, u) # bs) n \<longleftrightarrow> s = i \<and> 0 < l \<and> contig (i + l) bs n"

fun no_adjacent_free :: "ablock list \<Rightarrow> bool" where
  "no_adjacent_free ((s, l, u) # (s', l', u') # bs) \<longleftrightarrow>
     (u \<or> u') \<and> no_adjacent_free ((s', l', u') # bs)"
| "no_adjacent_free _ \<longleftrightarrow> True"

definition free_starts :: "ablock list \<Rightarrow> nat list" where
  "free_starts bs = map fst (filter (\<lambda>(s, l, u). \<not> u) bs)"

definition free_length :: "ablock list \<Rightarrow> nat" where
  "free_length bs = sum_list (map (\<lambda>(s, l, u). if u then 0 else l) bs)"

definition used_length :: "ablock list \<Rightarrow> nat" where
  "used_length bs = sum_list (map (\<lambda>(s, l, u). if u then l else 0) bs)"

text \<open>The blocks reached from \<open>p\<close> over links until \<open>q\<close>.\<close>

fun linked :: "(nat \<Rightarrow> heap_block) \<Rightarrow> nat option \<Rightarrow> nat list \<Rightarrow> nat option \<Rightarrow> bool" where
  "linked m p [] q \<longleftrightarrow> p = q"
| "linked m p (s # ss) q \<longleftrightarrow> p = Some s \<and> linked m (blk_link (m s)) ss q"

text \<open>The bytes \<open>mark_segmap_as_used\<close> writes over a block: 0, then 1 to 254 over and over.\<close>

definition seg_pat :: "nat \<Rightarrow> nat" where
  "seg_pat j = (if j = 0 then 0 else (j - 1) mod 254 + 1)"

definition block_ok :: "code_heap \<Rightarrow> ablock \<Rightarrow> bool" where
  "block_ok h = (\<lambda>(s, l, u). ch_length h s = l \<and> blk_used (ch_blocks h s) = u \<and>
     (\<forall>j<l. ch_segmap h (s + j) = seg_pat j))"

definition heap_repr :: "code_heap \<Rightarrow> ablock list \<Rightarrow> bool" where
  "heap_repr h bs \<longleftrightarrow> contig 0 bs (ch_next_segment h) \<and> list_all (block_ok h) bs \<and>
     (\<forall>i. ch_next_segment h \<le> i \<and> i < ch_number_of_committed_segments h \<longrightarrow> ch_segmap h i = 255) \<and>
     linked (ch_blocks h) (ch_freelist h) (free_starts bs) None \<and>
     ch_freelist_segments h = free_length bs \<and>
     ch_next_segment h \<le> ch_number_of_committed_segments h"

text \<open>
  The fixed geometry: segment size, bounds, how many segments the memory holds, and that the
  committed part of the map has a byte for each of them.
\<close>

definition heap_geometry :: "code_heap \<Rightarrow> bool" where
  "heap_geometry h \<longleftrightarrow> vs_inv (ch_memory h) \<and> ch_segment_size h = 2 ^ ch_log2_segment_size h \<and>
     sizeof_FreeBlock \<le> ch_segment_size h \<and>
     ch_number_of_committed_segments h * ch_segment_size h = vs_committed_size (ch_memory h) \<and>
     ch_number_of_reserved_segments h * ch_segment_size h = vs_reserved_size (ch_memory h) \<and>
     vs_inv (ch_segmap_space h) \<and>
     ch_number_of_committed_segments h \<le> vs_committed_size (ch_segmap_space h)"

definition heap_inv :: "code_heap \<Rightarrow> ablock list \<Rightarrow> bool" where
  "heap_inv h bs \<longleftrightarrow> heap_geometry h \<and> heap_repr h bs \<and> no_adjacent_free bs"

subsection \<open>Lemmas on block lists\<close>

lemma contig_append: "contig i (xs @ ys) n \<longleftrightarrow> (\<exists>m. contig i xs m \<and> contig m ys n)"
  by (induction i xs n rule: contig.induct) auto

lemma contig_le: "contig i bs n \<Longrightarrow> i \<le> n"
  by (induction i bs n rule: contig.induct) auto

lemma contig_bounds: "contig i bs n \<Longrightarrow> (s, l, u) \<in> set bs \<Longrightarrow> i \<le> s \<and> 0 < l \<and> s + l \<le> n"
  by (induction i bs n rule: contig.induct) (auto dest: contig_le)

text \<open>Two blocks of a tiling are the same or disjoint.\<close>

lemma contig_disjoint:
  assumes "contig i bs n" and "(s, l, u) \<in> set bs" and "(s', l', u') \<in> set bs"
  shows "(s, l, u) = (s', l', u') \<or> s + l \<le> s' \<or> s' + l' \<le> s"
  using assms
proof (induction i bs n rule: contig.induct)
  case (1 i n)
  then show ?case by simp
next
  case (2 i a b c bs n)
  then show ?case
    using contig_bounds [of "i + b" bs n] by fastforce
qed

lemma contig_starts_sorted: "contig i bs n \<Longrightarrow> sorted_wrt (<) (map fst bs)"
proof (induction i bs n rule: contig.induct)
  case (2 i s l u bs n)
  then show ?case
    using contig_bounds [of "i + l" bs n] by fastforce
qed simp

lemma contig_covers: "contig i bs n \<Longrightarrow> i \<le> k \<Longrightarrow> k < n \<Longrightarrow> \<exists>s l u. (s, l, u) \<in> set bs \<and> s \<le> k \<and> k < s + l"
proof (induction i bs n rule: contig.induct)
  case (2 i s l u bs n)
  then show ?case by (cases "k < i + l") force+
qed simp

lemma free_starts_simps [simp]:
  "free_starts [] = []"
  "free_starts ((s, l, u) # bs) = (if u then free_starts bs else s # free_starts bs)"
  "free_starts (xs @ ys) = free_starts xs @ free_starts ys"
  by (simp_all add: free_starts_def)

lemma free_length_simps [simp]:
  "free_length [] = 0"
  "free_length ((s, l, u) # bs) = (if u then 0 else l) + free_length bs"
  "free_length (xs @ ys) = free_length xs + free_length ys"
  by (simp_all add: free_length_def)

lemma used_length_simps [simp]:
  "used_length [] = 0"
  "used_length ((s, l, u) # bs) = (if u then l else 0) + used_length bs"
  "used_length (xs @ ys) = used_length xs + used_length ys"
  by (simp_all add: used_length_def)

lemma contig_lengths: "contig i bs n \<Longrightarrow> i + used_length bs + free_length bs = n"
  by (induction i bs n rule: contig.induct) auto

lemma set_free_starts: "s \<in> set (free_starts bs) \<longleftrightarrow> (\<exists>l. (s, l, False) \<in> set bs)"
  by (force simp: free_starts_def)

end
