(* ===== verification/CodeHeap_Correct.thy ===== *)
theory CodeHeap_Correct
  imports CodeHeap
begin

text \<open>
  Correctness of the code heap: the segment map and its lookup, the free list, allocation and
  deallocation as operations on the abstract list of blocks.
\<close>

section \<open>The segment map\<close>

lemma mark_free_loop_eq:
  "mark_free_loop p q m = (\<lambda>k. if p \<le> k \<and> k < q then 255 else m k)"
proof (induction p q m rule: mark_free_loop.induct)
  case (1 p q m)
  show ?case
  proof (cases "p < q")
    case True
    have "mark_free_loop p q m = mark_free_loop (p + 1) q (m(p := 255))"
      using True by (simp add: mark_free_loop.simps [of p q m])
    also have "\<dots> = (\<lambda>k. if p + 1 \<le> k \<and> k < q then 255 else (m(p := 255)) k)"
      by (rule "1.IH" [OF True])
    finally show ?thesis using True by (auto simp: fun_eq_iff)
  qed (auto simp: mark_free_loop.simps [of p q m])
qed

lemma seg_pat_Suc: "seg_pat (Suc j) = (if seg_pat j + 1 = 255 then 1 else seg_pat j + 1)"
  by (cases j) (auto simp: seg_pat_def mod_Suc)

lemma mark_used_loop_eq:
  "i = seg_pat (p - b) \<Longrightarrow> b \<le> p \<Longrightarrow>
   mark_used_loop p q i m = (\<lambda>k. if p \<le> k \<and> k < q then seg_pat (k - b) else m k)"
proof (induction p q i m rule: mark_used_loop.induct)
  case (1 p q i m)
  show ?case
  proof (cases "p < q")
    case True
    have i: "(if i + 1 = 255 then 1 else i + 1) = seg_pat (p + 1 - b)"
      using "1.prems" by (simp add: seg_pat_Suc Suc_diff_le)
    have "mark_used_loop p q i m =
        mark_used_loop (p + 1) q (if i + 1 = 255 then 1 else i + 1) (m(p := i))"
      using True by (simp add: mark_used_loop.simps [of p q i m])
    also have "\<dots> = (\<lambda>k. if p + 1 \<le> k \<and> k < q then seg_pat (k - b) else (m(p := i)) k)"
      using "1.prems" by (intro "1.IH" [OF True i]) simp
    finally show ?thesis
      using True "1.prems" by (auto simp: fun_eq_iff)
  next
    case False
    then show ?thesis by (auto simp: mark_used_loop.simps [of p q i m])
  qed
qed

lemma ch_segmap_mark_used [simp]:
  "ch_segmap (mark_segmap_as_used h b e) =
     (\<lambda>k. if b \<le> k \<and> k < e then seg_pat (k - b) else ch_segmap h k)"
  by (simp add: mark_segmap_as_used_def mark_used_loop_eq [where b = b] seg_pat_def)

lemma ch_segmap_mark_free [simp]:
  "ch_segmap (mark_segmap_as_free h b e) = (\<lambda>k. if b \<le> k \<and> k < e then 255 else ch_segmap h k)"
  by (simp add: mark_segmap_as_free_def mark_free_loop_eq)

lemma seg_pat_le: "seg_pat j \<le> j"
proof (cases j)
  case (Suc i)
  then show ?thesis
    using mod_less_eq_dividend [of i 254] by (simp add: seg_pat_def)
qed (simp add: seg_pat_def)

lemma seg_pat_pos: "seg_pat j = 0 \<longleftrightarrow> j = 0"
  by (simp add: seg_pat_def)

lemma seg_pat_255: "seg_pat j \<noteq> 255"
proof -
  have "(j - 1) mod 254 < 254" by simp
  then have "(j - 1) mod 254 + 1 < 255" by linarith
  then have "seg_pat j < 255" unfolding seg_pat_def by (cases "j = 0") (simp, presburger)
  then show ?thesis by simp
qed

text \<open>From any segment of a marked block the walk ends at the block's first segment.\<close>

lemma segmap_start_block:
  assumes "\<And>i. i \<le> j \<Longrightarrow> m (s + i) = seg_pat i"
  shows "segmap_start m (s + j) = Some s"
  using assms
proof (induction j rule: less_induct)
  case (less j)
  show ?case
  proof (cases "j = 0")
    case True
    then show ?thesis using less.prems [of 0] by (simp add: segmap_start.simps [of m s] seg_pat_def)
  next
    case False
    have p: "m (s + j) = seg_pat j" "0 < seg_pat j" "seg_pat j \<le> j"
      using less.prems [of j] False seg_pat_pos [of j] by (simp_all add: seg_pat_le)
    then have "segmap_start m (s + (j - seg_pat j)) = Some s"
      using less.prems by (intro less.IH) auto
    then show ?thesis
      using p by (simp add: segmap_start.simps [of m "s + j"])
  qed
qed

section \<open>Frame rules\<close>

lemma ch_updates [simp]:
  "ch_memory (set_length h b l) = ch_memory h" "ch_segmap (set_length h b l) = ch_segmap h"
  "ch_number_of_committed_segments (set_length h b l) = ch_number_of_committed_segments h"
  "ch_number_of_reserved_segments (set_length h b l) = ch_number_of_reserved_segments h"
  "ch_segment_size (set_length h b l) = ch_segment_size h"
  "ch_log2_segment_size (set_length h b l) = ch_log2_segment_size h"
  "ch_next_segment (set_length h b l) = ch_next_segment h"
  "ch_freelist (set_length h b l) = ch_freelist h"
  "ch_freelist_segments (set_length h b l) = ch_freelist_segments h"
  "ch_blocks (set_length h b l) = (ch_blocks h)(b := (ch_blocks h b)\<lparr>blk_length := l\<rparr>)"
  "ch_memory (set_used h b u) = ch_memory h" "ch_segmap (set_used h b u) = ch_segmap h"
  "ch_number_of_committed_segments (set_used h b u) = ch_number_of_committed_segments h"
  "ch_number_of_reserved_segments (set_used h b u) = ch_number_of_reserved_segments h"
  "ch_segment_size (set_used h b u) = ch_segment_size h"
  "ch_log2_segment_size (set_used h b u) = ch_log2_segment_size h"
  "ch_next_segment (set_used h b u) = ch_next_segment h"
  "ch_freelist (set_used h b u) = ch_freelist h"
  "ch_freelist_segments (set_used h b u) = ch_freelist_segments h"
  "ch_blocks (set_used h b u) = (ch_blocks h)(b := (ch_blocks h b)\<lparr>blk_used := u\<rparr>)"
  "ch_memory (set_link h b k) = ch_memory h" "ch_segmap (set_link h b k) = ch_segmap h"
  "ch_number_of_committed_segments (set_link h b k) = ch_number_of_committed_segments h"
  "ch_number_of_reserved_segments (set_link h b k) = ch_number_of_reserved_segments h"
  "ch_segment_size (set_link h b k) = ch_segment_size h"
  "ch_log2_segment_size (set_link h b k) = ch_log2_segment_size h"
  "ch_next_segment (set_link h b k) = ch_next_segment h"
  "ch_freelist (set_link h b k) = ch_freelist h"
  "ch_freelist_segments (set_link h b k) = ch_freelist_segments h"
  "ch_blocks (set_link h b k) = (ch_blocks h)(b := (ch_blocks h b)\<lparr>blk_link := k\<rparr>)"
  by (simp_all add: set_length_def set_used_def set_link_def)

lemma ch_marks [simp]:
  "ch_memory (mark_segmap_as_used h b e) = ch_memory h"
  "ch_number_of_committed_segments (mark_segmap_as_used h b e) = ch_number_of_committed_segments h"
  "ch_number_of_reserved_segments (mark_segmap_as_used h b e) = ch_number_of_reserved_segments h"
  "ch_segment_size (mark_segmap_as_used h b e) = ch_segment_size h"
  "ch_log2_segment_size (mark_segmap_as_used h b e) = ch_log2_segment_size h"
  "ch_next_segment (mark_segmap_as_used h b e) = ch_next_segment h"
  "ch_freelist (mark_segmap_as_used h b e) = ch_freelist h"
  "ch_freelist_segments (mark_segmap_as_used h b e) = ch_freelist_segments h"
  "ch_blocks (mark_segmap_as_used h b e) = ch_blocks h"
  "ch_memory (mark_segmap_as_free h b e) = ch_memory h"
  "ch_number_of_committed_segments (mark_segmap_as_free h b e) = ch_number_of_committed_segments h"
  "ch_number_of_reserved_segments (mark_segmap_as_free h b e) = ch_number_of_reserved_segments h"
  "ch_segment_size (mark_segmap_as_free h b e) = ch_segment_size h"
  "ch_log2_segment_size (mark_segmap_as_free h b e) = ch_log2_segment_size h"
  "ch_next_segment (mark_segmap_as_free h b e) = ch_next_segment h"
  "ch_freelist (mark_segmap_as_free h b e) = ch_freelist h"
  "ch_freelist_segments (mark_segmap_as_free h b e) = ch_freelist_segments h"
  "ch_blocks (mark_segmap_as_free h b e) = ch_blocks h"
  by (simp_all add: mark_segmap_as_used_def mark_segmap_as_free_def)

text \<open>A block description depends on its own header and its own stretch of the map only.\<close>

lemma block_ok_cong:
  assumes "block_ok h (s, l, u)"
    and "ch_length h' s = ch_length h s" and "blk_used (ch_blocks h' s) = blk_used (ch_blocks h s)"
    and "\<And>i. s \<le> i \<Longrightarrow> i < s + l \<Longrightarrow> ch_segmap h' i = ch_segmap h i"
  shows "block_ok h' (s, l, u)"
  using assms by (simp add: block_ok_def)

section \<open>Linked lists of free blocks\<close>

lemma linked_append: "linked m p (xs @ ys) q \<longleftrightarrow> (\<exists>r. linked m p xs r \<and> linked m r ys q)"
  by (induction m p xs q rule: linked.induct) auto

lemma linked_cong:
  "linked m p xs q \<Longrightarrow> (\<And>x. x \<in> set xs \<Longrightarrow> blk_link (m' x) = blk_link (m x)) \<Longrightarrow> linked m' p xs q"
  by (induction xs arbitrary: p) auto

text \<open>Redirecting the link of the last block.\<close>

lemma linked_set_last:
  assumes "linked m p (xs @ [a]) q" and "a \<notin> set xs"
  shows "linked (m(a := (m a)\<lparr>blk_link := r\<rparr>)) p (xs @ [a]) r"
proof -
  from assms(1) have "linked m p xs (Some a)" by (simp add: linked_append)
  then have "linked (m(a := (m a)\<lparr>blk_link := r\<rparr>)) p xs (Some a)"
    by (rule linked_cong) (use assms(2) in auto)
  then show ?thesis by (simp add: linked_append)
qed

lemma freelist_scan_None [simp]: "freelist_scan h b prev None = Some prev"
  by (simp add: freelist_scan.simps [of h b prev None])

lemma freelist_scan_Some:
  "freelist_scan h b prev (Some c) =
     (if c < b then freelist_scan h b (Some c) (ch_link h c) else Some prev)"
  by (simp add: freelist_scan.simps [of h b prev "Some c"])

lemma freelist_scan_linked:
  assumes "linked (ch_blocks h) p (xs @ ys) None" and "\<And>x. x \<in> set xs \<Longrightarrow> x < b"
    and "\<And>y. y \<in> set ys \<Longrightarrow> \<not> y < b"
  shows "freelist_scan h b prev p = Some (if xs = [] then prev else Some (last xs))"
  using assms
proof (induction xs arbitrary: p prev)
  case Nil
  then show ?case by (cases ys) (auto simp: freelist_scan_Some)
next
  case (Cons x xs)
  then have "freelist_scan h b (Some x) (ch_link h x) = Some (if xs = [] then Some x else Some (last xs))"
    by simp
  with Cons.prems show ?case by (simp add: freelist_scan_Some)
qed

section \<open>Freeing a block\<close>

text \<open>The block list splits at a block; the starts before it are smaller, those after it larger.\<close>

lemma contig_split_starts:
  assumes "contig i (xs @ (b, l, u) # ys) n"
  shows "\<And>x. x \<in> set (free_starts xs) \<Longrightarrow> x < b" and "\<And>y. y \<in> set (free_starts ys) \<Longrightarrow> b < y"
    and "contig i xs b" and "contig (b + l) ys n" and "0 < l"
  using assms contig_bounds
  by (fastforce simp: contig_append set_free_starts)+

lemma free_starts_distinct: "contig i bs n \<Longrightarrow> distinct (free_starts bs)"
proof (induction i bs n rule: contig.induct)
  case (2 i s l u bs n)
  then show ?case using contig_bounds [of "i + l" bs n] by (fastforce simp: set_free_starts)
qed simp

lemma heap_reprI:
  assumes "contig 0 bs (ch_next_segment h)" and "\<And>x. x \<in> set bs \<Longrightarrow> block_ok h x"
    and "\<And>i. ch_next_segment h \<le> i \<Longrightarrow> i < ch_number_of_committed_segments h \<Longrightarrow> ch_segmap h i = 255"
    and "linked (ch_blocks h) (ch_freelist h) (free_starts bs) None"
    and "ch_freelist_segments h = free_length bs"
    and "ch_next_segment h \<le> ch_number_of_committed_segments h"
  shows "heap_repr h bs"
  using assms by (auto simp: heap_repr_def list_all_iff)

lemma heap_reprD:
  assumes "heap_repr h bs"
  shows "contig 0 bs (ch_next_segment h)" and "\<And>x. x \<in> set bs \<Longrightarrow> block_ok h x"
    and "\<And>i. ch_next_segment h \<le> i \<Longrightarrow> i < ch_number_of_committed_segments h \<Longrightarrow> ch_segmap h i = 255"
    and "linked (ch_blocks h) (ch_freelist h) (free_starts bs) None"
    and "ch_freelist_segments h = free_length bs"
    and "ch_next_segment h \<le> ch_number_of_committed_segments h"
  using assms by (auto simp: heap_repr_def list_all_iff)

text \<open>
  Merging with the right neighbour: if the next free block starts where this one ends, the two
  become one block of the list; otherwise nothing changes.
\<close>

lemma merge_right_adjacent:
  assumes r: "heap_repr h (xs @ (a, l, False) # (k, l', False) # ys)"
  shows "heap_repr (merge_right h a) (xs @ (a, l + l', False) # ys)"
proof -
  let ?bs = "xs @ (a, l, False) # (k, l', False) # ys"
  note D = heap_reprD [OF r]
  have c: "contig 0 xs a" "k = a + l" "0 < l" "0 < l'" "contig (k + l') ys (ch_next_segment h)"
    using D(1) by (auto simp: contig_append)
  have ok: "ch_length h a = l" "ch_free h a" "ch_length h k = l'" "ch_free h k"
    using D(2) by (auto simp: block_ok_def)
  obtain q where q: "linked (ch_blocks h) (ch_freelist h) (free_starts xs @ [a]) (Some k)"
    "linked (ch_blocks h) (ch_link h k) (free_starts ys) None" "ch_link h a = Some k"
    using D(4) by (auto simp: linked_append)
  define h' where "h' = merge_right h a"
  have h': "ch_blocks h' = (ch_blocks h)(a := (ch_blocks h a)\<lparr>blk_length := l + l', blk_link := ch_link h k\<rparr>)"
    "ch_segmap h' = (\<lambda>i. if a \<le> i \<and> i < a + (l + l') then seg_pat (i - a) else ch_segmap h i)"
    "ch_next_segment h' = ch_next_segment h" "ch_freelist h' = ch_freelist h"
    "ch_freelist_segments h' = ch_freelist_segments h"
    "ch_number_of_committed_segments h' = ch_number_of_committed_segments h"
    using c ok q(3) by (auto simp: h'_def merge_right_def following_block_def Let_def)
  have na: "a \<notin> set (free_starts xs)" "a \<notin> set (free_starts ys)"
    using contig_split_starts [OF D(1)] by auto
  have "linked (ch_blocks h') (ch_freelist h) (free_starts xs @ [a]) (ch_link h k)"
    by (rule linked_cong [OF linked_set_last [OF q(1) na(1)]]) (simp add: h')
  moreover have "linked (ch_blocks h') (ch_link h k) (free_starts ys) None"
    by (rule linked_cong [OF q(2)]) (use na(2) in \<open>auto simp: h'\<close>)
  ultimately have "linked (ch_blocks h') (ch_freelist h) ((free_starts xs @ [a]) @ free_starts ys) None"
    by (subst linked_append) blast
  then have lk: "linked (ch_blocks h') (ch_freelist h') (free_starts (xs @ (a, l + l', False) # ys)) None"
    by (simp add: h')
  have bo: "block_ok h' x" if x: "x \<in> set xs \<union> set ys" for x
  proof (cases x)
    case (fields s m u)
    then have "s + m \<le> a \<or> a + (l + l') \<le> s" "s \<noteq> a" "block_ok h (s, m, u)"
      using x c D(2) contig_bounds [OF c(1), of s m u] contig_bounds [OF c(5), of s m u] by auto
    then show ?thesis unfolding fields by (elim block_ok_cong) (auto simp: h')
  qed
  have ba: "block_ok h' (a, l + l', False)"
    using ok by (simp add: block_ok_def h')
  have c': "contig (a + (l + l')) ys (ch_next_segment h)" "a + (l + l') \<le> ch_next_segment h"
    using c contig_le [OF c(5)] by (simp_all add: add.assoc)
  show ?thesis
    unfolding h'_def [symmetric]
  proof (rule heap_reprI)
    show "contig 0 (xs @ (a, l + l', False) # ys) (ch_next_segment h')"
      using c c' by (auto simp: h' contig_append)
  next
    fix x
    assume "x \<in> set (xs @ (a, l + l', False) # ys)"
    then show "block_ok h' x" using ba bo [of x] by auto
  qed (use D lk c' in \<open>auto simp: h'\<close>)
qed

lemma merge_right_apart:
  assumes "heap_repr h (xs @ (a, l, False) # ys)" and "ys = [] \<or> snd (snd (hd ys))"
  shows "merge_right h a = h"
proof (cases "ch_link h a")
  case None
  then show ?thesis by (simp add: merge_right_def)
next
  case (Some k)
  note D = heap_reprD [OF assms(1)]
  have len: "ch_length h a = l" using D(2) by (auto simp: block_ok_def)
  have c: "contig (a + l) ys (ch_next_segment h)"
    using D(1) by (auto simp: contig_append)
  have "linked (ch_blocks h) (Some k) (free_starts ys) None"
    using D(4) Some by (auto simp: linked_append)
  then have "k \<in> set (free_starts ys)" by (cases "free_starts ys") auto
  then obtain m where k: "(k, m, False) \<in> set ys" by (auto simp: set_free_starts)
  then obtain s m' zs where ys: "ys = (s, m', True) # zs"
    using assms(2) by (cases ys) auto
  with k c have "a + l < k"
    using contig_bounds [of "a + l + m'" zs "ch_next_segment h" k m False] by auto
  then show ?thesis using Some len by (simp add: merge_right_def following_block_def)
qed

text \<open>The two cases together, with what they do to the list of blocks.\<close>

fun coalesce :: "ablock list \<Rightarrow> ablock list" where
  "coalesce ((a, l, False) # (k, l', False) # ys) = (a, l + l', False) # ys"
| "coalesce bs = bs"

lemma merge_right_coalesce:
  assumes "heap_repr h (xs @ (a, l, False) # ys)"
  shows "heap_repr (merge_right h a) (xs @ coalesce ((a, l, False) # ys))"
proof (cases "ys = [] \<or> snd (snd (hd ys))")
  case True
  then have "coalesce ((a, l, False) # ys) = (a, l, False) # ys"
    by (cases ys) auto
  with assms True show ?thesis by (simp add: merge_right_apart)
next
  case False
  then obtain k l' zs where "ys = (k, l', False) # zs" by (cases ys) auto
  with assms show ?thesis by (simp add: merge_right_adjacent)
qed

definition join_left :: "ablock list \<Rightarrow> ablock list \<Rightarrow> ablock list" where
  "join_left xs zs =
     (if xs \<noteq> [] \<and> \<not> snd (snd (last xs)) then butlast xs @ coalesce (last xs # zs) else xs @ zs)"

text \<open>What freeing the block between \<open>xs\<close> and \<open>ys\<close> makes of the list.\<close>

definition free_block :: "ablock list \<Rightarrow> nat \<Rightarrow> nat \<Rightarrow> ablock list \<Rightarrow> ablock list" where
  "free_block xs b l ys = join_left xs (coalesce ((b, l, False) # ys))"

lemma heap_repr_relink:
  assumes r: "heap_repr h (xs @ (b, l, u) # ys)"
    and "\<And>s. ch_length h' s = ch_length h s"
    and "\<And>s. blk_used (ch_blocks h' s) = (if s = b then u' else blk_used (ch_blocks h s))"
    and "ch_segmap h' = ch_segmap h" and "ch_next_segment h' = ch_next_segment h"
    and "ch_number_of_committed_segments h' = ch_number_of_committed_segments h"
    and "ch_freelist_segments h' = free_length (xs @ (b, l, u') # ys)"
    and "linked (ch_blocks h') (ch_freelist h') (free_starts (xs @ (b, l, u') # ys)) None"
  shows "heap_repr h' (xs @ (b, l, u') # ys)"
proof (rule heap_reprI)
  note D = heap_reprD [OF r]
  have c: "contig 0 xs b" "contig (b + l) ys (ch_next_segment h)"
    using D(1) by (auto simp: contig_append)
  show "contig 0 (xs @ (b, l, u') # ys) (ch_next_segment h')"
    using D(1) assms(5) by (auto simp: contig_append)
  fix x
  assume x: "x \<in> set (xs @ (b, l, u') # ys)"
  show "block_ok h' x"
  proof (cases x)
    case (fields s m v)
    show ?thesis
    proof (cases "(s, m, v) \<in> set xs \<union> set ys")
      case True
      then have "s \<noteq> b"
        using contig_bounds [OF c(1), of s m v] contig_bounds [OF c(2), of s m v]
          contig_split_starts(5) [OF D(1)] by auto
      moreover have "block_ok h (s, m, v)" using True D(2) by auto
      ultimately show ?thesis using assms(2-4) fields by (simp add: block_ok_def)
    next
      case False
      then have "(s, m, v) = (b, l, u')" using x fields by auto
      moreover have "block_ok h (b, l, u)" using D(2) by auto
      ultimately show ?thesis using assms(2-4) fields by (simp add: block_ok_def)
    qed
  qed
qed (use heap_reprD [OF r] assms in auto)

text \<open>The last free block before the freed one.\<close>

lemma last_free_split:
  assumes "free_starts xs \<noteq> []"
  obtains xs1 la xs2 where "xs = xs1 @ (last (free_starts xs), la, False) # xs2"
    and "free_starts xs2 = []" and "free_starts xs = free_starts xs1 @ [last (free_starts xs)]"
  using assms
proof (induction xs arbitrary: thesis rule: rev_induct)
  case Nil
  then show ?case by simp
next
  case (snoc x xs)
  obtain s m u where x: "x = (s, m, u)" by (cases x)
  show ?case
  proof (cases u)
    case False
    then show ?thesis using snoc.prems(1) [of xs m "[]"] by (simp add: x)
  next
    case True
    then have ne: "free_starts xs \<noteq> []" using snoc.prems(2) by (simp add: x)
    obtain xs1 la xs2 where "xs = xs1 @ (last (free_starts xs), la, False) # xs2"
      "free_starts xs2 = []" "free_starts xs = free_starts xs1 @ [last (free_starts xs)]"
      using snoc.IH [OF _ ne] by blast
    then show ?thesis
      using snoc.prems(1) [of xs1 la "xs2 @ [x]"] True by (simp add: x)
  qed
qed

lemma free_starts_Nil: "free_starts bs = [] \<longleftrightarrow> (\<forall>(s, l, u) \<in> set bs. u)"
  by (auto simp: free_starts_def filter_empty_conv)

lemma free_starts_last: "free_starts xs = [] \<Longrightarrow> xs = [] \<or> snd (snd (last xs))"
  by (cases xs rule: rev_cases) (auto simp: free_starts_Nil)

text \<open>The state after the block's header is marked free, before it is linked in.\<close>

definition mark_freed :: "code_heap \<Rightarrow> nat \<Rightarrow> code_heap" where
  "mark_freed h b = set_used (h\<lparr>ch_freelist_segments := ch_freelist_segments h + ch_length h b\<rparr>) b False"

lemma add_to_freelist_eq:
  "add_to_freelist h b =
     (case ch_freelist (mark_freed h b) of
        None \<Rightarrow> Some (set_link ((mark_freed h b)\<lparr>ch_freelist := Some b\<rparr>) b None)
      | Some f \<Rightarrow>
          do { prev \<leftarrow> freelist_scan (mark_freed h b) b None (Some f);
               Some (case prev of
                   None \<Rightarrow> merge_right ((set_link (mark_freed h b) b (Some f))\<lparr>ch_freelist := Some b\<rparr>) b
                 | Some a \<Rightarrow> insert_after (mark_freed h b) a b) })"
  by (simp only: add_to_freelist_def Let_def mark_freed_def)

lemma mark_freed_linked:
  assumes "heap_repr h (xs @ (b, l, True) # ys)"
  shows "linked (ch_blocks (mark_freed h b)) (ch_freelist (mark_freed h b))
    (free_starts xs @ free_starts ys) None"
proof -
  have "linked (ch_blocks h) (ch_freelist h) (free_starts xs @ free_starts ys) None"
    using heap_reprD(4) [OF assms] by simp
  then have "linked (ch_blocks (mark_freed h b)) (ch_freelist h) (free_starts xs @ free_starts ys) None"
    by (rule linked_cong) (simp add: mark_freed_def)
  then show ?thesis by (simp add: mark_freed_def)
qed

text \<open>Any re-linking of the marked state that puts the block in its place represents the new list.\<close>

lemma relink_freed:
  assumes r: "heap_repr h (xs @ (b, l, True) # ys)"
    and len: "\<And>s. ch_length g s = ch_length (mark_freed h b) s"
    and used: "\<And>s. blk_used (ch_blocks g s) = blk_used (ch_blocks (mark_freed h b) s)"
    and rest: "ch_segmap g = ch_segmap h" "ch_next_segment g = ch_next_segment h"
      "ch_number_of_committed_segments g = ch_number_of_committed_segments h"
      "ch_freelist_segments g = ch_freelist_segments (mark_freed h b)"
    and lk: "linked (ch_blocks g) (ch_freelist g) (free_starts xs @ b # free_starts ys) None"
  shows "heap_repr g (xs @ (b, l, False) # ys)"
proof (rule heap_repr_relink [OF r])
  have "ch_length h b = l" using heap_reprD(2) [OF r, of "(b, l, True)"] by (simp add: block_ok_def)
  then show "ch_freelist_segments g = free_length (xs @ (b, l, False) # ys)"
    using rest(4) heap_reprD(5) [OF r] by (simp add: mark_freed_def)
  show "linked (ch_blocks g) (ch_freelist g) (free_starts (xs @ (b, l, False) # ys)) None"
    using lk by simp
qed (simp_all add: len used rest mark_freed_def)

lemma add_to_freelist_first:
  assumes r: "heap_repr h (xs @ (b, l, True) # ys)" and none: "free_starts xs = []"
  shows "\<exists>h'. add_to_freelist h b = Some h' \<and> heap_repr h' (free_block xs b l ys)"
proof -
  note lk = mark_freed_linked [OF r, unfolded none append_Nil]
  note st = contig_split_starts [OF heap_reprD(1) [OF r]]
  note used = free_starts_last [OF none]
  show ?thesis
  proof (cases "ch_freelist (mark_freed h b)")
    case None
    define g where "g = set_link ((mark_freed h b)\<lparr>ch_freelist := Some b\<rparr>) b None"
    from lk None have ys: "free_starts ys = []" by (cases "free_starts ys") auto
    then have "coalesce ((b, l, False) # ys) = (b, l, False) # ys"
      by (cases ys) (auto simp: free_starts_Nil)
    then have "free_block xs b l ys = xs @ (b, l, False) # ys"
      using used by (auto simp: free_block_def join_left_def)
    moreover have "heap_repr g (xs @ (b, l, False) # ys)"
      by (rule relink_freed [OF r]) (simp_all add: g_def mark_freed_def none ys)
    ultimately show ?thesis using None by (simp add: add_to_freelist_eq g_def)
  next
    case (Some f)
    define g where "g = (set_link (mark_freed h b) b (Some f))\<lparr>ch_freelist := Some b\<rparr>"
    have "linked (ch_blocks g) (Some f) (free_starts ys) None"
      by (rule linked_cong [OF lk [unfolded Some]]) (use st(2) in \<open>auto simp: g_def\<close>)
    then have "heap_repr g (xs @ (b, l, False) # ys)"
      by (intro relink_freed [OF r]) (simp_all add: g_def mark_freed_def none)
    then have "heap_repr (merge_right g b) (free_block xs b l ys)"
      using merge_right_coalesce [of g xs b l ys] used by (auto simp: free_block_def join_left_def)
    moreover have "freelist_scan (mark_freed h b) b None (Some f) = Some None"
      using freelist_scan_linked [of "mark_freed h b" "Some f" "[]" "free_starts ys" b None] lk Some st(2)
      by (simp add: order_less_not_sym)
    ultimately show ?thesis using Some by (simp add: add_to_freelist_eq g_def)
  qed
qed

text \<open>Coalescing around the last free block before the freed one is \<open>free_block\<close>.\<close>

lemma free_block_after:
  assumes "xs = xs1 @ (a, la, False) # xs2" and fs2: "free_starts xs2 = []"
  shows "xs1 @ coalesce ((a, la, False) # xs2 @ coalesce ((b, l, False) # ys)) = free_block xs b l ys"
proof (cases xs2)
  case Nil
  then show ?thesis by (simp add: free_block_def join_left_def assms)
next
  case (Cons x xs3)
  then have "snd (snd (last xs))" "snd (snd x)"
    using fs2 free_starts_last [OF fs2] by (auto simp: assms free_starts_Nil)
  then show ?thesis
    using Cons by (cases x) (auto simp: free_block_def join_left_def assms)
qed

lemma add_to_freelist_after:
  assumes r: "heap_repr h (xs @ (b, l, True) # ys)" and some: "free_starts xs \<noteq> []"
  shows "\<exists>h'. add_to_freelist h b = Some h' \<and> heap_repr h' (free_block xs b l ys)"
proof -
  note c = heap_reprD(1) [OF r]
  note st = contig_split_starts [OF c]
  define a where "a = last (free_starts xs)"
  from last_free_split [OF some] obtain xs1 la xs2 where
    xs: "xs = xs1 @ (a, la, False) # xs2" and fs2: "free_starts xs2 = []"
    and fs: "free_starts xs = free_starts xs1 @ [a]"
    unfolding a_def by metis
  define g where "g = set_link (set_link (mark_freed h b) b (ch_link (mark_freed h b) a)) a (Some b)"
  have a1: "a \<notin> set (free_starts xs1)" "a \<notin> set (free_starts ys)" "a < b"
    using free_starts_distinct [OF c] st(1) by (auto simp: fs)
  obtain q where q: "linked (ch_blocks (mark_freed h b)) (ch_freelist (mark_freed h b)) (free_starts xs1 @ [a]) q"
    "linked (ch_blocks (mark_freed h b)) q (free_starts ys) None" "ch_link (mark_freed h b) a = q"
    using mark_freed_linked [OF r] unfolding fs by (auto simp: linked_append)
  have fg: "ch_freelist g = ch_freelist (mark_freed h b)" "ch_link g b = q"
    using a1(3) q(3) by (simp_all add: g_def)
  have "linked (ch_blocks g) (ch_freelist (mark_freed h b)) (free_starts xs1 @ [a]) (Some b)"
    by (rule linked_cong [OF linked_set_last [OF q(1) a1(1)]]) (use st(1) fs in \<open>auto simp: g_def\<close>)
  moreover have "linked (ch_blocks g) q (free_starts ys) None"
    by (rule linked_cong [OF q(2)]) (use st(2) a1(2) in \<open>auto simp: g_def\<close>)
  ultimately have "linked (ch_blocks g) (ch_freelist g) (free_starts xs @ b # free_starts ys) None"
    unfolding fs fg(1) by (subst linked_append) (auto intro!: exI [of _ "Some b"] simp: fg(2))
  then have "heap_repr g (xs @ (b, l, False) # ys)"
    by (intro relink_freed [OF r]) (auto simp: g_def mark_freed_def)
  then have "heap_repr (merge_right g b) (xs1 @ (a, la, False) # xs2 @ coalesce ((b, l, False) # ys))"
    using merge_right_coalesce [of g xs b l ys] by (simp add: xs)
  then have "heap_repr (merge_right (merge_right g b) a) (free_block xs b l ys)"
    using merge_right_coalesce free_block_after [OF xs fs2] by metis
  moreover have "add_to_freelist h b = Some (merge_right (merge_right g b) a)"
  proof -
    obtain f where f: "ch_freelist (mark_freed h b) = Some f"
      using q(1) by (cases "free_starts xs1") auto
    have "freelist_scan (mark_freed h b) b None (Some f) = Some (Some a)"
      using freelist_scan_linked [OF mark_freed_linked [OF r], of b None] st(1,2) some f
      by (simp add: a_def order_less_not_sym)
    then show ?thesis by (simp add: add_to_freelist_eq f g_def insert_after_def Let_def)
  qed
  ultimately show ?thesis by blast
qed

text \<open>Freeing always returns, and represents the list with the block freed and coalesced.\<close>

lemma add_to_freelist_repr:
  assumes "heap_repr h (xs @ (b, l, True) # ys)"
  shows "\<exists>h'. add_to_freelist h b = Some h' \<and> heap_repr h' (free_block xs b l ys)"
  using add_to_freelist_first [OF assms] add_to_freelist_after [OF assms] by blast

lemma no_adjacent_free_Cons:
  "no_adjacent_free (x # ys) \<longleftrightarrow> no_adjacent_free ys \<and> (ys = [] \<or> snd (snd x) \<or> snd (snd (hd ys)))"
  by (cases x; cases ys) auto

lemma no_adjacent_free_append:
  "no_adjacent_free (xs @ ys) \<longleftrightarrow> no_adjacent_free xs \<and> no_adjacent_free ys \<and>
     (xs = [] \<or> ys = [] \<or> snd (snd (last xs)) \<or> snd (snd (hd ys)))"
  by (induction xs) (auto simp: no_adjacent_free_Cons hd_append)

lemma coalesce_shape:
  assumes "no_adjacent_free ys"
  obtains m zs where "coalesce ((b, l, False) # ys) = (b, m, False) # zs"
    and "no_adjacent_free zs" and "zs = [] \<or> snd (snd (hd zs))"
proof (cases "ys = [] \<or> snd (snd (hd ys))")
  case True
  then have "coalesce ((b, l, False) # ys) = (b, l, False) # ys" by (cases ys) auto
  with True assms that show ?thesis by blast
next
  case False
  then obtain k l' zs where ys: "ys = (k, l', False) # zs" by (cases ys) auto
  then have "coalesce ((b, l, False) # ys) = (b, l + l', False) # zs" by simp
  with assms that show ?thesis by (auto simp: ys no_adjacent_free_Cons)
qed

lemma free_block_no_adjacent:
  assumes "no_adjacent_free (xs @ (b, l, True) # ys)"
  shows "no_adjacent_free (free_block xs b l ys)"
proof -
  have n: "no_adjacent_free xs" "no_adjacent_free ys"
    using assms by (auto simp: no_adjacent_free_append no_adjacent_free_Cons)
  obtain m zs where z: "coalesce ((b, l, False) # ys) = (b, m, False) # zs"
    "no_adjacent_free zs" "zs = [] \<or> snd (snd (hd zs))"
    by (rule coalesce_shape [OF n(2)])
  show ?thesis
  proof (cases "xs \<noteq> [] \<and> \<not> snd (snd (last xs))")
    case True
    then obtain xs1 a la where xs: "xs = xs1 @ [(a, la, False)]"
      by (cases xs rule: rev_cases) auto
    then show ?thesis
      using n(1) z by (auto simp: free_block_def join_left_def no_adjacent_free_append no_adjacent_free_Cons)
  next
    case False
    then show ?thesis
      using n(1) z by (auto simp: free_block_def join_left_def no_adjacent_free_append no_adjacent_free_Cons)
  qed
qed

text \<open>The used blocks, with their first segment and length.\<close>

definition used_blocks :: "ablock list \<Rightarrow> (nat \<times> nat) set" where
  "used_blocks bs = {(s, l). (s, l, True) \<in> set bs}"

lemma used_blocks_simps [simp]:
  "used_blocks [] = {}"
  "used_blocks ((s, l, u) # bs) = (if u then insert (s, l) (used_blocks bs) else used_blocks bs)"
  "used_blocks (xs @ ys) = used_blocks xs \<union> used_blocks ys"
  by (auto simp: used_blocks_def)

lemma used_blocks_coalesce [simp]: "used_blocks (coalesce bs) = used_blocks bs"
  by (induction bs rule: coalesce.induct) auto

lemma used_blocks_free_block:
  "used_blocks (free_block xs b l ys) = used_blocks xs \<union> used_blocks ys"
proof (cases xs rule: rev_cases)
  case (snoc zs z)
  then show ?thesis by (cases z) (auto simp: free_block_def join_left_def)
qed (simp add: free_block_def join_left_def)

section \<open>Searching the free list\<close>

lemma search_loop_None [simp]: "search_loop fl h len crit prev None best = Some best"
  by (simp add: search_loop.simps [of fl h len crit prev None best])

lemma search_loop_Some:
  "search_loop fl h len crit prev (Some c) best =
     (if len \<le> ch_length h c \<and> (fst best = None \<or> ch_length h c < snd (snd best)) then
        if \<not> crit \<and>
           usub64 (ch_high_boundary h) (CodeCacheMinimumFreeSpace fl) < uadd64 (block_at h c) len
        then Some best
        else search_loop fl h len crit (Some c) (ch_link h c) (Some c, prev, ch_length h c)
      else search_loop fl h len crit (Some c) (ch_link h c) best)"
  by (subst search_loop.simps) (simp only: Let_def option.sel option.distinct if_False simp_thms)

definition prev_of :: "nat list \<Rightarrow> nat option" where
  "prev_of xs = (if xs = [] then None else Some (last xs))"

text \<open>A candidate found so far: a block of the list that is long enough, with its predecessor.\<close>

definition fit_in :: "code_heap \<Rightarrow> nat \<Rightarrow> nat list \<Rightarrow> best_fit \<Rightarrow> bool" where
  "fit_in h len ss best \<longleftrightarrow> best = (None, None, 0) \<or>
     (\<exists>as c cs. ss = as @ c # cs \<and> best = (Some c, prev_of as, ch_length h c) \<and> len \<le> ch_length h c)"

lemma fit_in_append: "fit_in h len ss best \<Longrightarrow> fit_in h len (ss @ ts) best"
  unfolding fit_in_def by (metis append.assoc append_Cons)

lemma search_loop_fits:
  assumes "linked (ch_blocks h) cur ts None" and "fit_in h len ss best" and "prev = prev_of ss"
  shows "\<exists>best'. search_loop fl h len crit prev cur best = Some best' \<and> fit_in h len (ss @ ts) best'"
  using assms
proof (induction ts arbitrary: cur ss prev best)
  case Nil
  then show ?case by auto
next
  case (Cons c ts)
  then have cur: "cur = Some c" and lk: "linked (ch_blocks h) (ch_link h c) ts None"
    by auto
  have prev: "Some c = prev_of (ss @ [c])" by (simp add: prev_of_def)
  have new: "fit_in h len (ss @ [c]) (Some c, prev, ch_length h c)" if "len \<le> ch_length h c"
    using that Cons.prems(3) by (auto simp: fit_in_def)
  note step = Cons.IH [OF lk _ prev]
  show ?case
    using step [OF new] step [OF fit_in_append [OF Cons.prems(2), of "[c]"]]
      fit_in_append [OF Cons.prems(2), of "c # ts"]
    by (simp add: cur search_loop_Some del: split_paired_Ex)
qed

text \<open>A critical request gets the smallest block that is long enough.\<close>

lemma search_loop_smallest:
  assumes "linked (ch_blocks h) cur ts None"
    and "search_loop fl h len True prev cur best = Some best'" and "fst best = None \<or> len \<le> snd (snd best)"
  shows "(\<forall>c \<in> set ts. len \<le> ch_length h c \<longrightarrow> fst best' \<noteq> None \<and> snd (snd best') \<le> ch_length h c) \<and>
     (fst best \<noteq> None \<longrightarrow> fst best' \<noteq> None \<and> snd (snd best') \<le> snd (snd best))"
  using assms
proof (induction ts arbitrary: cur prev best)
  case Nil
  then show ?case by auto
next
  case (Cons c ts)
  then have cur: "cur = Some c" and lk: "linked (ch_blocks h) (ch_link h c) ts None"
    by auto
  show ?case
  proof (cases "len \<le> ch_length h c \<and> (fst best = None \<or> ch_length h c < snd (snd best))")
    case True
    then show ?thesis
      using Cons.IH [OF lk, of "Some c" "(Some c, prev, ch_length h c)"] Cons.prems(2)
      by (auto simp: cur search_loop_Some)
  next
    case False
    then show ?thesis
      using Cons.IH [OF lk, of "Some c" best] Cons.prems(2,3)
      by (auto simp: cur search_loop_Some)
  qed
qed

end
