(* ===== verification/CodeHeap_Alloc.thy ===== *)
theory CodeHeap_Alloc
  imports CodeHeap_Correct
begin

text \<open>
  Allocation from the code heap: taking a block from the free list or from the unallocated end,
  the invariant over every operation, the lookup of a block from an address inside it, and the
  iteration over the used blocks.
\<close>

section \<open>Taking a block from the free list\<close>

lemma free_starts_split:
  assumes "free_starts bs = as @ c # cs"
  obtains xs l ys where "bs = xs @ (c, l, False) # ys" and "free_starts xs = as" and "free_starts ys = cs"
  using assms
proof (induction bs arbitrary: as thesis)
  case Nil
  then show ?case by simp
next
  case (Cons x bs)
  obtain s m u where x: "x = (s, m, u)" by (cases x)
  show ?case
  proof (cases "u \<or> as \<noteq> []")
    case True
    define as' where "as' = (if u then as else tl as)"
    have as': "free_starts bs = as' @ c # cs" "as = (if u then as' else s # as')"
      using Cons.prems(2) True by (auto simp: x as'_def Cons_eq_append_conv split: if_splits)
    obtain xs l ys where "bs = xs @ (c, l, False) # ys" "free_starts xs = as'" "free_starts ys = cs"
      using Cons.IH [OF _ as'(1)] by blast
    then show ?thesis using Cons.prems(1) [of "x # xs" l ys] as'(2) by (simp add: x)
  next
    case False
    then show ?thesis using Cons.prems(1) [of "[]" m bs] Cons.prems(2) by (simp add: x)
  qed
qed

text \<open>
  What taking \<open>len\<close> segments from the free block \<open>(c, l)\<close> makes of the list: the whole block if
  the rest would be too small to keep, otherwise its upper end.
\<close>

definition take_block ::
    "code_flags \<Rightarrow> nat \<Rightarrow> ablock list \<Rightarrow> nat \<Rightarrow> nat \<Rightarrow> ablock list \<Rightarrow> nat \<times> ablock list" where
  "take_block fl len xs c l ys =
     (if l < len + CodeCacheMinBlockLength fl then (c, xs @ (c, l, True) # ys)
      else (c + (l - len), xs @ (c, l - len, False) # (c + (l - len), len, True) # ys))"

lemma take_whole_repr:
  assumes r: "heap_repr h (xs @ (c, l, False) # ys)"
    and small: "ch_number_of_committed_segments h < size_max"
  defines "h1 \<equiv> (case prev_of (free_starts xs) of
      None \<Rightarrow> h\<lparr>ch_freelist := ch_link h (the (ch_freelist h))\<rparr>
    | Some a \<Rightarrow> set_link h a (ch_link h c))"
  shows "heap_repr ((set_used h1 c True)\<lparr>ch_freelist_segments :=
    usub64 (ch_freelist_segments (set_used h1 c True)) l\<rparr>) (xs @ (c, l, True) # ys)" (is "heap_repr ?g _")
proof -
  note D = heap_reprD [OF r]
  note st = contig_split_starts [OF D(1)]
  have "free_length (xs @ (c, l, False) # ys) < size_max"
    using contig_lengths [OF D(1)] D(6) small by simp
  then have seg: "usub64 (ch_freelist_segments h) l = free_length (xs @ (c, l, True) # ys)"
    by (simp add: D(5) usub64_le)
  have "linked (ch_blocks ?g) (ch_freelist ?g) (free_starts xs @ free_starts ys) None"
  proof (cases "free_starts xs = []")
    case True
    then show ?thesis
      using D(4) by (auto simp: h1_def prev_of_def elim: linked_cong)
  next
    case False
    define a where "a = last (free_starts xs)"
    obtain fs where fs: "free_starts xs = fs @ [a]" using False unfolding a_def by (metis append_butlast_last_id)
    have lk: "linked (ch_blocks h) (ch_freelist h) (fs @ [a]) (Some c)"
      "linked (ch_blocks h) (ch_link h c) (free_starts ys) None"
      using D(4) by (auto simp: fs linked_append)
    have a: "a \<notin> set fs" "a \<notin> set (free_starts ys)" "a \<noteq> c"
      using free_starts_distinct [OF D(1)] st(1,2) by (auto simp: fs)
    define g where "g = ch_blocks ?g"
    have g: "g = ((ch_blocks h)(a := (ch_blocks h a)\<lparr>blk_link := ch_link h c\<rparr>))
        (c := (ch_blocks h c)\<lparr>blk_used := True\<rparr>)"
      using a(3) by (simp add: g_def h1_def prev_of_def fs)
    have "linked g (ch_freelist h) (fs @ [a]) (ch_link h c)"
      by (rule linked_cong [OF linked_set_last [OF lk(1) a(1)]]) (simp add: g)
    moreover have "linked g (ch_link h c) (free_starts ys) None"
      by (rule linked_cong [OF lk(2)]) (use a(2) in \<open>auto simp: g\<close>)
    ultimately have "linked g (ch_freelist h) ((fs @ [a]) @ free_starts ys) None"
      by (subst linked_append) blast
    then show ?thesis
      by (simp add: g_def fs h1_def prev_of_def)
  qed
  then show ?thesis
    by (intro heap_repr_relink [OF r]) (auto simp: h1_def seg split: option.split)
qed

lemma take_split_repr:
  assumes r: "heap_repr h (xs @ (c, l, False) # ys)" and len: "0 < len" "len < l"
    and small: "ch_number_of_committed_segments h < size_max"
  defines "b \<equiv> c + (l - len)"
  defines "h1 \<equiv> mark_segmap_as_used (set_length h c (l - len)) b (b + len)"
  defines "g \<equiv> (set_used (set_length h1 b len) b True)\<lparr>ch_freelist_segments := usub64 (ch_freelist_segments h) len\<rparr>"
  shows "heap_repr g (xs @ (c, l - len, False) # (b, len, True) # ys)"
proof (rule heap_reprI)
  note D = heap_reprD [OF r]
  have c: "contig 0 xs c" "contig (c + l) ys (ch_next_segment h)" "b + len = c + l"
    using contig_split_starts [OF D(1)] len by (simp_all add: b_def)
  have g: "ch_blocks g = (ch_blocks h)(c := (ch_blocks h c)\<lparr>blk_length := l - len\<rparr>,
      b := (ch_blocks h b)\<lparr>blk_length := len, blk_used := True\<rparr>)"
    "ch_segmap g = (\<lambda>i. if b \<le> i \<and> i < b + len then seg_pat (i - b) else ch_segmap h i)"
    "ch_freelist_segments g = usub64 (ch_freelist_segments h) len"
    "ch_freelist g = ch_freelist h" "ch_next_segment g = ch_next_segment h"
    "ch_number_of_committed_segments g = ch_number_of_committed_segments h"
    using len by (auto simp: g_def h1_def b_def fun_eq_iff)
  show "contig 0 (xs @ (c, l - len, False) # (b, len, True) # ys) (ch_next_segment g)"
    using c len by (auto simp: g contig_append b_def)
  have "free_length (xs @ (c, l, False) # ys) < size_max"
    using contig_lengths [OF D(1)] D(6) small by simp
  then show "ch_freelist_segments g = free_length (xs @ (c, l - len, False) # (b, len, True) # ys)"
    using len by (simp add: g D(5) usub64_le)
  show "linked (ch_blocks g) (ch_freelist g) (free_starts (xs @ (c, l - len, False) # (b, len, True) # ys)) None"
    using D(4) by (auto simp: g elim: linked_cong)
  show "ch_segmap g i = 255" if "ch_next_segment g \<le> i" "i < ch_number_of_committed_segments g" for i
    using that D(3) [of i] contig_le [OF c(2)] c(3) by (simp add: g)
  show "ch_next_segment g \<le> ch_number_of_committed_segments g" by (simp add: g D(6))
  fix x
  assume x: "x \<in> set (xs @ (c, l - len, False) # (b, len, True) # ys)"
  have ok: "block_ok h (c, l, False)" using D(2) by simp
  show "block_ok g x"
  proof (cases "x \<in> set xs \<union> set ys")
    case True
    obtain s m u where fields: "x = (s, m, u)" by (cases x)
    with True have "s + m \<le> c \<or> c + l \<le> s" "s \<noteq> c" "s \<noteq> b" "block_ok h (s, m, u)"
      using c len D(2) contig_bounds [OF c(1), of s m u] contig_bounds [OF c(2), of s m u]
      by (auto simp: b_def)
    then show ?thesis unfolding fields using c(3) len by (elim block_ok_cong) (auto simp: g b_def)
  next
    case False
    then have "x = (c, l - len, False) \<or> x = (b, len, True)" using x by auto
    then show ?thesis using ok len by (auto simp: block_ok_def g b_def)
  qed
qed

text \<open>
  The search always returns. Without a fit the heap is unchanged; otherwise a free block that is
  long enough is taken.
\<close>

lemma search_freelist_repr:
  assumes r: "heap_repr h bs" and len: "0 < len" and pos: "0 < CodeCacheMinBlockLength fl"
    and small: "ch_number_of_committed_segments h < size_max"
  shows "search_freelist fl h len crit = Some (h, None) \<or>
    (\<exists>h' xs c l ys. bs = xs @ (c, l, False) # ys \<and> len \<le> l \<and>
       search_freelist fl h len crit = Some (h', Some (fst (take_block fl len xs c l ys))) \<and>
       heap_repr h' (snd (take_block fl len xs c l ys)))"
proof -
  have "fit_in h len [] (None, None, 0)" by (simp add: fit_in_def)
  from search_loop_fits [OF heap_reprD(4) [OF r] this, of None fl crit]
  obtain best where best: "search_loop fl h len crit None (ch_freelist h) (None, None, 0) = Some best"
    "fit_in h len (free_starts bs) best"
    by (metis append_Nil prev_of_def)
  show ?thesis
  proof (cases "best = (None, None, 0)")
    case True
    then show ?thesis using best(1) by (simp add: search_freelist_def)
  next
    case False
    then obtain as c cs where c: "free_starts bs = as @ c # cs"
      "best = (Some c, prev_of as, ch_length h c)" "len \<le> ch_length h c"
      using best(2) by (auto simp: fit_in_def)
    from free_starts_split [OF c(1)] obtain xs l ys where
      bs: "bs = xs @ (c, l, False) # ys" and as: "free_starts xs = as" by metis
    have l: "ch_length h c = l"
      using heap_reprD(2) [OF r, of "(c, l, False)"] by (simp add: bs block_ok_def)
    have "\<exists>h'. search_freelist fl h len crit = Some (h', Some (fst (take_block fl len xs c l ys))) \<and>
       heap_repr h' (snd (take_block fl len xs c l ys))"
    proof (cases "l < len + CodeCacheMinBlockLength fl")
      case True
      then show ?thesis
        using take_whole_repr [OF r [unfolded bs] small] best(1)
        by (simp add: search_freelist_def c(2) l as take_block_def Let_def del: ch_updates ch_marks)
    next
      case False
      then show ?thesis
        using take_split_repr [OF r [unfolded bs] len _ small] pos best(1)
        by (simp add: search_freelist_def c(2) l as take_block_def Let_def following_block_def)
    qed
    then show ?thesis using bs c(3) l by blast
  qed
qed

lemma take_block_props:
  assumes bs: "bs = xs @ (c, l, False) # ys" and n: "no_adjacent_free bs"
    and len: "0 < len" "len \<le> l" and pos: "0 < CodeCacheMinBlockLength fl"
  obtains b m where "fst (take_block fl len xs c l ys) = b" and "len \<le> m" and "c \<le> b" and "b + m = c + l"
    and "used_blocks (snd (take_block fl len xs c l ys)) = insert (b, m) (used_blocks bs)"
    and "no_adjacent_free (snd (take_block fl len xs c l ys))"
proof (cases "l < len + CodeCacheMinBlockLength fl")
  case True
  then show ?thesis
    using n len that [of c l] by (auto simp: take_block_def bs no_adjacent_free_append no_adjacent_free_Cons)
next
  case False
  then show ?thesis
    using n len pos that [of "c + (l - len)" len]
    by (auto simp: take_block_def bs no_adjacent_free_append no_adjacent_free_Cons)
qed

section \<open>Geometry\<close>

text \<open>The fields no operation but \<open>expand_by\<close> changes.\<close>

definition geom :: "code_heap \<Rightarrow> virtual_space \<times> virtual_space \<times> nat \<times> nat \<times> nat \<times> nat" where
  "geom h = (ch_memory h, ch_segmap_space h, ch_number_of_committed_segments h,
     ch_number_of_reserved_segments h, ch_segment_size h, ch_log2_segment_size h)"

lemma geom_updates [simp]:
  "geom (set_length h b l) = geom h" "geom (set_used h b u) = geom h" "geom (set_link h b k) = geom h"
  "geom (mark_segmap_as_used h i j) = geom h" "geom (h\<lparr>ch_freelist := f\<rparr>) = geom h"
  "geom (h\<lparr>ch_freelist_segments := n\<rparr>) = geom h" "geom (h\<lparr>ch_next_segment := n\<rparr>) = geom h"
  by (simp_all add: geom_def set_length_def set_used_def set_link_def mark_segmap_as_used_def)

lemma geom_merge_right [simp]: "geom (merge_right h a) = geom h"
  by (simp add: merge_right_def Let_def split: option.split)

lemma geom_add_to_freelist:
  assumes "add_to_freelist h b = Some h'"
  shows "geom h' = geom h"
  using assms
  by (auto simp: add_to_freelist_def insert_after_def Let_def bind_eq_Some_conv split: option.splits)

lemma geom_search_freelist:
  assumes "search_freelist fl h len crit = Some (h', r)"
  shows "geom h' = geom h"
proof (cases "search_loop fl h len crit None (ch_freelist h) (None, None, 0)")
  case None
  then show ?thesis using assms by (simp add: search_freelist_def)
next
  case (Some best)
  obtain b p l where best: "best = (b, p, l)" by (cases best)
  show ?thesis
    using assms by (cases b; cases p) (auto simp: search_freelist_def Some best Let_def split: if_splits)
qed

lemma geom_cong:
  assumes "geom h' = geom h"
  shows "heap_geometry h' = heap_geometry h" and "block_at h' = block_at h"
    and "allocated_space h' = allocated_space h" and "segment_for h' = segment_for h"
    and "ch_number_of_committed_segments h' = ch_number_of_committed_segments h"
    and "ch_memory h' = ch_memory h"
  using assms
  by (simp_all add: geom_def heap_geometry_def block_at_def [abs_def] allocated_space_def [abs_def]
      segment_for_def [abs_def])

lemma geometry_bounds:
  assumes "heap_geometry h"
  shows "ch_segment_size h = 2 ^ ch_log2_segment_size h" and "24 \<le> ch_segment_size h"
    and "ch_number_of_committed_segments h * ch_segment_size h = vs_high (ch_memory h) - vs_low (ch_memory h)"
    and "vs_low (ch_memory h) \<le> vs_high (ch_memory h)" and "vs_high (ch_memory h) < size_max"
    and "vs_low_boundary (ch_memory h) = vs_low (ch_memory h)"
  using assms
  by (auto simp: heap_geometry_def vs_inv_def vs_sizes sizeof_FreeBlock_def)
    (auto simp: vs_layout_def vs_boundaries_def)

lemma committed_segments_small:
  assumes "heap_geometry h"
  shows "ch_number_of_committed_segments h < size_max"
proof -
  have "ch_number_of_committed_segments h * 1 \<le> ch_number_of_committed_segments h * ch_segment_size h"
    using geometry_bounds(2) [OF assms] by (intro mult_le_mono) auto
  then show ?thesis using geometry_bounds(3-5) [OF assms] by linarith
qed

lemma block_at_eq: "heap_geometry h \<Longrightarrow> block_at h i = vs_low (ch_memory h) + i * ch_segment_size h"
  by (simp add: block_at_def push_bit_eq_mult geometry_bounds(1))

lemma block_at_le_high:
  assumes "heap_geometry h" and "i \<le> ch_number_of_committed_segments h"
  shows "block_at h i \<le> vs_high (ch_memory h)"
  using mult_le_mono1 [OF assms(2), of "ch_segment_size h"] geometry_bounds(3,4) [OF assms(1)]
  by (simp add: block_at_eq [OF assms(1)])

lemma segment_for_eq:
  assumes "heap_geometry h" and "vs_low (ch_memory h) \<le> p" and "p < size_max"
  shows "segment_for h p = (p - vs_low (ch_memory h)) div ch_segment_size h"
  using assms(2,3) by (simp add: segment_for_def drop_bit_eq_div geometry_bounds(1) [OF assms(1)] usub64_le)

lemma segment_for_block:
  assumes g: "heap_geometry h" and i: "i < ch_number_of_committed_segments h"
    and p: "block_at h i \<le> p" "p < block_at h (i + 1)"
  shows "segment_for h p = i"
proof -
  have "p < size_max"
    using p(2) block_at_le_high [OF g, of "i + 1"] i geometry_bounds(5) [OF g] by simp
  then have "segment_for h p = (p - vs_low (ch_memory h)) div ch_segment_size h"
    using p(1) by (intro segment_for_eq [OF g]) (simp_all add: block_at_eq [OF g])
  also have "\<dots> = i"
    using p by (intro div_nat_eqI) (simp_all add: block_at_eq [OF g] algebra_simps)
  finally show ?thesis .
qed

lemma size_to_segments_eq:
  assumes "heap_geometry h" and "x + ch_segment_size h \<le> size_max" and "0 < x"
  shows "x \<le> size_to_segments h x * ch_segment_size h" and "0 < size_to_segments h x"
proof -
  let ?s = "ch_segment_size h"
  have s: "24 \<le> ?s" by (rule geometry_bounds(2) [OF assms(1)])
  then have eq: "size_to_segments h x = (x + (?s - 1)) div ?s"
    using assms(2) by (simp add: size_to_segments_def drop_bit_eq_div uadd64_less geometry_bounds(1) [OF assms(1)])
  have "x + (?s - 1) < (x + (?s - 1)) div ?s * ?s + ?s"
    using dividend_less_div_times [of ?s "x + (?s - 1)"] s by linarith
  then show "x \<le> size_to_segments h x * ?s" unfolding eq by linarith
  then show "0 < size_to_segments h x" using assms(3) by (cases "size_to_segments h x") auto
qed

section \<open>Allocation and deallocation\<close>

lemma allocate_end_repr:
  assumes r: "heap_repr h bs" and n: "0 < n"
    and room: "ch_next_segment h + n \<le> ch_number_of_committed_segments h"
  defines "i \<equiv> ch_next_segment h"
  defines "g \<equiv> (set_used (set_length (mark_segmap_as_used h i (i + n)) i n) i True)\<lparr>ch_next_segment := i + n\<rparr>"
  shows "heap_repr g (bs @ [(i, n, True)])"
proof (rule heap_reprI)
  note D = heap_reprD [OF r]
  have g: "ch_blocks g = (ch_blocks h)(i := (ch_blocks h i)\<lparr>blk_length := n, blk_used := True\<rparr>)"
    "ch_segmap g = (\<lambda>k. if i \<le> k \<and> k < i + n then seg_pat (k - i) else ch_segmap h k)"
    "ch_freelist_segments g = ch_freelist_segments h" "ch_freelist g = ch_freelist h"
    "ch_next_segment g = i + n" "ch_number_of_committed_segments g = ch_number_of_committed_segments h"
    by (auto simp: g_def fun_eq_iff)
  have c: "contig 0 bs i" using D(1) by (simp add: i_def)
  then show "contig 0 (bs @ [(i, n, True)]) (ch_next_segment g)"
    using n by (auto simp: g contig_append)
  show "linked (ch_blocks g) (ch_freelist g) (free_starts (bs @ [(i, n, True)])) None"
    using D(4) by (auto simp: g elim: linked_cong)
  show "ch_segmap g k = 255" if "ch_next_segment g \<le> k" "k < ch_number_of_committed_segments g" for k
    using that D(3) [of k] by (simp add: g i_def)
  fix x
  assume x: "x \<in> set (bs @ [(i, n, True)])"
  show "block_ok g x"
  proof (cases "x \<in> set bs")
    case True
    obtain s m u where fields: "x = (s, m, u)" by (cases x)
    with True have "s + m \<le> i" "s \<noteq> i" "block_ok h (s, m, u)"
      using D(2) contig_bounds [OF c, of s m u] by auto
    then show ?thesis unfolding fields by (elim block_ok_cong) (auto simp: g)
  next
    case False
    then have "x = (i, n, True)" using x by simp
    then show ?thesis by (simp add: block_ok_def g)
  qed
qed (use room heap_reprD(5) [OF r] in \<open>simp_all add: g_def i_def\<close>)

text \<open>A block \<open>(b, m)\<close> that is new: it meets no used block, and lies inside the committed segments.\<close>

definition fresh_block :: "code_heap \<Rightarrow> ablock list \<Rightarrow> nat \<Rightarrow> nat \<Rightarrow> bool" where
  "fresh_block h bs b m \<longleftrightarrow> b + m \<le> ch_number_of_committed_segments h \<and>
     (\<forall>(s, l) \<in> used_blocks bs. s + l \<le> b \<or> b + m \<le> s)"

lemma fresh_in_free_block:
  assumes r: "heap_repr h bs" and "(c, l, False) \<in> set bs" and "c \<le> b" and "b + m = c + l"
  shows "fresh_block h bs b m"
proof -
  note c = heap_reprD(1) [OF r]
  have "s + k \<le> b \<or> b + m \<le> s" if "(s, k) \<in> used_blocks bs" for s k
    using contig_disjoint [OF c assms(2), of s k True] that assms(3,4) by (auto simp: used_blocks_def)
  then show ?thesis
    using contig_bounds [OF c assms(2)] heap_reprD(6) [OF r] assms(4) by (auto simp: fresh_block_def)
qed

lemma fresh_at_end:
  assumes r: "heap_repr h bs" and "ch_next_segment h + n \<le> ch_number_of_committed_segments h"
  shows "fresh_block h bs (ch_next_segment h) n"
  using contig_bounds [OF heap_reprD(1) [OF r]] assms(2) by (auto simp: fresh_block_def used_blocks_def)

lemma search_freelist_inv:
  assumes inv: "heap_inv h bs" and len: "0 < len" and pos: "0 < CodeCacheMinBlockLength fl"
  shows "search_freelist fl h len crit = Some (h, None) \<or>
    (\<exists>h' bs' b m. search_freelist fl h len crit = Some (h', Some b) \<and> geom h' = geom h \<and>
       heap_inv h' bs' \<and> len \<le> m \<and> used_blocks bs' = insert (b, m) (used_blocks bs) \<and> fresh_block h bs b m)"
proof -
  from inv have r: "heap_repr h bs" and g: "heap_geometry h" and n: "no_adjacent_free bs"
    by (simp_all add: heap_inv_def)
  from search_freelist_repr [OF r len pos committed_segments_small [OF g], of crit]
  consider "search_freelist fl h len crit = Some (h, None)"
    | h' xs c l ys where "bs = xs @ (c, l, False) # ys" "len \<le> l"
      "search_freelist fl h len crit = Some (h', Some (fst (take_block fl len xs c l ys)))"
      "heap_repr h' (snd (take_block fl len xs c l ys))" by blast
  then show ?thesis
  proof cases
    case (2 h' xs c l ys)
    from take_block_props [OF 2(1) n len 2(2) pos] obtain b m where
      b: "fst (take_block fl len xs c l ys) = b" "len \<le> m" "c \<le> b" "b + m = c + l"
        "used_blocks (snd (take_block fl len xs c l ys)) = insert (b, m) (used_blocks bs)"
        "no_adjacent_free (snd (take_block fl len xs c l ys))" by metis
    have gh: "geom h' = geom h" by (rule geom_search_freelist [OF 2(3)])
    have "heap_inv h' (snd (take_block fl len xs c l ys))"
      using 2(4) b(6) g geom_cong(1) [OF gh] by (simp add: heap_inv_def)
    moreover have "fresh_block h bs b m"
      using fresh_in_free_block [OF r _ b(3,4)] 2(1) by simp
    ultimately show ?thesis using 2(3) b gh by metis
  qed simp
qed

lemma ch_allocate_inv:
  assumes inv: "heap_inv h bs" and pos: "0 < CodeCacheMinBlockLength fl"
    and sz: "sz + sizeof_HeapBlock + ch_segment_size h \<le> size_max"
  shows "ch_allocate fl h sz crit = Some (h, None) \<or>
    (\<exists>h' bs' b m. ch_allocate fl h sz crit = Some (h', Some (allocated_space h b)) \<and> geom h' = geom h \<and>
       heap_inv h' bs' \<and> sz + sizeof_HeapBlock \<le> m * ch_segment_size h \<and>
       used_blocks bs' = insert (b, m) (used_blocks bs) \<and> fresh_block h bs b m)"
proof -
  from inv have r: "heap_repr h bs" and g: "heap_geometry h" and na: "no_adjacent_free bs"
    by (simp_all add: heap_inv_def)
  define n where "n = size_to_segments h (sz + sizeof_HeapBlock)"
  have ua: "uadd64 sz sizeof_HeapBlock = sz + sizeof_HeapBlock"
    using sz geometry_bounds(2) [OF g] by (intro uadd64_less) linarith
  have n: "sz + sizeof_HeapBlock \<le> n * ch_segment_size h" "0 < n"
    using size_to_segments_eq [OF g sz] by (simp_all add: n_def sizeof_HeapBlock_def)
  have big: "sz + sizeof_HeapBlock \<le> m * ch_segment_size h" if "n \<le> m" for m
    using n(1) mult_le_mono1 [OF that, of "ch_segment_size h"] by linarith
  from search_freelist_inv [OF inv n(2) pos, of crit] show ?thesis
  proof (elim disjE exE conjE)
    fix h' bs' b m
    assume "search_freelist fl h n crit = Some (h', Some b)" and gh: "geom h' = geom h"
    then have "ch_allocate fl h sz crit = Some (h', Some (allocated_space h b))"
      by (simp add: ch_allocate_def ua n_def [symmetric] Let_def geom_cong(3) [OF gh])
    moreover assume "heap_inv h' bs'" "n \<le> m" "used_blocks bs' = insert (b, m) (used_blocks bs)"
      "fresh_block h bs b m"
    ultimately show ?thesis using gh big by metis
  next
    assume none: "search_freelist fl h n crit = Some (h, None)"
    define n' where "n' = (if n < CodeCacheMinBlockLength fl then CodeCacheMinBlockLength fl else n)"
    define i where "i = ch_next_segment h"
    define h' where "h' = (set_used (set_length (mark_segmap_as_used h i (i + n')) i n') i True)\<lparr>ch_next_segment := i + n'\<rparr>"
    have n': "0 < n'" "n \<le> n'" using n(2) by (auto simp: n'_def)
    have gh: "geom h' = geom h" by (simp add: h'_def)
    have "ch_allocate fl h sz crit = Some (h, None) \<or>
        ch_allocate fl h sz crit = Some (h', Some (allocated_space h i)) \<and> i + n' \<le> ch_number_of_committed_segments h"
      using geom_cong(3) [OF gh]
      by (simp add: ch_allocate_def ua n_def [symmetric] none Let_def n'_def [symmetric] i_def [symmetric]
          h'_def [symmetric])
    then show ?thesis
    proof
      assume a: "ch_allocate fl h sz crit = Some (h', Some (allocated_space h i)) \<and>
        i + n' \<le> ch_number_of_committed_segments h"
      then have "heap_inv h' (bs @ [(i, n', True)])"
        using allocate_end_repr [OF r n'(1)] g geom_cong(1) [OF gh] na
        by (simp add: heap_inv_def h'_def i_def no_adjacent_free_append)
      moreover have "fresh_block h bs i n'"
        using fresh_at_end [OF r] a by (simp add: i_def)
      ultimately show ?thesis using a gh big [OF n'(2)]
        by (intro disjI2 exI [of _ h'] exI [of _ "bs @ [(i, n', True)]"] exI [of _ i] exI [of _ n']) simp
    qed simp
  qed
qed

lemma ch_deallocate_inv:
  assumes inv: "heap_inv h bs" and mem: "(b, l, True) \<in> set bs"
  shows "\<exists>h' bs'. ch_deallocate h (allocated_space h b) = Some h' \<and> geom h' = geom h \<and> heap_inv h' bs' \<and>
     used_blocks bs' = used_blocks bs - {(b, l)}"
proof -
  from inv have r: "heap_repr h bs" and g: "heap_geometry h" and na: "no_adjacent_free bs"
    by (simp_all add: heap_inv_def)
  obtain xs ys where bs: "bs = xs @ (b, l, True) # ys" using mem by (meson split_list)
  from add_to_freelist_repr [OF r [unfolded bs]] obtain h' where
    h': "add_to_freelist h b = Some h'" "heap_repr h' (free_block xs b l ys)" by blast
  have gh: "geom h' = geom h" by (rule geom_add_to_freelist [OF h'(1)])
  have c: "contig 0 xs b" "contig (b + l) ys (ch_next_segment h)" "0 < l"
    using contig_split_starts [OF heap_reprD(1) [OF r, unfolded bs]] by auto
  have "b < ch_number_of_committed_segments h"
    using contig_le [OF c(2)] c(3) heap_reprD(6) [OF r] by linarith
  then have "segment_for h (block_at h b) = b"
    using geometry_bounds(2) [OF g] by (intro segment_for_block [OF g]) (auto simp: block_at_eq [OF g])
  then have "ch_deallocate h (allocated_space h b) = Some h'"
    by (simp add: ch_deallocate_def allocated_space_def h'(1))
  moreover have "heap_inv h' (free_block xs b l ys)"
    using h'(2) free_block_no_adjacent [OF na [unfolded bs]] g geom_cong(1) [OF gh] by (simp add: heap_inv_def)
  moreover have "(b, l) \<notin> used_blocks xs \<union> used_blocks ys"
    using contig_bounds [OF c(1), of b l] contig_bounds [OF c(2), of b l] c(3) by (auto simp: used_blocks_def)
  then have "used_blocks (free_block xs b l ys) = used_blocks bs - {(b, l)}"
    by (auto simp: used_blocks_free_block bs)
  ultimately show ?thesis using gh by blast
qed

section \<open>The blocks of a heap\<close>

text \<open>The abstract list is determined by the heap: walk over the headers.\<close>

function heap_walk :: "code_heap \<Rightarrow> nat \<Rightarrow> ablock list" where
  "heap_walk h i =
     (if i < ch_next_segment h \<and> 0 < ch_length h i
      then (i, ch_length h i, blk_used (ch_blocks h i)) # heap_walk h (i + ch_length h i) else [])"
  by pat_completeness auto
termination
  by (relation "measure (\<lambda>(h, i). ch_next_segment h - i)") auto

declare heap_walk.simps [simp del]

definition heap_blocks :: "code_heap \<Rightarrow> ablock list" where
  "heap_blocks h = heap_walk h 0"

definition heap_ok :: "code_heap \<Rightarrow> bool" where
  "heap_ok h \<longleftrightarrow> heap_inv h (heap_blocks h)"

lemma heap_walk_eq:
  "contig i bs (ch_next_segment h) \<Longrightarrow> (\<And>x. x \<in> set bs \<Longrightarrow> block_ok h x) \<Longrightarrow> heap_walk h i = bs"
proof (induction bs arbitrary: i)
  case Nil
  then show ?case by (simp add: heap_walk.simps [of h "ch_next_segment h"])
next
  case (Cons x bs)
  obtain s l u where x: "x = (s, l, u)" by (cases x)
  have c: "s = i" "0 < l" "contig (i + l) bs (ch_next_segment h)" using Cons.prems(1) by (auto simp: x)
  have ok: "ch_length h i = l" "blk_used (ch_blocks h i) = u"
    using Cons.prems(2) [of x] by (simp_all add: x c(1) block_ok_def)
  have "heap_walk h (i + l) = bs" using Cons.IH [OF c(3)] Cons.prems(2) by simp
  moreover have "i < ch_next_segment h" using contig_le [OF c(3)] c(2) by linarith
  ultimately show ?case using c ok by (simp add: heap_walk.simps [of h i] x)
qed

lemma heap_blocks_unique: "heap_repr h bs \<Longrightarrow> heap_blocks h = bs"
  unfolding heap_blocks_def by (intro heap_walk_eq heap_reprD)

lemma heap_invD: "heap_inv h bs \<Longrightarrow> heap_ok h \<and> heap_blocks h = bs"
  using heap_blocks_unique by (auto simp: heap_ok_def heap_inv_def)

lemma heap_okD:
  assumes "heap_ok h"
  shows "heap_geometry h" and "heap_repr h (heap_blocks h)" and "no_adjacent_free (heap_blocks h)"
    and "contig 0 (heap_blocks h) (ch_next_segment h)"
  using assms heap_reprD(1) by (simp_all add: heap_ok_def heap_inv_def)

section \<open>From an address to its block\<close>

lemma contains_segment:
  assumes g: "heap_geometry h" and p: "ch_contains h p"
  shows "segment_for h p < ch_number_of_committed_segments h"
    and "block_at h (segment_for h p) \<le> p" and "p < block_at h (segment_for h p + 1)"
proof -
  let ?s = "ch_segment_size h" and ?d = "p - vs_low (ch_memory h)"
  have s: "0 < ?s" using geometry_bounds(2) [OF g] by linarith
  have lo: "vs_low (ch_memory h) \<le> p" "p < vs_high (ch_memory h)"
    using p geometry_bounds(6) [OF g] by (simp_all add: ch_contains_def)
  then have seg: "segment_for h p = ?d div ?s"
    using geometry_bounds(5) [OF g] by (intro segment_for_eq [OF g]) auto
  have "?d < ch_number_of_committed_segments h * ?s"
    using lo geometry_bounds(3) [OF g] by linarith
  then show "segment_for h p < ch_number_of_committed_segments h"
    by (simp add: seg less_mult_imp_div_less)
  have "?d div ?s * ?s \<le> ?d" "?d < ?d div ?s * ?s + ?s"
    using dividend_less_div_times [OF s, of ?d] by simp_all
  moreover have "block_at h (segment_for h p) = vs_low (ch_memory h) + ?d div ?s * ?s"
    "block_at h (segment_for h p + 1) = vs_low (ch_memory h) + ?d div ?s * ?s + ?s"
    by (simp_all add: block_at_eq [OF g] seg)
  ultimately show "block_at h (segment_for h p) \<le> p" "p < block_at h (segment_for h p + 1)"
    using lo(1) by linarith+
qed

lemma in_block_segment:
  assumes g: "heap_geometry h" and b: "b + l \<le> ch_number_of_committed_segments h"
    and p: "block_at h b \<le> p" "p < block_at h (b + l)"
  shows "ch_contains h p" and "b \<le> segment_for h p" and "segment_for h p < b + l"
proof -
  let ?s = "ch_segment_size h"
  show c: "ch_contains h p"
    using p block_at_le_high [OF g b] geometry_bounds(6) [OF g] by (simp add: ch_contains_def block_at_eq [OF g])
  note seg = contains_segment(2,3) [OF g c]
  have "b * ?s < (segment_for h p + 1) * ?s"
    using p(1) seg(2) unfolding block_at_eq [OF g] by linarith
  then show "b \<le> segment_for h p" by (metis add.commute less_Suc_eq_le mult_less_cancel2 plus_1_eq_Suc)
  have "segment_for h p * ?s < (b + l) * ?s"
    using p(2) seg(1) unfolding block_at_eq [OF g] by linarith
  then show "segment_for h p < b + l" by (metis mult_less_cancel2)
qed

text \<open>The used block an address lies in, header included.\<close>

definition in_used_block :: "code_heap \<Rightarrow> addr \<Rightarrow> nat \<Rightarrow> bool" where
  "in_used_block h p b \<longleftrightarrow>
     (\<exists>l. (b, l) \<in> used_blocks (heap_blocks h) \<and> block_at h b \<le> p \<and> p < block_at h (b + l))"

lemma find_start_segment:
  assumes r: "heap_repr h bs" and p: "ch_contains h p" and b: "(b, l, u) \<in> set bs"
    and i: "b \<le> segment_for h p" "segment_for h p < b + l"
  shows "find_start h p = Some (if u then Some (allocated_space h b) else None)"
proof -
  obtain j where j: "segment_for h p = b + j" "j < l" using i by (metis le_Suc_ex nat_add_left_cancel_less)
  have ok: "blk_used (ch_blocks h b) = u" and m: "\<And>k. k < l \<Longrightarrow> ch_segmap h (b + k) = seg_pat k"
    using heap_reprD(2) [OF r b] by (auto simp: block_ok_def)
  have "segmap_start (ch_segmap h) (b + j) = Some b"
    using m j(2) by (intro segmap_start_block) simp
  then show ?thesis using p ok m [OF j(2)] by (simp add: find_start_def j(1) seg_pat_255)
qed

end
