(* ===== verification/CodeHeap_Props.thy ===== *)
theory CodeHeap_Props
  imports CodeHeap_Alloc
begin

text \<open>
  The contract of the code heap: lookup of a block from an address inside it, iteration over the
  used blocks, expansion, the interface its clients rely on, and the properties of
  \<open>memory/heap.cpp\<close>.
\<close>

section \<open>Lookup\<close>

lemma used_block_bounds:
  assumes "heap_ok h" and "(b, l) \<in> used_blocks (heap_blocks h)"
  shows "0 < l" and "b + l \<le> ch_next_segment h" and "b + l \<le> ch_number_of_committed_segments h"
  using contig_bounds [OF heap_okD(4) [OF assms(1)], of b l True] assms(2)
    heap_reprD(6) [OF heap_okD(2) [OF assms(1)]] by (auto simp: used_blocks_def)

lemma find_start_used:
  assumes ok: "heap_ok h" and b: "in_used_block h p b"
  shows "find_start h p = Some (Some (allocated_space h b))"
proof -
  obtain l where l: "(b, l) \<in> used_blocks (heap_blocks h)" "block_at h b \<le> p" "p < block_at h (b + l)"
    using b by (auto simp: in_used_block_def)
  note seg = in_block_segment [OF heap_okD(1) [OF ok] used_block_bounds(3) [OF ok l(1)] l(2,3)]
  show ?thesis
    using find_start_segment [OF heap_okD(2) [OF ok] seg(1) _ seg(2,3)] l(1) by (simp add: used_blocks_def)
qed

lemma find_start_unused:
  assumes ok: "heap_ok h" and none: "\<And>b. \<not> in_used_block h p b"
  shows "find_start h p = Some None"
proof (cases "ch_contains h p")
  case False
  then show ?thesis by (simp add: find_start_def)
next
  case True
  note g = heap_okD(1) [OF ok] and r = heap_okD(2) [OF ok]
  note seg = contains_segment [OF g True]
  show ?thesis
  proof (cases "segment_for h p < ch_next_segment h")
    case False
    then show ?thesis using heap_reprD(3) [OF r] seg(1) by (simp add: find_start_def Let_def)
  next
    case less: True
    then obtain s l u where s: "(s, l, u) \<in> set (heap_blocks h)" "s \<le> segment_for h p" "segment_for h p < s + l"
      using contig_covers [OF heap_okD(4) [OF ok], of "segment_for h p"] by auto
    have "s * ch_segment_size h \<le> segment_for h p * ch_segment_size h"
      "(segment_for h p + 1) * ch_segment_size h \<le> (s + l) * ch_segment_size h"
      using s(2,3) by (simp_all only: mult_le_mono1 Suc_leI add.commute [of _ 1] plus_1_eq_Suc)
    then have "block_at h s \<le> p" "p < block_at h (s + l)"
      using seg(2,3) unfolding block_at_eq [OF g] by linarith+
    then have "\<not> u" using none [of s] s(1) by (auto simp: in_used_block_def used_blocks_def)
    then show ?thesis using find_start_segment [OF r True s] by simp
  qed
qed

section \<open>Iteration\<close>

definition used_starts :: "ablock list \<Rightarrow> nat list" where
  "used_starts bs = map fst (filter (\<lambda>(s, l, u). u) bs)"

lemma used_starts_simps [simp]:
  "used_starts [] = []"
  "used_starts ((s, l, u) # bs) = (if u then s # used_starts bs else used_starts bs)"
  "used_starts (xs @ ys) = used_starts xs @ used_starts ys"
  by (simp_all add: used_starts_def)

lemma set_used_starts: "s \<in> set (used_starts bs) \<longleftrightarrow> (\<exists>l. (s, l) \<in> used_blocks bs)"
  by (force simp: used_starts_def used_blocks_def)

definition first_of :: "'a list \<Rightarrow> 'a option" where
  "first_of xs = (case xs of [] \<Rightarrow> None | x # _ \<Rightarrow> Some x)"

text \<open>
  \<open>next_free\<close> skips at most one free block, so it finds the next used one only because no two
  free blocks are adjacent.
\<close>

lemma next_free_used:
  assumes "contig i bs (ch_next_segment h)" and "\<And>x. x \<in> set bs \<Longrightarrow> block_ok h x"
    and "no_adjacent_free bs"
  shows "next_free h (if i < ch_next_segment h then Some i else None) =
    first_of (map (allocated_space h) (used_starts bs))"
proof (cases bs)
  case Nil
  then show ?thesis using assms(1) by (simp add: next_free_def first_of_def)
next
  case (Cons x cs)
  obtain s l u where x: "x = (s, l, u)" by (cases x)
  have c: "s = i" "0 < l" "contig (i + l) cs (ch_next_segment h)" using assms(1) by (auto simp: Cons x)
  have i: "i < ch_next_segment h" using contig_le [OF c(3)] c(2) by linarith
  have ok: "ch_length h i = l" "blk_used (ch_blocks h i) = u"
    using assms(2) [of x] by (simp_all add: Cons x c(1) block_ok_def)
  show ?thesis
  proof (cases u)
    case True
    then show ?thesis using i ok c by (simp add: next_free_def first_of_def Cons x)
  next
    case False
    show ?thesis
    proof (cases cs)
      case Nil
      then show ?thesis
        using False i ok c by (simp add: next_free_def next_block_def first_of_def Cons x)
    next
      case (Cons y ds)
      obtain t m v where y: "y = (t, m, v)" by (cases y)
      have "v" "t = i + l" "i + l < ch_next_segment h"
        using assms(3) False c(3) contig_le [of "t + m" ds "ch_next_segment h"]
        by (auto simp: \<open>bs = x # cs\<close> Cons x y)
      then show ?thesis
        using False i ok c by (simp add: next_free_def next_block_def first_of_def \<open>bs = x # cs\<close> Cons x y Let_def)
    qed
  qed
qed

lemma used_starts_split:
  assumes "used_starts bs = as @ b # cs"
  obtains xs l ys where "bs = xs @ (b, l, True) # ys" and "used_starts ys = cs"
  using assms
proof (induction bs arbitrary: as thesis)
  case Nil
  then show ?case by simp
next
  case (Cons x bs)
  obtain s m u where x: "x = (s, m, u)" by (cases x)
  show ?case
  proof (cases "\<not> u \<or> as \<noteq> []")
    case True
    define as' where "as' = (if u then tl as else as)"
    have "used_starts bs = as' @ b # cs"
      using Cons.prems(2) True by (auto simp: x as'_def Cons_eq_append_conv split: if_splits)
    from Cons.IH [OF _ this] obtain xs l ys where "bs = xs @ (b, l, True) # ys" "used_starts ys = cs"
      by blast
    then show ?thesis using Cons.prems(1) [of "x # xs" l ys] by simp
  next
    case False
    then show ?thesis using Cons.prems(1) [of "[]" m bs] Cons.prems(2) by (simp add: x)
  qed
qed

lemma block_start_used:
  assumes ok: "heap_ok h" and b: "(b, l) \<in> used_blocks (heap_blocks h)"
  shows "block_start h (allocated_space h b) = Some (Some b)"
proof -
  note g = heap_okD(1) [OF ok] and bd = used_block_bounds [OF ok b]
  have s: "24 \<le> ch_segment_size h" by (rule geometry_bounds(2) [OF g])
  have seg: "segment_for h (block_at h b) = b"
    using bd s by (intro segment_for_block [OF g]) (auto simp: block_at_eq [OF g])
  have "ch_segment_size h \<le> l * ch_segment_size h" using bd(1) by simp
  then have "allocated_space h b < block_at h (b + l)"
    using s unfolding allocated_space_def sizeof_HeapBlock_def block_at_eq [OF g] add_mult_distrib by linarith
  then have "in_used_block h (allocated_space h b) b"
    using b by (auto simp: in_used_block_def allocated_space_def)
  then show ?thesis
    using find_start_used [OF ok] seg by (simp add: block_start_def allocated_space_def)
qed

lemma ch_first_used:
  assumes ok: "heap_ok h"
  shows "ch_first h = first_of (map (allocated_space h) (used_starts (heap_blocks h)))"
  using next_free_used [OF heap_okD(4) [OF ok] heap_reprD(2) [OF heap_okD(2) [OF ok]] heap_okD(3) [OF ok]]
  by (simp add: ch_first_def first_block_def)

lemma ch_next_used:
  assumes ok: "heap_ok h" and split: "used_starts (heap_blocks h) = as @ b # cs"
  shows "ch_next h (allocated_space h b) = Some (first_of (map (allocated_space h) cs))"
proof -
  obtain xs l ys where bs: "heap_blocks h = xs @ (b, l, True) # ys" "used_starts ys = cs"
    by (rule used_starts_split [OF split])
  note r = heap_okD(2) [OF ok, unfolded bs(1)]
  have c: "contig (b + l) ys (ch_next_segment h)" by (rule contig_split_starts(4) [OF heap_reprD(1) [OF r]])
  have "block_start h (allocated_space h b) = Some (Some b)"
    using block_start_used [OF ok, of b l] by (simp add: bs(1))
  moreover have "ch_length h b = l" using heap_reprD(2) [OF r, of "(b, l, True)"] by (simp add: block_ok_def)
  moreover have "no_adjacent_free ys"
    using heap_okD(3) [OF ok] by (simp add: bs(1) no_adjacent_free_append no_adjacent_free_Cons)
  ultimately show ?thesis
    using next_free_used [OF c] heap_reprD(2) [OF r] bs(2) by (simp add: ch_next_def next_block_def Let_def)
qed

section \<open>Expansion\<close>

lemma align_to_page_size_eq:
  assumes "0 < page" and "n + page < size_max"
  shows "align_to_page_size page n = round_to n page"
proof -
  have "usub64 (uadd64 n page) 1 = n + (page - 1)"
    using assms by (simp add: uadd64_less usub64_le)
  then show ?thesis by (simp add: align_to_page_size_def round_to_def Let_def)
qed

lemma size_to_segments_exact:
  assumes "ch_segment_size h = 2 ^ ch_log2_segment_size h" and "x = k * ch_segment_size h"
    and "x + ch_segment_size h < size_max"
  shows "size_to_segments h x = k"
proof -
  have s: "0 < ch_segment_size h" using assms(1) by simp
  then have "size_to_segments h x = (x + (ch_segment_size h - 1)) div ch_segment_size h"
    using assms(3) by (simp add: size_to_segments_def drop_bit_eq_div uadd64_less assms(1))
  also have "\<dots> = k" using s assms(2) by (intro div_nat_eqI) (simp_all add: algebra_simps)
  finally show ?thesis .
qed

text \<open>Adding committed segments that are marked free keeps the blocks.\<close>

lemma heap_repr_grow:
  assumes r: "heap_repr h bs" and "ch_number_of_committed_segments h \<le> n"
    and "ch_blocks g = ch_blocks h" "ch_next_segment g = ch_next_segment h" "ch_freelist g = ch_freelist h"
    and "ch_freelist_segments g = ch_freelist_segments h" "ch_number_of_committed_segments g = n"
    and map: "\<And>i. ch_segmap g i = (if ch_number_of_committed_segments h \<le> i \<and> i < n then 255 else ch_segmap h i)"
  shows "heap_repr g bs"
proof (rule heap_reprI)
  note D = heap_reprD [OF r]
  fix x
  assume x: "x \<in> set bs"
  obtain s l u where f: "x = (s, l, u)" by (cases x)
  have "s + l \<le> ch_number_of_committed_segments h"
    using contig_bounds [OF D(1), of s l u] x D(6) f by simp
  then show "block_ok g x" using D(2) [OF x] assms(3) unfolding f by (auto simp: block_ok_def map)
qed (use heap_reprD [OF r] assms in auto)

text \<open>The number of bytes by which the memory grows.\<close>

lemma expand_request:
  assumes "page = 2 ^ k" and "old + bytes + page < size_max"
  shows "usub64 (align_to_page_size page (uadd64 old bytes)) old = round_to (old + bytes) page - old"
    and "old + bytes \<le> round_to (old + bytes) page" and "round_to (old + bytes) page < old + bytes + page"
    and "page dvd round_to (old + bytes) page"
proof -
  have "0 < page" using assms(1) by simp
  then have al: "align_to_page_size page (uadd64 old bytes) = round_to (old + bytes) page"
    using assms(2) by (simp add: uadd64_less align_to_page_size_eq)
  show ge: "old + bytes \<le> round_to (old + bytes) page" and lt: "round_to (old + bytes) page < old + bytes + page"
    using round_to_ge [of "old + bytes" k] round_to_less [of "old + bytes" k] assms(1) by simp_all
  show "page dvd round_to (old + bytes) page" using round_to_dvd [of k "old + bytes"] assms(1) by simp
  show "usub64 (align_to_page_size page (uadd64 old bytes)) old = round_to (old + bytes) page - old"
    unfolding al using ge lt assms(2) by (intro usub64_le) linarith+
qed

text \<open>\<open>reserve\<close> commits exactly the pages of the segment map that the committed segments need.\<close>

definition segmap_tight :: "size_t \<Rightarrow> code_heap \<Rightarrow> bool" where
  "segmap_tight page h \<longleftrightarrow>
     vs_committed_size (ch_segmap_space h) = align_to_page_size page (ch_number_of_committed_segments h)"

lemma segmap_request:
  assumes "page = 2 ^ k" and "n + page < size_max" and "m \<le> n"
    and "vs_committed_size sm = align_to_page_size page m"
  defines "ds \<equiv> usub64 (align_to_page_size page n) (vs_committed_size sm)"
  shows "vs_committed_size sm + ds = round_to n page"
proof -
  have p: "0 < page" using assms(1) by simp
  have "round_to m page \<le> round_to n page"
    using round_to_dvd [of k n] round_to_ge [of n k] assms(1,3)
    by (auto intro!: round_to_least)
  moreover have "round_to n page < n + page" using round_to_less [of n k] assms(1) by simp
  ultimately show ?thesis
    using assms(2-4) p by (simp add: ds_def align_to_page_size_eq usub64_le)
qed

text \<open>The two spaces after a successful expansion are again a geometry.\<close>

lemma geometry_grow:
  assumes "heap_geometry h" and "vs_inv mem" "vs_inv sm" and "vs_reserved_size mem = vs_reserved_size (ch_memory h)"
    and "n * ch_segment_size h = vs_committed_size mem" and "n \<le> vs_committed_size sm"
    and "ch_memory g = mem" "ch_segmap_space g = sm" "ch_number_of_committed_segments g = n"
    and "ch_number_of_reserved_segments g = ch_number_of_reserved_segments h"
    and "ch_segment_size g = ch_segment_size h" "ch_log2_segment_size g = ch_log2_segment_size h"
  shows "heap_geometry g"
  using assms unfolding heap_geometry_def by metis

lemma heap_okI:
  assumes "heap_geometry g" and "heap_repr g bs" and "no_adjacent_free bs"
  shows "heap_ok g \<and> heap_blocks g = bs"
  using assms by (intro heap_invD) (simp add: heap_inv_def)

lemma ch_expand_by_eq:
  assumes "usub64 (align_to_page_size page (uadd64 (vs_committed_size (ch_memory h)) bytes))
      (vs_committed_size (ch_memory h)) = dm" and "0 < dm"
    and "vs_expand_by commit (ch_memory h) dm = (mem, True)"
    and "size_to_segments h (vs_committed_size mem) = n"
    and ds: "ds = usub64 (align_to_page_size page n) (vs_committed_size (ch_segmap_space h))"
    and sm: "sm = (if 0 < ds then vs_expand_by commit (ch_segmap_space h) ds else (ch_segmap_space h, True))"
    and g: "g = h\<lparr>ch_memory := mem, ch_number_of_committed_segments := n, ch_segmap_space := fst sm\<rparr>"
  shows "ch_expand_by commit page h bytes =
    (if snd sm then (mark_segmap_as_free g (ch_number_of_committed_segments h) n, True) else (g, False))"
  by (cases "0 < ds") (simp_all add: ch_expand_by_def Let_def assms(1-4) sm g flip: ds)

text \<open>
  An expansion whose memory grows: how many segments there are now, how far the map has to grow, and
  what is left to decide, namely whether the map grows too.
\<close>

lemma expand_grown:
  assumes ok: "heap_ok h" and page: "page = 2 ^ k" "ch_segment_size h dvd page" and tight: "segmap_tight page h"
    and small: "vs_committed_size (ch_memory h) + bytes + 2 * page < size_max"
    and dm: "dm = round_to (vs_committed_size (ch_memory h) + bytes) page - vs_committed_size (ch_memory h)" "0 < dm"
    and mem: "vs_expand_by commit (ch_memory h) dm = (mem, True)"
  obtains n ds sm where "vs_inv mem" "vs_reserved_size mem = vs_reserved_size (ch_memory h)"
    "vs_committed_size (ch_memory h) + bytes \<le> vs_committed_size mem"
    "n * ch_segment_size h = vs_committed_size mem" "ch_number_of_committed_segments h < n" "n + page < size_max"
    "vs_committed_size (ch_segmap_space h) + ds = round_to n page"
    "sm = (if 0 < ds then vs_expand_by commit (ch_segmap_space h) ds else (ch_segmap_space h, True))"
    "ch_expand_by commit page h bytes =
      (let g = h\<lparr>ch_memory := mem, ch_number_of_committed_segments := n, ch_segmap_space := fst sm\<rparr>
       in if snd sm then (mark_segmap_as_free g (ch_number_of_committed_segments h) n, True) else (g, False))"
proof -
  note geo = heap_okD(1) [OF ok]
  let ?s = "ch_segment_size h" and ?old = "vs_committed_size (ch_memory h)" and ?c = "ch_number_of_committed_segments h"
  define R where "R = round_to (?old + bytes) page"
  have req: "usub64 (align_to_page_size page (uadd64 ?old bytes)) ?old = dm" "?old + bytes \<le> R"
    "R < ?old + bytes + page" "page dvd R"
    using expand_request [OF page(1), of ?old bytes] small by (simp_all add: R_def dm(1))
  define n where "n = R div ?s"
  have nR: "n * ?s = R" using page(2) req(4) by (simp add: n_def dvd_trans)
  have s: "24 \<le> ?s" "?s \<le> page" using geometry_bounds(2) [OF geo] page by (simp_all add: dvd_imp_le)
  have inv: "vs_inv (ch_memory h)" using geo by (simp add: heap_geometry_def)
  have memR: "vs_committed_size mem = R" "vs_inv mem" "vs_reserved_size mem = vs_reserved_size (ch_memory h)"
    using vspace.expand_committed [OF inv, of commit dm] vspace.invar_expand [OF inv, of commit dm]
      vspace.expand_reserved [OF inv, of commit dm] dm mem by (simp_all add: R_def)
  have seg: "size_to_segments h R = n"
    using nR req(3) small s by (intro size_to_segments_exact [OF geometry_bounds(1) [OF geo]]) auto
  have "?c * ?s = ?old" using geo unfolding heap_geometry_def by blast
  then have "?c * ?s < n * ?s" using dm nR by (simp add: R_def)
  then have cn: "?c < n" by simp
  have "n * 1 \<le> n * ?s" using s(1) by (intro mult_le_mono) auto
  then have np: "n + page < size_max" using nR req(3) small by simp
  define ds where "ds = usub64 (align_to_page_size page n) (vs_committed_size (ch_segmap_space h))"
  have ds: "vs_committed_size (ch_segmap_space h) + ds = round_to n page"
    unfolding ds_def using tight cn by (intro segmap_request [OF page(1) np, of ?c]) (simp_all add: segmap_tight_def)
  define sm where "sm = (if 0 < ds then vs_expand_by commit (ch_segmap_space h) ds else (ch_segmap_space h, True))"
  show thesis
    using ch_expand_by_eq [OF req(1) dm(2) mem seg [folded memR(1)] ds_def sm_def refl]
    by (intro that [OF memR(2,3) _ _ cn np ds sm_def]) (simp_all add: memR(1) nR req(2) Let_def)
qed

lemma expand_success:
  assumes ok: "heap_ok h" and page: "page = 2 ^ k" "ch_segment_size h dvd page" and tight: "segmap_tight page h"
    and small: "vs_committed_size (ch_memory h) + bytes + 2 * page < size_max"
    and grow: "ch_expand_by commit page h bytes = (g, True)"
  shows "heap_ok g \<and> heap_blocks g = heap_blocks h \<and> segmap_tight page g \<and>
    vs_committed_size (ch_memory h) + bytes \<le> vs_committed_size (ch_memory g)"
proof -
  note geo = heap_okD(1) [OF ok] and r = heap_okD(2) [OF ok]
  let ?old = "vs_committed_size (ch_memory h)" and ?c = "ch_number_of_committed_segments h"
  define dm where "dm = round_to (?old + bytes) page - ?old"
  have req: "usub64 (align_to_page_size page (uadd64 ?old bytes)) ?old = dm" "?old + bytes \<le> round_to (?old + bytes) page"
    using expand_request [OF page(1), of ?old bytes] small by (simp_all add: dm_def)
  show ?thesis
  proof (cases "dm = 0")
    case True
    then have "g = h" using grow req(1) by (simp add: ch_expand_by_def Let_def)
    then show ?thesis using ok tight True req(2) by (simp add: dm_def)
  next
    case False
    obtain mem b where mem: "vs_expand_by commit (ch_memory h) dm = (mem, b)" by fastforce
    have "b = True" using grow req(1) False mem by (cases b) (auto simp: ch_expand_by_def Let_def)
    with mem have mem: "vs_expand_by commit (ch_memory h) dm = (mem, True)" by simp
    have pos: "0 < dm" using False by simp
    obtain n ds sm where E: "vs_inv mem" "vs_reserved_size mem = vs_reserved_size (ch_memory h)"
      "?old + bytes \<le> vs_committed_size mem" "n * ch_segment_size h = vs_committed_size mem" "?c < n" "n + page < size_max"
      "vs_committed_size (ch_segmap_space h) + ds = round_to n page"
      "sm = (if 0 < ds then vs_expand_by commit (ch_segmap_space h) ds else (ch_segmap_space h, True))"
      "ch_expand_by commit page h bytes =
        (let g = h\<lparr>ch_memory := mem, ch_number_of_committed_segments := n, ch_segmap_space := fst sm\<rparr>
         in if snd sm then (mark_segmap_as_free g ?c n, True) else (g, False))"
      by (rule expand_grown [OF ok page tight small dm_def pos mem])
    have g: "snd sm" "g = mark_segmap_as_free (h\<lparr>ch_memory := mem, ch_number_of_committed_segments := n,
        ch_segmap_space := fst sm\<rparr>) ?c n"
      using grow E(9) by (auto simp: Let_def split: if_splits)
    have inv: "vs_inv (ch_segmap_space h)" using geo by (simp add: heap_geometry_def)
    have smR: "vs_inv (fst sm)" "vs_committed_size (fst sm) = round_to n page"
      using vspace.expand_committed [OF inv, of commit ds] vspace.invar_expand [OF inv, of commit ds]
        inv E(7) g(1) by (auto simp: E(8) split: if_splits)
    have "heap_geometry g"
      using round_to_ge [of n k] page(1) E(4) smR
      by (intro geometry_grow [OF geo E(1) smR(1) E(2), of n]) (simp_all add: g(2) mark_segmap_as_free_def)
    moreover have "heap_repr g (heap_blocks h)"
      by (rule heap_repr_grow [OF r, of n]) (use E(5) in \<open>simp_all add: g(2)\<close>)
    ultimately show ?thesis
      using heap_okI heap_okD(3) [OF ok] smR(2) E(3,6) page(1)
      by (simp add: segmap_tight_def align_to_page_size_eq g(2) mark_segmap_as_free_def)
  qed
qed

text \<open>
  \<open>map_room\<close>: the reservation of the map has a byte for every reserved segment. When the OS grants the
  map's own pages, an expansion can then fail only for the memory.
\<close>

definition map_room :: "size_t \<Rightarrow> code_heap \<Rightarrow> bool" where
  "map_room page h \<longleftrightarrow> round_to (ch_number_of_reserved_segments h) page \<le> vs_reserved_size (ch_segmap_space h)"

lemma expand_map_granted:
  assumes ok: "heap_ok h" and page: "page = 2 ^ k" "ch_segment_size h dvd page" and tight: "segmap_tight page h"
    and small: "vs_committed_size (ch_memory h) + bytes + 2 * page < size_max"
    and room: "map_room page h" and os: "os_grants commit (ch_segmap_space h)"
    and fails: "\<not> snd (ch_expand_by commit page h bytes)"
  shows "\<not> snd (vs_expand_by commit (ch_memory h)
      (usub64 (align_to_page_size page (uadd64 (vs_committed_size (ch_memory h)) bytes))
        (vs_committed_size (ch_memory h))))"
proof
  note geo = heap_okD(1) [OF ok]
  let ?old = "vs_committed_size (ch_memory h)" and ?c = "ch_number_of_committed_segments h"
  define dm where "dm = round_to (?old + bytes) page - ?old"
  have req: "usub64 (align_to_page_size page (uadd64 ?old bytes)) ?old = dm"
    using expand_request [OF page(1), of ?old bytes] small by (simp_all add: dm_def)
  have pos: "0 < dm" using fails req by (auto simp: ch_expand_by_def Let_def split: if_splits)
  assume "snd (vs_expand_by commit (ch_memory h) (usub64 (align_to_page_size page (uadd64 ?old bytes)) ?old))"
  then obtain mem where mem: "vs_expand_by commit (ch_memory h) dm = (mem, True)"
    by (metis req prod.collapse)
  obtain n ds sm where E: "vs_inv mem" "vs_reserved_size mem = vs_reserved_size (ch_memory h)"
    "n * ch_segment_size h = vs_committed_size mem"
    "vs_committed_size (ch_segmap_space h) + ds = round_to n page"
    "sm = (if 0 < ds then vs_expand_by commit (ch_segmap_space h) ds else (ch_segmap_space h, True))"
    "ch_expand_by commit page h bytes =
      (let g = h\<lparr>ch_memory := mem, ch_number_of_committed_segments := n, ch_segmap_space := fst sm\<rparr>
       in if snd sm then (mark_segmap_as_free g ?c n, True) else (g, False))"
    by (rule expand_grown [OF ok page tight small dm_def pos mem])
  have lay: "vs_layout (ch_segmap_space h)" using geo by (simp add: heap_geometry_def vs_inv_def)
  have "ch_number_of_reserved_segments h * ch_segment_size h = vs_reserved_size mem"
    using geo E(2) unfolding heap_geometry_def by metis
  then have "n * ch_segment_size h \<le> ch_number_of_reserved_segments h * ch_segment_size h"
    using vspace.committed_le [OF E(1)] E(3) by simp
  then have "n \<le> ch_number_of_reserved_segments h" using geometry_bounds(2) [OF geo] by simp
  then have "round_to n page \<le> round_to (ch_number_of_reserved_segments h) page"
    using round_to_dvd [of k "ch_number_of_reserved_segments h"] round_to_ge [of "ch_number_of_reserved_segments h" k] page(1)
    by (auto intro!: round_to_least)
  then have "ds \<le> vs_uncommitted_size (ch_segmap_space h)"
    using room E(4) lay unfolding map_room_def by (simp add: vs_sizes [OF lay] vs_layout_def) linarith
  then have "snd sm" using vs_expand_by_granted [OF lay _ os] by (simp add: E(5))
  then show False using fails E(6) by (simp add: Let_def)
qed

lemma expand_memory_refused:
  assumes ok: "heap_ok h"
    and refused: "\<not> snd (vs_expand_by commit (ch_memory h)
      (usub64 (align_to_page_size page (uadd64 (vs_committed_size (ch_memory h)) bytes))
        (vs_committed_size (ch_memory h))))"
  shows "heap_ok (fst (ch_expand_by commit page h bytes)) \<and>
    heap_blocks (fst (ch_expand_by commit page h bytes)) = heap_blocks h \<and>
    (\<exists>mem. fst (ch_expand_by commit page h bytes) = h\<lparr>ch_memory := mem\<rparr>)"
proof -
  note geo = heap_okD(1) [OF ok]
  define dm where "dm = usub64 (align_to_page_size page (uadd64 (vs_committed_size (ch_memory h)) bytes))
    (vs_committed_size (ch_memory h))"
  obtain mem where mem: "vs_expand_by commit (ch_memory h) dm = (mem, False)"
    using refused by (cases "vs_expand_by commit (ch_memory h) dm") (auto simp: dm_def)
  have inv: "vs_inv (ch_memory h)" using geo by (simp add: heap_geometry_def)
  have m: "vs_inv mem" "vs_committed_size mem = vs_committed_size (ch_memory h)"
    "vs_reserved_size mem = vs_reserved_size (ch_memory h)"
    using vspace.expand_committed [OF inv, of commit dm] vspace.invar_expand [OF inv, of commit dm]
      vspace.expand_reserved [OF inv, of commit dm] mem by simp_all
  have eq: "fst (ch_expand_by commit page h bytes) = (if 0 < dm then h\<lparr>ch_memory := mem\<rparr> else h)"
    by (simp add: ch_expand_by_def Let_def mem flip: dm_def)
  have "vs_inv (ch_segmap_space h)" "ch_number_of_committed_segments h \<le> vs_committed_size (ch_segmap_space h)"
    "ch_number_of_committed_segments h * ch_segment_size h = vs_committed_size mem"
    using geo unfolding heap_geometry_def m(2) by blast+
  then have "heap_geometry (h\<lparr>ch_memory := mem\<rparr>)"
    by (intro geometry_grow [OF geo m(1) _ m(3)]) simp_all
  moreover have "heap_repr (h\<lparr>ch_memory := mem\<rparr>) (heap_blocks h)"
    by (rule heap_repr_grow [OF heap_okD(2) [OF ok] order_refl]) simp_all
  moreover have "\<exists>m. (if 0 < dm then h\<lparr>ch_memory := mem\<rparr> else h) = h\<lparr>ch_memory := m\<rparr>"
    by (cases "0 < dm") (auto intro: exI [of _ "ch_memory h"])
  ultimately show ?thesis using heap_okI heap_okD(3) [OF ok] ok unfolding eq by simp
qed

section \<open>Reservation\<close>

lemma log2_loop_exact:
  "j \<le> k \<Longrightarrow> k < 64 \<Longrightarrow> k - j + 2 \<le> fuel \<Longrightarrow> log2_loop fuel (2 ^ k) (2 ^ j) (int j - 1) = int k"
proof (induction "k - j" arbitrary: j fuel)
  case 0
  then obtain f where f: "fuel = Suc (Suc f)" by (metis Suc_le_D add_2_eq_Suc' Suc_le_mono)
  have "2 * 2 ^ k mod size_max = 0 \<or> 2 ^ k < 2 * 2 ^ k mod size_max"
  proof (cases "k = 63")
    case False
    then have "Suc k < 64" using 0 by simp
    then have "(2::nat) ^ Suc k < 2 ^ 64" by (rule power_strict_increasing) simp
    then show ?thesis by (simp add: size_max_def)
  qed (simp add: size_max_def)
  then show ?case using 0 by (auto simp: f)
next
  case (Suc n)
  then obtain f where f: "fuel = Suc f" by (cases fuel) auto
  have j: "Suc j \<le> k" "n = k - Suc j" using Suc.hyps(2) by auto
  have "(2::nat) ^ Suc j < 2 ^ 64" using j(1) Suc.prems(2) by (intro power_strict_increasing) auto
  then have "2 * 2 ^ j mod size_max = 2 ^ Suc j" by (simp add: size_max_def)
  moreover have "log2_loop f (2 ^ k) (2 ^ Suc j) (int (Suc j) - 1) = int k"
    using j Suc.prems by (intro Suc.hyps(1)) (auto simp: f)
  moreover have "(2::nat) ^ j \<le> 2 ^ k" using Suc.prems by simp
  ultimately show ?case by (simp add: f)
qed

lemma log2_intptr_exact: "k < 64 \<Longrightarrow> log2_intptr (2 ^ k) = int k"
  using log2_loop_exact [of 0 k 65] by (simp add: log2_intptr_def)

text \<open>
  What the OS layer documents: page sizes are powers of two, a region's page is at most the region
  or the small page, and a reservation is not at 0, page aligned, as long as requested and inside
  the address space.
\<close>

definition reservation_ok :: "size_t \<Rightarrow> size_t \<Rightarrow> reserved_space option \<Rightarrow> bool" where
  "reservation_ok page n r \<longleftrightarrow> (case r of None \<Rightarrow> True
     | Some r \<Rightarrow> rs_size r = n \<and> rs_base r \<noteq> 0 \<and> page dvd rs_base r \<and> rs_base r + rs_size r < size_max)"

definition os_ok :: "os_iface \<Rightarrow> nat \<Rightarrow> bool" where
  "os_ok os p \<longleftrightarrow> os_vm_page_size os = 2 ^ p \<and> (\<exists>g\<ge>p. os_vm_allocation_granularity os = 2 ^ g) \<and>
     (\<forall>n k. \<exists>g\<ge>p. os_page_size_for_region_unaligned os n k = 2 ^ g) \<and>
     (\<forall>n. os_page_size_for_region_unaligned os n 1 \<le> n \<or> os_page_size_for_region_unaligned os n 1 = 2 ^ p) \<and>
     (\<forall>n a l. reservation_ok (2 ^ p) n (os_reserved_code_space os n a l)) \<and>
     (\<forall>n. reservation_ok (2 ^ p) n (os_reserved_space os n))"

lemma round_window:
  assumes "2 ^ g \<le> n \<or> 2 ^ g dvd b"
  shows "round_to b (2 ^ g) \<le> round_down (b + n) (2 ^ g)"
proof (cases "2 ^ g dvd b")
  case True
  then show ?thesis
    using div_le_mono [of b "b + n" "2 ^ g"] by (auto simp: round_to_aligned round_down_pow2 elim!: dvdE)
next
  case False
  with assms have "b + (2 ^ g - 1) \<le> b + n" by (simp add: le_diff_conv)
  then show ?thesis
    by (simp add: round_to_pow2 round_down_pow2 div_le_mono mult_le_mono1)
qed

lemma vs_initialize_ok:
  assumes os: "os_ok os p" and r: "reservation_ok (2 ^ p) n rs" and n: "2 ^ p dvd n"
    and init: "vs_initialize (os_commit os) (os_vm_page_size os) (os_page_size_for_region_unaligned os) rs c = (vs, True)"
  shows "vs_inv vs" and "vs_committed_size vs = c" and "vs_reserved_size vs = n" and "n + 2 ^ p < size_max"
proof -
  obtain r where r': "rs = Some r" "rs_size r = n" "rs_base r \<noteq> 0" "2 ^ p dvd rs_base r" "rs_base r + n < size_max"
    using r init by (cases rs) (auto simp: reservation_ok_def vs_initialize_def vs_initialize_with_granularity_def)
  obtain g where g: "p \<le> g" "os_page_size_for_region_unaligned os n 1 = 2 ^ g" "2 ^ g \<le> n \<or> g = p"
    using os unfolding os_ok_def by (metis one_less_numeral_iff power_inject_exp semiring_norm(76))
  have page: "os_vm_page_size os = 2 ^ p" using os by (simp add: os_ok_def)
  have "vs = fst (vs_initialize_with_granularity (os_commit os) (2 ^ p) (Some r) c (2 ^ g))"
    and ok: "snd (vs_initialize_with_granularity (os_commit os) (2 ^ p) (Some r) c (2 ^ g))"
    using init g(2) by (simp_all add: vs_initialize_def r'(1,2) page)
  moreover have inv: "vs_inv (fst (vs_initialize_with_granularity (os_commit os) (2 ^ p) (Some r) c (2 ^ g)))"
    using r' n g round_window [of g n "rs_base r"] by (intro vs_initialize_inv [of _ p _ g]) auto
  ultimately show "vs_inv vs" by simp
  then have lay: "vs_layout vs" by (simp add: vs_inv_def)
  have "vs_low vs = rs_base r \<and> vs_high_boundary vs = rs_base r + n \<and> vs_high vs = rs_base r + c"
    using vs_expand_by_frame vs_expand_by_high ok \<open>vs = _\<close> r'(2)
    by (auto simp: vs_initialize_with_granularity_def Let_def split: if_splits)
  then show "vs_committed_size vs = c" "vs_reserved_size vs = n" using vs_sizes [OF lay] by simp_all
  have "2 ^ p \<le> rs_base r" using r'(3,4) by (simp add: dvd_imp_le)
  then show "n + 2 ^ p < size_max" using r'(5) by linarith
qed

lemma align_size_up_eq:
  assumes "n + 2 ^ k < size_max"
  shows "align_size_up n (2 ^ k) = round_to n (2 ^ k)"
proof -
  have "uadd64 n (2 ^ k - 1) = n + (2 ^ k - 1)" using assms by (intro uadd64_less) simp
  then show ?thesis by (simp only: align_size_up_def round_to_def Let_def)
qed

lemma max_pow2: "max (2 ^ a) (2 ^ b) = (2 ^ max a b :: nat)"
  by (auto simp: max_def)

lemma reserve_repr:
  assumes "ch_next_segment h = 0" and "ch_freelist h = None" and "ch_freelist_segments h = 0"
  shows "heap_repr (ch_clear h) []"
  using assms by (intro heap_reprI) (simp_all add: ch_clear_def)

lemma ch_reserve_success:
  assumes "ch_reserve os h0 reserved committed seg = (h, True)"
    and "page_size = (if os_can_execute_large_page_memory os
      then os_page_size_for_region_unaligned os reserved 8 else os_vm_page_size os)"
    and "h1 = h0\<lparr>ch_segment_size := seg, ch_log2_segment_size := nat (log2_intptr seg)\<rparr>"
  obtains rs_align mem sm where
    "vs_initialize (os_commit os) (os_vm_page_size os) (os_page_size_for_region_unaligned os)
       (os_reserved_code_space os (align_size_up reserved (max page_size (os_vm_allocation_granularity os)))
          rs_align (0 < rs_align))
       (align_size_up committed page_size) = (mem, True)"
    and "vs_initialize (os_commit os) (os_vm_page_size os) (os_page_size_for_region_unaligned os)
       (os_reserved_space os (align_size_up (size_to_segments h1 (vs_reserved_size mem))
          (max (os_vm_page_size os) (os_vm_allocation_granularity os))))
       (align_to_page_size (os_vm_page_size os) (size_to_segments h1 (vs_committed_size mem))) = (sm, True)"
    and "h = ch_clear (h1\<lparr>ch_memory := mem,
       ch_number_of_committed_segments := size_to_segments h1 (vs_committed_size mem),
       ch_number_of_reserved_segments := size_to_segments h1 (vs_reserved_size mem), ch_segmap_space := sm\<rparr>)"
proof -
  define rs_align where "rs_align =
    (if page_size = os_vm_page_size os then 0 else max page_size (os_vm_allocation_granularity os))"
  note eq = assms(1) [unfolded ch_reserve_def Let_def assms(2) [symmetric] assms(3) [symmetric]
      rs_align_def [symmetric]]
  obtain mem ok where mem: "vs_initialize (os_commit os) (os_vm_page_size os) (os_page_size_for_region_unaligned os)
       (os_reserved_code_space os (align_size_up reserved (max page_size (os_vm_allocation_granularity os)))
          rs_align (0 < rs_align)) (align_size_up committed page_size) = (mem, ok)" by fastforce
  have ok: "ok = True" using eq by (cases ok) (simp_all add: mem)
  obtain sm ok' where sm: "vs_initialize (os_commit os) (os_vm_page_size os) (os_page_size_for_region_unaligned os)
       (os_reserved_space os (align_size_up (size_to_segments h1 (vs_reserved_size mem))
          (max (os_vm_page_size os) (os_vm_allocation_granularity os))))
       (align_to_page_size (os_vm_page_size os) (size_to_segments h1 (vs_committed_size mem))) = (sm, ok')"
    by fastforce
  have ok': "ok' = True" using eq by (cases ok') (simp_all add: mem ok sm)
  show thesis
    by (rule that [OF mem [unfolded ok] sm [unfolded ok']]) (use eq in \<open>simp add: mem ok sm ok'\<close>)
qed

lemma align_size_up_dvd: "2 ^ k dvd align_size_up n (2 ^ k)"
proof -
  have "align_size_up n (2 ^ k) = nat (int (uadd64 n (2 ^ k - 1) div 2 ^ k * 2 ^ k))"
    by (simp add: align_size_up_def int_and_not_mask zdiv_int of_nat_diff)
  then show ?thesis by (simp only: nat_int dvd_triv_right)
qed

lemma align_size_up_room:
  assumes "p \<le> k" and "n + 2 ^ k < size_max"
  shows "round_to n (2 ^ p) \<le> align_size_up n (2 ^ k)"
  using assms round_to_dvd [of k n] round_to_ge [of n k]
  by (auto simp: align_size_up_eq intro!: round_to_least intro: dvd_trans [OF le_imp_power_dvd])

text \<open>A reservation that succeeds is an empty heap in which the invariant holds.\<close>

lemma ch_reserve_ok:
  assumes os: "os_ok os p" and seg: "seg = 2 ^ s" "24 \<le> seg" "s \<le> p" "p < 64"
    and small: "max (os_page_size_for_region_unaligned os reserved 8)
        (os_vm_allocation_granularity os) + reserved < size_max" "committed \<le> reserved"
    and res: "ch_reserve os new_code_heap reserved committed seg = (h, True)"
  shows "heap_ok h \<and> heap_blocks h = [] \<and> segmap_tight (2 ^ p) h \<and> ch_segment_size h = seg \<and>
    committed \<le> vs_committed_size (ch_memory h) \<and> map_room (2 ^ p) h"
proof -
  obtain kg where kg: "p \<le> kg" "os_vm_allocation_granularity os = 2 ^ kg" using os by (auto simp: os_ok_def)
  have page: "os_vm_page_size os = 2 ^ p" using os by (simp add: os_ok_def)
  obtain k8 where k8: "p \<le> k8" "os_page_size_for_region_unaligned os reserved 8 = 2 ^ k8"
    using os unfolding os_ok_def by meson
  define kq where "kq = (if os_can_execute_large_page_memory os then k8 else p)"
  have q: "2 ^ kq = (if os_can_execute_large_page_memory os
      then os_page_size_for_region_unaligned os reserved 8 else os_vm_page_size os)" "p \<le> kq" "kq \<le> k8"
    using k8 page by (auto simp: kq_def)
  have "max kq kg \<le> max k8 kg" using q(3) by simp
  then have "(2::nat) ^ max kq kg \<le> 2 ^ max k8 kg" by (intro power_increasing) auto
  moreover have "2 ^ max k8 kg + reserved < size_max" using small(1) by (simp only: kg(2) k8(2) max_pow2)
  ultimately have fit: "reserved + 2 ^ max kq kg < size_max" by linarith
  moreover have "(2::nat) ^ kq \<le> 2 ^ max kq kg" by (intro power_increasing) auto
  ultimately have fit': "committed + 2 ^ kq < size_max" using small(2) by linarith
  define h1 where "h1 = new_code_heap\<lparr>ch_segment_size := seg, ch_log2_segment_size := nat (log2_intptr seg)\<rparr>"
  have h1: "ch_segment_size h1 = 2 ^ ch_log2_segment_size h1" "ch_segment_size h1 = seg"
    using log2_intptr_exact [of s] seg by (simp_all add: h1_def)
  define R where "R = round_to reserved (2 ^ max kq kg)"
  define C where "C = round_to committed (2 ^ kq)"
  have dv: "2 ^ p dvd R" "2 ^ p dvd C" "seg dvd 2 ^ p"
    using round_to_dvd [of "max kq kg" reserved] round_to_dvd [of kq committed] q(2) seg(1,3)
    by (auto simp: R_def C_def le_imp_power_dvd intro: dvd_trans [OF le_imp_power_dvd])
  obtain al mem sm where
    mem: "vs_initialize (os_commit os) (os_vm_page_size os) (os_page_size_for_region_unaligned os)
       (os_reserved_code_space os R al (0 < al)) C = (mem, True)"
    and sm: "vs_initialize (os_commit os) (os_vm_page_size os) (os_page_size_for_region_unaligned os)
       (os_reserved_space os (align_size_up (size_to_segments h1 (vs_reserved_size mem)) (2 ^ kg)))
       (align_to_page_size (2 ^ p) (size_to_segments h1 (vs_committed_size mem))) = (sm, True)"
    and h: "h = ch_clear (h1\<lparr>ch_memory := mem,
       ch_number_of_committed_segments := size_to_segments h1 (vs_committed_size mem),
       ch_number_of_reserved_segments := size_to_segments h1 (vs_reserved_size mem), ch_segmap_space := sm\<rparr>)"
    using ch_reserve_success [OF res q(1) h1_def] fit fit' kg page
    by (simp add: max_pow2 align_size_up_eq R_def C_def) (metis max_absorb2)
  have seg0: "0 < seg" using seg(2) by simp
  note M = vs_initialize_ok [OF os _ dv(1) mem]
  have res_ok: "reservation_ok (2 ^ p) R (os_reserved_code_space os R al (0 < al))" using os by (simp add: os_ok_def)
  note M = M [OF res_ok]
  have CR: "C \<le> R" using vspace.committed_le [OF M(1)] M(2,3) by simp
  define nc nr where "nc = C div seg" and "nr = R div seg"
  have n: "C = nc * seg" "R = nr * seg" "seg \<le> 2 ^ p"
    using dv seg0 by (auto simp: nc_def nr_def dvd_trans dvd_imp_le)
  have room: "C + seg < size_max" "R + seg < size_max" using n(3) M(4) CR by linarith+
  note exact = size_to_segments_exact [OF h1(1), unfolded h1(2)]
  have segs: "size_to_segments h1 (vs_committed_size mem) = nc" "size_to_segments h1 (vs_reserved_size mem) = nr"
    unfolding M(2,3) by (rule exact [OF n(1) room(1)], rule exact [OF n(2) room(2)])
  have "nc * 1 \<le> nc * seg" using seg0 by (intro mult_le_mono) auto
  then have ncp: "nc + 2 ^ p < size_max" using n(1) CR M(4) by linarith
  define rs where "rs = align_size_up nr (2 ^ kg)"
  have "reservation_ok (2 ^ p) rs (os_reserved_space os rs)" "2 ^ p dvd rs"
    using os align_size_up_dvd [of kg nr] kg(1)
    by (auto simp: os_ok_def rs_def intro: dvd_trans [OF le_imp_power_dvd])
  note S = vs_initialize_ok [OF os this sm [unfolded segs, folded rs_def]]
  have smc: "vs_committed_size sm = round_to nc (2 ^ p)"
    using S(2) ncp by (simp add: align_to_page_size_eq)
  have "(2::nat) ^ kg < 2 ^ 64" using small(1) kg(2) by (simp add: size_max_def)
  then have "kg < 64" by (rule power_less_imp_less_exp [rotated]) simp
  then have "(2::nat) ^ kg \<le> 2 ^ 63" by (intro power_increasing) auto
  then have "(2::nat) ^ kg \<le> 9223372036854775808" by simp
  moreover have "nr * 24 \<le> R" unfolding n(2) using seg(2) by (intro mult_le_mono) auto
  moreover have "R < 18446744073709551616" using M(4) by (simp add: size_max_def)
  moreover have "size_max = 18446744073709551616" by (simp add: size_max_def)
  ultimately have "nr + 2 ^ kg < size_max" by linarith
  then have map: "map_room (2 ^ p) h"
    using align_size_up_room [OF kg(1)] S(3)
    by (simp add: map_room_def h [unfolded segs] ch_clear_def mark_segmap_as_free_def rs_def)
  have "heap_geometry h"
    unfolding heap_geometry_def
    using M S(1) n seg h1 round_to_ge [of nc p] smc
    by (simp add: h [unfolded segs] ch_clear_def mark_segmap_as_free_def sizeof_FreeBlock_def)
  moreover have "heap_repr h []" unfolding h by (rule reserve_repr) (simp_all add: h1_def new_code_heap_def)
  ultimately show ?thesis
    using heap_okI [of h "[]"] M(2) ncp smc h1(2) round_to_ge [of committed kq] map
    by (simp add: h [unfolded segs] segmap_tight_def align_to_page_size_eq ch_clear_def mark_segmap_as_free_def C_def)
qed

end
