(* ===== verification/CodeHeap_Contract.thy ===== *)
theory CodeHeap_Contract
  imports CodeHeap_Props
begin

text \<open>
  The code heap as its client sees it: the interface of a block allocator, its interpretation on
  the heap's own operations, histories of operations from a reserved heap, and the properties of
  \<open>memory/heap.cpp\<close>.
\<close>

section \<open>The allocator interface\<close>

text \<open>
  A live block is the address a client got and the number of bytes from there on that are the
  client's. The laws are what \<open>CodeCache\<close> relies on.
\<close>

definition blocks_apart :: "(addr \<times> nat) \<Rightarrow> (addr \<times> nat) \<Rightarrow> bool" where
  "blocks_apart = (\<lambda>(p, m) (q, k). p + m \<le> q \<or> q + k \<le> p)"

locale block_allocator =
  fixes alloc :: "'h \<Rightarrow> size_t \<Rightarrow> bool \<Rightarrow> ('h \<times> addr option) option"
    and dealloc :: "'h \<Rightarrow> addr \<Rightarrow> 'h option"
    and find :: "'h \<Rightarrow> addr \<Rightarrow> addr option option"
    and live :: "'h \<Rightarrow> (addr \<times> nat) set"
    and request_ok :: "'h \<Rightarrow> size_t \<Rightarrow> bool"
    and invar :: "'h \<Rightarrow> bool"
  assumes alloc_cases: "invar h \<Longrightarrow> request_ok h n \<Longrightarrow>
      alloc h n crit = Some (h, None) \<or>
      (\<exists>h' p m. alloc h n crit = Some (h', Some p) \<and> invar h' \<and> n \<le> m \<and>
         live h' = insert (p, m) (live h) \<and> (\<forall>b \<in> live h. blocks_apart b (p, m)))"
    and dealloc_live: "invar h \<Longrightarrow> (p, m) \<in> live h \<Longrightarrow>
      \<exists>h'. dealloc h p = Some h' \<and> invar h' \<and> live h' = live h - {(p, m)}"
    and find_live: "invar h \<Longrightarrow> (p, m) \<in> live h \<Longrightarrow> p \<le> a \<Longrightarrow> a < p + m \<Longrightarrow> find h a = Some (Some p)"
    and find_sound: "invar h \<Longrightarrow> find h a = Some (Some p) \<Longrightarrow> \<exists>m. (p, m) \<in> live h"
    and find_defined: "invar h \<Longrightarrow> find h a \<noteq> None"
    and live_apart: "invar h \<Longrightarrow> b \<in> live h \<Longrightarrow> c \<in> live h \<Longrightarrow> b \<noteq> c \<Longrightarrow> blocks_apart b c"
    and live_pos: "invar h \<Longrightarrow> (p, m) \<in> live h \<Longrightarrow> 0 < m"
begin

text \<open>A block found from any of its bytes right after it was allocated.\<close>

lemma find_allocated:
  assumes "invar h" and "request_ok h n" and "alloc h n crit = Some (h', Some p)" and "p \<le> a" and "a < p + n"
  shows "find h' a = Some (Some p)"
proof -
  obtain m where "invar h'" "n \<le> m" "(p, m) \<in> live h'"
    using alloc_cases [OF assms(1,2), of crit] assms(3) by auto
  then show ?thesis using find_live assms(4,5) by (metis order_less_le_trans nat_add_left_cancel_le)
qed

text \<open>Allocation does not change what is found from the bytes of a live block.\<close>

lemma find_other:
  assumes "invar h" and "request_ok h n" and "alloc h n crit = Some (h', r)"
    and "(q, k) \<in> live h" and "q \<le> a" and "a < q + k"
  shows "find h' a = Some (Some q)"
proof -
  have "invar h' \<and> (q, k) \<in> live h'"
    using alloc_cases [OF assms(1,2), of crit] assms(1,3,4) by auto
  then show ?thesis using find_live assms(5,6) by blast
qed

text \<open>After a block is freed, its address is no longer found.\<close>

lemma find_freed:
  assumes "invar h" and "(p, m) \<in> live h" and "dealloc h p = Some h'"
  shows "find h' a \<noteq> Some (Some p)"
proof
  assume f: "find h' a = Some (Some p)"
  have h': "invar h'" "live h' = live h - {(p, m)}"
    using dealloc_live [OF assms(1,2)] assms(3) by auto
  then obtain k where k: "(p, k) \<in> live h" "(p, k) \<noteq> (p, m)" using find_sound [OF h'(1) f] by auto
  then show False
    using live_apart [OF assms(1,2), of "(p, k)"] live_pos [OF assms(1,2)] live_pos [OF assms(1) k(1)]
    by (auto simp: blocks_apart_def)
qed

text \<open>Freeing the block just allocated gives the live blocks back.\<close>

lemma alloc_dealloc:
  assumes "invar h" and "request_ok h n" and "alloc h n crit = Some (h', Some p)"
  shows "\<exists>h''. dealloc h' p = Some h'' \<and> invar h'' \<and> live h'' = live h"
proof -
  obtain m where m: "invar h'" "live h' = insert (p, m) (live h)" "\<forall>b \<in> live h. blocks_apart b (p, m)"
    using alloc_cases [OF assms(1,2), of crit] assms(3) by auto
  have "0 < m" using live_pos [OF m(1), of p m] m(2) by simp
  then have "(p, m) \<notin> live h" using m(3) by (auto simp: blocks_apart_def)
  then show ?thesis using dealloc_live [OF m(1), of p m] m(2) by auto
qed

end

text \<open>The bytes of a used block that belong to the client.\<close>

definition ch_live :: "code_heap \<Rightarrow> (addr \<times> nat) set" where
  "ch_live h = (\<lambda>(b, l). (allocated_space h b, l * ch_segment_size h - sizeof_HeapBlock)) `
     used_blocks (heap_blocks h)"

definition ch_request_ok :: "code_heap \<Rightarrow> size_t \<Rightarrow> bool" where
  "ch_request_ok h n \<longleftrightarrow> n + sizeof_HeapBlock + ch_segment_size h \<le> size_max"

lemma payload_bounds:
  assumes "heap_geometry h" and "0 < l"
  shows "allocated_space h b + (l * ch_segment_size h - sizeof_HeapBlock) = block_at h (b + l)"
    and "0 < l * ch_segment_size h - sizeof_HeapBlock"
proof -
  have "ch_segment_size h \<le> l * ch_segment_size h" using assms(2) by simp
  then have "24 \<le> l * ch_segment_size h" using geometry_bounds(2) [OF assms(1)] by linarith
  then show "allocated_space h b + (l * ch_segment_size h - sizeof_HeapBlock) = block_at h (b + l)"
    "0 < l * ch_segment_size h - sizeof_HeapBlock"
    by (simp_all add: allocated_space_def sizeof_HeapBlock_def block_at_eq [OF assms(1)] add_mult_distrib)
qed

lemma apart_segments:
  assumes g: "heap_geometry h" and "0 < l" "0 < l'" and "b + l \<le> b' \<or> b' + l' \<le> b"
  shows "blocks_apart (allocated_space h b, l * ch_segment_size h - sizeof_HeapBlock)
    (allocated_space h b', l' * ch_segment_size h - sizeof_HeapBlock)"
proof -
  have mono: "block_at h i \<le> block_at h j" if "i \<le> j" for i j
    using that by (simp add: block_at_eq [OF g])
  show ?thesis
    unfolding blocks_apart_def prod.case payload_bounds(1) [OF g assms(2)] payload_bounds(1) [OF g assms(3)]
    using assms(4) mono [of "b + l" b'] mono [of "b' + l'" b] by (auto simp: allocated_space_def)
qed

lemma ch_liveE:
  assumes "heap_ok h" and "(p, m) \<in> ch_live h"
  obtains b l where "(b, l) \<in> used_blocks (heap_blocks h)" and "p = allocated_space h b"
    and "m = l * ch_segment_size h - sizeof_HeapBlock" and "0 < l"
  using assms used_block_bounds(1) by (auto simp: ch_live_def)

lemma ch_live_in_used:
  assumes ok: "heap_ok h" and "(b, l) \<in> used_blocks (heap_blocks h)"
    and "allocated_space h b \<le> a" and "a < allocated_space h b + (l * ch_segment_size h - sizeof_HeapBlock)"
  shows "in_used_block h a b"
  using assms payload_bounds(1) [OF heap_okD(1) [OF ok] used_block_bounds(1) [OF assms(1,2)], of b]
  by (auto simp: in_used_block_def allocated_space_def)

lemma used_blocks_apart:
  assumes "heap_ok h" and "(b, l) \<in> used_blocks (heap_blocks h)" and "(b', l') \<in> used_blocks (heap_blocks h)"
  shows "(b, l) = (b', l') \<or> b + l \<le> b' \<or> b' + l' \<le> b"
  using contig_disjoint [OF heap_okD(4) [OF assms(1)], of b l True b' l' True] assms(2,3)
  by (auto simp: used_blocks_def)

lemma ch_live_cong:
  assumes "geom h' = geom h" and "used_blocks (heap_blocks h') = insert (b, l) (used_blocks (heap_blocks h))"
  shows "ch_live h' = insert (allocated_space h b, l * ch_segment_size h - sizeof_HeapBlock) (ch_live h)"
  using assms(2) geom_cong(3) [OF assms(1)] assms(1) by (simp add: ch_live_def geom_def)

lemma ch_alloc_cases:
  assumes ok: "heap_ok h" and pos: "0 < CodeCacheMinBlockLength fl" and n: "ch_request_ok h n"
  shows "ch_allocate fl h n crit = Some (h, None) \<or>
    (\<exists>h' p m. ch_allocate fl h n crit = Some (h', Some p) \<and> heap_ok h' \<and> n \<le> m \<and>
       ch_live h' = insert (p, m) (ch_live h) \<and> (\<forall>b \<in> ch_live h. blocks_apart b (p, m)))"
proof -
  note inv = ok [unfolded heap_ok_def] and g = heap_okD(1) [OF ok]
  from ch_allocate_inv [OF inv pos n [unfolded ch_request_ok_def], of crit] show ?thesis
  proof (elim disjE exE conjE)
    fix h' bs b m
    assume a: "ch_allocate fl h n crit = Some (h', Some (allocated_space h b))" "geom h' = geom h"
      and bs: "heap_inv h' bs" and m: "n + sizeof_HeapBlock \<le> m * ch_segment_size h"
      and u: "used_blocks bs = insert (b, m) (used_blocks (heap_blocks h))"
      and fresh: "fresh_block h (heap_blocks h) b m"
    define k where "k = m * ch_segment_size h - sizeof_HeapBlock"
    have bs': "heap_ok h'" "heap_blocks h' = bs" using heap_invD [OF bs] by auto
    have "0 < m" using used_block_bounds(1) [OF bs'(1), of b m] u bs'(2) by simp
    then have "\<forall>x \<in> ch_live h. blocks_apart x (allocated_space h b, k)"
      using fresh apart_segments [OF g] used_block_bounds(1) [OF ok]
      unfolding k_def by (fastforce simp: ch_live_def fresh_block_def)
    moreover have "ch_live h' = insert (allocated_space h b, k) (ch_live h)"
      unfolding k_def by (rule ch_live_cong [OF a(2)]) (simp add: bs'(2) u)
    moreover have "n \<le> k" using m by (simp add: k_def)
    ultimately show ?thesis using a(1) bs'(1) by blast
  qed simp
qed

lemma ch_dealloc_live:
  assumes ok: "heap_ok h" and live: "(p, m) \<in> ch_live h"
  shows "\<exists>h'. ch_deallocate h p = Some h' \<and> heap_ok h' \<and> ch_live h' = ch_live h - {(p, m)} \<and> geom h' = geom h"
proof -
  note g = heap_okD(1) [OF ok]
  obtain b l where b: "(b, l) \<in> used_blocks (heap_blocks h)" "p = allocated_space h b"
    "m = l * ch_segment_size h - sizeof_HeapBlock" "0 < l"
    by (rule ch_liveE [OF ok live])
  have "(b, l, True) \<in> set (heap_blocks h)" using b(1) by (simp add: used_blocks_def)
  from ch_deallocate_inv [OF ok [unfolded heap_ok_def] this] obtain h' bs where
    h': "ch_deallocate h p = Some h'" "geom h' = geom h" "heap_inv h' bs"
      "used_blocks bs = used_blocks (heap_blocks h) - {(b, l)}" unfolding b(2) by blast
  define f where "f = (\<lambda>(b, l). (allocated_space h b, l * ch_segment_size h - sizeof_HeapBlock))"
  have inj: "inj_on f (used_blocks (heap_blocks h))"
    using used_blocks_apart [OF ok] used_block_bounds(1) [OF ok] geometry_bounds(2) [OF g]
    by (fastforce simp: inj_on_def f_def allocated_space_def block_at_eq [OF g])
  have "f ` (used_blocks (heap_blocks h) - {(b, l)}) = f ` used_blocks (heap_blocks h) - f ` {(b, l)}"
    by (rule inj_on_image_set_diff [OF inj]) (use b(1) in auto)
  moreover have "ch_live h = f ` used_blocks (heap_blocks h)" by (simp add: ch_live_def f_def)
  moreover have "ch_live h' = f ` (used_blocks (heap_blocks h) - {(b, l)})"
    using heap_invD [OF h'(3)] h'(2,4) geom_cong(3) [OF h'(2)]
    by (simp add: ch_live_def f_def geom_def)
  moreover have "f ` {(b, l)} = {(p, m)}" using b(2,3) by (simp add: f_def)
  ultimately show ?thesis using h' heap_invD [OF h'(3)] by auto
qed

lemma ch_find_sound:
  assumes ok: "heap_ok h" and f: "find_start h a = Some (Some p)"
  shows "\<exists>m. (p, m) \<in> ch_live h"
proof -
  obtain b where b: "in_used_block h a b"
    using f find_start_unused [OF ok, of a] by fastforce
  then have "p = allocated_space h b" using f find_start_used [OF ok] by simp
  then show ?thesis using b by (force simp: in_used_block_def ch_live_def)
qed

lemma ch_live_apart:
  assumes ok: "heap_ok h" and "x \<in> ch_live h" and "y \<in> ch_live h" and "x \<noteq> y"
  shows "blocks_apart x y"
proof -
  obtain b l where b: "(b, l) \<in> used_blocks (heap_blocks h)" "0 < l"
    "x = (allocated_space h b, l * ch_segment_size h - sizeof_HeapBlock)"
    using ch_liveE [OF ok] assms(2) by (metis surj_pair)
  obtain c k where c: "(c, k) \<in> used_blocks (heap_blocks h)" "0 < k"
    "y = (allocated_space h c, k * ch_segment_size h - sizeof_HeapBlock)"
    using ch_liveE [OF ok] assms(3) by (metis surj_pair)
  have "b + l \<le> c \<or> c + k \<le> b" using used_blocks_apart [OF ok b(1) c(1)] b(3) c(3) assms(4) by auto
  then show ?thesis unfolding b(3) c(3) by (rule apart_segments [OF heap_okD(1) [OF ok] b(2) c(2)])
qed

interpretation code_heap: block_allocator
  "ch_allocate fl" ch_deallocate find_start ch_live ch_request_ok
  "\<lambda>h. heap_ok h \<and> 0 < CodeCacheMinBlockLength fl" for fl
proof (unfold_locales, goal_cases)
  case (1 h n crit)
  then show ?case using ch_alloc_cases [of h fl n crit] by blast
next
  case (2 h p m)
  then show ?case using ch_dealloc_live by blast
next
  case (3 h p m a)
  then show ?case
    by (metis ch_liveE ch_live_in_used find_start_used)
next
  case (4 h a p)
  then show ?case using ch_find_sound by blast
next
  case (5 h a)
  then show ?case using find_start_used [of h a] find_start_unused [of h a] by fastforce
next
  case (6 h b c)
  then show ?case using ch_live_apart by blast
next
  case (7 h p m)
  then show ?case by (metis ch_liveE heap_okD(1) payload_bounds(2))
qed

section \<open>Histories\<close>

text \<open>
  The steps of a heap in use: allocation of any size, freeing of a live block, and any expansion whose
  size does not wrap around, whatever it returns.
\<close>

inductive heap_step :: "code_flags \<Rightarrow> os_mem \<Rightarrow> size_t \<Rightarrow> code_heap \<Rightarrow> code_heap \<Rightarrow> bool"
  for fl commit page where
  step_allocate: "ch_request_ok h n \<Longrightarrow> ch_allocate fl h n crit = Some (h', r) \<Longrightarrow> heap_step fl commit page h h'"
| step_deallocate: "(p, m) \<in> ch_live h \<Longrightarrow> ch_deallocate h p = Some h' \<Longrightarrow> heap_step fl commit page h h'"
| step_expand: "vs_committed_size (ch_memory h) + bytes + 2 * page < size_max \<Longrightarrow>
    ch_expand_by commit page h bytes = (h', ok) \<Longrightarrow> heap_step fl commit page h h'"

text \<open>
  What every step keeps when the OS grants the commits of the segment map: the invariant, and that the
  map has its place in the address space and room for all reserved segments.
\<close>

definition heap_run_ok :: "os_mem \<Rightarrow> size_t \<Rightarrow> code_heap \<Rightarrow> bool" where
  "heap_run_ok commit page h \<longleftrightarrow> heap_ok h \<and> segmap_tight page h \<and> ch_segment_size h dvd page \<and>
     map_room page h \<and> os_grants commit (ch_segmap_space h)"

lemma heap_run_ok_geom:
  assumes "heap_run_ok commit page h" and "geom h' = geom h" and "heap_ok h'"
  shows "heap_run_ok commit page h'"
  using assms by (simp add: heap_run_ok_def segmap_tight_def map_room_def geom_def)

lemma ch_allocate_geom:
  assumes "ch_allocate fl h n crit = Some (h', r)"
  shows "geom h' = geom h"
  using assms geom_search_freelist
  by (fastforce simp: ch_allocate_def Let_def bind_eq_Some_conv split: option.splits if_splits)

lemma ch_allocate_keeps:
  assumes "heap_ok h" and "0 < CodeCacheMinBlockLength fl" and "ch_request_ok h n"
    and "ch_allocate fl h n crit = Some (h', r)"
  shows "heap_ok h'"
  using ch_alloc_cases [OF assms(1-3), of crit] assms(1,4) by auto

lemma ch_expand_by_segment_size: "ch_segment_size (fst (ch_expand_by commit page h bytes)) = ch_segment_size h"
  by (auto simp: ch_expand_by_def Let_def mark_segmap_as_free_def split: prod.split)

text \<open>An expansion moves neither reservation.\<close>

lemma ch_expand_by_map:
  "\<exists>n. ch_segmap_space (fst (ch_expand_by commit page h bytes)) = ch_segmap_space h \<or>
    ch_segmap_space (fst (ch_expand_by commit page h bytes)) = fst (vs_expand_by commit (ch_segmap_space h) n)"
  "ch_number_of_reserved_segments (fst (ch_expand_by commit page h bytes)) = ch_number_of_reserved_segments h"
  by (auto simp: ch_expand_by_def Let_def mark_segmap_as_free_def split: prod.split)

lemma ch_expand_by_room:
  assumes "heap_ok h" and "map_room page h" and "os_grants commit (ch_segmap_space h)"
  shows "map_room page (fst (ch_expand_by commit page h bytes)) \<and>
    os_grants commit (ch_segmap_space (fst (ch_expand_by commit page h bytes)))"
proof -
  have "vs_inv (ch_segmap_space h)" using heap_okD(1) [OF assms(1)] by (simp add: heap_geometry_def)
  note V = vspace.expand_reserved [OF this, of commit]
  obtain n where "ch_segmap_space (fst (ch_expand_by commit page h bytes)) = ch_segmap_space h \<or>
    ch_segmap_space (fst (ch_expand_by commit page h bytes)) = fst (vs_expand_by commit (ch_segmap_space h) n)"
    using ch_expand_by_map(1) by blast
  then show ?thesis
    using assms(2,3) V [of n]
    by (auto simp: map_room_def os_grants_def ch_expand_by_map(2) vs_expand_by_frame)
qed

lemma ch_expand_by_run_ok:
  assumes run: "heap_run_ok commit page h" and page: "page = 2 ^ p"
    and small: "vs_committed_size (ch_memory h) + bytes + 2 * page < size_max"
  shows "heap_run_ok commit page (fst (ch_expand_by commit page h bytes))"
proof (cases "snd (ch_expand_by commit page h bytes)")
  case True
  then have "ch_expand_by commit page h bytes = (fst (ch_expand_by commit page h bytes), True)"
    by (simp add: prod_eq_iff)
  from expand_success [OF _ page _ _ small this] ch_expand_by_room [of h page commit bytes] run show ?thesis
    by (simp add: heap_run_ok_def ch_expand_by_segment_size)
next
  case False
  have H: "heap_ok h" "ch_segment_size h dvd page" "segmap_tight page h" "map_room page h"
    "os_grants commit (ch_segmap_space h)" using run by (simp_all add: heap_run_ok_def)
  from expand_memory_refused [OF H(1) expand_map_granted [OF H(1) page H(2,3) small H(4,5) False]] H show ?thesis
    by (auto simp: heap_run_ok_def segmap_tight_def map_room_def)
qed

lemma heap_step_run_ok:
  assumes "heap_step fl commit page h h'" and run: "heap_run_ok commit page h"
    and page: "page = 2 ^ p" and pos: "0 < CodeCacheMinBlockLength fl"
  shows "heap_run_ok commit page h'"
  using assms(1)
proof cases
  case (step_allocate n crit r)
  then show ?thesis
    using heap_run_ok_geom [OF run ch_allocate_geom] ch_allocate_keeps [OF _ pos] run
    by (auto simp: heap_run_ok_def)
next
  case (step_deallocate q m)
  then show ?thesis
    using ch_dealloc_live [of h q m] run heap_run_ok_geom [OF run] by (auto simp: heap_run_ok_def)
next
  case (step_expand bytes ok)
  then show ?thesis using ch_expand_by_run_ok [OF run page step_expand(1)] by simp
qed

lemma heap_steps_run_ok:
  assumes "(heap_step fl commit page)\<^sup>*\<^sup>* h h'" and "heap_run_ok commit page h"
    and "page = 2 ^ p" and "0 < CodeCacheMinBlockLength fl"
  shows "heap_run_ok commit page h'"
  using assms by (induction rule: rtranclp_induct) (auto intro: heap_step_run_ok)

section \<open>A map that cannot grow\<close>

lemma expand_map_refused:
  assumes ok: "heap_ok h" and page: "page = 2 ^ k" "ch_segment_size h dvd page" and tight: "segmap_tight page h"
    and small: "vs_committed_size (ch_memory h) + bytes + 2 * page < size_max"
    and grows: "snd (vs_expand_by commit (ch_memory h)
      (round_to (vs_committed_size (ch_memory h) + bytes) page - vs_committed_size (ch_memory h)))"
    and fails: "ch_expand_by commit page h bytes = (h', False)"
  shows "ch_number_of_committed_segments h < ch_number_of_committed_segments h'"
    and "vs_committed_size (ch_segmap_space h') = vs_committed_size (ch_segmap_space h)"
    and "vs_committed_size (ch_segmap_space h') < ch_number_of_committed_segments h'"
    and "ch_freelist h' = ch_freelist h" and "ch_next_segment h' = ch_next_segment h"
    and "ch_log2_segment_size h' = ch_log2_segment_size h" and "ch_segment_size h' = ch_segment_size h"
proof -
  note geo = heap_okD(1) [OF ok]
  let ?old = "vs_committed_size (ch_memory h)" and ?map = "vs_committed_size (ch_segmap_space h)"
    and ?c = "ch_number_of_committed_segments h"
  define dm where "dm = round_to (?old + bytes) page - ?old"
  have req: "usub64 (align_to_page_size page (uadd64 ?old bytes)) ?old = dm"
    using expand_request [OF page(1), of ?old bytes] small by (simp_all add: dm_def)
  have pos: "0 < dm" using fails req by (auto simp: ch_expand_by_def Let_def split: if_splits)
  obtain mem where mem: "vs_expand_by commit (ch_memory h) dm = (mem, True)"
    using grows by (metis dm_def prod.collapse)
  obtain n ds sm where E: "?c < n" "n + page < size_max" "?map + ds = round_to n page"
    "sm = (if 0 < ds then vs_expand_by commit (ch_segmap_space h) ds else (ch_segmap_space h, True))"
    "ch_expand_by commit page h bytes =
      (let g = h\<lparr>ch_memory := mem, ch_number_of_committed_segments := n, ch_segmap_space := fst sm\<rparr>
       in if snd sm then (mark_segmap_as_free g ?c n, True) else (g, False))"
    by (rule expand_grown [OF ok page tight small dm_def pos mem])
  have h': "h' = h\<lparr>ch_memory := mem, ch_number_of_committed_segments := n, ch_segmap_space := fst sm\<rparr>" "\<not> snd sm"
    using fails E(5) by (auto simp: Let_def split: if_splits)
  have inv: "vs_inv (ch_segmap_space h)" using geo by (simp add: heap_geometry_def)
  have ds: "0 < ds" using h'(2) E(4) by (cases "0 < ds") auto
  have m: "vs_committed_size (fst sm) = ?map"
    using vspace.expand_committed [OF inv, of commit ds] h'(2) ds by (simp add: E(4))
  have "?map = round_to ?c page"
    using tight E(1,2) page(1) by (simp add: segmap_tight_def align_to_page_size_eq)
  then have "page dvd ?map" using round_to_dvd [of k ?c] page(1) by simp
  then have "?map < n" using round_to_least [of n ?map k] page(1) ds E(3) by (cases "n \<le> ?map") auto
  then show "?c < ch_number_of_committed_segments h'" "vs_committed_size (ch_segmap_space h') = ?map"
    "vs_committed_size (ch_segmap_space h') < ch_number_of_committed_segments h'"
    "ch_freelist h' = ch_freelist h" "ch_next_segment h' = ch_next_segment h"
    "ch_log2_segment_size h' = ch_log2_segment_size h" "ch_segment_size h' = ch_segment_size h"
    using E(1) m by (simp_all add: h'(1))
qed

text \<open>A critical request with an empty free list takes its segments from the unused end.\<close>

lemma ch_allocate_end:
  assumes "ch_freelist h = None"
    and "m = max (size_to_segments h (uadd64 n sizeof_HeapBlock)) (CodeCacheMinBlockLength fl)"
    and "ch_next_segment h + m \<le> ch_number_of_committed_segments h"
  shows "\<exists>h' p. ch_allocate fl h n True = Some (h', Some p) \<and> ch_next_segment h' = ch_next_segment h + m \<and>
    ch_segmap_space h' = ch_segmap_space h"
proof -
  have "(if k < c then c else k) = max k c" for k c :: nat by simp
  moreover have "search_freelist fl h k True = Some (h, None)" for k
    by (simp add: search_freelist_def assms(1))
  ultimately show ?thesis
    using assms(3) by (simp add: ch_allocate_def Let_def assms(2) set_used_def set_length_def mark_segmap_as_used_def)
qed

section \<open>Accounting\<close>

lemma allocated_capacity_used:
  assumes ok: "heap_ok h"
  shows "allocated_capacity h = used_length (heap_blocks h) * ch_segment_size h"
proof -
  note g = heap_okD(1) [OF ok] and D = heap_reprD [OF heap_okD(2) [OF ok]]
  have len: "used_length (heap_blocks h) + free_length (heap_blocks h) = ch_next_segment h"
    using contig_lengths [OF heap_okD(4) [OF ok]] by simp
  then have "usub64 (ch_next_segment h) (ch_freelist_segments h) = used_length (heap_blocks h)"
    using D(5,6) committed_segments_small [OF g] by (subst usub64_le) auto
  moreover have "used_length (heap_blocks h) * ch_segment_size h < size_max"
  proof -
    have "used_length (heap_blocks h) * ch_segment_size h \<le> ch_number_of_committed_segments h * ch_segment_size h"
      using len D(6) by (intro mult_le_mono1) linarith
    then show ?thesis using geometry_bounds(3-5) [OF g] by linarith
  qed
  ultimately show ?thesis
    by (simp add: allocated_capacity_def segments_to_size_def push_bit_eq_mult geometry_bounds(1) [OF g])
qed

section \<open>A small heap for the witnesses\<close>

definition demo_os :: os_iface where
  "demo_os = \<lparr>os_vm_page_size = 4096, os_vm_allocation_granularity = 4096,
     os_can_execute_large_page_memory = False, os_page_size_for_region_unaligned = (\<lambda>_ _. 4096),
     os_reserved_code_space = (\<lambda>n _ _. if n < 1048576 then Some \<lparr>rs_base = 65536, rs_size = n,
        rs_special = False, rs_executable = True\<rparr> else None),
     os_reserved_space = (\<lambda>n. if n < 1048576 then Some \<lparr>rs_base = 8388608, rs_size = n,
        rs_special = False, rs_executable = False\<rparr> else None),
     os_commit = (\<lambda>_ _. True)\<rparr>"

definition demo_flags :: code_flags where
  "demo_flags = \<lparr>CodeCacheMinBlockLength = 1, CodeCacheMinimumFreeSpace = 4096\<rparr>"

definition demo_mem :: virtual_space where
  "demo_mem = \<lparr>vs_low_boundary = 65536, vs_high_boundary = 589824, vs_low = 65536, vs_high = 327680,
     vs_special = False, vs_executable = True, vs_lower_high = 65536, vs_middle_high = 327680,
     vs_upper_high = 589824, vs_lower_high_boundary = 65536, vs_middle_high_boundary = 589824,
     vs_upper_high_boundary = 589824, vs_lower_alignment = 4096, vs_middle_alignment = 4096,
     vs_upper_alignment = 4096, vs_os = [OsCommit 65536 262144]\<rparr>"

definition demo_map :: virtual_space where
  "demo_map = \<lparr>vs_low_boundary = 8388608, vs_high_boundary = 8396800, vs_low = 8388608,
     vs_high = 8392704, vs_special = False, vs_executable = False, vs_lower_high = 8388608,
     vs_middle_high = 8392704, vs_upper_high = 8396800, vs_lower_high_boundary = 8388608,
     vs_middle_high_boundary = 8396800, vs_upper_high_boundary = 8396800, vs_lower_alignment = 4096,
     vs_middle_alignment = 4096, vs_upper_alignment = 4096,
     vs_os = [OsCommit 8388608 4096]\<rparr>"

definition demo_heap :: code_heap where
  "demo_heap = ch_clear (new_code_heap\<lparr>ch_segment_size := 64, ch_log2_segment_size := 6, ch_memory := demo_mem,
     ch_number_of_committed_segments := 4096, ch_number_of_reserved_segments := 8192,
     ch_segmap_space := demo_map\<rparr>)"

lemma demo_os_ok: "os_ok demo_os 12"
  by (auto simp: os_ok_def demo_os_def reservation_ok_def size_max_def intro!: exI [of _ 12])

lemma demo_init:
  "vs_initialize (\<lambda>_ _. True) 4096 (\<lambda>_ _. 4096)
     (Some \<lparr>rs_base = 65536, rs_size = 524288, rs_special = False, rs_executable = True\<rparr>) 262144 = (demo_mem, True)"
  "vs_initialize (\<lambda>_ _. True) 4096 (\<lambda>_ _. 4096)
     (Some \<lparr>rs_base = 8388608, rs_size = 8192, rs_special = False, rs_executable = False\<rparr>) 4096 = (demo_map, True)"
  by (simp_all add: vs_initialize_def vs_initialize_with_granularity_def vs_expand_by_def os_commit_memory_def vs_size_defs
      usub64_def size_max_def round_to_def round_down_def demo_mem_def demo_map_def)

text \<open>Growing the two spaces of the small heap by a page.\<close>

definition grown_mem :: virtual_space where
  "grown_mem = demo_mem\<lparr>vs_middle_high := 331776, vs_high := 331776, vs_os := OsCommit 327680 4096 # vs_os demo_mem\<rparr>"

lemma demo_grow:
  "vs_expand_by (\<lambda>a n. a < 8388608) demo_mem 4096 = (grown_mem, True)"
  "vs_expand_by (\<lambda>a n. a < 8388608) demo_map 4096 = (demo_map, False)"
  "vs_expand_by (\<lambda>_ _. True) demo_mem 4096 = (grown_mem, True)"
  "vs_expand_by (\<lambda>_ _. True) demo_map 4096 =
     (demo_map\<lparr>vs_middle_high := 8396800, vs_high := 8396800, vs_os := OsCommit 8392704 4096 # vs_os demo_map\<rparr>, True)"
  by (simp_all add: vs_expand_by_def os_commit_memory_def vs_size_defs usub64_def size_max_def round_to_def
      demo_mem_def demo_map_def grown_mem_def)

lemma demo_sizes [simp]:
  "vs_committed_size demo_mem = 262144" "vs_reserved_size demo_mem = 524288"
  "vs_committed_size demo_map = 4096" "vs_low demo_mem = 65536"
  by (simp_all add: vs_size_defs usub64_def size_max_def demo_mem_def demo_map_def)

lemma demo_aligned:
  "align_size_up 524288 4096 = 524288" "align_size_up 262144 4096 = 262144" "align_size_up 8192 4096 = 8192"
  "align_to_page_size 4096 4096 = 4096"
  by (simp_all add: align_size_up_def align_to_page_size_def usub64_def uadd64_def size_max_def)

lemma demo_grown:
  "vs_committed_size grown_mem = 266240"
  "usub64 (align_to_page_size 4096 (uadd64 262144 4096)) 262144 = 4096"
  "usub64 (align_to_page_size 4096 (uadd64 262144 3000)) 262144 = 4096"
  "usub64 (align_to_page_size 4096 4160) 4096 = 4096"
  by (simp_all add: align_to_page_size_def usub64_def uadd64_def size_max_def vs_size_defs demo_mem_def grown_mem_def)

lemma demo_segments:
  "ch_segment_size h = 64 \<Longrightarrow> ch_log2_segment_size h = 6 \<Longrightarrow> n + 63 < size_max \<Longrightarrow>
   size_to_segments h n = (n + 63) div 64"
  by (simp add: size_to_segments_def uadd64_less drop_bit_eq_div)

lemma demo_reserve: "ch_reserve demo_os new_code_heap 524288 262144 64 = (demo_heap, True)"
proof -
  have "log2_intptr 64 = 6" using log2_intptr_exact [of 6] by simp
  then show ?thesis
    by (simp add: ch_reserve_def demo_os_def Let_def demo_aligned demo_init demo_segments size_max_def demo_heap_def)
qed

lemma demo_heap_fields [simp]:
  "ch_next_segment demo_heap = 0" "ch_freelist demo_heap = None" "ch_segment_size demo_heap = 64"
  "ch_log2_segment_size demo_heap = 6" "ch_number_of_committed_segments demo_heap = 4096"
  "ch_number_of_reserved_segments demo_heap = 8192" "ch_memory demo_heap = demo_mem"
  "ch_segmap_space demo_heap = demo_map"
  by (simp_all add: demo_heap_def ch_clear_def mark_segmap_as_free_def new_code_heap_def)

lemma demo_heap_ok: "heap_ok demo_heap" "heap_blocks demo_heap = []" "segmap_tight 4096 demo_heap"
  using ch_reserve_ok [OF demo_os_ok, of 64 6 524288 262144 demo_heap] demo_reserve
  by (simp_all add: demo_os_def size_max_def)

lemma demo_request: "ch_request_ok demo_heap 100"
  by (simp add: ch_request_ok_def demo_heap_fields sizeof_HeapBlock_def size_max_def)

definition demo_heap1 :: code_heap where
  "demo_heap1 = fst (the (ch_allocate demo_flags demo_heap 100 False))"

lemma demo_allocate:
  "ch_allocate demo_flags demo_heap 100 False = Some (demo_heap1, Some 65552)"
  "ch_next_segment demo_heap1 = 2" "ch_length demo_heap1 0 = 2" "blk_used (ch_blocks demo_heap1 0)"
proof -
  have "size_to_segments demo_heap 116 = 2" by (simp add: demo_segments size_max_def)
  moreover have "search_freelist demo_flags demo_heap 2 False = Some (demo_heap, None)"
    by (simp add: search_freelist_def demo_heap_fields)
  moreover have "heap_unallocated_capacity demo_heap = 524288" "segments_to_size demo_heap 2 = 128"
    by (simp_all add: heap_unallocated_capacity_def segments_to_size_def demo_heap_fields usub64_def size_max_def
        push_bit_eq_mult)
  ultimately have "\<exists>h. ch_allocate demo_flags demo_heap 100 False = Some (h, Some 65552) \<and>
      ch_next_segment h = 2 \<and> ch_length h 0 = 2 \<and> blk_used (ch_blocks h 0)"
    by (simp add: ch_allocate_def Let_def uadd64_def sizeof_HeapBlock_def size_max_def demo_flags_def usub64_def
        demo_heap_fields allocated_space_def block_at_def)
  then show "ch_allocate demo_flags demo_heap 100 False = Some (demo_heap1, Some 65552)"
    "ch_next_segment demo_heap1 = 2" "ch_length demo_heap1 0 = 2" "blk_used (ch_blocks demo_heap1 0)"
    by (auto simp: demo_heap1_def)
qed

lemma demo_heap1_ok: "heap_ok demo_heap1" "\<exists>m. (65552, m) \<in> ch_live demo_heap1"
  using ch_alloc_cases [OF demo_heap_ok(1) _ demo_request, of demo_flags False] demo_allocate(1)
  by (auto simp: demo_flags_def)

lemma demo_heap1_blocks: "heap_blocks demo_heap1 = [(0, 2, True)]"
proof -
  have "heap_walk demo_heap1 2 = []" by (simp add: heap_walk.simps [of demo_heap1 2] demo_allocate)
  then show ?thesis
    using heap_walk.simps [of demo_heap1 0] by (simp add: heap_blocks_def demo_allocate numeral_2_eq_2)
qed

text \<open>The same heap with its one block freed.\<close>

definition demo_heap2 :: code_heap where
  "demo_heap2 = the (add_to_freelist demo_heap1 0)"

lemma demo_heap2_ok: "heap_ok demo_heap2" "heap_blocks demo_heap2 = [(0, 2, False)]"
proof -
  have r: "heap_repr demo_heap1 ([] @ (0, 2, True) # [])"
    using heap_okD(2) [OF demo_heap1_ok(1)] by (simp add: demo_heap1_blocks)
  then obtain h where h: "add_to_freelist demo_heap1 0 = Some h" "heap_repr h [(0, 2, False)]"
    using add_to_freelist_repr [OF r] by (auto simp: free_block_def join_left_def)
  have "heap_geometry h"
    using geom_cong(1) [OF geom_add_to_freelist [OF h(1)]] heap_okD(1) [OF demo_heap1_ok(1)] by simp
  then have "heap_ok h \<and> heap_blocks h = [(0, 2, False)]" by (rule heap_okI [OF _ h(2)]) simp
  then show "heap_ok demo_heap2" "heap_blocks demo_heap2 = [(0, 2, False)]"
    by (simp_all add: demo_heap2_def h(1))
qed

end
