(* ===== verification/CodeHeap_Theorems.thy ===== *)
theory CodeHeap_Theorems
  imports CodeHeap_Contract
begin

text \<open>
  The properties of \<open>CodeHeap\<close> (\<open>src/src/share/vm/memory/heap.cpp\<close>): reservation, allocation,
  deallocation, lookup, iteration, expansion, histories, and the two places where the code does
  not do what its comments say.
\<close>

text \<open>
  A successful \<open>reserve\<close> yields an empty heap in which the whole representation invariant
  holds: every committed segment is marked free, the segment map has a byte per segment, and at
  least the requested bytes are committed. The hypotheses are the documented behaviour of the OS
  layer (\<open>os_ok\<close>), the asserts on the segment size, and that sizes do not wrap.
\<close>

theorem ch_reserve_correct:
  assumes "os_ok os p" and "p < 64" and "s \<le> p" and "sizeof_FreeBlock \<le> 2 ^ s" and "committed \<le> reserved"
    and "max (os_page_size_for_region_unaligned os reserved 8)
      (os_vm_allocation_granularity os) + reserved < size_max"
    and "ch_reserve os new_code_heap reserved committed (2 ^ s) = (h, True)"
  shows "heap_ok h \<and> heap_blocks h = [] \<and> ch_segment_size h = 2 ^ s \<and> committed \<le> ch_capacity h"
  using ch_reserve_ok [of os p "2 ^ s" s reserved committed h] assms
  by (simp add: ch_capacity_def sizeof_FreeBlock_def)

theorem ch_reserve_correct_witness:
  "heap_ok demo_heap \<and> heap_blocks demo_heap = [] \<and> ch_segment_size demo_heap = 2 ^ 6 \<and>
     262144 \<le> ch_capacity demo_heap"
  using ch_reserve_correct [OF demo_os_ok, of 6 262144 524288 demo_heap] demo_reserve
  by (simp add: demo_os_def size_max_def sizeof_FreeBlock_def)

text \<open>
  C8: \<open>allocate\<close> always returns. Either it fails and the heap is unchanged, or it returns a block
  of at least the requested size that overlaps no live block; the other live blocks and the
  invariant are kept.
\<close>

theorem ch_allocate_correct:
  assumes "heap_ok h" and "0 < CodeCacheMinBlockLength fl" and "ch_request_ok h n"
  shows "ch_allocate fl h n crit = Some (h, None) \<or>
    (\<exists>h' p m. ch_allocate fl h n crit = Some (h', Some p) \<and> heap_ok h' \<and> n \<le> m \<and>
       ch_live h' = insert (p, m) (ch_live h) \<and> (\<forall>b \<in> ch_live h. blocks_apart b (p, m)))"
  using assms by (rule ch_alloc_cases)

theorem ch_allocate_correct_witness:
  "\<exists>m. 100 \<le> m \<and> ch_live demo_heap1 = insert (65552, m) (ch_live demo_heap)"
  using ch_allocate_correct [OF demo_heap_ok(1) _ demo_request, of demo_flags False] demo_allocate(1)
  by (auto simp: demo_flags_def)

text \<open>
  C9: \<open>deallocate\<close> of a live block always returns, keeps the invariant (so the free list is again
  sorted and coalesced) and removes exactly that block from the live ones; the block it just
  freed is no longer found.
\<close>

theorem ch_deallocate_correct:
  assumes "heap_ok h" and "(p, m) \<in> ch_live h"
  shows "\<exists>h'. ch_deallocate h p = Some h' \<and> heap_ok h' \<and> ch_live h' = ch_live h - {(p, m)} \<and>
    (\<forall>a. find_start h' a \<noteq> Some (Some p))"
proof -
  obtain h' where h': "ch_deallocate h p = Some h'" "heap_ok h'" "ch_live h' = ch_live h - {(p, m)}"
    using ch_dealloc_live [OF assms] by blast
  have "find_start h' a \<noteq> Some (Some p)" for a
    using code_heap.find_freed [of h demo_flags p m h' a] assms h'(1) by (simp add: demo_flags_def)
  with h' show ?thesis by blast
qed

theorem ch_deallocate_correct_witness:
  "\<exists>h'. ch_deallocate demo_heap1 65552 = Some h' \<and> heap_ok h' \<and> (\<forall>a. find_start h' a \<noteq> Some (Some 65552))"
  using ch_deallocate_correct [OF demo_heap1_ok(1), of 65552] demo_heap1_ok(2) by blast

text \<open>
  C4: \<open>find_start\<close>, the walk over the segment map that \<open>CodeCache\<close> uses to go from a program counter
  to its blob, never leaves the map; it returns the start of a used block for every address in it
  (header included), and \<open>NULL\<close> for every other address.
\<close>

theorem find_start_correct:
  assumes "heap_ok h"
  shows "find_start h p \<noteq> None \<and>
    (find_start h p = Some (Some q) \<longleftrightarrow> (\<exists>b. in_used_block h p b \<and> q = allocated_space h b))"
proof (cases "\<exists>b. in_used_block h p b")
  case True
  then show ?thesis using find_start_used [OF assms, of p] by fastforce
next
  case False
  then show ?thesis using find_start_unused [OF assms, of p] by simp
qed

theorem find_start_correct_witness: "find_start demo_heap1 65600 = Some (Some 65552)"
proof -
  have "in_used_block demo_heap1 65600 0 \<and> allocated_space demo_heap1 0 = 65552"
    using ch_allocate_geom [OF demo_allocate(1)]
    by (simp add: in_used_block_def used_blocks_def demo_heap1_blocks allocated_space_def block_at_def geom_def
        sizeof_HeapBlock_def)
  then show ?thesis using find_start_correct [OF demo_heap1_ok(1), of 65600 65552] by metis
qed

text \<open>
  C19: iterating with \<open>first\<close> and \<open>next\<close> visits the used blocks of the heap exactly once, in address
  order. \<open>next_free\<close> skips one free block only, so this rests on the coalescing of the free list.
\<close>

theorem ch_iteration_correct:
  assumes "heap_ok h"
  shows "ch_first h = first_of (map (allocated_space h) (used_starts (heap_blocks h))) \<and>
    (\<forall>as b cs. used_starts (heap_blocks h) = as @ b # cs \<longrightarrow>
       ch_next h (allocated_space h b) = Some (first_of (map (allocated_space h) cs))) \<and>
    sorted_wrt (<) (used_starts (heap_blocks h))"
proof -
  have "sorted_wrt (<) (used_starts bs)" if "sorted_wrt (<) (map fst bs)" for bs :: "ablock list"
    using that by (auto simp: used_starts_def sorted_wrt_map sorted_wrt_filter)
  then show ?thesis
    using ch_first_used [OF assms] ch_next_used [OF assms] contig_starts_sorted [OF heap_okD(4) [OF assms]]
    by blast
qed

theorem ch_iteration_correct_witness: "ch_first demo_heap1 = Some 65552 \<and> ch_next demo_heap1 65552 = Some None"
proof -
  have "allocated_space demo_heap1 0 = 65552"
    using ch_allocate_geom [OF demo_allocate(1)]
    by (simp add: allocated_space_def block_at_def geom_def sizeof_HeapBlock_def)
  moreover have "used_starts (heap_blocks demo_heap1) = [] @ 0 # []"
    by (simp add: demo_heap1_blocks used_starts_def)
  ultimately show ?thesis
    using ch_iteration_correct [OF demo_heap1_ok(1)] by (fastforce simp: first_of_def)
qed

text \<open>
  C20: a successful \<open>expand_by\<close> commits at least the requested bytes and keeps the invariant and all
  blocks; the new segments are marked free.
\<close>

theorem ch_expand_by_correct:
  assumes "heap_ok h" and "page = 2 ^ k" and "ch_segment_size h dvd page" and "segmap_tight page h"
    and "ch_capacity h + bytes + 2 * page < size_max"
    and "ch_expand_by commit page h bytes = (h', True)"
  shows "heap_ok h' \<and> heap_blocks h' = heap_blocks h \<and> segmap_tight page h' \<and>
    ch_capacity h + bytes \<le> ch_capacity h'"
  using expand_success [OF assms(1-4)] assms(5,6) by (simp add: ch_capacity_def)

lemma demo_expand: "snd (ch_expand_by (\<lambda>_ _. True) 4096 demo_heap 3000)"
  by (simp add: ch_expand_by_def demo_grow demo_grown demo_segments size_max_def)

theorem ch_expand_by_correct_witness:
  "\<exists>h'. ch_expand_by (\<lambda>_ _. True) 4096 demo_heap 3000 = (h', True) \<and> heap_ok h' \<and> 265144 \<le> ch_capacity h'"
proof -
  obtain h' where h': "ch_expand_by (\<lambda>_ _. True) 4096 demo_heap 3000 = (h', True)"
    using demo_expand by (cases "ch_expand_by (\<lambda>_ _. True) 4096 demo_heap 3000") auto
  show ?thesis
    using ch_expand_by_correct [OF demo_heap_ok(1) _ _ demo_heap_ok(3) _ h', of 12] h'
    by (simp add: ch_capacity_def demo_heap_fields size_max_def)
qed

text \<open>
  C1: take any sequence of allocations, deallocations of live blocks and expansions, successful or
  not, on a reserved heap, with an OS that may refuse to commit the memory of the heap but not the
  memory of its segment map (\<open>os_grants\<close>). In every state reached the invariant holds, live blocks do
  not overlap, and \<open>allocated_capacity\<close> is exactly the size of the used blocks. Sizes passed to
  \<open>allocate\<close> and \<open>expand_by\<close> do not wrap around.
\<close>

theorem heap_reachable_ok:
  assumes "os_ok os p" and "p < 64" and "s \<le> p" and "sizeof_FreeBlock \<le> 2 ^ s" and "committed \<le> reserved"
    and "max (os_page_size_for_region_unaligned os reserved 8)
      (os_vm_allocation_granularity os) + reserved < size_max"
    and "ch_reserve os new_code_heap reserved committed (2 ^ s) = (h0, True)"
    and "0 < CodeCacheMinBlockLength fl"
    and "os_grants commit (ch_segmap_space h0)"
    and "(heap_step fl commit (2 ^ p))\<^sup>*\<^sup>* h0 h"
  shows "heap_ok h \<and> pairwise blocks_apart (ch_live h) \<and>
    allocated_capacity h = used_length (heap_blocks h) * ch_segment_size h"
proof -
  have "heap_run_ok commit (2 ^ p) h0"
    using ch_reserve_ok [of os p "2 ^ s" s reserved committed h0] assms
    by (simp add: heap_run_ok_def sizeof_FreeBlock_def le_imp_power_dvd)
  then have ok: "heap_ok h"
    using heap_steps_run_ok [OF assms(10) _ refl assms(8)] by (simp add: heap_run_ok_def)
  then show ?thesis
    using ch_live_apart allocated_capacity_used by (auto simp: pairwise_def)
qed

text \<open>The witness allocates a block and then asks for an expansion that is refused for the memory.\<close>

theorem heap_reachable_ok_witness:
  "\<exists>h. (heap_step demo_flags (\<lambda>a n. 8388608 \<le> a) 4096)\<^sup>*\<^sup>* demo_heap h \<and>
     ch_expand_by (\<lambda>a n. 8388608 \<le> a) 4096 demo_heap1 3000 = (h, False) \<and>
     heap_ok h \<and> pairwise blocks_apart (ch_live h)"
proof -
  let ?os = "\<lambda>(a::addr) (n::size_t). 8388608 \<le> a"
  have mem: "ch_memory demo_heap1 = demo_mem" "ch_segment_size demo_heap1 = 64" "ch_log2_segment_size demo_heap1 = 6"
    using ch_allocate_geom [OF demo_allocate(1)] by (simp_all add: geom_def)
  have "\<not> snd (vs_expand_by ?os demo_mem 4096)"
    by (simp add: vs_expand_by_def os_commit_memory_def vs_size_defs usub64_def size_max_def round_to_def demo_mem_def)
  then have "\<exists>h. ch_expand_by ?os 4096 demo_heap1 3000 = (h, False)"
    by (auto simp: ch_expand_by_def mem demo_grown split: prod.split)
  then obtain h where h: "ch_expand_by ?os 4096 demo_heap1 3000 = (h, False)" by blast
  have "heap_step demo_flags ?os 4096 demo_heap demo_heap1"
    by (rule step_allocate [OF demo_request demo_allocate(1)])
  moreover have "heap_step demo_flags ?os 4096 demo_heap1 h"
    by (rule step_expand [OF _ h]) (simp add: mem size_max_def)
  ultimately have "(heap_step demo_flags ?os (2 ^ 12))\<^sup>*\<^sup>* demo_heap h" by simp
  moreover have "os_grants ?os (ch_segmap_space demo_heap)" by (simp add: os_grants_def demo_map_def)
  ultimately show ?thesis
    using heap_reachable_ok [OF demo_os_ok, of 6 262144 524288 demo_heap demo_flags ?os h] demo_reserve h
    by (simp add: demo_os_def size_max_def sizeof_FreeBlock_def demo_flags_def)
qed

text \<open>
  C31: a critical request that the free list can satisfy is served from a smallest free block that
  is long enough: whole when the rest would be shorter than the minimal block, otherwise from its
  upper end.
\<close>

theorem search_freelist_best_fit:
  assumes "heap_ok h" and "0 < len" and "0 < CodeCacheMinBlockLength fl"
    and "(c0, l0, False) \<in> set (heap_blocks h)" and "len \<le> l0"
  shows "\<exists>h' c l. search_freelist fl h len True =
      Some (h', Some (if l < len + CodeCacheMinBlockLength fl then c else c + (l - len))) \<and>
    (c, l, False) \<in> set (heap_blocks h) \<and> len \<le> l \<and>
    (\<forall>c' l'. (c', l', False) \<in> set (heap_blocks h) \<and> len \<le> l' \<longrightarrow> l \<le> l')"
proof -
  note r = heap_okD(2) [OF assms(1)]
  note lk = heap_reprD(4) [OF r]
  have len: "ch_length h c = l" if "(c, l, False) \<in> set (heap_blocks h)" for c l
    using heap_reprD(2) [OF r that] by (simp add: block_ok_def)
  have "fit_in h len [] (None, None, 0)" by (simp add: fit_in_def)
  from search_loop_fits [OF lk this, of None fl True] obtain best where
    best: "search_loop fl h len True None (ch_freelist h) (None, None, 0) = Some best"
    "fit_in h len (free_starts (heap_blocks h)) best" by (metis append_Nil prev_of_def)
  have small: "fst best \<noteq> None \<and> snd (snd best) \<le> l"
    if "(c, l, False) \<in> set (heap_blocks h)" "len \<le> l" for c l
    using search_loop_smallest [OF lk best(1)] that len [OF that(1)] set_free_starts [of c "heap_blocks h"]
    by fastforce
  obtain c where c: "c \<in> set (free_starts (heap_blocks h))" "fst best = Some c" "snd (snd best) = ch_length h c"
    "len \<le> ch_length h c"
    using best(2) small [OF assms(4,5)] by (auto simp: fit_in_def)
  obtain l where l: "(c, l, False) \<in> set (heap_blocks h)" using c(1) by (auto simp: set_free_starts)
  obtain pv where b: "best = (Some c, pv, l)" using c len [OF l] by (cases best) auto
  have "\<exists>h'. search_freelist fl h len True =
      Some (h', Some (if l < len + CodeCacheMinBlockLength fl then c else c + (l - len)))"
    using best(1) by (simp add: search_freelist_def b Let_def following_block_def)
  then obtain h' where h': "search_freelist fl h len True =
      Some (h', Some (if l < len + CodeCacheMinBlockLength fl then c else c + (l - len)))" by blast
  have "l \<le> l'" if "(c', l', False) \<in> set (heap_blocks h) \<and> len \<le> l'" for c' l'
    using small [of c' l'] that b by simp
  then show ?thesis using l c(4) len [OF l] h'
    by (intro exI [of _ h'] exI [of _ c] exI [of _ l] conjI) auto
qed

theorem search_freelist_best_fit_witness:
  "\<exists>h'. search_freelist demo_flags demo_heap2 1 True = Some (h', Some 1)"
proof -
  have "\<exists>h' c l. search_freelist demo_flags demo_heap2 1 True =
      Some (h', Some (if l < 1 + CodeCacheMinBlockLength demo_flags then c else c + (l - 1))) \<and>
      (c, l, False) \<in> set (heap_blocks demo_heap2)"
    using search_freelist_best_fit [OF demo_heap2_ok(1), of 1 demo_flags 0 2]
    by (auto simp: demo_heap2_ok(2) demo_flags_def)
  then show ?thesis by (auto simp: demo_heap2_ok(2) demo_flags_def)
qed

text \<open>
  C24: when the free list is empty, the reserve for critical requests is lost when it is needed. The comment in \<open>allocate\<close> says
  that a non-critical request must not use the last \<open>CodeCacheMinimumFreeSpace\<close> bytes, but the test
  subtracts that size from the unallocated size in \<open>size_t\<close>: once less than the reserve is left the
  difference wraps around, and a non-critical request gets exactly what a critical one gets.
\<close>

theorem ch_allocate_reserve_wraps:
  assumes "heap_ok h" and "ch_freelist h = None"
    and "heap_unallocated_capacity h < CodeCacheMinimumFreeSpace fl" and "CodeCacheMinimumFreeSpace fl < size_max"
  shows "ch_allocate fl h n False = ch_allocate fl h n True"
proof -
  note g = heap_okD(1) [OF assms(1)]
  let ?s = "ch_segment_size h" and ?i = "ch_next_segment h"
  let ?c = "ch_number_of_committed_segments h" and ?r = "ch_number_of_reserved_segments h"
  have cr: "?c * ?s = vs_committed_size (ch_memory h)" "?r * ?s = vs_reserved_size (ch_memory h)"
    "vs_inv (ch_memory h)" using g unfolding heap_geometry_def by blast+
  have "?c * ?s \<le> ?r * ?s" using vspace.committed_le [OF cr(3)] cr(1,2) by linarith
  then have le: "?c \<le> ?r" using geometry_bounds(2) [OF g] by simp
  have ic: "?i \<le> ?c" by (rule heap_reprD(6) [OF heap_okD(2) [OF assms(1)]])
  have rs: "?r * ?s < size_max" using cr vs_sizes(2) [of "ch_memory h"]
    by (auto simp: vs_inv_def vs_layout_def vs_boundaries_def)
  have "?r * 1 \<le> ?r * ?s" using geometry_bounds(2) [OF g] by (intro mult_le_mono) auto
  then have "usub64 ?r ?i = ?r - ?i" using le ic rs by (intro usub64_le) linarith+
  moreover have fit: "(?r - ?i) * ?s \<le> ?r * ?s" by (intro mult_le_mono1) simp
  moreover have "(?r - ?i) * ?s < size_max" using fit rs by linarith
  ultimately have un: "heap_unallocated_capacity h = (?r - ?i) * ?s"
    by (simp add: heap_unallocated_capacity_def segments_to_size_def push_bit_eq_mult
        flip: geometry_bounds(1) [OF g])
  have wrap: "usub64 (heap_unallocated_capacity h) (CodeCacheMinimumFreeSpace fl) =
      size_max - (CodeCacheMinimumFreeSpace fl - heap_unallocated_capacity h)"
    using assms(3,4) by (rule usub64_wraps)
  have "\<not> usub64 (heap_unallocated_capacity h) (CodeCacheMinimumFreeSpace fl) < segments_to_size h k"
    if "?i + k \<le> ?c" for k
  proof -
    have "k * ?s \<le> (?r - ?i) * ?s" using that le by (intro mult_le_mono1) linarith
    moreover have "segments_to_size h k \<le> k * ?s"
      by (simp add: segments_to_size_def push_bit_eq_mult geometry_bounds(1) [OF g])
    ultimately show ?thesis using un wrap assms(3,4) by linarith
  qed
  moreover have "search_freelist fl h k crit = Some (h, None)" for k crit
    by (simp add: search_freelist_def assms(2))
  ultimately show ?thesis by (simp add: ch_allocate_def Let_def)
qed

definition tight_flags :: code_flags where
  "tight_flags = \<lparr>CodeCacheMinBlockLength = 1, CodeCacheMinimumFreeSpace = 600000\<rparr>"

theorem ch_allocate_reserve_wraps_witness:
  "heap_unallocated_capacity demo_heap < CodeCacheMinimumFreeSpace tight_flags \<and>
     ch_allocate tight_flags demo_heap 100 False = ch_allocate tight_flags demo_heap 100 True"
proof -
  have "heap_unallocated_capacity demo_heap = 524288"
    by (simp add: heap_unallocated_capacity_def segments_to_size_def demo_heap_fields usub64_def size_max_def
        push_bit_eq_mult)
  then show ?thesis
    using ch_allocate_reserve_wraps [OF demo_heap_ok(1) demo_heap_fields(2), of tight_flags 100]
    by (simp add: tight_flags_def size_max_def)
qed

text \<open>
  C25: a failed \<open>expand_by\<close> can leave the heap inconsistent. Whenever the memory grows but the segment
  map cannot, \<open>expand_by\<close> returns false after \<open>_number_of_committed_segments\<close> was raised beyond the
  committed bytes of the map, and the invariant is lost: with an empty free list, every critical
  request that fits in the committed segments but passes the end of the committed map is served, and
  hands out segments that have no committed byte in the map.
\<close>

theorem ch_expand_by_segmap_refused:
  assumes "heap_ok h" and "page = 2 ^ k" and "ch_segment_size h dvd page" and "segmap_tight page h"
    and "ch_capacity h + bytes + 2 * page < size_max"
    and "snd (vs_expand_by commit (ch_memory h) (round_to (ch_capacity h + bytes) page - ch_capacity h))"
    and "ch_expand_by commit page h bytes = (h', False)"
  shows "ch_number_of_committed_segments h < ch_number_of_committed_segments h' \<and>
    vs_committed_size (ch_segmap_space h') = vs_committed_size (ch_segmap_space h) \<and>
    vs_committed_size (ch_segmap_space h') < ch_number_of_committed_segments h' \<and> \<not> heap_ok h' \<and>
    (\<forall>fl n m. ch_freelist h = None \<and>
       m = max (size_to_segments h (uadd64 n sizeof_HeapBlock)) (CodeCacheMinBlockLength fl) \<and>
       vs_committed_size (ch_segmap_space h) < ch_next_segment h + m \<and>
       ch_next_segment h + m \<le> ch_number_of_committed_segments h' \<longrightarrow>
       (\<exists>h'' p. ch_allocate fl h' n True = Some (h'', Some p) \<and>
          vs_committed_size (ch_segmap_space h'') < ch_next_segment h''))"
proof -
  note small = assms(5) [unfolded ch_capacity_def]
  note C = expand_map_refused [OF assms(1-4) small assms(6) [unfolded ch_capacity_def] assms(7)]
  have "\<not> heap_ok h'" using C(3) heap_okD(1) [of h'] unfolding heap_geometry_def by linarith
  moreover have "\<exists>h'' p. ch_allocate fl h' n True = Some (h'', Some p) \<and>
      vs_committed_size (ch_segmap_space h'') < ch_next_segment h''"
    if "ch_freelist h = None" "m = max (size_to_segments h (uadd64 n sizeof_HeapBlock)) (CodeCacheMinBlockLength fl)"
      "vs_committed_size (ch_segmap_space h) < ch_next_segment h + m"
      "ch_next_segment h + m \<le> ch_number_of_committed_segments h'" for fl n m
    using ch_allocate_end [of h' m n fl] that C by (auto simp: size_to_segments_def)
  ultimately show ?thesis using C by blast
qed

theorem ch_expand_by_segmap_refused_witness:
  "\<exists>h' h'' p. ch_expand_by (\<lambda>a n. a < 8388608) 4096 demo_heap 4096 = (h', False) \<and> \<not> heap_ok h' \<and>
     ch_allocate demo_flags h' 262200 True = Some (h'', Some p) \<and>
     vs_committed_size (ch_segmap_space h'') < ch_next_segment h''"
proof -
  define h' where "h' = fst (ch_expand_by (\<lambda>a n. a < 8388608) 4096 demo_heap 4096)"
  have ex: "ch_expand_by (\<lambda>a n. a < 8388608) 4096 demo_heap 4096 = (h', False)"
    by (simp add: h'_def prod_eq_iff ch_expand_by_def demo_grow demo_grown demo_segments size_max_def)
  have c: "ch_number_of_committed_segments h' = 4160"
    by (simp add: h'_def ch_expand_by_def demo_grow demo_grown demo_segments size_max_def)
  have m: "max (size_to_segments demo_heap (uadd64 262200 sizeof_HeapBlock)) (CodeCacheMinBlockLength demo_flags) = 4098"
    by (simp add: demo_segments demo_flags_def sizeof_HeapBlock_def uadd64_def size_max_def)
  have r: "round_to 266240 4096 = (266240 :: nat)" by (simp add: round_to_def)
  have g: "snd (vs_expand_by (\<lambda>a n. a < 8388608) (ch_memory demo_heap)
      (round_to (ch_capacity demo_heap + 4096) 4096 - ch_capacity demo_heap))"
    by (simp add: ch_capacity_def r demo_grow)
  note C = ch_expand_by_segmap_refused [OF demo_heap_ok(1) _ _ demo_heap_ok(3) _ g ex, of 12]
  have "\<not> heap_ok h'" "\<exists>h'' p. ch_allocate demo_flags h' 262200 True = Some (h'', Some p) \<and>
      vs_committed_size (ch_segmap_space h'') < ch_next_segment h''"
    using C [THEN conjunct2, THEN conjunct2, THEN conjunct2, THEN conjunct2, rule_format, of 4098 262200 demo_flags]
      C m by (simp_all add: ch_capacity_def size_max_def c)
  with ex show ?thesis by blast
qed

end
