(* ===== verification/CompressedStream.thy ===== *)
theory CompressedStream
  imports HS_Prelude
begin

text \<open>
  \<open>CompressedReadStream\<close> and \<open>CompressedWriteStream\<close> (\<open>src/src/share/vm/code/compressedStream.hpp\<close>,
  \<open>compressedStream.cpp\<close>): the byte stream of the debugging information, in the UNSIGNED5 coding
  of Pack200. \<open>jint\<close> and \<open>juint\<close> are \<open>32 word\<close>, \<open>jlong\<close> is \<open>64 word\<close>, \<open>u_char\<close> is \<open>8 word\<close>; a \<open>jfloat\<close> or
  \<open>jdouble\<close> is its bit pattern (\<open>jint_cast\<close>, \<open>jlong_cast\<close>). An access outside the buffer is \<open>None\<close>.
\<close>

section \<open>State\<close>

type_synonym u_char = "8 word"
type_synonym jint = "32 word"
type_synonym jlong = "64 word"
type_synonym jchar = "16 word"

record read_stream =
  cr_buffer :: "u_char list"
  cr_position :: nat

record write_stream =
  cw_buffer :: "u_char list"
  cw_position :: nat
  cw_size :: nat

definition lg_H :: nat where "lg_H = 6"

definition L_codes :: nat where "L_codes = 192"

definition H_codes :: nat where "H_codes = 64"

definition MAX_i :: nat where "MAX_i = 4"

lemmas codes_defs [simp] = lg_H_def L_codes_def H_codes_def MAX_i_def

section \<open>Sign and bit-reversal encodings\<close>

definition encode_sign :: "jint \<Rightarrow> jint" where
  "encode_sign v = push_bit 1 v XOR signed_drop_bit 31 v"

definition decode_sign :: "jint \<Rightarrow> jint" where
  "decode_sign v = drop_bit 1 v XOR - (v AND 1)"

definition reverse_int :: "jint \<Rightarrow> jint" where
  "reverse_int i0 =
     (let i1 = push_bit 1 (i0 AND 0x55555555) OR (drop_bit 1 i0 AND 0x55555555);
          i2 = push_bit 2 (i1 AND 0x33333333) OR (drop_bit 2 i1 AND 0x33333333);
          i3 = push_bit 4 (i2 AND 0x0f0f0f0f) OR (drop_bit 4 i2 AND 0x0f0f0f0f)
      in push_bit 24 i3 OR push_bit 8 (i3 AND 0xff00) OR (drop_bit 8 i3 AND 0xff00) OR drop_bit 24 i3)"

definition jlong_from :: "jint \<Rightarrow> jint \<Rightarrow> jlong" where
  "jlong_from h l = push_bit 32 (ucast h) OR ucast l"

definition jlong_high :: "jlong \<Rightarrow> jint" where
  "jlong_high v = ucast (drop_bit 32 v)"

definition jlong_low :: "jlong \<Rightarrow> jint" where
  "jlong_low v = ucast v"

section \<open>Reading\<close>

definition read_u :: "read_stream \<Rightarrow> (u_char \<times> read_stream) option" where
  "read_u s =
     (if cr_position s < length (cr_buffer s)
      then Some (cr_buffer s ! cr_position s, s\<lparr>cr_position := cr_position s + 1\<rparr>) else None)"

function read_mb_loop :: "u_char list \<Rightarrow> nat \<Rightarrow> nat \<Rightarrow> nat \<Rightarrow> jint \<Rightarrow> (jint \<times> nat) option" where
  "read_mb_loop buf pos i lg_H_i acc =
     (let i' = i + 1 in
      if pos + i' < length buf then
        let b_i = buf ! (pos + i');
            acc' = acc + push_bit lg_H_i (ucast b_i)
        in if unat b_i < L_codes \<or> i' = MAX_i then Some (acc', pos + i' + 1)
           else read_mb_loop buf pos i' (lg_H_i + lg_H) acc'
      else None)"
  by pat_completeness auto
termination
  by (relation "measure (\<lambda>(buf, pos, i, lg, acc). length buf - (pos + i))") auto

declare read_mb_loop.simps [simp del]

definition read_int_mb :: "read_stream \<Rightarrow> jint \<Rightarrow> (jint \<times> read_stream) option" where
  "read_int_mb s b0 =
     map_option (\<lambda>(acc, p). (acc, s\<lparr>cr_position := p\<rparr>))
       (read_mb_loop (cr_buffer s) (cr_position s - 1) 0 lg_H b0)"

definition read_int :: "read_stream \<Rightarrow> (jint \<times> read_stream) option" where
  "read_int s =
     do { (b0, s1) \<leftarrow> read_u s;
          if unat b0 < L_codes then Some (ucast b0, s1) else read_int_mb s1 (ucast b0) }"

definition read_bool :: "read_stream \<Rightarrow> (u_char \<times> read_stream) option" where
  "read_bool s = read_u s"

definition read_byte :: "read_stream \<Rightarrow> (u_char \<times> read_stream) option" where
  "read_byte s = read_u s"

definition read_char :: "read_stream \<Rightarrow> (jchar \<times> read_stream) option" where
  "read_char s = map_option (map_prod ucast id) (read_int s)"

definition read_signed_int :: "read_stream \<Rightarrow> (jint \<times> read_stream) option" where
  "read_signed_int s = map_option (map_prod decode_sign id) (read_int s)"

definition read_short :: "read_stream \<Rightarrow> (jchar \<times> read_stream) option" where
  "read_short s = map_option (map_prod ucast id) (read_signed_int s)"

definition read_float :: "read_stream \<Rightarrow> (jint \<times> read_stream) option" where
  "read_float s = map_option (map_prod reverse_int id) (read_int s)"

definition read_double :: "read_stream \<Rightarrow> (jlong \<times> read_stream) option" where
  "read_double s =
     do { (rh, s1) \<leftarrow> read_int s;
          (rl, s2) \<leftarrow> read_int s1;
          Some (jlong_from (reverse_int rh) (reverse_int rl), s2) }"

definition read_long :: "read_stream \<Rightarrow> (jlong \<times> read_stream) option" where
  "read_long s =
     do { (lo, s1) \<leftarrow> read_signed_int s;
          (hi, s2) \<leftarrow> read_signed_int s1;
          Some (jlong_from hi lo, s2) }"

section \<open>Writing\<close>

definition new_write_stream :: "nat \<Rightarrow> write_stream" where
  "new_write_stream n = \<lparr>cw_buffer = replicate n 0, cw_position = 0, cw_size = n\<rparr>"

definition cw_full :: "write_stream \<Rightarrow> bool" where
  "cw_full s \<longleftrightarrow> cw_size s \<le> cw_position s"

text \<open>
  \<open>grow\<close>: the bytes of the new array behind the copied ones are not specified; 0 stands for them.
  \<open>_size\<close> and \<open>_position\<close> are ints that never get negative; they are natural numbers here, and the
  theorems on sequences of writes bound them below \<open>2^31\<close>, where \<open>_size * 2\<close> does not overflow.
\<close>

definition cw_grow :: "write_stream \<Rightarrow> write_stream" where
  "cw_grow s = s\<lparr>cw_buffer := take (cw_position s) (cw_buffer s) @
       replicate (cw_size s * 2 - cw_position s) 0, cw_size := cw_size s * 2\<rparr>"

definition cw_store :: "write_stream \<Rightarrow> u_char \<Rightarrow> write_stream option" where
  "cw_store s b =
     (if cw_position s < length (cw_buffer s)
      then Some (s\<lparr>cw_buffer := (cw_buffer s)[cw_position s := b], cw_position := cw_position s + 1\<rparr>) else None)"

definition cw_write :: "write_stream \<Rightarrow> u_char \<Rightarrow> write_stream option" where
  "cw_write s b = cw_store (if cw_full s then cw_grow s else s) b"

function write_mb_loop :: "write_stream \<Rightarrow> nat \<Rightarrow> jint \<Rightarrow> write_stream option" where
  "write_mb_loop s i acc =
     (if unat acc < L_codes \<or> i = MAX_i then cw_write s (ucast acc)
      else let acc1 = acc - of_nat L_codes;
               b_i = of_nat L_codes + (acc1 mod of_nat H_codes);
               acc2 = drop_bit lg_H acc1
           in case cw_write s (ucast b_i) of
                None \<Rightarrow> None
              | Some s1 \<Rightarrow> write_mb_loop s1 (i + 1) acc2)"
  by pat_completeness auto
termination
proof (relation "measure (\<lambda>(s, i, acc). unat acc)", goal_cases)
  case (2 s i acc x xa xb xc)
  have "192 \<le> acc" using 2 by (simp add: word_le_nat_alt)
  then have "unat (acc - 192) = unat acc - 192" by (simp add: unat_sub)
  then have "unat (drop_bit 6 (acc - 192)) = (unat acc - 192) div 64"
    using unat_drop_bit_eq [of 6 "acc - 192"] by (simp only: drop_bit_eq_div) simp
  also have "\<dots> < unat acc" using 2(1) by (auto intro!: div_less_dividend order.strict_trans1 [OF div_le_dividend])
  finally show ?case using 2 by simp
qed simp

declare write_mb_loop.simps [simp del]

definition write_int_mb :: "write_stream \<Rightarrow> jint \<Rightarrow> write_stream option" where
  "write_int_mb s v = write_mb_loop s 0 v"

definition write_int :: "write_stream \<Rightarrow> jint \<Rightarrow> write_stream option" where
  "write_int s v = (if unat v < L_codes \<and> \<not> cw_full s then cw_store s (ucast v) else write_int_mb s v)"

definition write_bool :: "write_stream \<Rightarrow> u_char \<Rightarrow> write_stream option" where
  "write_bool s v = cw_write s v"

definition write_byte :: "write_stream \<Rightarrow> u_char \<Rightarrow> write_stream option" where
  "write_byte s v = cw_write s v"

definition write_char :: "write_stream \<Rightarrow> jchar \<Rightarrow> write_stream option" where
  "write_char s v = write_int s (ucast v)"

definition write_signed_int :: "write_stream \<Rightarrow> jint \<Rightarrow> write_stream option" where
  "write_signed_int s v = write_int s (encode_sign v)"

text \<open>A \<open>jshort\<close> argument is sign-extended to \<open>jint\<close>.\<close>

definition write_short :: "write_stream \<Rightarrow> jchar \<Rightarrow> write_stream option" where
  "write_short s v = write_signed_int s (scast v)"

definition write_float :: "write_stream \<Rightarrow> jint \<Rightarrow> write_stream option" where
  "write_float s f = write_int s (reverse_int f)"

definition write_double :: "write_stream \<Rightarrow> jlong \<Rightarrow> write_stream option" where
  "write_double s v =
     do { s1 \<leftarrow> write_int s (reverse_int (jlong_high v));
          write_int s1 (reverse_int (jlong_low v)) }"

definition write_long :: "write_stream \<Rightarrow> jlong \<Rightarrow> write_stream option" where
  "write_long s v =
     do { s1 \<leftarrow> write_signed_int s (jlong_low v);
          write_signed_int s1 (jlong_high v) }"

section \<open>The encodings are invertible\<close>

lemma bit_encode_sign:
  "bit (encode_sign v) n \<longleftrightarrow> n < 32 \<and> ((0 < n \<and> bit v (n - 1)) \<noteq> bit v 31)"
proof -
  have "bit (signed_drop_bit 31 v) n \<longleftrightarrow> n < 32 \<and> bit v 31"
    by (cases "n = 0") (auto simp: bit_signed_drop_bit_iff dest: bit_imp_le_length)
  moreover have "bit (push_bit 1 v) n \<longleftrightarrow> 0 < n \<and> n < 32 \<and> bit v (n - 1)"
    unfolding bit_push_bit_iff by (auto dest: bit_imp_le_length)
  ultimately show ?thesis unfolding encode_sign_def bit_xor_iff by blast
qed

lemma bit_decode_sign:
  "bit (decode_sign v) n \<longleftrightarrow> n < 32 \<and> (bit v (Suc n) \<noteq> bit v 0)"
proof -
  have "v AND 1 = (if bit v 0 then 1 else 0)" by (auto simp: and_one_eq bit_0 odd_iff_mod_2_eq_one)
  then have "bit (- (v AND 1)) n \<longleftrightarrow> n < 32 \<and> bit v 0" by simp
  moreover have "bit (drop_bit 1 v) n \<longleftrightarrow> n < 32 \<and> bit v (Suc n)"
    unfolding bit_drop_bit_eq comp_def by (auto dest: bit_imp_le_length)
  ultimately show ?thesis unfolding decode_sign_def bit_xor_iff by blast
qed

lemma decode_encode_sign: "decode_sign (encode_sign v) = v"
proof (rule bit_word_eqI)
  fix n :: nat
  assume "n < LENGTH(32)"
  then show "bit (decode_sign (encode_sign v)) n = bit v n"
    by (cases "n = 31") (auto simp: bit_decode_sign bit_encode_sign)
qed

lemma encode_decode_sign: "encode_sign (decode_sign v) = v"
proof (rule bit_word_eqI)
  fix n :: nat
  assume "n < LENGTH(32)"
  then show "bit (encode_sign (decode_sign v)) n = bit v n"
    by (cases n) (auto simp: bit_decode_sign bit_encode_sign dest: bit_imp_le_length)
qed

lemma jlong_split: "jlong_from (jlong_high v) (jlong_low v) = v"
  by (rule bit_word_eqI) (auto simp: jlong_from_def jlong_high_def jlong_low_def bit_simps)

end
