(* ===== verification/CompressedStream_Correct.thy ===== *)
theory CompressedStream_Correct
  imports CompressedStream
begin

text \<open>
  Correctness of the compressed streams: the UNSIGNED5 coding as a function from values to byte
  sequences, the interface of a stream codec with its interpretation for every type the streams
  carry, and the round trip of whole sequences of values.
\<close>

section \<open>Bit reversal\<close>

lemma bit_reverse_int:
  assumes "n < 32"
  shows "bit (reverse_int i) n = bit i (31 - n)"
proof -
  have "[0..<32] = [0, 1, 2, 3, 4, 5, 6, 7, 8, 9, 10, 11, 12, 13, 14, 15, 16, 17, 18, 19, 20, 21, 22,
      23, 24, 25, 26, 27, 28, 29, 30, 31 :: nat]" by code_simp
  then have "\<forall>n \<in> set [0..<32]. bit (reverse_int i) n = bit i (31 - n)"
    by (simp add: reverse_int_def Let_def bit_simps numeral_2_eq_2 [symmetric] del: push_bit_Suc drop_bit_Suc)
  then show ?thesis using assms by simp
qed

lemma reverse_int_self_inverse [simp]: "reverse_int (reverse_int i) = i"
  by (rule bit_word_eqI) (simp add: bit_reverse_int)

section \<open>The UNSIGNED5 coding\<close>

text \<open>The bytes of \<open>v\<close> when at most \<open>k\<close> more high codes may follow.\<close>

fun unsigned5 :: "nat \<Rightarrow> nat \<Rightarrow> u_char list" where
  "unsigned5 0 v = [of_nat v]"
| "unsigned5 (Suc k) v =
     (if v < 192 then [of_nat v] else of_nat (192 + (v - 192) mod 64) # unsigned5 k ((v - 192) div 64))"

definition enc_int :: "jint \<Rightarrow> u_char list" where
  "enc_int v = unsigned5 4 (unat v)"

lemma unsigned5_length: "0 < length (unsigned5 k v) \<and> length (unsigned5 k v) \<le> Suc k"
  by (induction k v rule: unsigned5.induct) auto

text \<open>The largest value that \<open>k\<close> high codes and a last byte can carry.\<close>

fun capacity5 :: "nat \<Rightarrow> nat" where
  "capacity5 0 = 256"
| "capacity5 (Suc k) = 192 + 64 * capacity5 k"

lemma capacity5_step: "v < capacity5 (Suc k) \<Longrightarrow> (v - 192) div 64 < capacity5 k"
  by (cases k) (auto simp: less_mult_imp_div_less)

lemma capacity5_int: "unat (v :: jint) < capacity5 4"
proof -
  have "unat v < 2 ^ 32" using unsigned_less [of v] by simp
  moreover have "capacity5 (Suc (Suc (Suc (Suc 0)))) = capacity5 4" by (rule arg_cong) simp
  ultimately show ?thesis by simp
qed

section \<open>Writing\<close>

definition cw_ok :: "write_stream \<Rightarrow> bool" where
  "cw_ok s \<longleftrightarrow> cw_position s \<le> cw_size s \<and> length (cw_buffer s) = cw_size s \<and> 0 < cw_size s"

definition cw_bytes :: "write_stream \<Rightarrow> u_char list" where
  "cw_bytes s = take (cw_position s) (cw_buffer s)"

lemma cw_store_ok:
  assumes "cw_ok s" and "\<not> cw_full s"
  shows "\<exists>s'. cw_store s b = Some s' \<and> cw_ok s' \<and> cw_bytes s' = cw_bytes s @ [b]"
  using assms by (auto simp: cw_store_def cw_ok_def cw_full_def cw_bytes_def take_Suc_conv_app_nth)

lemma cw_grow_ok:
  assumes "cw_ok s"
  shows "cw_ok (cw_grow s)" and "\<not> cw_full (cw_grow s)" and "cw_bytes (cw_grow s) = cw_bytes s"
  using assms by (auto simp: cw_ok_def cw_grow_def cw_full_def cw_bytes_def)

lemma cw_write_ok:
  assumes "cw_ok s"
  shows "\<exists>s'. cw_write s b = Some s' \<and> cw_ok s' \<and> cw_bytes s' = cw_bytes s @ [b]"
  using cw_store_ok [OF assms] cw_store_ok [OF cw_grow_ok(1,2) [OF assms]] cw_grow_ok(3) [OF assms]
  by (cases "cw_full s") (simp_all add: cw_write_def)

lemma write_mb_loop_ok:
  assumes "cw_ok s" and "i \<le> 4"
  shows "\<exists>s'. write_mb_loop s i v = Some s' \<and> cw_ok s' \<and> cw_bytes s' = cw_bytes s @ unsigned5 (4 - i) (unat v)"
  using assms
proof (induction "4 - i" arbitrary: s i v)
  case 0
  then have "i = 4" by simp
  moreover have "write_mb_loop s 4 v = cw_write s (ucast v)" by (simp add: write_mb_loop.simps [of s 4 v])
  ultimately show ?case using cw_write_ok [OF 0(2), of "ucast v"] by simp
next
  case (Suc k)
  have i: "i < 4" "k = 4 - (i + 1)" "4 - i = Suc k" using Suc.hyps(2) by auto
  show ?case
  proof (cases "unat v < 192")
    case True
    then have "write_mb_loop s i v = cw_write s (ucast v)" by (simp add: write_mb_loop.simps [of s i v])
    then show ?thesis using cw_write_ok [OF Suc.prems(1), of "ucast v"] True i by simp
  next
    case False
    define w where "w = v - 192"
    have "192 \<le> v" using False by (simp add: word_le_nat_alt)
    then have w: "unat w = unat v - 192" by (simp add: w_def unat_sub)
    define b where "b = (192 + w mod 64 :: jint)"
    have "unat (w mod 64) = unat w mod 64" by (simp add: unat_mod_distrib)
    then have "unat b = 192 + unat w mod 64" by (simp add: b_def unat_word_ariths)
    moreover have "(ucast b :: u_char) = of_nat (unat b)" by simp
    ultimately have b: "(ucast b :: u_char) = of_nat (192 + (unat v - 192) mod 64)" by (simp only: w)
    have dv: "unat (drop_bit 6 w) = (unat v - 192) div 64"
      using unat_drop_bit_eq [of 6 w] by (simp only: drop_bit_eq_div w) simp
    obtain s1 where s1: "cw_write s (ucast b) = Some s1" "cw_ok s1" "cw_bytes s1 = cw_bytes s @ [ucast b]"
      using cw_write_ok [OF Suc.prems(1)] by blast
    have "write_mb_loop s i v = write_mb_loop s1 (i + 1) (drop_bit 6 w)"
      using False i(1) s1(1) by (simp add: write_mb_loop.simps [of s i v] Let_def w_def b_def)
    moreover obtain s' where "write_mb_loop s1 (i + 1) (drop_bit 6 w) = Some s'" "cw_ok s'"
      "cw_bytes s' = cw_bytes s1 @ unsigned5 k ((unat v - 192) div 64)"
      using Suc.hyps(1) [OF i(2) s1(2), of "drop_bit 6 w"] i dv by auto
    ultimately show ?thesis using False i(3) s1(3) b by simp
  qed
qed

lemma write_int_ok:
  assumes "cw_ok s"
  shows "\<exists>s'. write_int s v = Some s' \<and> cw_ok s' \<and> cw_bytes s' = cw_bytes s @ enc_int v"
proof (cases "unat v < L_codes \<and> \<not> cw_full s")
  case True
  have "unsigned5 4 (unat v) = unsigned5 (Suc 3) (unat v)" by simp
  then have "enc_int v = [ucast v]" using True by (simp only: enc_int_def unsigned5.simps) simp
  then show ?thesis using cw_store_ok [OF assms, of "ucast v"] True by (simp add: write_int_def)
next
  case False
  then show ?thesis
    using write_mb_loop_ok [OF assms, of 0 v]
    unfolding write_int_def if_not_P [OF False] write_int_mb_def enc_int_def by simp
qed

section \<open>Reading\<close>

definition bytes_at :: "read_stream \<Rightarrow> u_char list \<Rightarrow> bool" where
  "bytes_at s bs \<longleftrightarrow> (\<exists>post. drop (cr_position s) (cr_buffer s) = bs @ post)"

definition advance :: "read_stream \<Rightarrow> nat \<Rightarrow> read_stream" where
  "advance s n = s\<lparr>cr_position := cr_position s + n\<rparr>"

lemma advance_simps [simp]:
  "advance (advance s m) n = advance s (m + n)" "advance s 0 = s"
  by (simp_all add: advance_def)

lemma bytes_at_append: "bytes_at s (xs @ ys) \<longleftrightarrow> bytes_at s xs \<and> bytes_at (advance s (length xs)) ys"
proof
  assume "bytes_at s (xs @ ys)"
  then obtain post where p: "drop (cr_position s) (cr_buffer s) = xs @ ys @ post" by (auto simp: bytes_at_def)
  have "drop (cr_position s + length xs) (cr_buffer s) = drop (length xs) (xs @ ys @ post)"
    unfolding p [symmetric] by (simp add: add.commute)
  then show "bytes_at s xs \<and> bytes_at (advance s (length xs)) ys"
    using p by (auto simp: bytes_at_def advance_def)
next
  assume a: "bytes_at s xs \<and> bytes_at (advance s (length xs)) ys"
  then obtain post where p: "drop (cr_position s) (cr_buffer s) = xs @ post" by (auto simp: bytes_at_def)
  then have "drop (cr_position s + length xs) (cr_buffer s) = post"
    by (metis add.commute append_eq_conv_conj drop_drop)
  then show "bytes_at s (xs @ ys)" using a p by (auto simp: bytes_at_def advance_def)
qed

lemma read_u_at:
  assumes "bytes_at s (b # bs)"
  shows "read_u s = Some (b, advance s 1)" and "bytes_at (advance s 1) bs"
proof -
  obtain post where p: "drop (cr_position s) (cr_buffer s) = b # bs @ post" using assms by (auto simp: bytes_at_def)
  then have "cr_position s < length (cr_buffer s)" by (metis drop_all list.distinct(1) not_less)
  moreover have "cr_buffer s ! cr_position s = b" using p by (metis calculation hd_drop_conv_nth list.sel(1))
  ultimately show "read_u s = Some (b, advance s 1)" by (simp add: read_u_def advance_def)
  show "bytes_at (advance s 1) bs" using assms bytes_at_append [of s "[b]" bs] by simp
qed

lemma drop_Cons_nth: "drop n xs = y # ys \<Longrightarrow> n < length xs \<and> xs ! n = y \<and> drop (Suc n) xs = ys"
  by (metis drop_Suc drop_all hd_drop_conv_nth leI list.distinct(1) list.sel(1,3) tl_drop)

lemma shifted_byte: "push_bit (6 * n) (ucast (b :: u_char) :: jint) = of_nat (unat b * 64 ^ n)"
proof -
  have "(2::jint) ^ (6 * n) = 64 ^ n" by (simp add: power_mult)
  then show ?thesis by (simp add: push_bit_eq_mult)
qed

lemma read_mb_loop_at:
  assumes "i < 4" and "v < capacity5 k" and "k = 3 - i"
    and "drop (pos + i + 1) buf = unsigned5 k v @ post"
  shows "read_mb_loop buf pos i (6 * (i + 1)) acc =
    Some (acc + of_nat (v * 64 ^ (i + 1)), pos + i + 1 + length (unsigned5 k v))"
  using assms
proof (induction k arbitrary: i v acc)
  case 0
  note b = drop_Cons_nth [OF 0(4) [unfolded unsigned5.simps append_Cons]]
  have "unat (of_nat v :: u_char) = v" using 0(2) by (simp add: unat_of_nat)
  then show ?case
    using b 0 shifted_byte [of "i + 1" "of_nat v"]
    by (subst read_mb_loop.simps) (simp add: Let_def)
next
  case (Suc k)
  show ?case
  proof (cases "v < 192")
    case True
    note b = drop_Cons_nth [OF Suc.prems(4) [unfolded unsigned5.simps if_P [OF True] append_Cons]]
    have "unat (of_nat v :: u_char) = v" using True by (simp add: unat_of_nat)
    then show ?thesis
      using b True shifted_byte [of "i + 1" "of_nat v"]
      by (subst read_mb_loop.simps) (simp add: Let_def)
  next
    case False
    define c where "c = 192 + (v - 192) mod 64"
    define u where "u = (v - 192) div 64"
    have cv: "v = c + u * 64" "c < 256" "192 \<le> c" using False by (simp_all add: c_def u_def)
    note b = drop_Cons_nth [OF Suc.prems(4) [unfolded unsigned5.simps if_not_P [OF False] append_Cons,
          folded c_def u_def]]
    have c: "unat (of_nat c :: u_char) = c" using cv(2) by (simp add: unat_of_nat)
    have i: "i + 1 < 4" "k = 3 - (i + 1)" using Suc.prems(3) by auto
    have "u < capacity5 k" unfolding u_def by (rule capacity5_step [OF Suc.prems(2)])
    from Suc.IH [OF i(1) this i(2), of "acc + of_nat (c * 64 ^ (i + 1))"] b
    have "read_mb_loop buf pos (i + 1) (6 * (i + 1 + 1)) (acc + of_nat (c * 64 ^ (i + 1))) =
      Some (acc + of_nat (c * 64 ^ (i + 1)) + of_nat (u * 64 ^ (i + 1 + 1)),
        pos + (i + 1) + 1 + length (unsigned5 k u))" by simp
    moreover have eq: "c * 64 ^ (i + 1) + u * 64 ^ (i + 1 + 1) = v * 64 ^ (i + 1)"
      unfolding cv(1) by (simp add: algebra_simps)
    have "acc + of_nat (c * 64 ^ (i + 1)) + of_nat (u * 64 ^ (i + 1 + 1)) = acc + of_nat (v * 64 ^ (i + 1))"
      unfolding eq [symmetric] of_nat_add by (simp only: add.assoc)
    moreover have "read_mb_loop buf pos i (6 * (i + 1)) acc =
        read_mb_loop buf pos (i + 1) (6 * (i + 1 + 1)) (acc + of_nat (c * 64 ^ (i + 1)))"
      using b c cv(3) i(1) shifted_byte [of "i + 1" "of_nat c"]
      by (subst read_mb_loop.simps) (simp add: Let_def algebra_simps)
    ultimately show ?thesis using False by (simp add: c_def u_def)
  qed
qed

lemma read_int_at:
  assumes at: "bytes_at s (enc_int v)"
  shows "read_int s = Some (v, advance s (length (enc_int v)))"
proof (cases "unat v < 192")
  case True
  have "enc_int v = [ucast v]" using True unsigned5.simps(2) [of 3 "unat v"] by (simp add: enc_int_def)
  moreover have un: "unat (ucast v :: u_char) = unat v"
    using True by (simp add: unsigned_ucast_eq take_bit_nat_eq_self)
  moreover have "(ucast (ucast v :: u_char) :: jint) = of_nat (unat (ucast v :: u_char))" by simp
  then have "(ucast (ucast v :: u_char) :: jint) = v" unfolding un by simp
  ultimately show ?thesis using read_u_at(1) [of s "ucast v" "[]"] at True by (simp add: read_int_def)
next
  case False
  define c where "c = 192 + (unat v - 192) mod 64"
  define u where "u = (unat v - 192) div 64"
  have enc: "enc_int v = of_nat c # unsigned5 3 u"
    using False unsigned5.simps(2) [of 3 "unat v"] by (simp add: enc_int_def c_def u_def)
  have cv: "unat v = c + u * 64 ^ (0 + 1)" "c < 256" "192 \<le> c" using False by (simp_all add: c_def u_def)
  have c: "unat (of_nat c :: u_char) = c" using cv(2) by (simp add: unat_of_nat)
  note rd = read_u_at [OF at [unfolded enc]]
  obtain post where post: "drop (cr_position s + 1) (cr_buffer s) = unsigned5 3 u @ post"
    using rd(2) by (auto simp: bytes_at_def advance_def)
  have "u < capacity5 3" unfolding u_def by (rule capacity5_step) (use capacity5_int [of v] in simp)
  from read_mb_loop_at [of 0, OF _ this, of "cr_position s" "cr_buffer s" post "of_nat c"] post
  have "read_mb_loop (cr_buffer s) (cr_position s) 0 6 (of_nat c) =
      Some (of_nat c + of_nat (u * 64 ^ (0 + 1)), cr_position s + 1 + length (unsigned5 3 u))" by simp
  moreover have "of_nat c + of_nat (u * 64 ^ (0 + 1)) = v"
  proof -
    have "of_nat c + of_nat (u * 64 ^ (0 + 1)) = (of_nat (unat v) :: jint)" unfolding cv(1) of_nat_add ..
    then show ?thesis by simp
  qed
  moreover have "(ucast (of_nat c :: u_char) :: jint) = of_nat c"
    using c by (metis of_nat_unat)
  ultimately show ?thesis
    using rd(1) c cv(3) by (simp add: read_int_def read_int_mb_def enc advance_def)
qed

section \<open>The size of the buffer\<close>

text \<open>Writing moves the position on, and the buffer grows to at most twice the position reached.\<close>

definition grew :: "write_stream \<Rightarrow> write_stream \<Rightarrow> bool" where
  "grew s s' \<longleftrightarrow> cw_position s \<le> cw_position s' \<and> cw_size s \<le> cw_size s' \<and>
     cw_size s' \<le> max (cw_size s) (2 * cw_position s')"

lemma grew_trans: "grew s s1 \<Longrightarrow> grew s1 s2 \<Longrightarrow> grew s s2"
  by (auto simp: grew_def max_def split: if_splits)

lemma cw_store_grew: "cw_store s b = Some s' \<Longrightarrow> grew s s'"
  by (auto simp: cw_store_def grew_def split: if_splits)

lemma cw_write_grew: "cw_write s b = Some s' \<Longrightarrow> grew s s'"
  by (auto simp: cw_write_def cw_store_def cw_grow_def cw_full_def grew_def split: if_splits)

lemma write_mb_loop_grew: "write_mb_loop s i acc = Some s' \<Longrightarrow> grew s s'"
proof (induction s i acc rule: write_mb_loop.induct)
  case (1 s i acc)
  show ?case
  proof (cases "unat acc < L_codes \<or> i = MAX_i")
    case True
    then show ?thesis using "1.prems" cw_write_grew by (simp add: write_mb_loop.simps [of s i acc])
  next
    case False
    then obtain s1 where s1: "cw_write s (ucast (of_nat L_codes + (acc - of_nat L_codes) mod of_nat H_codes)) = Some s1"
      "write_mb_loop s1 (i + 1) (drop_bit lg_H (acc - of_nat L_codes)) = Some s'"
      using "1.prems" unfolding write_mb_loop.simps [of s i acc] Let_def by (auto split: option.split_asm)
    have "grew s1 s'" by (rule "1.IH" [OF False refl refl refl s1])
    then show ?thesis using cw_write_grew [OF s1(1)] grew_trans by blast
  qed
qed

lemma write_int_grew: "write_int s v = Some s' \<Longrightarrow> grew s s'"
  by (auto simp: write_int_def write_int_mb_def split: if_splits intro: cw_store_grew write_mb_loop_grew)

section \<open>Stream codecs\<close>

text \<open>
  What a client of the streams relies on, one type at a time: writing always succeeds and appends
  the encoding of the value, in a buffer that grows no more than it has to; reading at a position where
  that encoding stands gives the value back and moves behind it.
\<close>

locale stream_codec =
  fixes wr :: "write_stream \<Rightarrow> 'a \<Rightarrow> write_stream option"
    and rd :: "read_stream \<Rightarrow> ('a \<times> read_stream) option"
    and enc :: "'a \<Rightarrow> u_char list"
  assumes write_appends: "cw_ok s \<Longrightarrow> \<exists>s'. wr s x = Some s' \<and> cw_ok s' \<and> cw_bytes s' = cw_bytes s @ enc x"
    and write_grew: "wr s x = Some s' \<Longrightarrow> grew s s'"
    and read_back: "bytes_at r (enc x) \<Longrightarrow> rd r = Some (x, advance r (length (enc x)))"
begin

lemma write_bytes:
  assumes "cw_ok s" and "wr s x = Some s'"
  shows "cw_ok s'" and "cw_bytes s' = cw_bytes s @ enc x"
  using write_appends [OF assms(1), of x] assms(2) by auto

lemma write_position:
  assumes "cw_ok s" and "wr s x = Some s'"
  shows "cw_position s' = cw_position s + length (enc x)"
  using arg_cong [OF write_bytes(2) [OF assms], of length] assms(1) write_bytes(1) [OF assms]
  by (simp add: cw_bytes_def cw_ok_def)

lemma append_and_read:
  assumes "cw_ok s"
  shows "\<exists>s' bs. wr s x = Some s' \<and> cw_ok s' \<and> cw_bytes s' = cw_bytes s @ bs \<and>
    (\<forall>r. bytes_at r bs \<longrightarrow> rd r = Some (x, advance r (length bs)))"
  using write_appends [OF assms, of x] read_back by blast

text \<open>The value is read back from wherever its bytes ended up.\<close>

lemma codec_roundtrip:
  assumes "cw_ok s" and "wr s x = Some s'"
  shows "rd \<lparr>cr_buffer = cw_buffer s', cr_position = cw_position s\<rparr> =
    Some (x, \<lparr>cr_buffer = cw_buffer s', cr_position = cw_position s'\<rparr>)"
proof -
  note w = write_bytes [OF assms]
  have len: "length (cw_bytes s) = cw_position s" "length (cw_bytes s') = cw_position s'"
    using assms(1) w(1) by (simp_all add: cw_bytes_def cw_ok_def)
  have "cw_buffer s' = (cw_bytes s @ enc x) @ drop (cw_position s') (cw_buffer s')"
    unfolding w(2) [symmetric] by (simp add: cw_bytes_def)
  then have "drop (cw_position s) (cw_buffer s') = enc x @ drop (cw_position s') (cw_buffer s')"
    using len(1) by (metis append_assoc append_eq_conv_conj)
  moreover have "cw_position s' = cw_position s + length (enc x)"
    using len w(2) by (metis length_append)
  ultimately show ?thesis
    by (subst read_back [of _ x]) (auto simp: bytes_at_def advance_def)
qed

end

lemma codec_pair:
  assumes a: "stream_codec wa ra ea" and b: "stream_codec wb rb eb"
  shows "stream_codec (\<lambda>s (x, y). do { s1 \<leftarrow> wa s x; wb s1 y })
    (\<lambda>r. do { (x, r1) \<leftarrow> ra r; (y, r2) \<leftarrow> rb r1; Some ((x, y), r2) }) (\<lambda>(x, y). ea x @ eb y)"
proof
  fix s :: write_stream and x
  assume "cw_ok s"
  then show "\<exists>s'. (case x of (x, y) \<Rightarrow> do { s1 \<leftarrow> wa s x; wb s1 y }) = Some s' \<and> cw_ok s' \<and>
      cw_bytes s' = cw_bytes s @ (case x of (x, y) \<Rightarrow> ea x @ eb y)"
    using stream_codec.write_appends [OF a, of s "fst x"] stream_codec.write_appends [OF b, of _ "snd x"]
    by (cases x) fastforce
next
  fix s s' :: write_stream and x
  assume "(case x of (x, y) \<Rightarrow> do { s1 \<leftarrow> wa s x; wb s1 y }) = Some s'"
  then show "grew s s'"
    by (cases x) (auto split: Option.bind_split_asm
        intro: grew_trans [OF stream_codec.write_grew [OF a] stream_codec.write_grew [OF b]])
next
  fix r :: read_stream and x
  assume "bytes_at r (case x of (x, y) \<Rightarrow> ea x @ eb y)"
  then show "(do { (x, r1) \<leftarrow> ra r; (y, r2) \<leftarrow> rb r1; Some ((x, y), r2) }) =
      Some (x, advance r (length (case x of (x, y) \<Rightarrow> ea x @ eb y)))"
    using stream_codec.read_back [OF a, of r "fst x"] stream_codec.read_back [OF b, of _ "snd x"]
    by (cases x) (auto simp: bytes_at_append)
qed

lemma codec_map:
  assumes "stream_codec w r e" and "\<And>x. g (f x) = x" and "\<And>s x. w' s x = w s (f x)"
    and "\<And>s. r' s = map_option (map_prod g id) (r s)"
  shows "stream_codec w' r' (e \<circ> f)"
  using assms(2) stream_codec.write_appends [OF assms(1)] stream_codec.write_grew [OF assms(1)]
    stream_codec.read_back [OF assms(1)]
  by unfold_locales (simp_all add: assms(3,4))

text \<open>The codec of every type the streams carry, on the operations of the model.\<close>

interpretation int_codec: stream_codec write_int read_int enc_int
  by unfold_locales (simp_all add: write_int_ok write_int_grew read_int_at)

interpretation byte_codec: stream_codec write_byte read_byte "\<lambda>b. [b]"
  by unfold_locales (simp_all add: write_byte_def read_byte_def cw_write_ok cw_write_grew read_u_at(1))

interpretation bool_codec: stream_codec write_bool read_bool "\<lambda>b. [b]"
  by unfold_locales (simp_all add: write_bool_def read_bool_def cw_write_ok cw_write_grew read_u_at(1))

interpretation signed_codec: stream_codec write_signed_int read_signed_int "enc_int \<circ> encode_sign"
  by (rule codec_map [OF int_codec.stream_codec_axioms, where f = encode_sign and g = decode_sign])
    (simp_all add: write_signed_int_def read_signed_int_def decode_encode_sign)

interpretation float_codec: stream_codec write_float read_float "enc_int \<circ> reverse_int"
  by (rule codec_map [OF int_codec.stream_codec_axioms, where f = reverse_int and g = reverse_int])
    (simp_all add: write_float_def read_float_def)

lemma ucast_jchar: "(ucast (ucast (v :: jchar) :: jint) :: jchar) = v" "(ucast (scast (v :: jchar) :: jint) :: jchar) = v"
  by (rule bit_word_eqI; simp add: bit_simps)+

interpretation char_codec: stream_codec write_char read_char "enc_int \<circ> ucast"
  by (rule codec_map [OF int_codec.stream_codec_axioms, where f = ucast and g = ucast])
    (simp_all add: write_char_def read_char_def ucast_jchar)

interpretation short_codec: stream_codec write_short read_short "(enc_int \<circ> encode_sign) \<circ> scast"
  by (rule codec_map [OF signed_codec.stream_codec_axioms, where f = scast and g = ucast])
    (simp_all add: write_short_def read_short_def ucast_jchar)

interpretation long_codec: stream_codec write_long read_long
  "(\<lambda>(l, h). (enc_int \<circ> encode_sign) l @ (enc_int \<circ> encode_sign) h) \<circ> (\<lambda>v. (jlong_low v, jlong_high v))"
  by (rule codec_map [OF codec_pair [OF signed_codec.stream_codec_axioms signed_codec.stream_codec_axioms],
        where f = "\<lambda>v. (jlong_low v, jlong_high v)" and g = "\<lambda>(l, h). jlong_from h l"])
    (simp_all add: jlong_split write_long_def read_long_def, auto split: prod.split Option.bind_split)

interpretation double_codec: stream_codec write_double read_double
  "(\<lambda>(h, l). (enc_int \<circ> reverse_int) h @ (enc_int \<circ> reverse_int) l) \<circ> (\<lambda>v. (jlong_high v, jlong_low v))"
  by (rule codec_map [OF codec_pair [OF float_codec.stream_codec_axioms float_codec.stream_codec_axioms],
        where f = "\<lambda>v. (jlong_high v, jlong_low v)" and g = "\<lambda>(h, l). jlong_from h l"])
    (simp_all add: jlong_split write_double_def read_double_def write_float_def read_float_def,
      auto split: prod.split Option.bind_split)

section \<open>Sequences of values\<close>

text \<open>The values a stream carries, and a client that writes and reads a sequence of them.\<close>

datatype stream_item =
  IBool u_char | IByte u_char | IChar jchar | IShort jchar | IInt jint | ISigned jint
  | IFloat jint | IDouble jlong | ILong jlong

fun write_item :: "write_stream \<Rightarrow> stream_item \<Rightarrow> write_stream option" where
  "write_item s (IBool v) = write_bool s v"
| "write_item s (IByte v) = write_byte s v"
| "write_item s (IChar v) = write_char s v"
| "write_item s (IShort v) = write_short s v"
| "write_item s (IInt v) = write_int s v"
| "write_item s (ISigned v) = write_signed_int s v"
| "write_item s (IFloat v) = write_float s v"
| "write_item s (IDouble v) = write_double s v"
| "write_item s (ILong v) = write_long s v"

text \<open>Reading an item of the same kind as the given one.\<close>

fun read_item :: "stream_item \<Rightarrow> read_stream \<Rightarrow> (stream_item \<times> read_stream) option" where
  "read_item (IBool _) s = map_option (map_prod IBool id) (read_bool s)"
| "read_item (IByte _) s = map_option (map_prod IByte id) (read_byte s)"
| "read_item (IChar _) s = map_option (map_prod IChar id) (read_char s)"
| "read_item (IShort _) s = map_option (map_prod IShort id) (read_short s)"
| "read_item (IInt _) s = map_option (map_prod IInt id) (read_int s)"
| "read_item (ISigned _) s = map_option (map_prod ISigned id) (read_signed_int s)"
| "read_item (IFloat _) s = map_option (map_prod IFloat id) (read_float s)"
| "read_item (IDouble _) s = map_option (map_prod IDouble id) (read_double s)"
| "read_item (ILong _) s = map_option (map_prod ILong id) (read_long s)"

fun write_items :: "write_stream \<Rightarrow> stream_item list \<Rightarrow> write_stream option" where
  "write_items s [] = Some s"
| "write_items s (x # xs) = (case write_item s x of None \<Rightarrow> None | Some s1 \<Rightarrow> write_items s1 xs)"

fun read_items :: "stream_item list \<Rightarrow> read_stream \<Rightarrow> (stream_item list \<times> read_stream) option" where
  "read_items [] s = Some ([], s)"
| "read_items (x # xs) s =
     (case read_item x s of None \<Rightarrow> None
      | Some (y, s1) \<Rightarrow> map_option (map_prod (Cons y) id) (read_items xs s1))"

lemma enc_int_length:
  "1 \<le> length (enc_int v)" "length (enc_int v) \<le> 5" "length (enc_int v) = 1 \<longleftrightarrow> unat v < 192"
proof -
  have "unsigned5 4 (unat v) = unsigned5 (Suc 3) (unat v)" by simp
  then show "length (enc_int v) = 1 \<longleftrightarrow> unat v < 192"
    using unsigned5_length [of 3 "(unat v - 192) div 64"] by (simp only: enc_int_def unsigned5.simps) auto
  show "1 \<le> length (enc_int v)" "length (enc_int v) \<le> 5"
    using unsigned5_length [of 4 "unat v"] by (auto simp: enc_int_def Suc_le_eq)
qed

text \<open>An item takes at most ten bytes.\<close>

lemma write_item_grew:
  assumes "cw_ok s" and "write_item s x = Some s'"
  shows "grew s s' \<and> cw_position s' \<le> cw_position s + 10"
proof -
  note P = bool_codec.write_position byte_codec.write_position char_codec.write_position
    short_codec.write_position int_codec.write_position signed_codec.write_position
    float_codec.write_position double_codec.write_position long_codec.write_position
  note G = bool_codec.write_grew byte_codec.write_grew char_codec.write_grew short_codec.write_grew
    int_codec.write_grew signed_codec.write_grew float_codec.write_grew double_codec.write_grew long_codec.write_grew
  have e: "length (enc_int u) \<le> 10" "length (enc_int u) + length (enc_int v) \<le> 10" for u v
    using enc_int_length(2) [of u] enc_int_length(2) [of v] by simp_all
  show ?thesis using assms by (cases x) (simp_all add: P [OF assms(1)] G e)
qed

lemmas item_codecs = bool_codec.append_and_read byte_codec.append_and_read char_codec.append_and_read
  short_codec.append_and_read int_codec.append_and_read signed_codec.append_and_read
  float_codec.append_and_read double_codec.append_and_read long_codec.append_and_read

lemma item_roundtrip:
  assumes "cw_ok s"
  shows "\<exists>s' bs. write_item s x = Some s' \<and> cw_ok s' \<and> cw_bytes s' = cw_bytes s @ bs \<and>
    (\<forall>r. bytes_at r bs \<longrightarrow> read_item x r = Some (x, advance r (length bs)))"
proof (cases x)
  case (IBool v)
  then show ?thesis using item_codecs(1) [OF assms, of v] by fastforce
next
  case (IByte v)
  then show ?thesis using item_codecs(2) [OF assms, of v] by fastforce
next
  case (IChar v)
  then show ?thesis using item_codecs(3) [OF assms, of v] by fastforce
next
  case (IShort v)
  then show ?thesis using item_codecs(4) [OF assms, of v] by fastforce
next
  case (IInt v)
  then show ?thesis using item_codecs(5) [OF assms, of v] by fastforce
next
  case (ISigned v)
  then show ?thesis using item_codecs(6) [OF assms, of v] by fastforce
next
  case (IFloat v)
  then show ?thesis using item_codecs(7) [OF assms, of v] by fastforce
next
  case (IDouble v)
  then show ?thesis using item_codecs(8) [OF assms, of v] by fastforce
next
  case (ILong v)
  then show ?thesis using item_codecs(9) [OF assms, of v] by fastforce
qed

lemma items_roundtrip:
  assumes "cw_ok s"
  shows "\<exists>s' bs. write_items s xs = Some s' \<and> cw_ok s' \<and> cw_bytes s' = cw_bytes s @ bs \<and>
    (\<forall>r. bytes_at r bs \<longrightarrow> read_items xs r = Some (xs, advance r (length bs)))"
  using assms
proof (induction xs arbitrary: s)
  case Nil
  then show ?case by (intro exI [of _ s] exI [of _ "[]"]) simp
next
  case (Cons x xs)
  obtain s1 bs1 where s1: "write_item s x = Some s1" "cw_ok s1" "cw_bytes s1 = cw_bytes s @ bs1"
    "\<And>r. bytes_at r bs1 \<Longrightarrow> read_item x r = Some (x, advance r (length bs1))"
    using item_roundtrip [OF Cons.prems, of x] by blast
  obtain s2 bs2 where s2: "write_items s1 xs = Some s2" "cw_ok s2" "cw_bytes s2 = cw_bytes s1 @ bs2"
    "\<And>r. bytes_at r bs2 \<Longrightarrow> read_items xs r = Some (xs, advance r (length bs2))"
    using Cons.IH [OF s1(2)] by blast
  have "read_items (x # xs) r = Some (x # xs, advance r (length (bs1 @ bs2)))" if "bytes_at r (bs1 @ bs2)" for r
    using that s1(4) [of r] s2(4) [of "advance r (length bs1)"] by (simp add: bytes_at_append)
  then show ?case using s1 s2 by (intro exI [of _ s2] exI [of _ "bs1 @ bs2"]) simp
qed

lemma write_items_grew:
  "cw_ok s \<Longrightarrow> write_items s xs = Some s' \<Longrightarrow> grew s s' \<and> cw_position s' \<le> cw_position s + 10 * length xs"
proof (induction xs arbitrary: s)
  case Nil
  then show ?case by (simp add: grew_def)
next
  case (Cons x xs)
  then obtain s1 where s1: "write_item s x = Some s1" "write_items s1 xs = Some s'" by (auto split: option.split_asm)
  have "cw_ok s1" using item_roundtrip [OF Cons.prems(1), of x] s1(1) by auto
  from Cons.IH [OF this s1(2)] write_item_grew [OF Cons.prems(1) s1(1)] show ?case
    using grew_trans [of s s1 s'] by simp
qed

section \<open>Properties\<close>

text \<open>
  C5: any sequence of values of any types is written without error, however often the buffer has
  to grow, and reading the types back from the start position yields the same values and ends
  exactly behind the last byte. The values are few enough for their bytes to stay below \<open>2^30\<close>; the size
  of the buffer then stays below \<open>2^31\<close>, so that no \<open>int\<close> of the stream overflows.
\<close>

theorem compressed_stream_roundtrip:
  assumes "cw_ok s" and "cw_size s < 2 ^ 31" and "cw_position s + 10 * length xs < 2 ^ 30"
  shows "\<exists>s'. write_items s xs = Some s' \<and> cw_ok s' \<and> cw_size s' < 2 ^ 31 \<and>
    cw_position s' \<le> cw_position s + 10 * length xs \<and>
    read_items xs \<lparr>cr_buffer = cw_buffer s', cr_position = cw_position s\<rparr> =
      Some (xs, \<lparr>cr_buffer = cw_buffer s', cr_position = cw_position s'\<rparr>)"
proof -
  obtain s' bs where s': "write_items s xs = Some s'" "cw_ok s'" "cw_bytes s' = cw_bytes s @ bs"
    "\<And>r. bytes_at r bs \<Longrightarrow> read_items xs r = Some (xs, advance r (length bs))"
    using items_roundtrip [OF assms(1), of xs] by blast
  define r where "r = \<lparr>cr_buffer = cw_buffer s', cr_position = cw_position s\<rparr>"
  have len: "length (cw_bytes s) = cw_position s" "length (cw_bytes s') = cw_position s'"
    using assms s'(2) by (simp_all add: cw_bytes_def cw_ok_def)
  have "cw_buffer s' = (cw_bytes s @ bs) @ drop (cw_position s') (cw_buffer s')"
    unfolding s'(3) [symmetric] by (simp add: cw_bytes_def)
  then have "drop (cw_position s) (cw_buffer s') = bs @ drop (cw_position s') (cw_buffer s')"
    using len(1) by (metis append_assoc append_eq_conv_conj)
  then have "bytes_at r bs" by (auto simp: bytes_at_def r_def)
  moreover have "cw_position s' = cw_position s + length bs" using len s'(3) by (metis length_append)
  moreover have "grew s s'" "cw_position s' \<le> cw_position s + 10 * length xs"
    using write_items_grew [OF assms(1) s'(1)] by simp_all
  moreover from this have "cw_size s' < 2 ^ 31" using assms(2,3) by (auto simp: grew_def)
  ultimately show ?thesis using s' by (auto simp: r_def advance_def)
qed

theorem compressed_stream_roundtrip_witness:
  "\<exists>s'. write_items (new_write_stream 1) [ISigned (- 5), ILong (- 1), IFloat 7] = Some s' \<and>
     read_items [ISigned (- 5), ILong (- 1), IFloat 7] \<lparr>cr_buffer = cw_buffer s', cr_position = 0\<rparr> =
       Some ([ISigned (- 5), ILong (- 1), IFloat 7],
         \<lparr>cr_buffer = cw_buffer s', cr_position = cw_position s'\<rparr>)"
proof -
  have "cw_ok (new_write_stream 1)" "cw_position (new_write_stream 1) = 0" "cw_size (new_write_stream 1) = 1"
    by (simp_all add: cw_ok_def new_write_stream_def)
  then show ?thesis
    using compressed_stream_roundtrip [of "new_write_stream 1" "[ISigned (- 5), ILong (- 1), IFloat 7]"] by auto
qed

lemma enc_int_prefix_free:
  assumes eq: "enc_int w = enc_int v @ bs"
  shows "w = v \<and> bs = []"
proof -
  define r where "r = \<lparr>cr_buffer = enc_int w, cr_position = 0\<rparr>"
  have "bytes_at r (enc_int w)" "bytes_at r (enc_int v)" by (simp_all add: bytes_at_def r_def eq)
  then have "Some (w, advance r (length (enc_int w))) = Some (v, advance r (length (enc_int v)))"
    using read_int_at by metis
  then show ?thesis using eq by (simp add: advance_def)
qed

text \<open>
  C26: \<open>write_int\<close> never fails on a valid stream and appends one to five bytes, one byte exactly for the
  values below 192; when it writes two values to the same stream and the bytes of the first start
  the bytes of the second, the values are the same: the UNSIGNED5 coding is prefix-free.
\<close>

theorem unsigned5_bounds:
  assumes "cw_ok s"
  shows "\<exists>s1 s2. write_int s v = Some s1 \<and> write_int s w = Some s2 \<and>
    cw_position s + 1 \<le> cw_position s1 \<and> cw_position s1 \<le> cw_position s + 5 \<and>
    (cw_position s1 = cw_position s + 1 \<longleftrightarrow> unat v < 192) \<and>
    (take (cw_position s1) (cw_buffer s2) = take (cw_position s1) (cw_buffer s1) \<and>
       cw_position s1 \<le> cw_position s2 \<longrightarrow> v = w)"
proof -
  obtain s1 s2 where w: "write_int s v = Some s1" "write_int s w = Some s2" and ok: "cw_ok s1" "cw_ok s2"
    and b: "cw_bytes s1 = cw_bytes s @ enc_int v" "cw_bytes s2 = cw_bytes s @ enc_int w"
    using int_codec.write_appends [OF assms, of v] int_codec.write_appends [OF assms, of w] by blast
  have len: "length (cw_bytes t) = cw_position t" if "cw_ok t" for t using that by (simp add: cw_bytes_def cw_ok_def)
  have pos: "cw_position s1 = cw_position s + length (enc_int v)"
    using arg_cong [OF b(1), of length] by (simp add: len ok assms)
  have "w = v" if "take (cw_position s1) (cw_buffer s2) = take (cw_position s1) (cw_buffer s1)"
    "cw_position s1 \<le> cw_position s2"
  proof -
    have "take (cw_position s1) (cw_bytes s2) = cw_bytes s1" using that by (simp add: cw_bytes_def min_def)
    then have "take (length (enc_int v)) (enc_int w) = enc_int v" using b pos len [OF assms] by simp
    then have "enc_int w = enc_int v @ drop (length (enc_int v)) (enc_int w)"
      using append_take_drop_id [of "length (enc_int v)" "enc_int w"] by simp
    then show ?thesis using enc_int_prefix_free by blast
  qed
  then show ?thesis using w pos enc_int_length [of v] by (intro exI [of _ s1] exI [of _ s2]) auto
qed

theorem unsigned5_bounds_witness:
  "\<exists>s1. write_int (new_write_stream 2) 192 = Some s1 \<and> 2 \<le> cw_position s1 \<and> cw_position s1 \<le> 5"
proof -
  have "cw_ok (new_write_stream 2)" "cw_position (new_write_stream 2) = 0"
    by (simp_all add: cw_ok_def new_write_stream_def)
  then obtain s1 where "write_int (new_write_stream 2) 192 = Some s1" "1 \<le> cw_position s1" "cw_position s1 \<le> 5"
    "\<not> cw_position s1 = 1"
    using unsigned5_bounds [of "new_write_stream 2" 192 192] by auto
  then show ?thesis by auto
qed

end
