(* ===== verification/Utf8.thy ===== *)
theory Utf8
  imports CompressedStream
begin

text \<open>
  \<open>UTF8\<close> and \<open>UNICODE\<close> (\<open>src/src/share/vm/utilities/utf8.cpp\<close>): conversion between sequences of
  \<open>jchar\<close> and the modified UTF-8 of class files. A \<open>char*\<close> is the list of the bytes from the pointer to
  the end of the object it points into; a read behind that end is \<open>None\<close>. Operations that return a
  new pointer return the number of bytes they moved. A length that the code adds up in an \<open>int\<close> is a
  \<open>jint\<close> and wraps around.
\<close>

section \<open>Characters\<close>

definition byte_at :: "u_char list \<Rightarrow> nat \<Rightarrow> u_char option" where
  "byte_at s i = (if i < length s then Some (s ! i) else None)"

text \<open>\<open>UTF8::next\<close>: the value, and the number of bytes consumed.\<close>

definition utf8_next :: "u_char list \<Rightarrow> (jchar \<times> nat) option" where
  "utf8_next str =
     do { ch \<leftarrow> byte_at str 0;
          let k = unat (drop_bit 4 ch);
          let bad = Some (ucast ch, 1);
          if k \<in> {0x8, 0x9, 0xA, 0xB, 0xF} then bad
          else if k \<in> {0xC, 0xD} then
            do { ch2 \<leftarrow> byte_at str 1;
                 if ch2 AND 0xC0 = 0x80 then
                   Some (push_bit 6 (ucast (ch AND 0x1F)) + ucast (ch2 AND 0x3F), 2)
                 else bad }
          else if k = 0xE then
            do { ch2 \<leftarrow> byte_at str 1;
                 if ch2 AND 0xC0 = 0x80 then
                   do { ch3 \<leftarrow> byte_at str 2;
                        if ch3 AND 0xC0 = 0x80 then
                          Some (push_bit 6 (push_bit 6 (ucast (ch AND 0x0F)) + ucast (ch2 AND 0x3F))
                                  + ucast (ch3 AND 0x3F), 3)
                        else bad }
                 else bad }
          else Some (ucast ch, 1) }"

text \<open>The conjunctions of \<open>is_supplementary_character\<close> stop at the first byte that differs.\<close>

fun bytes_match :: "(u_char \<times> u_char) list \<Rightarrow> u_char list \<Rightarrow> bool option" where
  "bytes_match [] s = Some True"
| "bytes_match ((m, v) # ps) [] = None"
| "bytes_match ((m, v) # ps) (b # s) = (if b AND m = v then bytes_match ps s else Some False)"

definition is_supplementary_character :: "u_char list \<Rightarrow> bool option" where
  "is_supplementary_character s =
     bytes_match [(0xFF, 0xED), (0xF0, 0xA0), (0xC0, 0x80), (0xFF, 0xED), (0xF0, 0xB0), (0xC0, 0x80)] s"

definition get_supplementary_character :: "u_char list \<Rightarrow> jint" where
  "get_supplementary_character s =
     0x10000 + push_bit 16 (ucast (s ! 1 AND 0x0f)) + push_bit 10 (ucast (s ! 2 AND 0x3f))
       + push_bit 6 (ucast (s ! 4 AND 0x0f)) + ucast (s ! 5 AND 0x3f)"

definition utf8_next_character :: "u_char list \<Rightarrow> (jint \<times> nat) option" where
  "utf8_next_character s =
     do { sup \<leftarrow> is_supplementary_character s;
          if sup then Some (get_supplementary_character s, 6)
          else map_option (map_prod ucast id) (utf8_next s) }"

text \<open>\<open>utf8_write\<close>: the bytes it stores at \<open>base\<close>.\<close>

definition utf8_write :: "jchar \<Rightarrow> u_char list" where
  "utf8_write ch =
     (if ch \<noteq> 0 \<and> ch \<le> 0x7f then [ucast ch]
      else if ch \<le> 0x7FF then [ucast (drop_bit 6 ch) OR 0xC0, ucast (ch AND 0x3F) OR 0x80]
      else [ucast (drop_bit 12 ch) OR 0xE0, ucast (drop_bit 6 ch AND 0x3F) OR 0x80, ucast (ch AND 0x3F) OR 0x80])"

section \<open>Strings\<close>

text \<open>\<open>unicode_length (str, len)\<close> and the variant for 0-terminated strings.\<close>

fun continuation_count :: "u_char list \<Rightarrow> int \<Rightarrow> int" where
  "continuation_count [] n = n"
| "continuation_count (b # s) n = continuation_count s (if b AND 0xC0 = 0x80 then n - 1 else n)"

definition unicode_length :: "u_char list \<Rightarrow> nat \<Rightarrow> int option" where
  "unicode_length str len = (if len \<le> length str then Some (continuation_count (take len str) (int len)) else None)"

fun unicode_length0 :: "u_char list \<Rightarrow> jint \<Rightarrow> jint option" where
  "unicode_length0 [] n = None"
| "unicode_length0 (b # s) n =
     (if b = 0 then Some n else unicode_length0 s (if b AND 0xC0 \<noteq> 0x80 then n + 1 else n))"

text \<open>\<open>convert_to_unicode\<close>: the ASCII loop, then \<open>next\<close> for the rest; the list of characters stored.\<close>

fun unicode_rest :: "u_char list \<Rightarrow> nat \<Rightarrow> jchar list option" where
  "unicode_rest ptr 0 = Some []"
| "unicode_rest ptr (Suc n) =
     (case utf8_next ptr of None \<Rightarrow> None
      | Some (c, k) \<Rightarrow> map_option (Cons c) (unicode_rest (drop k ptr) n))"

fun convert_to_unicode :: "u_char list \<Rightarrow> nat \<Rightarrow> jchar list option" where
  "convert_to_unicode ptr 0 = Some []"
| "convert_to_unicode ptr (Suc n) =
     (case byte_at ptr 0 of None \<Rightarrow> None
      | Some ch \<Rightarrow> if 0x7F < ch then unicode_rest ptr (Suc n)
          else map_option (Cons (ucast ch)) (convert_to_unicode (drop 1 ptr) n))"

text \<open>The loops over the characters up to \<open>ptr + utf8_length\<close>; \<open>i\<close> is the offset of \<open>ptr\<close>.\<close>

definition printable :: "jchar \<Rightarrow> bool" where
  "printable c \<longleftrightarrow> 32 \<le> c \<and> c < 127"

lemma utf8_next_progress: "utf8_next s = Some (c, k) \<Longrightarrow> 0 < k \<and> k \<le> length s"
  by (auto simp: utf8_next_def byte_at_def Let_def Suc_le_eq split: if_splits Option.bind_splits)

function quoted_length_loop :: "u_char list \<Rightarrow> nat \<Rightarrow> nat \<Rightarrow> jint \<Rightarrow> jint option" where
  "quoted_length_loop str len i res =
     (if i < len then
        case utf8_next (drop i str) of None \<Rightarrow> None
        | Some (c, k) \<Rightarrow> quoted_length_loop str len (i + k) (if printable c then res + 1 else res + 6)
      else Some res)"
  by pat_completeness auto
termination
  by (relation "measure (\<lambda>(str, len, i, res). len - i)") (auto dest: utf8_next_progress)

declare quoted_length_loop.simps [simp del]

definition utf8_quoted_ascii_length :: "u_char list \<Rightarrow> nat \<Rightarrow> jint option" where
  "utf8_quoted_ascii_length str len = quoted_length_loop str len 0 0"

text \<open>\<open>sprintf (p, "\\u%04x", c)\<close>\<close>

definition hex_digit :: "nat \<Rightarrow> u_char" where
  "hex_digit d = of_nat (if d < 10 then 48 + d else 87 + d)"

definition hex4 :: "jchar \<Rightarrow> u_char list" where
  "hex4 c = [92, 117, hex_digit (unat c div 4096 mod 16), hex_digit (unat c div 256 mod 16),
     hex_digit (unat c div 16 mod 16), hex_digit (unat c mod 16)]"

definition quote_char :: "jchar \<Rightarrow> u_char list" where
  "quote_char c = (if printable c then [ucast c] else hex4 c)"

text \<open>
  \<open>as_quoted_ascii\<close> into a buffer of \<open>buflen\<close> bytes: the bytes before the final 0; \<open>None\<close> when that 0
  would be stored behind the buffer or the string is read past its end.
\<close>

function quote_loop :: "u_char list \<Rightarrow> nat \<Rightarrow> nat \<Rightarrow> nat \<Rightarrow> u_char list \<Rightarrow> u_char list option" where
  "quote_loop str len buflen i buf =
     (if i < len then
        case utf8_next (drop i str) of None \<Rightarrow> None
        | Some (c, k) \<Rightarrow>
            if buflen \<le> length buf + (if printable c then 1 else 6) then Some buf
            else quote_loop str len buflen (i + k) (buf @ quote_char c)
      else Some buf)"
  by pat_completeness auto
termination
  by (relation "measure (\<lambda>(str, len, buflen, i, buf). len - i)") (auto dest: utf8_next_progress)

declare quote_loop.simps [simp del]

definition terminate_in :: "nat \<Rightarrow> u_char list \<Rightarrow> u_char list option" where
  "terminate_in buflen buf = (if length buf < buflen then Some (buf @ [0]) else None)"

definition utf8_as_quoted_ascii :: "u_char list \<Rightarrow> nat \<Rightarrow> nat \<Rightarrow> u_char list option" where
  "utf8_as_quoted_ascii str len buflen =
     (case quote_loop str len buflen 0 [] of None \<Rightarrow> None | Some buf \<Rightarrow> terminate_in buflen buf)"

text \<open>\<open>strrchr\<close> and \<open>equal\<close>\<close>

fun strrchr_loop :: "u_char list \<Rightarrow> nat \<Rightarrow> u_char \<Rightarrow> nat option" where
  "strrchr_loop base 0 c = None"
| "strrchr_loop base (Suc n) c = (if base ! n = c then Some n else strrchr_loop base n c)"

definition utf8_strrchr :: "u_char list \<Rightarrow> u_char \<Rightarrow> nat option" where
  "utf8_strrchr base c = strrchr_loop base (length base) c"

fun utf8_equal_loop :: "u_char list \<Rightarrow> u_char list \<Rightarrow> nat \<Rightarrow> nat \<Rightarrow> bool" where
  "utf8_equal_loop a b i 0 = True"
| "utf8_equal_loop a b i (Suc n) = (if a ! i \<noteq> b ! i then False else utf8_equal_loop a b (i + 1) n)"

definition utf8_equal :: "u_char list \<Rightarrow> u_char list \<Rightarrow> bool" where
  "utf8_equal a b = (if length a \<noteq> length b then False else utf8_equal_loop a b 0 (length a))"

section \<open>From Unicode\<close>

definition utf8_size :: "jchar \<Rightarrow> nat" where
  "utf8_size c = (if 1 \<le> c \<and> c \<le> 0x7F then 1 else if c \<le> 0x7FF then 2 else 3)"

fun utf8_length_loop :: "jchar list \<Rightarrow> jint \<Rightarrow> jint" where
  "utf8_length_loop [] res = res"
| "utf8_length_loop (c # cs) res =
     utf8_length_loop cs (if 1 \<le> c \<and> c \<le> 0x7F then res + 1 else if c \<le> 0x7FF then res + 2 else res + 3)"

definition utf8_length :: "jchar list \<Rightarrow> jint" where
  "utf8_length cs = utf8_length_loop cs 0"

definition convert_to_utf8 :: "jchar list \<Rightarrow> u_char list" where
  "convert_to_utf8 cs = concat (map utf8_write cs) @ [0]"

text \<open>
  \<open>as_utf8\<close> allocates \<open>utf8_length + 1\<close> bytes; \<open>None\<close> is a store behind them, or a negative size, which
  as a \<open>size_t\<close> is more than the resource area can give.
\<close>

fun store_all :: "nat \<Rightarrow> u_char list \<Rightarrow> jchar list \<Rightarrow> u_char list option" where
  "store_all cap p [] = (if length p < cap then Some (p @ [0]) else None)"
| "store_all cap p (c # cs) =
     (if length p + length (utf8_write c) \<le> cap then store_all cap (p @ utf8_write c) cs else None)"

definition as_utf8 :: "jchar list \<Rightarrow> u_char list option" where
  "as_utf8 cs =
     (let n = sint (utf8_length cs + 1) in if n < 0 then None else store_all (nat n) [] cs)"

fun as_utf8_loop :: "nat \<Rightarrow> u_char list \<Rightarrow> jchar list \<Rightarrow> u_char list" where
  "as_utf8_loop buflen p [] = p"
| "as_utf8_loop buflen p (c # cs) =
     (if buflen \<le> length p + utf8_size c then p else as_utf8_loop buflen (p @ utf8_write c) cs)"

definition as_utf8_buf :: "jchar list \<Rightarrow> nat \<Rightarrow> u_char list option" where
  "as_utf8_buf cs buflen = terminate_in buflen (as_utf8_loop buflen [] cs)"

fun quoted_ascii_length_loop :: "jchar list \<Rightarrow> jint \<Rightarrow> jint" where
  "quoted_ascii_length_loop [] res = res"
| "quoted_ascii_length_loop (c # cs) res = quoted_ascii_length_loop cs (if printable c then res + 1 else res + 6)"

definition unicode_quoted_ascii_length :: "jchar list \<Rightarrow> jint" where
  "unicode_quoted_ascii_length cs = quoted_ascii_length_loop cs 0"

fun unicode_quote_loop :: "nat \<Rightarrow> u_char list \<Rightarrow> jchar list \<Rightarrow> u_char list" where
  "unicode_quote_loop buflen p [] = p"
| "unicode_quote_loop buflen p (c # cs) =
     (if printable c then
        if buflen \<le> length p + 1 then p else unicode_quote_loop buflen (p @ [ucast c]) cs
      else if buflen \<le> length p + 6 then p else unicode_quote_loop buflen (p @ hex4 c) cs)"

definition unicode_as_quoted_ascii :: "jchar list \<Rightarrow> nat \<Rightarrow> u_char list option" where
  "unicode_as_quoted_ascii cs buflen = terminate_in buflen (unicode_quote_loop buflen [] cs)"

section \<open>Unquoting\<close>

text \<open>
  \<open>from_quoted_ascii\<close>. The argument is the C string without its final 0. The loops are over the
  pointer and may not end: \<open>None\<close> is a loop that never ends, \<open>Inl ()\<close> is \<open>ShouldNotReachHere\<close>.
  A store behind the buffer is dropped; no result depends on it, since the function returns only
  for the empty string.
\<close>

definition cstr_at :: "u_char list \<Rightarrow> nat \<Rightarrow> u_char" where
  "cstr_at str p = (if p < length str then str ! p else 0)"

partial_function (option) quoted_scan :: "u_char list \<Rightarrow> nat \<Rightarrow> nat option" where
  "quoted_scan str p =
     (let c = cstr_at str p in
      if c \<noteq> 0 then (if c < 32 \<or> 127 \<le> c then Some p else quoted_scan str p) else Some p)"

definition hex_val :: "u_char \<Rightarrow> jchar option" where
  "hex_val c =
     (if 48 \<le> c \<and> c \<le> 57 then Some (ucast c - 48)
      else if 97 \<le> c \<and> c \<le> 102 then Some (10 + ucast c - 97)
      else if 65 \<le> c \<and> c \<le> 70 then Some (10 + ucast c - 65) else None)"

fun hex_value :: "u_char list \<Rightarrow> nat \<Rightarrow> nat \<Rightarrow> jchar \<Rightarrow> jchar option" where
  "hex_value str p 0 v = Some v"
| "hex_value str p (Suc n) v =
     (case hex_val (cstr_at str p) of None \<Rightarrow> None | Some d \<Rightarrow> hex_value str (p + 1) n (push_bit 4 v + d))"

fun store_bytes :: "nat \<Rightarrow> u_char list \<Rightarrow> u_char list \<Rightarrow> u_char list" where
  "store_bytes n [] buf = buf"
| "store_bytes n (b # bs) buf = store_bytes (n + 1) bs (buf[n := b])"

definition escape_char :: "u_char \<Rightarrow> u_char option" where
  "escape_char d =
     (if d = 116 then Some 9 else if d = 110 then Some 10 else if d = 114 then Some 13
      else if d = 102 then Some 12 else None)"

partial_function (option) unquote_round ::
    "u_char list \<Rightarrow> nat \<Rightarrow> nat \<Rightarrow> u_char list option \<Rightarrow> (unit + nat \<times> u_char list option) option" where
  "unquote_round str p len buf =
     (let c = cstr_at str p in
      if c = 0 then Some (Inr (len, buf))
      else if c \<noteq> 92 then unquote_round str p (len + 1) (map_option (store_bytes len [c]) buf)
      else let d = cstr_at str (p + 1) in
        if d = 117 then
          let v = hex_value str (p + 2) 4 0 in
          if v = None then Some (Inl ())
          else unquote_round str (p + 6) (len + length (utf8_write (the v)))
                 (map_option (store_bytes len (utf8_write (the v))) buf)
        else let e = escape_char d in
          if e = None then Some (Inl ())
          else unquote_round str (p + 2) (len + 1) (map_option (store_bytes len [the e]) buf))"

definition from_quoted_ascii :: "u_char list \<Rightarrow> (unit + u_char list) option" where
  "from_quoted_ascii str =
     do { p \<leftarrow> quoted_scan str 0;
          if cstr_at str p = 0 then Some (Inr str)
          else
            do { r0 \<leftarrow> unquote_round str p p None;
                 case r0 of
                   Inl e \<Rightarrow> Some (Inl e)
                 | Inr (len, _) \<Rightarrow>
                     do { r1 \<leftarrow> unquote_round str 0 len (Some (replicate (len + 1) 0));
                          case r1 of
                            Inl e \<Rightarrow> Some (Inl e)
                          | Inr (len', buf) \<Rightarrow> Some (Inr (store_bytes len' [0] (the buf))) } } }"

end
