(* ===== verification/Utf8_Correct.thy ===== *)
theory Utf8_Correct
  imports Utf8
begin

text \<open>
  Correctness of the UTF-8 conversions: every character decodes to itself, whole strings round
  trip, predicted lengths are exact, truncated conversions stay inside their buffer, and the
  loop of \<open>from_quoted_ascii\<close> does not end on a non-empty string.
\<close>

section \<open>One character\<close>

lemma bits_above:
  assumes "unat (c :: 'a :: len word) < 2 ^ k" and "k \<le> n"
  shows "\<not> bit c n"
proof -
  have "unat c < 2 ^ n" using assms by (meson one_le_numeral order_less_le_trans power_increasing)
  then have "\<not> bit (unat c) n" by (simp add: bit_iff_odd)
  then show ?thesis by (simp add: bit_unsigned_iff)
qed

lemma upt_8: "[0..<8] = [0, 1, 2, 3, 4, 5, 6, 7 :: nat]"
  by code_simp

lemma upt_16: "[0..<16] = [0, 1, 2, 3, 4, 5, 6, 7, 8, 9, 10, 11, 12, 13, 14, 15 :: nat]"
  by code_simp

lemma jchar_eqI: "(\<And>n. n \<in> set [0..<16] \<Longrightarrow> bit a n = bit b n) \<Longrightarrow> a = (b :: jchar)"
  by (rule bit_word_eqI) simp

lemma u_char_eqI: "(\<And>n. n \<in> set [0..<8] \<Longrightarrow> bit a n = bit b n) \<Longrightarrow> a = (b :: u_char)"
  by (rule bit_word_eqI) simp

lemma masks:
  "(x :: 'a :: len word) AND 0x3F = take_bit 6 x" "x AND 0x1F = take_bit 5 x" "x AND 0x0F = take_bit 4 x"
  by (simp_all add: take_bit_eq_mask mask_eq_exp_minus_1)

text \<open>A shifted value plus six low bits has no carry.\<close>

lemma add_low_six: "push_bit 6 x + take_bit 6 y = (push_bit 6 x OR take_bit 6 y :: jchar)"
  by (rule disjunctive_add) (auto simp: bit_simps)

definition lead2 :: "jchar \<Rightarrow> u_char" where
  "lead2 c = ucast (drop_bit 6 c) OR 0xC0"

definition lead3 :: "jchar \<Rightarrow> u_char" where
  "lead3 c = ucast (drop_bit 12 c) OR 0xE0"

definition tail6 :: "jchar \<Rightarrow> u_char" where
  "tail6 c = ucast (take_bit 6 c) OR 0x80"

lemma tail6_continuation: "tail6 c AND 0xC0 = 0x80"
  by (rule u_char_eqI) (auto simp: tail6_def upt_8 bit_simps)

lemma tail6_low: "ucast (take_bit 6 (tail6 c)) = take_bit 6 c"
  by (rule jchar_eqI) (auto simp: tail6_def upt_16 bit_simps)

lemma lead2_kind:
  assumes "c < 0x800"
  shows "unat (drop_bit 4 (lead2 c)) \<in> {0xC, 0xD}"
proof -
  have b: "\<not> bit c n" if "11 \<le> n" for n using bits_above [of c 11 n] assms that by (simp add: word_less_nat_alt)
  have "drop_bit 4 (lead2 c) = (if bit c 10 then 0xD else 0xC)"
    by (rule u_char_eqI) (auto simp: lead2_def upt_8 bit_simps b)
  then show ?thesis by simp
qed

lemma lead3_kind: "unat (drop_bit 4 (lead3 c)) = 0xE"
proof -
  have "drop_bit 4 (lead3 c) = 0xE" by (rule u_char_eqI) (auto simp: lead3_def upt_8 bit_simps dest: bit_imp_le_length)
  then show ?thesis by simp
qed

lemma decode2:
  assumes "c < 0x800"
  shows "push_bit 6 (ucast (take_bit 5 (lead2 c))) OR take_bit 6 c = c"
proof -
  have b: "\<not> bit c n" if "11 \<le> n" for n using bits_above [of c 11 n] assms that by (simp add: word_less_nat_alt)
  show ?thesis by (rule jchar_eqI) (auto simp: lead2_def upt_16 bit_simps b)
qed

lemma decode3:
  "push_bit 6 (push_bit 6 (ucast (take_bit 4 (lead3 c))) OR take_bit 6 (drop_bit 6 c)) OR take_bit 6 c = c"
  by (rule jchar_eqI) (auto simp: lead3_def upt_16 bit_simps)

lemma utf8_write_eq:
  "utf8_write c = (if c \<noteq> 0 \<and> c \<le> 0x7f then [ucast c] else if c \<le> 0x7FF then [lead2 c, tail6 c]
     else [lead3 c, tail6 (drop_bit 6 c), tail6 c])"
  by (simp add: utf8_write_def lead2_def lead3_def tail6_def masks)

lemma word_le_less: "(c :: jchar) \<le> 0x7FF \<longleftrightarrow> c < 0x800" "c \<le> 0x7F \<longleftrightarrow> c < 0x80"
  by (auto simp: word_le_nat_alt word_less_nat_alt)

lemma ascii_kind:
  assumes "(c :: jchar) < 0x80"
  shows "unat (drop_bit 4 (ucast c :: u_char)) < 8" and "ucast (ucast c :: u_char) = c" and "(ucast c :: u_char) \<le> 0x7F"
proof -
  have c: "unat c < 128" using assms by (simp add: word_less_nat_alt)
  then have u: "unat (ucast c :: u_char) = unat c" by (simp add: unsigned_ucast_eq take_bit_nat_eq_self)
  show "unat (drop_bit 4 (ucast c :: u_char)) < 8"
    using c u unat_drop_bit_eq [of 4 "ucast c :: u_char"] by (simp only: drop_bit_eq_div) auto
  have "(ucast (ucast c :: u_char) :: jchar) = of_nat (unat (ucast c :: u_char))" by simp
  then show "ucast (ucast c :: u_char) = c" unfolding u by simp
  show "(ucast c :: u_char) \<le> 0x7F" using c u by (simp add: word_le_nat_alt)
qed

text \<open>Every character is read back from its encoding, whatever follows.\<close>

lemma utf8_next_write: "utf8_next (utf8_write c @ rest) = Some (c, length (utf8_write c))"
proof -
  consider "c \<noteq> 0" "c < 0x80" | "c = 0 \<or> \<not> c < 0x80" "c < 0x800" | "\<not> c < 0x800"
    by blast
  then show ?thesis
  proof cases
    case 1
    note k = ascii_kind [OF 1(2)]
    have "utf8_write c = [ucast c]" using 1 by (simp add: utf8_write_eq word_le_less)
    moreover have "unat (drop_bit 4 (ucast c :: u_char)) \<notin> {8, 9, 10, 11, 15, 12, 13, 14}" using k(1) by auto
    ultimately show ?thesis by (simp add: utf8_next_def byte_at_def Let_def k(2))
  next
    case 2
    have "utf8_write c = [lead2 c, tail6 c]" using 2 by (auto simp: utf8_write_eq word_le_less)
    then show ?thesis
      using lead2_kind [OF 2(2)] tail6_continuation [of c] decode2 [OF 2(2)]
      by (auto simp: utf8_next_def byte_at_def Let_def masks add_low_six tail6_low)
  next
    case 3
    then have "c \<noteq> 0" "\<not> c < 0x80" by (auto simp: word_less_nat_alt)
    then have "utf8_write c = [lead3 c, tail6 (drop_bit 6 c), tail6 c]"
      using 3 by (simp add: utf8_write_eq word_le_less)
    then show ?thesis
      using lead3_kind [of c] tail6_continuation decode3 [of c]
      by (simp add: utf8_next_def byte_at_def Let_def masks add_low_six tail6_low
          del: push_bit_or push_bit_add push_bit_push_bit)
  qed
qed

lemma utf8_size_eq: "utf8_size c = (if c \<noteq> 0 \<and> c \<le> 0x7f then 1 else if c \<le> 0x7FF then 2 else 3)"
proof -
  have "1 \<le> c \<longleftrightarrow> c \<noteq> 0" by (auto simp: word_le_nat_alt Suc_le_eq unat_gt_0)
  then show ?thesis by (simp add: utf8_size_def)
qed

lemma utf8_write_length: "length (utf8_write c) = utf8_size c" "0 < utf8_size c"
  by (auto simp: utf8_write_def utf8_size_eq)

lemma nonzero_u_char: "bit (b :: u_char) n \<Longrightarrow> b \<noteq> 0"
  by auto

lemma utf8_write_nonzero: "0 \<notin> set (utf8_write c)"
proof -
  have "tail6 x \<noteq> 0" for x using nonzero_u_char [of "tail6 x" 7] by (auto simp: tail6_def bit_simps)
  moreover have "lead2 c \<noteq> 0" using nonzero_u_char [of "lead2 c" 7] by (auto simp: lead2_def bit_simps)
  moreover have "lead3 c \<noteq> 0" using nonzero_u_char [of "lead3 c" 7] by (auto simp: lead3_def bit_simps)
  moreover have "(ucast c :: u_char) \<noteq> 0" if "c \<noteq> 0" "c < 0x80"
    using ascii_kind(2) [OF that(2)] that(1) by auto
  ultimately show ?thesis by (auto simp: utf8_write_eq word_le_less)
qed

text \<open>Exactly the first byte of an encoding is no continuation byte.\<close>

lemma leads_not_continuation: "lead3 c AND 0xC0 \<noteq> 0x80" "lead2 c AND 0xC0 \<noteq> 0x80"
    "c < 0x80 \<Longrightarrow> (ucast c :: u_char) AND 0xC0 \<noteq> 0x80"
proof -
  have six: "\<not> bit (0x80 :: u_char) 6" by simp
  have "bit (lead3 c AND 0xC0) 6" by (simp add: lead3_def bit_simps)
  then show "lead3 c AND 0xC0 \<noteq> 0x80" using six by metis
  have "bit (lead2 c AND 0xC0) 6" by (simp add: lead2_def bit_simps)
  then show "lead2 c AND 0xC0 \<noteq> 0x80" using six by metis
  assume "c < 0x80"
  then have "\<not> bit c 7" using bits_above [of c 7 7] by (simp add: word_less_nat_alt)
  then have "\<not> bit ((ucast c :: u_char) AND 0xC0) 7" by (simp add: bit_simps)
  moreover have "bit (0x80 :: u_char) 7" by simp
  ultimately show "(ucast c :: u_char) AND 0xC0 \<noteq> 0x80" by metis
qed

lemma continuation_count_append:
  "continuation_count (xs @ ys) n = continuation_count ys (continuation_count xs n)"
  by (induction xs arbitrary: n) auto

lemma continuation_count_write: "continuation_count (utf8_write c) n = n - (int (utf8_size c) - 1)"
  using leads_not_continuation(3) [of c]
  by (auto simp: utf8_write_eq utf8_size_eq word_le_less tail6_continuation leads_not_continuation(1,2))

section \<open>Strings\<close>

lemma utf8_length_loop_eq: "utf8_length_loop cs n = n + of_nat (sum_list (map utf8_size cs))"
  by (induction cs arbitrary: n) (auto simp: utf8_size_def)

lemma utf8_length_eq: "utf8_length cs = of_nat (length (concat (map utf8_write cs)))"
  by (simp add: utf8_length_def utf8_length_loop_eq length_concat comp_def utf8_write_length)

lemma length_pieces_le:
  assumes "\<And>c. length (f c) \<le> k"
  shows "length (concat (map f cs)) \<le> k * length cs"
proof (induction cs)
  case (Cons c cs)
  then show ?case using assms [of c] by simp
qed simp

lemma sint_of_nat_jint: "n < 2 ^ 31 \<Longrightarrow> sint (of_nat n :: jint) = int n"
  by (simp add: signed_of_nat signed_take_bit_int_eq_self)

lemma sint_utf8_length:
  assumes "3 * length cs < 2 ^ 31"
  shows "sint (utf8_length cs) = int (length (concat (map utf8_write cs)))"
proof -
  have "length (concat (map utf8_write cs)) \<le> 3 * length cs"
    by (rule length_pieces_le) (simp add: utf8_write_def)
  then show ?thesis unfolding utf8_length_eq using assms by (intro sint_of_nat_jint) simp
qed

lemma unicode_rest_write: "unicode_rest (concat (map utf8_write cs) @ rest) (length cs) = Some cs"
  by (induction cs) (simp_all add: utf8_next_write)

lemma convert_to_unicode_write: "convert_to_unicode (concat (map utf8_write cs) @ rest) (length cs) = Some cs"
proof (induction cs)
  case (Cons c cs)
  obtain b bs where b: "utf8_write c = b # bs" using utf8_write_length [of c] by (cases "utf8_write c") auto
  show ?case
  proof (cases "0x7F < b")
    case True
    then show ?thesis using unicode_rest_write [of "c # cs" rest] b by (simp add: byte_at_def)
  next
    case False
    have "c \<noteq> 0 \<and> c < 0x80"
    proof (rule ccontr)
      assume "\<not> (c \<noteq> 0 \<and> c < 0x80)"
      then have "b = lead2 c \<or> b = lead3 c" using b by (auto simp: utf8_write_eq word_le_less split: if_splits)
      moreover have "bit (lead2 c) 7" "bit (lead3 c) 7" by (simp_all add: lead2_def lead3_def bit_simps)
      ultimately have "bit b 7" by auto
      moreover have "unat b < 2 ^ 7" using False by (simp add: word_less_nat_alt)
      ultimately show False using bits_above [of b 7 7] by simp
    qed
    then have "utf8_write c = [ucast c]" by (simp add: utf8_write_eq word_le_less)
    then show ?thesis
      using b False Cons.IH ascii_kind(2) [of c] \<open>c \<noteq> 0 \<and> c < 0x80\<close> by (simp add: byte_at_def)
  qed
qed simp

lemma continuation_count_string:
  "continuation_count (concat (map utf8_write cs)) n = n - (int (length (concat (map utf8_write cs))) - int (length cs))"
  by (induction cs arbitrary: n) (simp_all add: continuation_count_append continuation_count_write utf8_write_length)

lemma store_all_eq:
  "length p + length (concat (map utf8_write cs)) < cap \<Longrightarrow>
   store_all cap p cs = Some (p @ concat (map utf8_write cs) @ [0])"
  by (induction cs arbitrary: p) auto

section \<open>Truncating conversions\<close>

text \<open>
  A loop that stops before the next piece would fill the buffer: what it stored is the longest
  prefix of pieces that is shorter than the buffer.
\<close>

fun fitting :: "('c \<Rightarrow> u_char list) \<Rightarrow> nat \<Rightarrow> nat \<Rightarrow> 'c list \<Rightarrow> 'c list" where
  "fitting f buflen n [] = []"
| "fitting f buflen n (c # cs) =
     (if buflen \<le> n + length (f c) then [] else c # fitting f buflen (n + length (f c)) cs)"

lemma fitting_prefix: "\<exists>rest. cs = fitting f buflen n cs @ rest \<and>
    (rest = [] \<or> buflen \<le> n + length (concat (map f (fitting f buflen n cs))) + length (f (hd rest)))"
proof (induction cs arbitrary: n)
  case (Cons c cs)
  show ?case
  proof (cases "buflen \<le> n + length (f c)")
    case True
    then show ?thesis by simp
  next
    case False
    from Cons.IH [of "n + length (f c)"] obtain rest where
      "cs = fitting f buflen (n + length (f c)) cs @ rest"
      "rest = [] \<or> buflen \<le> n + length (f c) + length (concat (map f (fitting f buflen (n + length (f c)) cs))) +
         length (f (hd rest))" by blast
    then show ?thesis using False by (intro exI [of _ rest]) (auto simp: add.assoc)
  qed
qed simp

lemma fitting_length: "n < buflen \<Longrightarrow> n + length (concat (map f (fitting f buflen n cs))) < buflen"
  by (induction cs arbitrary: n) (auto simp: add.assoc [symmetric])

lemma as_utf8_loop_eq:
  "as_utf8_loop buflen p cs = p @ concat (map utf8_write (fitting utf8_write buflen (length p) cs))"
  by (induction cs arbitrary: p) (auto simp: utf8_write_length)

lemma quote_char_length: "length (quote_char c) = (if printable c then 1 else 6)"
  by (simp add: quote_char_def hex4_def)

lemma unicode_quote_loop_eq:
  "unicode_quote_loop buflen p cs = p @ concat (map quote_char (fitting quote_char buflen (length p) cs))"
  by (induction cs arbitrary: p) (auto simp: quote_char_def hex4_def)

lemma quoted_ascii_length_loop_eq:
  "quoted_ascii_length_loop cs n = n + of_nat (length (concat (map quote_char cs)))"
  by (induction cs arbitrary: n) (auto simp: quote_char_length)

text \<open>The UTF-8 side sees the same characters.\<close>

lemma quoted_length_loop_write:
  assumes "str = xs @ concat (map utf8_write cs) @ rest" and "len = length xs + length (concat (map utf8_write cs))"
  shows "quoted_length_loop str len (length xs) n = Some (n + of_nat (length (concat (map quote_char cs))))"
  using assms
proof (induction cs arbitrary: xs n)
  case Nil
  then show ?case by (subst quoted_length_loop.simps) simp
next
  case (Cons c cs)
  have "length xs < len" using Cons.prems(2) utf8_write_length [of c] by simp
  moreover have "utf8_next (drop (length xs) str) = Some (c, length (utf8_write c))"
    using Cons.prems(1) utf8_next_write [of c "concat (map utf8_write cs) @ rest"] by simp
  moreover have "quoted_length_loop str len (length (xs @ utf8_write c)) m = Some (m + of_nat (length (concat (map quote_char cs))))" for m
    using Cons.prems by (intro Cons.IH) simp_all
  ultimately show ?case
    using quoted_length_loop.simps [of str len "length xs" n] by (simp add: quote_char_length)
qed

lemma quote_loop_write:
  assumes "str = xs @ concat (map utf8_write cs) @ rest" and "len = length xs + length (concat (map utf8_write cs))"
  shows "quote_loop str len buflen (length xs) buf =
    Some (buf @ concat (map quote_char (fitting quote_char buflen (length buf) cs)))"
  using assms
proof (induction cs arbitrary: xs buf)
  case Nil
  then show ?case by (subst quote_loop.simps) simp
next
  case (Cons c cs)
  have "length xs < len" using Cons.prems(2) utf8_write_length [of c] by simp
  moreover have "utf8_next (drop (length xs) str) = Some (c, length (utf8_write c))"
    using Cons.prems(1) utf8_next_write [of c "concat (map utf8_write cs) @ rest"] by simp
  moreover have "quote_loop str len buflen (length (xs @ utf8_write c)) b =
      Some (b @ concat (map quote_char (fitting quote_char buflen (length b) cs)))" for b
    using Cons.prems by (intro Cons.IH) simp_all
  ultimately show ?case
    using quote_loop.simps [of str len buflen "length xs" buf] by (simp add: quote_char_length)
qed

section \<open>Supplementary characters\<close>

lemma surrogate_bits:
  assumes "unat (x :: jchar) < 0x400"
  shows "0xD800 + x = 0xD800 OR x" and "0xDC00 + x = 0xDC00 OR x" and "10 \<le> n \<Longrightarrow> \<not> bit x n"
proof -
  have b: "\<not> bit x n" if "10 \<le> n" for n using bits_above [of x 10 n] assms that by simp
  then show "10 \<le> n \<Longrightarrow> \<not> bit x n" .
  have "(0xD800 AND x) = 0" "(0xDC00 AND x) = 0" by (rule jchar_eqI; auto simp: upt_16 bit_simps b)+
  then show "0xD800 + x = 0xD800 OR x" "0xDC00 + x = 0xDC00 OR x" by (simp_all add: disjunctive_add_eq_or)
qed

lemma surrogate_write:
  assumes "unat x < 0x400" and "c = 0xD800 OR x \<or> c = 0xDC00 OR x"
  shows "utf8_write c = [0xED, tail6 (drop_bit 6 c), tail6 c]"
proof -
  note b = surrogate_bits(3) [OF assms(1)]
  have "bit c 15" using assms(2) by (auto simp: bit_simps)
  then have "\<not> unat c < 2 ^ 15" using bits_above [of c 15 15] by auto
  then have "\<not> c < 0x800" "\<not> c < 0x80" "c \<noteq> 0" by (auto simp: word_less_nat_alt)
  moreover have "lead3 c = 0xED"
    using assms(2) by (intro u_char_eqI) (auto simp: lead3_def upt_8 bit_simps b)
  ultimately show ?thesis by (simp add: utf8_write_eq word_le_less)
qed

lemma surrogate_mid:
  assumes "unat x < 0x400"
  shows "tail6 (drop_bit 6 (0xD800 OR x)) AND 0xF0 = 0xA0" and "tail6 (drop_bit 6 (0xDC00 OR x)) AND 0xF0 = 0xB0"
    and "c = 0xD800 OR x \<or> c = 0xDC00 OR x \<Longrightarrow>
      push_bit 6 (ucast (take_bit 4 (tail6 (drop_bit 6 c)))) + ucast (take_bit 6 (tail6 c)) = (ucast x :: jint)"
proof -
  note b = surrogate_bits(3) [OF assms]
  show "tail6 (drop_bit 6 (0xD800 OR x)) AND 0xF0 = 0xA0" "tail6 (drop_bit 6 (0xDC00 OR x)) AND 0xF0 = 0xB0"
    by (rule u_char_eqI; auto simp: tail6_def upt_8 bit_simps b)+
  assume c: "c = 0xD800 OR x \<or> c = 0xDC00 OR x"
  have hi: "take_bit 4 (tail6 (drop_bit 6 c)) = ucast (drop_bit 6 x)"
    using c by (elim disjE; intro u_char_eqI) (auto simp: tail6_def upt_8 bit_simps b)
  have lo: "take_bit 6 (tail6 c) = ucast (take_bit 6 x)"
    using c by (elim disjE; intro u_char_eqI) (auto simp: tail6_def upt_8 bit_simps b)
  have "push_bit 6 (ucast (ucast (drop_bit 6 x) :: u_char)) + ucast (ucast (take_bit 6 x) :: u_char) =
      (push_bit 6 (ucast (ucast (drop_bit 6 x) :: u_char)) OR ucast (ucast (take_bit 6 x) :: u_char) :: jint)"
    by (rule disjunctive_add) (auto simp: bit_simps)
  also have "\<dots> = ucast x"
  proof (rule bit_word_eqI)
    fix n
    show "bit (push_bit 6 (ucast (ucast (drop_bit 6 x) :: u_char)) OR ucast (ucast (take_bit 6 x) :: u_char) :: jint) n =
        bit (ucast x :: jint) n" if "n < LENGTH(32)"
      using that b [of n] by (cases "n < 10") (auto simp: bit_simps)
  qed
  finally show "push_bit 6 (ucast (take_bit 4 (tail6 (drop_bit 6 c)))) + ucast (take_bit 6 (tail6 c)) = (ucast x :: jint)"
    unfolding hi lo .
qed

section \<open>Unquoting\<close>

lemma quoted_scan_printable:
  assumes "quoted_scan str p = Some q"
  shows "q = p \<and> (cstr_at str p = 0 \<or> cstr_at str p < 32 \<or> 127 \<le> cstr_at str p)"
  by (rule quoted_scan.raw_induct [OF _ assms, where P = "\<lambda>str p q. q = p \<and>
      (cstr_at str p = 0 \<or> cstr_at str p < 32 \<or> 127 \<le> cstr_at str p)"])
    (auto simp: Let_def split: if_splits)

lemma unquote_round_stuck:
  assumes "unquote_round str p len buf = Some r"
  shows "cstr_at str p = 0 \<or> cstr_at str p = 92"
  by (rule unquote_round.raw_induct [OF _ assms, where P = "\<lambda>str p len buf r. cstr_at str p = 0 \<or> cstr_at str p = 92"])
    (simp add: Let_def split: if_split_asm; blast)

section \<open>Properties\<close>

text \<open>
  C10: every sequence of 16-bit characters, short enough for its encoded length to be an \<open>int\<close>, survives
  the conversion to modified UTF-8 and back; the buffer \<open>as_utf8\<close> allocates from the predicted length is
  exactly large enough; the byte string contains no 0 before its end; and \<open>unicode_length\<close> recovers the
  number of characters.
\<close>

theorem utf8_roundtrip:
  assumes "3 * length cs + 1 < 2 ^ 31"
  shows "as_utf8 cs = Some (convert_to_utf8 cs) \<and>
   convert_to_unicode (convert_to_utf8 cs) (length cs) = Some cs \<and>
   int (length (convert_to_utf8 cs)) = sint (utf8_length cs) + 1 \<and> 0 \<notin> set (butlast (convert_to_utf8 cs)) \<and>
   unicode_length (convert_to_utf8 cs) (nat (sint (utf8_length cs))) = Some (int (length cs))"
proof -
  let ?n = "length (concat (map utf8_write cs))"
  have n: "?n \<le> 3 * length cs" by (rule length_pieces_le) (simp add: utf8_write_def)
  have len: "sint (utf8_length cs) = int ?n" using assms by (intro sint_utf8_length) simp
  have "utf8_length cs + 1 = of_nat (?n + 1)" by (simp add: utf8_length_eq)
  then have len1: "sint (utf8_length cs + 1) = int (?n + 1)"
    using n assms by (simp only:) (rule sint_of_nat_jint, simp)
  have "unicode_length (convert_to_utf8 cs) (nat (sint (utf8_length cs))) = Some (int (length cs))"
    using continuation_count_string [of cs "int ?n"] unfolding len
    by (simp add: unicode_length_def convert_to_utf8_def)
  moreover have "as_utf8 cs = Some (convert_to_utf8 cs)"
    using store_all_eq [of "[]" cs "?n + 1"] unfolding as_utf8_def Let_def len1 convert_to_utf8_def nat_int by simp
  ultimately show ?thesis
    using convert_to_unicode_write [of cs "[0]"] utf8_write_nonzero len
    by (auto simp: convert_to_utf8_def butlast_append)
qed

theorem utf8_roundtrip_witness:
  "as_utf8 [65, 0, 0x20AC] = Some [0x41, 0xC0, 0x80, 0xE2, 0x82, 0xAC, 0] \<and>
   convert_to_unicode [0x41, 0xC0, 0x80, 0xE2, 0x82, 0xAC, 0] 3 = Some [65, 0, 0x20AC]"
proof -
  have "convert_to_utf8 [65, 0, 0x20AC] = [0x41, 0xC0, 0x80, 0xE2, 0x82, 0xAC, 0]" by code_simp
  then show ?thesis using utf8_roundtrip [of "[65, 0, 0x20AC]"] by (simp add: numeral_3_eq_3)
qed

text \<open>
  C27: quoting. For a string in modified UTF-8 and for the same string in Unicode, the quoted
  length is the same; quoting into a buffer of positive length stays inside it, 0-terminated; the
  two variants store the same bytes, the quotes of a prefix of the characters, and the whole
  string when the buffer is longer than the quoted length. The string is short enough for its quoted
  length to be an \<open>int\<close>.
\<close>

theorem quoted_ascii_correct:
  assumes "0 < buflen" and "6 * length cs < 2 ^ 31"
  shows "\<exists>ds. utf8_as_quoted_ascii (convert_to_utf8 cs) (nat (sint (utf8_length cs))) buflen =
        Some (concat (map quote_char ds) @ [0]) \<and>
      unicode_as_quoted_ascii cs buflen = Some (concat (map quote_char ds) @ [0]) \<and>
      length (concat (map quote_char ds) @ [0]) \<le> buflen \<and> take (length ds) cs = ds \<and>
      sint (unicode_quoted_ascii_length cs) = int (length (concat (map quote_char cs))) \<and>
      (sint (unicode_quoted_ascii_length cs) < int buflen \<longrightarrow> ds = cs) \<and>
      utf8_quoted_ascii_length (convert_to_utf8 cs) (nat (sint (utf8_length cs))) = Some (unicode_quoted_ascii_length cs)"
proof -
  let ?n = "length (concat (map utf8_write cs))"
  define ds where "ds = fitting quote_char buflen 0 cs"
  have n: "nat (sint (utf8_length cs)) = ?n" using assms(2) by (simp add: sint_utf8_length)
  have len: "length (concat (map quote_char ds)) < buflen"
    using fitting_length [of 0 buflen quote_char cs] assms by (simp add: ds_def)
  obtain rest where rest: "cs = ds @ rest"
    "rest = [] \<or> buflen \<le> length (concat (map quote_char ds)) + length (quote_char (hd rest))"
    using fitting_prefix [of cs quote_char buflen 0] unfolding ds_def by auto
  have ql: "unicode_quoted_ascii_length cs = of_nat (length (concat (map quote_char cs)))"
    by (simp add: unicode_quoted_ascii_length_def quoted_ascii_length_loop_eq)
  have "length (concat (map quote_char cs)) \<le> 6 * length cs"
    by (rule length_pieces_le) (simp add: quote_char_length)
  then have sq: "sint (unicode_quoted_ascii_length cs) = int (length (concat (map quote_char cs)))"
    unfolding ql using assms(2) by (intro sint_of_nat_jint) simp
  have "rest = []" if "sint (unicode_quoted_ascii_length cs) < int buflen"
  proof (rule ccontr)
    assume "rest \<noteq> []"
    then have "length (concat (map quote_char ds)) + length (quote_char (hd rest)) \<le> length (concat (map quote_char cs))"
      using rest(1) by (cases rest) auto
    then show False using rest(2) \<open>rest \<noteq> []\<close> that sq by linarith
  qed
  then have "sint (unicode_quoted_ascii_length cs) < int buflen \<longrightarrow> ds = cs" using rest(1) by auto
  moreover have "take (length ds) cs = ds" using rest(1) by simp
  moreover have "quote_loop (convert_to_utf8 cs) ?n buflen 0 [] = Some (concat (map quote_char ds))"
    using quote_loop_write [of "convert_to_utf8 cs" "[]" cs "[0]" ?n buflen "[]"]
    by (simp add: convert_to_utf8_def flip: ds_def)
  moreover have "unicode_quote_loop buflen [] cs = concat (map quote_char ds)"
    by (simp add: unicode_quote_loop_eq flip: ds_def)
  moreover have "utf8_quoted_ascii_length (convert_to_utf8 cs) ?n = Some (unicode_quoted_ascii_length cs)"
    using quoted_length_loop_write [of "convert_to_utf8 cs" "[]" cs "[0]" ?n 0] ql
    by (simp add: convert_to_utf8_def utf8_quoted_ascii_length_def)
  ultimately show ?thesis
    using len sq unfolding n by (intro exI [of _ ds])
      (simp add: utf8_as_quoted_ascii_def unicode_as_quoted_ascii_def terminate_in_def)
qed

theorem quoted_ascii_correct_witness:
  "unicode_as_quoted_ascii [65, 233] 8 = Some (concat (map quote_char [65, 233]) @ [0])"
proof -
  have "sint (unicode_quoted_ascii_length [65, 233]) = 7" by (simp add: unicode_quoted_ascii_length_def printable_def)
  then show ?thesis using quoted_ascii_correct [of 8 "[65, 233]"] by auto
qed

text \<open>
  \<open>next_character\<close> joins the two encoded surrogates of a supplementary character into its code
  point.
\<close>

theorem next_character_supplementary:
  assumes "unat x < 0x400" and "unat y < 0x400"
  shows "utf8_next_character (utf8_write (0xD800 + x) @ utf8_write (0xDC00 + y) @ rest) =
    Some (0x10000 + push_bit 10 (ucast x) + ucast y, 6)"
proof -
  define a b where "a = 0xD800 OR x" and "b = 0xDC00 OR y"
  have w: "utf8_write (0xD800 + x) = [0xED, tail6 (drop_bit 6 a), tail6 a]"
    "utf8_write (0xDC00 + y) = [0xED, tail6 (drop_bit 6 b), tail6 b]"
    using surrogate_write [OF assms(1), of a] surrogate_write [OF assms(2), of b]
      surrogate_bits [OF assms(1)] surrogate_bits [OF assms(2)] by (simp_all add: a_def b_def)
  have m: "tail6 (drop_bit 6 a) AND 0xF0 = 0xA0" "tail6 (drop_bit 6 b) AND 0xF0 = 0xB0"
    using surrogate_mid(1) [OF assms(1)] surrogate_mid(2) [OF assms(2)] by (simp_all add: a_def b_def)
  have "push_bit 10 (push_bit 6 (ucast (take_bit 4 (tail6 (drop_bit 6 a)))) + ucast (take_bit 6 (tail6 a))) =
      push_bit 10 (ucast x :: jint)"
    using surrogate_mid(3) [OF assms(1), of a] by (simp only: a_def simp_thms)
  then have va: "push_bit 16 (ucast (take_bit 4 (tail6 (drop_bit 6 a)))) + push_bit 10 (ucast (take_bit 6 (tail6 a))) =
      push_bit 10 (ucast x :: jint)"
    by (simp add: push_bit_add)
  have vb: "push_bit 6 (ucast (take_bit 4 (tail6 (drop_bit 6 b)))) + ucast (take_bit 6 (tail6 b)) = (ucast y :: jint)"
    using surrogate_mid(3) [OF assms(2), of b] by (simp only: b_def simp_thms)
  have "is_supplementary_character (utf8_write (0xD800 + x) @ utf8_write (0xDC00 + y) @ rest) = Some True"
    unfolding w by (simp add: is_supplementary_character_def m tail6_continuation)
  moreover have "get_supplementary_character (utf8_write (0xD800 + x) @ utf8_write (0xDC00 + y) @ rest) =
      0x10000 + push_bit 10 (ucast x) + ucast y"
    unfolding w get_supplementary_character_def masks va [symmetric] vb [symmetric] by (simp add: add.assoc)
  ultimately show ?thesis by (simp add: utf8_next_character_def)
qed

theorem next_character_supplementary_witness:
  "utf8_next_character (utf8_write 0xD83D @ utf8_write 0xDE00) = Some (0x1F600, 6)"
  using next_character_supplementary [of 61 512 "[]"] by simp

text \<open>
  C28: \<open>from_quoted_ascii\<close> never returns for a non-empty string. Its first loop does not advance the
  pointer, so it only ends at a character that is not printable; the second loop does not advance
  over such a character either. Only the empty string is returned.
\<close>

theorem from_quoted_ascii_never_returns:
  "from_quoted_ascii str \<noteq> None \<longleftrightarrow> cstr_at str 0 = 0"
proof
  assume "cstr_at str 0 = 0"
  then show "from_quoted_ascii str \<noteq> None" by (simp add: from_quoted_ascii_def quoted_scan.simps [of str 0])
next
  assume ret: "from_quoted_ascii str \<noteq> None"
  then obtain p where p: "quoted_scan str 0 = Some p" by (cases "quoted_scan str 0") (auto simp: from_quoted_ascii_def)
  note q = quoted_scan_printable [OF p]
  show "cstr_at str 0 = 0"
  proof (rule ccontr)
    assume nz: "cstr_at str 0 \<noteq> 0"
    then obtain r where "unquote_round str 0 0 None = Some r"
      using ret p q by (cases "unquote_round str 0 0 None") (auto simp: from_quoted_ascii_def)
    then have "cstr_at str 0 = 92" using unquote_round_stuck nz by blast
    then show False using q nz by simp
  qed
qed

end
