(* ===== verification/TaskQueue.thy ===== *)
theory TaskQueue
  imports HS_Prelude
begin

text \<open>
  The work-stealing queue of the parallel collectors (\<open>src/src/share/vm/utilities/taskqueue.hpp\<close>):
  \<open>TaskQueueSuper\<close>, \<open>GenericTaskQueue\<close> and \<open>OverflowTaskQueue\<close>. \<open>uint\<close> and \<open>idx_t\<close> (on 64-bit machines) are
  \<open>32 word\<close>; the template parameter \<open>N\<close> is the first argument of the operations. An operation is given
  twice: as a program that performs one access to a shared variable per step, for the threads that
  interleave, and as a function, for a thread that runs alone. Memory is sequentially consistent,
  which is what the fences of the source establish.
\<close>

section \<open>The shared state\<close>

type_synonym uint = "32 word"

record age =
  age_top :: uint
  age_tag :: uint

record 'e task_queue =
  tq_bottom :: uint
  tq_age :: age
  tq_elems :: "'e list"

definition increment_index :: "uint \<Rightarrow> uint \<Rightarrow> uint" where
  "increment_index N ind = (ind + 1) AND (N - 1)"

definition decrement_index :: "uint \<Rightarrow> uint \<Rightarrow> uint" where
  "decrement_index N ind = (ind - 1) AND (N - 1)"

definition dirty_size :: "uint \<Rightarrow> uint \<Rightarrow> uint \<Rightarrow> uint" where
  "dirty_size N b tp = (b - tp) AND (N - 1)"

definition tq_size_of :: "uint \<Rightarrow> uint \<Rightarrow> uint \<Rightarrow> uint" where
  "tq_size_of N b tp = (let sz = dirty_size N b tp in if sz = N - 1 then 0 else sz)"

definition age_increment :: "uint \<Rightarrow> age \<Rightarrow> age" where
  "age_increment N a =
     (let a1 = a\<lparr>age_top := increment_index N (age_top a)\<rparr>
      in if age_top a1 = 0 then a1\<lparr>age_tag := age_tag a1 + 1\<rparr> else a1)"

text \<open>\<open>cmpxchg\<close>: the value found, and the queue afterwards.\<close>

definition age_cmpxchg :: "age \<Rightarrow> age \<Rightarrow> 'e task_queue \<Rightarrow> age \<times> 'e task_queue" where
  "age_cmpxchg new_age old_age q = (tq_age q, if tq_age q = old_age then q\<lparr>tq_age := new_age\<rparr> else q)"

definition new_task_queue :: "'e list \<Rightarrow> 'e task_queue" where
  "new_task_queue es = \<lparr>tq_bottom = 0, tq_age = \<lparr>age_top = 0, age_tag = 0\<rparr>, tq_elems = es\<rparr>"

definition tq_peek :: "'e task_queue \<Rightarrow> bool" where
  "tq_peek q \<longleftrightarrow> tq_bottom q \<noteq> age_top (tq_age q)"

definition tq_size :: "uint \<Rightarrow> 'e task_queue \<Rightarrow> uint" where
  "tq_size N q = tq_size_of N (tq_bottom q) (age_top (tq_age q))"

definition tq_is_empty :: "uint \<Rightarrow> 'e task_queue \<Rightarrow> bool" where
  "tq_is_empty N q \<longleftrightarrow> tq_size N q = 0"

definition tq_set_empty :: "'e task_queue \<Rightarrow> 'e task_queue" where
  "tq_set_empty q = q\<lparr>tq_bottom := 0, tq_age := \<lparr>age_top = 0, age_tag = 0\<rparr>\<rparr>"

definition max_elems :: "uint \<Rightarrow> uint" where
  "max_elems N = N - 2"

section \<open>Operations as steps\<close>

text \<open>Where the owner of the queue is; the arguments are its local variables.\<close>

datatype 'e owner_pc =
    OIdle
  | Push 'e
  | PushTop 'e uint
  | PushSlow 'e
  | PushStore 'e uint
  | PushBottom 'e uint
  | PopLocal
  | PopTop uint
  | PopBottom uint
  | PopLoad uint
  | PopTop2 uint 'e
  | PopAge uint 'e
  | PopSlow uint 'e age
  | PopSet age

datatype 'e thief_pc =
    TIdle
  | StealAge
  | StealBottom age
  | StealLoad age
  | StealCas age 'e

text \<open>What an operation returns, at the step in which it returns.\<close>

datatype 'e event =
    EPush 'e | EPushFull | EPop 'e | EPopEmpty | ESteal 'e | EStealFail

definition push_slow_step :: "uint \<Rightarrow> 'e \<Rightarrow> uint \<Rightarrow> 'e owner_pc \<times> 'e event option" where
  "push_slow_step N t dirty_n_elems =
     (if dirty_n_elems = N - 1 then (PushSlow t, None) else (OIdle, Some EPushFull))"

fun push_step :: "uint \<Rightarrow> 'e task_queue \<Rightarrow> 'e owner_pc \<Rightarrow> 'e task_queue \<times> 'e owner_pc \<times> 'e event option" where
  "push_step N q (Push t) = (q, PushTop t (tq_bottom q), None)"
| "push_step N q (PushTop t localBot) =
     (let dirty_n_elems = dirty_size N localBot (age_top (tq_age q))
      in if dirty_n_elems < max_elems N then (q, PushStore t localBot, None)
         else (q, push_slow_step N t dirty_n_elems))"
| "push_step N q (PushSlow t) = (q, PushStore t (tq_bottom q), None)"
| "push_step N q (PushStore t localBot) =
     (q\<lparr>tq_elems := (tq_elems q)[unat localBot := t]\<rparr>, PushBottom t localBot, None)"
| "push_step N q (PushBottom t localBot) =
     (q\<lparr>tq_bottom := increment_index N localBot\<rparr>, OIdle, Some (EPush t))"
| "push_step N q pc = (q, pc, None)"

fun pop_local_slow_step ::
    "uint \<Rightarrow> 'e task_queue \<Rightarrow> 'e owner_pc \<Rightarrow> 'e task_queue \<times> 'e owner_pc \<times> 'e event option" where
  "pop_local_slow_step N q (PopSlow localBot t oldAge) =
     (let newAge = \<lparr>age_top = localBot, age_tag = age_tag oldAge + 1\<rparr> in
      if localBot = age_top oldAge then
        let (tempAge, q1) = age_cmpxchg newAge oldAge q
        in if tempAge = oldAge then (q1, OIdle, Some (EPop t)) else (q1, PopSet newAge, None)
      else (q, PopSet newAge, None))"
| "pop_local_slow_step N q (PopSet newAge) = (q\<lparr>tq_age := newAge\<rparr>, OIdle, Some EPopEmpty)"
| "pop_local_slow_step N q pc = (q, pc, None)"

fun pop_local_step :: "uint \<Rightarrow> 'e task_queue \<Rightarrow> 'e owner_pc \<Rightarrow> 'e task_queue \<times> 'e owner_pc \<times> 'e event option" where
  "pop_local_step N q PopLocal = (q, PopTop (tq_bottom q), None)"
| "pop_local_step N q (PopTop localBot) =
     (let dirty_n_elems = dirty_size N localBot (age_top (tq_age q))
      in if dirty_n_elems = 0 then (q, OIdle, Some EPopEmpty)
         else (q, PopBottom (decrement_index N localBot), None))"
| "pop_local_step N q (PopBottom localBot) = (q\<lparr>tq_bottom := localBot\<rparr>, PopLoad localBot, None)"
| "pop_local_step N q (PopLoad localBot) = (q, PopTop2 localBot (tq_elems q ! unat localBot), None)"
| "pop_local_step N q (PopTop2 localBot t) =
     (if 0 < tq_size_of N localBot (age_top (tq_age q)) then (q, OIdle, Some (EPop t))
      else (q, PopAge localBot t, None))"
| "pop_local_step N q (PopAge localBot t) = (q, PopSlow localBot t (tq_age q), None)"
| "pop_local_step N q pc = pop_local_slow_step N q pc"

fun pop_global_step :: "uint \<Rightarrow> 'e task_queue \<Rightarrow> 'e thief_pc \<Rightarrow> 'e task_queue \<times> 'e thief_pc \<times> 'e event option" where
  "pop_global_step N q StealAge = (q, StealBottom (tq_age q), None)"
| "pop_global_step N q (StealBottom oldAge) =
     (if tq_size_of N (tq_bottom q) (age_top oldAge) = 0 then (q, TIdle, Some EStealFail)
      else (q, StealLoad oldAge, None))"
| "pop_global_step N q (StealLoad oldAge) = (q, StealCas oldAge (tq_elems q ! unat (age_top oldAge)), None)"
| "pop_global_step N q (StealCas oldAge t) =
     (let (resAge, q1) = age_cmpxchg (age_increment N oldAge) oldAge q
      in (q1, TIdle, Some (if resAge = oldAge then ESteal t else EStealFail)))"
| "pop_global_step N q TIdle = (q, TIdle, None)"

section \<open>Operations of a thread that runs alone\<close>

definition tq_push_slow :: "uint \<Rightarrow> 'e task_queue \<Rightarrow> 'e \<Rightarrow> uint \<Rightarrow> bool \<times> 'e task_queue" where
  "tq_push_slow N q t dirty_n_elems =
     (if dirty_n_elems = N - 1 then
        let localBot = tq_bottom q
        in (True, q\<lparr>tq_elems := (tq_elems q)[unat localBot := t], tq_bottom := increment_index N localBot\<rparr>)
      else (False, q))"

definition tq_push :: "uint \<Rightarrow> 'e task_queue \<Rightarrow> 'e \<Rightarrow> bool \<times> 'e task_queue" where
  "tq_push N q t =
     (let localBot = tq_bottom q;
          dirty_n_elems = dirty_size N localBot (age_top (tq_age q))
      in if dirty_n_elems < max_elems N then
           (True, q\<lparr>tq_elems := (tq_elems q)[unat localBot := t], tq_bottom := increment_index N localBot\<rparr>)
         else tq_push_slow N q t dirty_n_elems)"

definition tq_pop_local_slow :: "uint \<Rightarrow> 'e task_queue \<Rightarrow> uint \<Rightarrow> age \<Rightarrow> bool \<times> 'e task_queue" where
  "tq_pop_local_slow N q localBot oldAge =
     (let newAge = \<lparr>age_top = localBot, age_tag = age_tag oldAge + 1\<rparr>;
          (tempAge, q1) = (if localBot = age_top oldAge then age_cmpxchg newAge oldAge q else (newAge, q))
      in if localBot = age_top oldAge \<and> tempAge = oldAge then (True, q1)
         else (False, q1\<lparr>tq_age := newAge\<rparr>))"

definition tq_pop_local :: "uint \<Rightarrow> 'e task_queue \<Rightarrow> 'e option \<times> 'e task_queue" where
  "tq_pop_local N q =
     (let b = tq_bottom q in
      if dirty_size N b (age_top (tq_age q)) = 0 then (None, q)
      else
        let localBot = decrement_index N b;
            q1 = q\<lparr>tq_bottom := localBot\<rparr>;
            t = tq_elems q1 ! unat localBot
        in if 0 < tq_size_of N localBot (age_top (tq_age q1)) then (Some t, q1)
           else case tq_pop_local_slow N q1 localBot (tq_age q1) of
                  (True, q2) \<Rightarrow> (Some t, q2)
                | (False, q2) \<Rightarrow> (None, q2))"

definition tq_pop_global :: "uint \<Rightarrow> 'e task_queue \<Rightarrow> 'e option \<times> 'e task_queue" where
  "tq_pop_global N q =
     (let oldAge = tq_age q in
      if tq_size_of N (tq_bottom q) (age_top oldAge) = 0 then (None, q)
      else
        let t = tq_elems q ! unat (age_top oldAge);
            (resAge, q1) = age_cmpxchg (age_increment N oldAge) oldAge q
        in (if resAge = oldAge then Some t else None, q1))"

text \<open>\<open>oops_do\<close> applies the closure to the elements at these indices, in this order.\<close>

fun oops_do_loop :: "uint \<Rightarrow> nat \<Rightarrow> uint \<Rightarrow> uint list" where
  "oops_do_loop N 0 index = []"
| "oops_do_loop N (Suc n) index = decrement_index N index # oops_do_loop N n (decrement_index N index)"

definition tq_oops_do :: "uint \<Rightarrow> 'e task_queue \<Rightarrow> uint list" where
  "tq_oops_do N q = oops_do_loop N (unat (tq_size N q)) (tq_bottom q)"

section \<open>The overflow queue\<close>

record 'e overflow_queue =
  oq_queue :: "'e task_queue"
  oq_stack :: "'e list"

definition oq_push :: "uint \<Rightarrow> 'e overflow_queue \<Rightarrow> 'e \<Rightarrow> bool \<times> 'e overflow_queue" where
  "oq_push N q t =
     (case tq_push N (oq_queue q) t of
        (True, tq) \<Rightarrow> (True, q\<lparr>oq_queue := tq\<rparr>)
      | (False, tq) \<Rightarrow> (True, q\<lparr>oq_queue := tq, oq_stack := t # oq_stack q\<rparr>))"

definition oq_pop_overflow :: "'e overflow_queue \<Rightarrow> 'e option \<times> 'e overflow_queue" where
  "oq_pop_overflow q =
     (case oq_stack q of [] \<Rightarrow> (None, q) | t # ts \<Rightarrow> (Some t, q\<lparr>oq_stack := ts\<rparr>))"

definition oq_try_push_to_taskqueue :: "uint \<Rightarrow> 'e overflow_queue \<Rightarrow> 'e \<Rightarrow> bool \<times> 'e overflow_queue" where
  "oq_try_push_to_taskqueue N q t = (case tq_push N (oq_queue q) t of (b, tq) \<Rightarrow> (b, q\<lparr>oq_queue := tq\<rparr>))"

definition oq_is_empty :: "uint \<Rightarrow> 'e overflow_queue \<Rightarrow> bool" where
  "oq_is_empty N q \<longleftrightarrow> tq_is_empty N (oq_queue q) \<and> oq_stack q = []"

section \<open>Index arithmetic\<close>

definition queue_capacity :: "uint \<Rightarrow> bool" where
  "queue_capacity N \<longleftrightarrow> (\<exists>k. 2 \<le> k \<and> k < 32 \<and> N = 2 ^ k)"

lemma capacity_facts:
  assumes "queue_capacity N"
  obtains k where "2 \<le> k" "k < 32" "N = 2 ^ k" "unat N = 2 ^ k" "N - 1 = mask k" "4 \<le> unat N"
    "unat N dvd 2 ^ 32"
proof -
  obtain k where k: "2 \<le> k" "k < 32" "N = 2 ^ k" using assms by (auto simp: queue_capacity_def)
  have "unat (2 ^ k :: 32 word) = 2 ^ k mod 2 ^ 32" by (simp add: unat_of_nat [of "2 ^ k", where 'a = 32, simplified])
  moreover have "(2::nat) ^ k < 2 ^ 32" using k(2) by (intro power_strict_increasing) auto
  ultimately have "unat N = 2 ^ k" using k(3) by simp
  moreover have "(2::nat) ^ 2 \<le> 2 ^ k" using k(1) by (intro power_increasing) auto
  moreover have "(2::nat) ^ k dvd 2 ^ 32" using k(2) by (intro le_imp_power_dvd) simp
  ultimately show thesis using k by (intro that [of k]) (auto simp: mask_eq_exp_minus_1)
qed

lemma unat_masked:
  assumes "queue_capacity N"
  shows "unat (w AND (N - 1)) = unat w mod unat N"
proof -
  obtain k where k: "N - 1 = mask k" "unat N = 2 ^ k" using capacity_facts [OF assms] by metis
  then show ?thesis by (simp only: take_bit_eq_mask [symmetric] unsigned_take_bit_eq) (simp add: take_bit_eq_mod)
qed

lemma unat_increment_index:
  assumes "queue_capacity N"
  shows "unat (increment_index N i) = (unat i + 1) mod unat N"
proof -
  have d: "unat N dvd 2 ^ 32" using capacity_facts [OF assms] by metis
  have "unat (i + 1) mod unat N = (unat i + 1) mod 2 ^ 32 mod unat N" by (simp add: unat_word_ariths)
  then show ?thesis using d by (simp add: increment_index_def unat_masked [OF assms] mod_mod_cancel)
qed

lemma unat_dirty_size:
  assumes "queue_capacity N" and tp: "unat tp < unat N"
  shows "unat (dirty_size N b tp) = (unat b + (unat N - unat tp)) mod unat N"
proof -
  obtain c where c: "2 ^ 32 = unat N * c" using capacity_facts [OF assms(1)] by (metis dvdE)
  have "unat (b - tp) mod unat N = (unat b + (unat N - unat tp)) mod unat N"
  proof (cases "tp \<le> b")
    case True
    then have "unat (b - tp) + unat N = unat b + (unat N - unat tp)"
      using tp by (simp add: unat_sub word_le_nat_alt)
    then show ?thesis using mod_add_self2 [of "unat (b - tp)" "unat N"] by simp
  next
    case False
    have "c \<noteq> 0" using c by (cases c) auto
    then obtain d where "c = Suc d" by (cases c) auto
    then have "2 ^ 32 = unat N + unat N * d" using c by simp
    moreover have "unat (b - tp) = unat b + 2 ^ 32 - unat tp" using False unat_sub_if' [of b tp] by (simp add: word_le_nat_alt)
    ultimately have "unat (b - tp) = unat b + (unat N - unat tp) + unat N * d" using tp by linarith
    then show ?thesis by simp
  qed
  then show ?thesis by (simp add: dirty_size_def unat_masked [OF assms(1)])
qed

lemma dirty_size_shift:
  assumes N: "queue_capacity N" and tp: "unat tp < unat N" and b: "unat b = (unat tp + n) mod unat N"
    and n: "n < unat N"
  shows "unat (dirty_size N b tp) = n"
proof -
  have "unat (dirty_size N b tp) = ((unat tp + n) mod unat N + (unat N - unat tp)) mod unat N"
    using unat_dirty_size [OF N tp] b by simp
  also have "\<dots> = (unat tp + n + (unat N - unat tp)) mod unat N" by (simp add: mod_add_left_eq)
  also have "\<dots> = (n + unat N) mod unat N" using tp by (simp add: algebra_simps)
  finally show ?thesis using n by simp
qed

lemma decrement_increment:
  assumes N: "queue_capacity N" and i: "unat i < unat N"
  shows "unat (decrement_index N i) = (unat i + (unat N - 1)) mod unat N"
    and "increment_index N (decrement_index N i) = i"
proof -
  obtain k where k: "4 \<le> unat N" using capacity_facts [OF N] by metis
  have "decrement_index N i = dirty_size N i 1" by (simp add: decrement_index_def dirty_size_def)
  then show eq: "unat (decrement_index N i) = (unat i + (unat N - 1)) mod unat N"
    using unat_dirty_size [OF N, of 1 i] k by simp
  have "unat (increment_index N (decrement_index N i)) = (unat i + (unat N - 1) + 1) mod unat N"
    unfolding unat_increment_index [OF N] eq by (rule mod_add_left_eq)
  then show "increment_index N (decrement_index N i) = i" using i k by (simp add: word_unat_eq_iff)
qed

end
