(* ===== verification/TaskQueue_Correct.thy ===== *)
theory TaskQueue_Correct
  imports TaskQueue "HOL-Library.Multiset"
begin

text \<open>
  The work-stealing queue under concurrency: one owner and any number of thieves whose steps
  interleave. The events of every execution are a run of a sequential double-ended queue.
\<close>

section \<open>Executions\<close>

record 'e tq_config =
  cf_queue :: "'e task_queue"
  cf_owner :: "'e owner_pc"
  cf_thieves :: "nat \<Rightarrow> 'e thief_pc"

fun pushing :: "'e owner_pc \<Rightarrow> bool" where
  "pushing (Push t) = True"
| "pushing (PushTop t b) = True"
| "pushing (PushSlow t) = True"
| "pushing (PushStore t b) = True"
| "pushing (PushBottom t b) = True"
| "pushing pc = False"

definition owner_step :: "uint \<Rightarrow> 'e task_queue \<Rightarrow> 'e owner_pc \<Rightarrow> 'e task_queue \<times> 'e owner_pc \<times> 'e event option" where
  "owner_step N q pc = (if pushing pc then push_step N q pc else pop_local_step N q pc)"

inductive tq_step :: "uint \<Rightarrow> 'e tq_config \<Rightarrow> 'e event option \<Rightarrow> 'e tq_config \<Rightarrow> bool" for N where
  start_push: "cf_owner c = OIdle \<Longrightarrow> tq_step N c None (c\<lparr>cf_owner := Push t\<rparr>)"
| start_pop: "cf_owner c = OIdle \<Longrightarrow> tq_step N c None (c\<lparr>cf_owner := PopLocal\<rparr>)"
| own: "cf_owner c \<noteq> OIdle \<Longrightarrow> owner_step N (cf_queue c) (cf_owner c) = (q, pc, ev) \<Longrightarrow>
    tq_step N c ev (c\<lparr>cf_queue := q, cf_owner := pc\<rparr>)"
| start_steal: "cf_thieves c i = TIdle \<Longrightarrow> tq_step N c None (c\<lparr>cf_thieves := (cf_thieves c)(i := StealAge)\<rparr>)"
| steal: "cf_thieves c i \<noteq> TIdle \<Longrightarrow> pop_global_step N (cf_queue c) (cf_thieves c i) = (q, pc, ev) \<Longrightarrow>
    tq_step N c ev (c\<lparr>cf_queue := q, cf_thieves := (cf_thieves c)(i := pc)\<rparr>)"

abbreviation cf_age :: "'e tq_config \<Rightarrow> age" where
  "cf_age c \<equiv> tq_age (cf_queue c)"

text \<open>An execution: the events in order, and how often the tag of the age changed.\<close>

inductive tq_exec :: "uint \<Rightarrow> 'e tq_config \<Rightarrow> 'e event list \<Rightarrow> nat \<Rightarrow> 'e tq_config \<Rightarrow> bool" for N c where
  exec_start: "tq_exec N c [] 0 c"
| exec_step: "tq_exec N c evs n c1 \<Longrightarrow> tq_step N c1 ev c2 \<Longrightarrow>
    tq_exec N c (evs @ (case ev of None \<Rightarrow> [] | Some e \<Rightarrow> [e]))
      (if age_tag (cf_age c2) = age_tag (cf_age c1) then n else n + 1) c2"

definition initial_config :: "'e list \<Rightarrow> 'e tq_config" where
  "initial_config es = \<lparr>cf_queue = new_task_queue es, cf_owner = OIdle, cf_thieves = (\<lambda>_. TIdle)\<rparr>"

section \<open>The sequential specification\<close>

fun deque_step :: "nat \<Rightarrow> 'e list \<Rightarrow> 'e event \<Rightarrow> 'e list option" where
  "deque_step cap q (EPush t) = (if length q < cap then Some (q @ [t]) else None)"
| "deque_step cap q EPushFull = (if length q = cap then Some q else None)"
| "deque_step cap q (EPop t) = (if q \<noteq> [] \<and> last q = t then Some (butlast q) else None)"
| "deque_step cap q EPopEmpty = (if q = [] then Some q else None)"
| "deque_step cap q (ESteal t) = (if q \<noteq> [] \<and> hd q = t then Some (tl q) else None)"
| "deque_step cap q EStealFail = Some q"

fun deque_run :: "nat \<Rightarrow> 'e list \<Rightarrow> 'e event list \<Rightarrow> 'e list option" where
  "deque_run cap q [] = Some q"
| "deque_run cap q (e # es) = (case deque_step cap q e of None \<Rightarrow> None | Some q1 \<Rightarrow> deque_run cap q1 es)"

definition deque_opt :: "nat \<Rightarrow> 'e list \<Rightarrow> 'e event option \<Rightarrow> 'e list option" where
  "deque_opt cap q ev = (case ev of None \<Rightarrow> Some q | Some e \<Rightarrow> deque_step cap q e)"

lemma deque_opt_simps [simp]:
  "deque_opt cap q None = Some q" "deque_opt cap q (Some e) = deque_step cap q e"
  by (simp_all add: deque_opt_def)

lemma deque_run_append:
  "deque_run cap q (xs @ ys) = (case deque_run cap q xs of None \<Rightarrow> None | Some q1 \<Rightarrow> deque_run cap q1 ys)"
  by (induction xs arbitrary: q) (auto split: option.splits)

section \<open>The contents of the circular array\<close>

definition holds :: "nat \<Rightarrow> 'e list \<Rightarrow> nat \<Rightarrow> 'e list \<Rightarrow> bool" where
  "holds K es T q \<longleftrightarrow> (\<forall>i < length q. es ! ((T + i) mod K) = q ! i)"

lemma mod_add_inj:
  fixes i j :: nat
  assumes "(T + i) mod K = (T + j) mod K" and "i < K" and "j < K"
  shows "i = j"
proof -
  have less: False if "(T + i) mod K = (T + j) mod K" "i < j" "j < K" for i j :: nat
  proof -
    have "K dvd (T + j) - (T + i)" using that by (subst mod_eq_dvd_iff_nat [symmetric]) auto
    then show False using that by (auto dest: dvd_imp_le)
  qed
  show ?thesis using less [of i j] less [of j i] assms by (cases i j rule: linorder_cases) auto
qed

lemma holds_store:
  assumes "holds K es T q" and "length q < K" and "B = (T + length q) mod K"
  shows "holds K (es[B := t]) T q"
proof -
  have "B \<noteq> (T + i) mod K" if "i < length q" for i
    using mod_add_inj [of T i K "length q"] that assms(2,3) by auto
  then show ?thesis using assms(1) by (simp add: holds_def)
qed

lemma holds_append:
  assumes "holds K es T q" and "es ! ((T + length q) mod K) = t"
  shows "holds K es T (q @ [t])"
  using assms by (auto simp: holds_def nth_append less_Suc_eq)

lemma holds_tl:
  assumes "holds K es T q"
  shows "holds K es ((T + 1) mod K) (tl q)"
proof -
  have "es ! (((T + 1) mod K + i) mod K) = tl q ! i" if "i < length (tl q)" for i
    using assms that by (cases q) (auto simp: holds_def mod_add_left_eq)
  then show ?thesis by (simp add: holds_def)
qed

lemma holds_butlast: "holds K es T q \<Longrightarrow> holds K es T (butlast q)"
  by (auto simp: holds_def nth_butlast)

lemma holds_hd: "holds K es T q \<Longrightarrow> q \<noteq> [] \<Longrightarrow> T < K \<Longrightarrow> es ! T = hd q"
  by (cases q) (auto simp: holds_def dest: spec [of _ 0])

lemma holds_last:
  assumes "holds K es T q" and "q \<noteq> []" and "B < K" and "(T + length q) mod K = (B + 1) mod K"
  shows "es ! B = last q"
proof -
  obtain n where n: "length q = Suc n" using assms(2) by (cases q) auto
  have "((T + n) mod K + 1) mod K = (B + 1) mod K" using assms(4) n by (simp add: mod_simps)
  then have "(1 + (T + n) mod K) mod K = (1 + B) mod K" by (simp add: add.commute)
  moreover have "(T + n) mod K < K" using assms(3) by simp
  ultimately have "(T + n) mod K = B" using mod_add_inj [of 1] assms(3) by blast
  then show ?thesis using assms(1,2) n by (auto simp: holds_def last_conv_nth)
qed

section \<open>The invariant\<close>

text \<open>Between the decrement of \<open>_bottom\<close> and the end of \<open>pop_local\<close> the last element is behind \<open>_bottom\<close>.\<close>

definition settled :: "uint \<Rightarrow> 'e task_queue \<Rightarrow> 'e list \<Rightarrow> bool" where
  "settled N q xs \<longleftrightarrow> unat (tq_bottom q) = (unat (age_top (tq_age q)) + length xs) mod unat N"

definition popping :: "uint \<Rightarrow> 'e task_queue \<Rightarrow> 'e list \<Rightarrow> bool" where
  "popping N q xs \<longleftrightarrow>
     (unat (age_top (tq_age q)) + length xs) mod unat N = (unat (tq_bottom q) + 1) mod unat N"

definition queue_ok :: "uint \<Rightarrow> nat \<Rightarrow> 'e task_queue \<Rightarrow> 'e list \<Rightarrow> bool" where
  "queue_ok N n q xs \<longleftrightarrow> length (tq_elems q) = unat N \<and> unat (age_top (tq_age q)) < unat N \<and>
     unat (tq_bottom q) < unat N \<and> age_tag (tq_age q) = of_nat n \<and> length xs \<le> unat N - 2 \<and>
     holds (unat N) (tq_elems q) (unat (age_top (tq_age q))) xs"

fun owner_ok :: "uint \<Rightarrow> 'e task_queue \<Rightarrow> 'e list \<Rightarrow> 'e owner_pc \<Rightarrow> bool" where
  "owner_ok N q xs OIdle = settled N q xs"
| "owner_ok N q xs (Push t) = settled N q xs"
| "owner_ok N q xs (PushTop t b) = (settled N q xs \<and> b = tq_bottom q)"
| "owner_ok N q xs (PushSlow t) = False"
| "owner_ok N q xs (PushStore t b) = (settled N q xs \<and> b = tq_bottom q \<and> length xs < unat N - 2)"
| "owner_ok N q xs (PushBottom t b) = (settled N q xs \<and> b = tq_bottom q \<and> length xs < unat N - 2 \<and>
     tq_elems q ! unat b = t)"
| "owner_ok N q xs PopLocal = settled N q xs"
| "owner_ok N q xs (PopTop b) = (settled N q xs \<and> b = tq_bottom q)"
| "owner_ok N q xs (PopBottom b) = (settled N q xs \<and> b = decrement_index N (tq_bottom q))"
| "owner_ok N q xs (PopLoad b) = (popping N q xs \<and> b = tq_bottom q)"
| "owner_ok N q xs (PopTop2 b t) = (popping N q xs \<and> b = tq_bottom q \<and> (xs \<noteq> [] \<longrightarrow> t = last xs))"
| "owner_ok N q xs (PopAge b t) = (popping N q xs \<and> b = tq_bottom q \<and> (xs \<noteq> [] \<longrightarrow> xs = [t]))"
| "owner_ok N q xs (PopSlow b t old) = (popping N q xs \<and> b = tq_bottom q \<and>
     (if xs = [] then tq_age q = old \<or> tq_age q = age_increment N old \<and> age_top old = b
      else xs = [t] \<and> tq_age q = old))"
| "owner_ok N q xs (PopSet new) = (popping N q xs \<and> xs = [] \<and> age_top new = tq_bottom q \<and>
     (age_tag new = age_tag (tq_age q) + 1 \<or> age_tag new = age_tag (tq_age q) \<and> age_top (tq_age q) = 0))"

text \<open>An age read earlier; \<open>n\<close> counts the changes of the tag.\<close>

definition seen :: "nat \<Rightarrow> age \<Rightarrow> age \<Rightarrow> bool" where
  "seen n a old \<longleftrightarrow> (\<exists>e. age_tag old = of_nat e \<and> (e < n \<or> e = n \<and> unat (age_top old) \<le> unat (age_top a)))"

definition newer :: "nat \<Rightarrow> age \<Rightarrow> nat \<Rightarrow> age \<Rightarrow> bool" where
  "newer n a n' a' \<longleftrightarrow> n < n' \<or> n = n' \<and> unat (age_top a) < unat (age_top a')"

fun thief_ok :: "nat \<Rightarrow> 'e task_queue \<Rightarrow> 'e list \<Rightarrow> 'e thief_pc \<Rightarrow> bool" where
  "thief_ok n q xs TIdle = True"
| "thief_ok n q xs StealAge = True"
| "thief_ok n q xs (StealBottom old) = seen n (tq_age q) old"
| "thief_ok n q xs (StealLoad old) = (seen n (tq_age q) old \<and> (old = tq_age q \<longrightarrow> xs \<noteq> []))"
| "thief_ok n q xs (StealCas old t) = (seen n (tq_age q) old \<and> (old = tq_age q \<longrightarrow> xs \<noteq> [] \<and> t = hd xs))"

definition config_ok :: "uint \<Rightarrow> nat \<Rightarrow> 'e list \<Rightarrow> 'e tq_config \<Rightarrow> bool" where
  "config_ok N n xs c \<longleftrightarrow> queue_ok N n (cf_queue c) xs \<and> owner_ok N (cf_queue c) xs (cf_owner c) \<and>
     (\<forall>i. thief_ok n (cf_queue c) xs (cf_thieves c i))"

lemma seen_newer:
  assumes "seen n a old" and "newer n a n' a'" and "n' < 2 ^ 32" and "age_tag a' = of_nat n'"
  shows "seen n' a' old" and "old \<noteq> a'"
proof -
  obtain e where e: "age_tag old = of_nat e" "e < n \<or> e = n \<and> unat (age_top old) \<le> unat (age_top a)"
    using assms(1) by (auto simp: seen_def)
  then have lt: "e < n' \<or> e = n' \<and> unat (age_top old) < unat (age_top a')"
    using assms(2) by (auto simp: newer_def)
  then show "seen n' a' old" using e(1) by (auto simp: seen_def)
  show "old \<noteq> a'"
  proof
    assume eq: "old = a'"
    then have "unat (of_nat e :: uint) = unat (of_nat n' :: uint)" using e(1) assms(4) by simp
    then have "e = n'" using lt assms(3) by (auto simp: unat_of_nat)
    then show False using lt eq by simp
  qed
qed

lemma thief_ok_newer:
  assumes "thief_ok n q xs pc" and "newer n (tq_age q) n' (tq_age q')" and "n' < 2 ^ 32"
    and "age_tag (tq_age q') = of_nat n'"
  shows "thief_ok n' q' ys pc"
  using assms(1) seen_newer [OF _ assms(2-4)] by (cases pc) auto

lemma thief_ok_same:
  assumes "thief_ok n q xs pc" and "tq_age q' = tq_age q" and "xs \<noteq> [] \<longrightarrow> ys \<noteq> [] \<and> hd ys = hd xs"
  shows "thief_ok n q' ys pc"
  using assms by (cases pc) auto

section \<open>Sizes\<close>

lemma size_of_unat:
  assumes "queue_capacity N"
  shows "unat (tq_size_of N b tp) = (if unat (dirty_size N b tp) = unat N - 1 then 0 else unat (dirty_size N b tp))"
proof -
  have "4 \<le> unat N" using capacity_facts [OF assms] by metis
  then have "unat (N - 1) = unat N - 1" by (subst unat_sub) (auto simp: word_le_nat_alt)
  then show ?thesis by (auto simp: tq_size_of_def Let_def word_unat_eq_iff)
qed

lemma queue_okD:
  assumes "queue_ok N n q xs"
  shows "length (tq_elems q) = unat N" and "unat (age_top (tq_age q)) < unat N"
    and "unat (tq_bottom q) < unat N" and "age_tag (tq_age q) = of_nat n" and "length xs \<le> unat N - 2"
    and "holds (unat N) (tq_elems q) (unat (age_top (tq_age q))) xs"
  using assms unfolding queue_ok_def by blast+

lemma settled_size:
  assumes "queue_capacity N" and "queue_ok N n q xs" and "settled N q xs"
  shows "unat (dirty_size N (tq_bottom q) (age_top (tq_age q))) = length xs"
    and "unat (tq_size_of N (tq_bottom q) (age_top (tq_age q))) = length xs"
proof -
  note ok = queue_okD [OF assms(2)]
  have "4 \<le> unat N" using capacity_facts [OF assms(1)] by metis
  then have len: "length xs < unat N - 1" using ok(5) by linarith
  show d: "unat (dirty_size N (tq_bottom q) (age_top (tq_age q))) = length xs"
    using assms(3) len by (intro dirty_size_shift [OF assms(1) ok(2)]) (simp_all add: settled_def)
  show "unat (tq_size_of N (tq_bottom q) (age_top (tq_age q))) = length xs"
    unfolding size_of_unat [OF assms(1)] d using len by simp
qed

lemma popping_bottom:
  assumes "queue_capacity N" and "queue_ok N n q xs" and "popping N q xs"
    and m: "m = (if xs = [] then unat N - 1 else length xs - 1)"
  shows "unat (tq_bottom q) = (unat (age_top (tq_age q)) + m) mod unat N"
proof -
  note ok = queue_okD [OF assms(2)]
  have K: "4 \<le> unat N" using capacity_facts [OF assms(1)] by metis
  have "(unat (age_top (tq_age q)) + (m + 1)) mod unat N = (unat (age_top (tq_age q)) + length xs) mod unat N"
    using K ok(2) by (cases xs) (simp_all add: m)
  also have "\<dots> = (1 + unat (tq_bottom q)) mod unat N" using assms(3) by (simp add: popping_def)
  finally have "(1 + (unat (age_top (tq_age q)) + m) mod unat N) mod unat N = (1 + unat (tq_bottom q)) mod unat N"
    by (simp add: mod_simps)
  then show ?thesis using mod_add_inj [of 1 "(unat (age_top (tq_age q)) + m) mod unat N" "unat N"] K ok(3) by simp
qed

lemma popping_size:
  assumes "queue_capacity N" and "queue_ok N n q xs" and "popping N q xs"
  shows "unat (tq_size_of N (tq_bottom q) (age_top (tq_age q))) = length xs - 1"
proof -
  note ok = queue_okD [OF assms(2)]
  have K: "4 \<le> unat N" using capacity_facts [OF assms(1)] by metis
  define m where "m = (if xs = [] then unat N - 1 else length xs - 1)"
  have m: "m < unat N" using K ok(5) unfolding m_def by (cases xs) auto
  have d: "unat (dirty_size N (tq_bottom q) (age_top (tq_age q))) = m"
    using popping_bottom [OF assms m_def] by (intro dirty_size_shift [OF assms(1) ok(2) _ m])
  show ?thesis unfolding size_of_unat [OF assms(1)] d using K ok(5) unfolding m_def by (cases xs) auto
qed

section \<open>Every step keeps the invariant\<close>

text \<open>A step of a thread keeps what the others rely on: the shape of the invariant after a step.\<close>

definition step_ok :: "uint \<Rightarrow> nat \<Rightarrow> 'e list \<Rightarrow> 'e tq_config \<Rightarrow> 'e event option \<Rightarrow> 'e tq_config \<Rightarrow> bool" where
  "step_ok N n xs c ev c' \<longleftrightarrow>
     (\<exists>ys. deque_opt (unat N - 2) xs ev = Some ys \<and>
        config_ok N (if age_tag (cf_age c') = age_tag (cf_age c) then n else n + 1) ys c')"

lemma step_okI_same:
  assumes "config_ok N n xs c" and "deque_opt (unat N - 2) xs ev = Some ys"
    and "queue_ok N n q ys" and "owner_ok N q ys pc"
    and "tq_age q = cf_age c" and "xs \<noteq> [] \<longrightarrow> ys \<noteq> [] \<and> hd ys = hd xs"
  shows "step_ok N n xs c ev (c\<lparr>cf_queue := q, cf_owner := pc\<rparr>)"
  unfolding step_ok_def
  using assms thief_ok_same [of n "cf_queue c" xs _ q ys] by (intro exI [of _ ys]) (simp add: config_ok_def)

lemma step_okI_newer:
  assumes "config_ok N n xs c" and "deque_opt (unat N - 2) xs ev = Some ys"
    and n': "n' = (if age_tag (tq_age q) = age_tag (cf_age c) then n else n + 1)"
    and "queue_ok N n' q ys" and "owner_ok N q ys pc"
    and "newer n (cf_age c) n' (tq_age q)" and "n' < 2 ^ 32"
  shows "step_ok N n xs c ev (c\<lparr>cf_queue := q, cf_owner := pc\<rparr>)"
proof -
  have "thief_ok n' q ys (cf_thieves c i)" for i
    using assms(1) by (intro thief_ok_newer [where xs = xs, OF _ assms(6,7) queue_okD(4) [OF assms(4)]]) (simp add: config_ok_def)
  then have "config_ok N n' ys (c\<lparr>cf_queue := q, cf_owner := pc\<rparr>)"
    using assms(4,5) by (simp add: config_ok_def)
  then show ?thesis unfolding step_ok_def n' using assms(2) by (intro exI [of _ ys]) simp
qed

lemma push_step_ok:
  assumes N: "queue_capacity N" and ok: "config_ok N n xs c" and "pushing (cf_owner c)"
    and step: "push_step N (cf_queue c) (cf_owner c) = (q, pc, ev)"
  shows "step_ok N n xs c ev (c\<lparr>cf_queue := q, cf_owner := pc\<rparr>)"
proof -
  note qok = queue_okD [of N n "cf_queue c" xs]
  have q: "queue_ok N n (cf_queue c) xs" and o: "owner_ok N (cf_queue c) xs (cf_owner c)"
    using ok by (simp_all add: config_ok_def)
  obtain K: "4 \<le> unat N" using capacity_facts [OF N] by metis
  have maxe: "unat (max_elems N) = unat N - 2" unfolding max_elems_def
    using K by (subst unat_sub) (auto simp: word_le_nat_alt)
  have N1: "unat (N - 1) = unat N - 1" using K by (subst unat_sub) (auto simp: word_le_nat_alt)
  show ?thesis
  proof (cases "cf_owner c")
    case (Push t)
    then show ?thesis using step o q by (intro step_okI_same [OF ok, of _ xs]) auto
  next
    case (PushTop t b)
    then have s: "settled N (cf_queue c) xs" "b = tq_bottom (cf_queue c)" using o by auto
    note d = settled_size(1) [OF N q s(1)]
    have slow: "\<not> dirty_size N b (age_top (cf_age c)) = N - 1"
      unfolding s(2) word_unat_eq_iff N1 d using qok(5) [OF q] K by linarith
    show ?thesis
    proof (cases "length xs < unat N - 2")
      case True
      then have "dirty_size N b (age_top (cf_age c)) < max_elems N" by (simp add: s(2) word_less_nat_alt maxe d)
      then have "q = cf_queue c" "pc = PushStore t b" "ev = None" using step PushTop by auto
      then show ?thesis using s(1,2) True q by (intro step_okI_same [OF ok, of _ xs]) auto
    next
      case False
      then have "\<not> dirty_size N b (age_top (cf_age c)) < max_elems N" by (simp add: s(2) word_less_nat_alt maxe d)
      then have "q = cf_queue c" "pc = OIdle" "ev = Some EPushFull"
        using step slow by (simp_all add: PushTop Let_def push_slow_step_def)
      then show ?thesis using s(1) False q qok(5) [OF q] by (intro step_okI_same [OF ok, of _ xs]) auto
    qed
  next
    case (PushStore t b)
    then have s: "settled N (cf_queue c) xs" "b = tq_bottom (cf_queue c)" "length xs < unat N - 2" using o by auto
    have q': "q = cf_queue c\<lparr>tq_elems := (tq_elems (cf_queue c))[unat b := t]\<rparr>" "pc = PushBottom t b" "ev = None"
      using step PushStore by auto
    have "holds (unat N) ((tq_elems (cf_queue c))[unat b := t]) (unat (age_top (cf_age c))) xs"
      using s(1,3) by (intro holds_store [OF qok(6) [OF q]]) (simp_all add: settled_def s(2))
    then have "queue_ok N n q xs" using q by (simp add: queue_ok_def q')
    moreover have "owner_ok N q xs pc" using s qok(1,3) [OF q] by (simp add: q' settled_def)
    ultimately show ?thesis using q' by (intro step_okI_same [OF ok, of _ xs]) auto
  next
    case (PushBottom t b)
    then have s: "settled N (cf_queue c) xs" "b = tq_bottom (cf_queue c)" "length xs < unat N - 2"
      "tq_elems (cf_queue c) ! unat b = t" using o by auto
    have q': "q = cf_queue c\<lparr>tq_bottom := increment_index N b\<rparr>" "pc = OIdle" "ev = Some (EPush t)"
      using step PushBottom by auto
    have "holds (unat N) (tq_elems (cf_queue c)) (unat (age_top (cf_age c))) (xs @ [t])"
      using s(1,4) by (intro holds_append [OF qok(6) [OF q]]) (simp add: settled_def s(2))
    moreover have inc: "unat (increment_index N b) = (unat (age_top (cf_age c)) + length (xs @ [t])) mod unat N"
      unfolding unat_increment_index [OF N] s(2) s(1) [unfolded settled_def] by (simp add: mod_simps)
    ultimately have "queue_ok N n q (xs @ [t])" using q s(3) K by (simp add: queue_ok_def q')
    moreover have "owner_ok N q (xs @ [t]) pc" using inc by (simp add: q' settled_def)
    ultimately show ?thesis using q' s(3) by (intro step_okI_same [OF ok, of _ "xs @ [t]"]) auto
  qed (use assms(3) o in auto)
qed

lemma age_increment_newer:
  assumes N: "queue_capacity N" and tp: "unat (age_top a) < unat N"
  shows "unat (age_top (age_increment N a)) = (unat (age_top a) + 1) mod unat N"
    and "age_tag (age_increment N a) =
      (if age_top (age_increment N a) = 0 then age_tag a + 1 else age_tag a)"
    and "age_top (age_increment N a) \<noteq> 0 \<Longrightarrow> unat (age_top (age_increment N a)) = unat (age_top a) + 1"
proof -
  have tp': "age_top (age_increment N a) = increment_index N (age_top a)"
    by (simp add: age_increment_def Let_def)
  then show m: "unat (age_top (age_increment N a)) = (unat (age_top a) + 1) mod unat N"
    by (simp add: unat_increment_index [OF N])
  show "age_tag (age_increment N a) = (if age_top (age_increment N a) = 0 then age_tag a + 1 else age_tag a)"
    by (simp add: age_increment_def Let_def)
  assume "age_top (age_increment N a) \<noteq> 0"
  then have "(unat (age_top a) + 1) mod unat N \<noteq> 0" using m by (simp add: word_unat_eq_iff)
  then have "unat (age_top a) + 1 \<noteq> unat N" by (metis mod_self)
  then show "unat (age_top (age_increment N a)) = unat (age_top a) + 1" using tp m by simp
qed

lemma pop_slow_step_ok:
  assumes N: "queue_capacity N" and ok: "config_ok N n xs c" and pc: "cf_owner c = PopSlow b t old"
    and n: "n + 1 < 2 ^ 32"
    and step: "pop_local_slow_step N (cf_queue c) (cf_owner c) = (q, pc, ev)"
  shows "step_ok N n xs c ev (c\<lparr>cf_queue := q, cf_owner := pc\<rparr>)"
proof -
  have q: "queue_ok N n (cf_queue c) xs" and o: "owner_ok N (cf_queue c) xs (PopSlow b t old)"
    using ok pc by (simp_all add: config_ok_def del: owner_ok.simps)
  note qok = queue_okD [OF q]
  have s: "popping N (cf_queue c) xs" "b = tq_bottom (cf_queue c)"
    and cs: "if xs = [] then cf_age c = old \<or> cf_age c = age_increment N old \<and> age_top old = b
      else xs = [t] \<and> cf_age c = old" using o by auto
  obtain K: "4 \<le> unat N" using capacity_facts [OF N] by metis
  note bt = popping_bottom [OF N q s(1) refl, folded s(2)]
  have empty: "age_top (cf_age c) \<noteq> b" if "xs = []"
  proof
    assume "age_top (cf_age c) = b"
    then have "(unat b + 0) mod unat N = (unat b + (unat N - 1)) mod unat N" using bt that qok(2) by simp
    from mod_add_inj [OF this] K show False by simp
  qed
  define newAge where "newAge = \<lparr>age_top = b, age_tag = age_tag old + 1\<rparr>"
  show ?thesis
  proof (cases "b = age_top old \<and> cf_age c = old")
    case True
    then have xs: "xs = [t]" using cs empty by (cases "xs = []") auto
    have r: "q = cf_queue c\<lparr>tq_age := newAge\<rparr>" "pc = OIdle" "ev = Some (EPop t)"
      using step True by (simp_all add: assms(3) age_cmpxchg_def newAge_def Let_def)
    have tag: "age_tag newAge = of_nat (n + 1)" using True qok(4) by (simp add: newAge_def)
    then have "queue_ok N (n + 1) q []" using qok(1,3) s(2) by (simp add: queue_ok_def r(1) holds_def newAge_def)
    moreover have "age_tag newAge \<noteq> age_tag (cf_age c)" using True by (simp add: newAge_def)
    ultimately show ?thesis using r xs s(2) n qok(3)
      by (intro step_okI_newer [OF ok, where ys = "[]" and n' = "n + 1"])
        (simp_all add: settled_def newer_def newAge_def)
  next
    case False
    have xs: "xs = []" using False cs bt qok(2) by (cases "xs = []") (auto simp: word_unat_eq_iff)
    have r: "q = cf_queue c" "pc = PopSet newAge" "ev = None"
      using step False by (auto simp: assms(3) age_cmpxchg_def newAge_def Let_def split: if_split_asm)
    have "age_tag newAge = age_tag (cf_age c) + 1 \<or> age_tag newAge = age_tag (cf_age c) \<and> age_top (cf_age c) = 0"
      using cs xs by (auto simp: newAge_def age_increment_def Let_def split: if_splits)
    then have "owner_ok N q xs pc" using s xs by (simp add: r newAge_def)
    then show ?thesis using q r by (intro step_okI_same [OF ok, of _ xs]) auto
  qed
qed

lemma pop_set_step_ok:
  assumes N: "queue_capacity N" and ok: "config_ok N n xs c" and pc: "cf_owner c = PopSet new"
    and n: "n + 1 < 2 ^ 32"
    and step: "pop_local_slow_step N (cf_queue c) (cf_owner c) = (q, pc, ev)"
  shows "step_ok N n xs c ev (c\<lparr>cf_queue := q, cf_owner := pc\<rparr>)"
proof -
  have q: "queue_ok N n (cf_queue c) xs" and o: "owner_ok N (cf_queue c) xs (PopSet new)"
    using ok pc by (simp_all add: config_ok_def del: owner_ok.simps)
  note qok = queue_okD [OF q]
  have s: "popping N (cf_queue c) xs" "xs = []" "age_top new = tq_bottom (cf_queue c)"
    and tag: "age_tag new = age_tag (cf_age c) + 1 \<or> age_tag new = age_tag (cf_age c) \<and> age_top (cf_age c) = 0"
    using o by auto
  obtain K: "4 \<le> unat N" using capacity_facts [OF N] by metis
  have r: "q = cf_queue c\<lparr>tq_age := new\<rparr>" "pc = OIdle" "ev = Some EPopEmpty"
    using step by (simp_all add: assms(3))
  define n' where "n' = (if age_tag new = age_tag (cf_age c) then n else n + 1)"
  have tag': "age_tag new = of_nat n'" using tag qok(4) by (auto simp: n'_def)
  have "newer n (cf_age c) n' new"
  proof (cases "age_tag new = age_tag (cf_age c)")
    case True
    then have "age_top (cf_age c) = 0" using tag by auto
    then have "unat (tq_bottom (cf_queue c)) = unat N - 1"
      using popping_bottom [OF N q s(1) refl] s(2) K by simp
    then show ?thesis using True s(3) K \<open>age_top (cf_age c) = 0\<close> by (simp add: newer_def n'_def)
  qed (simp add: newer_def n'_def)
  moreover have "queue_ok N n' q []" using qok(1,3) s(3) tag' by (simp add: queue_ok_def r(1) holds_def)
  moreover have "owner_ok N q [] pc" using s(3) qok(3) by (simp add: r settled_def)
  ultimately show ?thesis using n r s(2) n'_def
    by (intro step_okI_newer [OF ok, where ys = "[]" and n' = n']) auto
qed

lemma pop_local_step_ok:
  assumes N: "queue_capacity N" and ok: "config_ok N n xs c" and np: "\<not> pushing (cf_owner c)" "cf_owner c \<noteq> OIdle"
    and n: "n + 1 < 2 ^ 32"
    and step: "pop_local_step N (cf_queue c) (cf_owner c) = (q, pc, ev)"
  shows "step_ok N n xs c ev (c\<lparr>cf_queue := q, cf_owner := pc\<rparr>)"
proof -
  have q: "queue_ok N n (cf_queue c) xs" and o: "owner_ok N (cf_queue c) xs (cf_owner c)"
    using ok by (simp_all add: config_ok_def)
  note qok = queue_okD [OF q]
  obtain K: "4 \<le> unat N" using capacity_facts [OF N] by metis
  show ?thesis
  proof (cases "cf_owner c")
    case PopLocal
    then show ?thesis using step o q by (intro step_okI_same [OF ok, of _ xs]) auto
  next
    case (PopTop b)
    then have s: "settled N (cf_queue c) xs" "b = tq_bottom (cf_queue c)" using o by auto
    have "dirty_size N b (age_top (cf_age c)) = 0 \<longleftrightarrow> xs = []"
      using settled_size(1) [OF N q s(1)] by (auto simp: s(2) word_unat_eq_iff)
    then show ?thesis using step s q
      by (intro step_okI_same [OF ok, of _ xs]) (auto simp: PopTop Let_def split: if_split_asm)
  next
    case (PopBottom b)
    then have s: "settled N (cf_queue c) xs" "b = decrement_index N (tq_bottom (cf_queue c))" using o by auto
    have r: "q = cf_queue c\<lparr>tq_bottom := b\<rparr>" "pc = PopLoad b" "ev = None" using step PopBottom by auto
    have inc: "(unat b + 1) mod unat N = unat (tq_bottom (cf_queue c))"
      using decrement_increment(2) [OF N qok(3)] unat_increment_index [OF N, of b] by (simp add: s(2))
    have "unat b < unat N" using decrement_increment(1) [OF N qok(3)] K by (simp add: s(2))
    then have "queue_ok N n q xs" using q by (simp add: queue_ok_def r(1))
    moreover have "owner_ok N q xs pc" using inc s(1) by (simp add: r popping_def settled_def)
    ultimately show ?thesis using r by (intro step_okI_same [OF ok, of _ xs]) auto
  next
    case (PopLoad b)
    then have s: "popping N (cf_queue c) xs" "b = tq_bottom (cf_queue c)" using o by auto
    have "xs \<noteq> [] \<longrightarrow> tq_elems (cf_queue c) ! unat b = last xs"
      using holds_last [OF qok(6) _ qok(3)] s(1) by (auto simp: popping_def s(2))
    then show ?thesis using step s q by (intro step_okI_same [OF ok, of _ xs]) (auto simp: PopLoad)
  next
    case (PopTop2 b t)
    then have s: "popping N (cf_queue c) xs" "b = tq_bottom (cf_queue c)" "xs \<noteq> [] \<longrightarrow> t = last xs" using o by auto
    have sz: "0 < tq_size_of N b (age_top (cf_age c)) \<longleftrightarrow> 1 < length xs"
      using popping_size [OF N q s(1)] by (auto simp: s(2) word_less_nat_alt)
    show ?thesis
    proof (cases "1 < length xs")
      case True
      then have xs: "xs \<noteq> []" "butlast xs \<noteq> []" by (cases xs rule: rev_cases; auto)+
      have r: "q = cf_queue c" "pc = OIdle" "ev = Some (EPop t)" using step sz True PopTop2 by auto
      have "hd (butlast xs) = hd xs" using xs by (cases xs) auto
      moreover have "settled N q (butlast xs)"
        using popping_bottom [OF N q s(1) refl] xs(1) by (simp add: r settled_def)
      moreover have "queue_ok N n q (butlast xs)" using q holds_butlast [OF qok(6)] by (auto simp: queue_ok_def r(1))
      ultimately show ?thesis using r xs s(3) by (intro step_okI_same [OF ok, of _ "butlast xs"]) auto
    next
      case False
      then have "xs \<noteq> [] \<longrightarrow> xs = [t]" using s(3) by (cases xs) auto
      then show ?thesis using step sz False s(1,2) q
        by (intro step_okI_same [OF ok, of _ xs]) (auto simp: PopTop2)
    qed
  next
    case (PopAge b t)
    then show ?thesis using step o q by (intro step_okI_same [OF ok, of _ xs]) (auto simp: PopAge)
  next
    case (PopSlow b t old)
    then show ?thesis using pop_slow_step_ok [OF N ok PopSlow n] step by simp
  next
    case (PopSet new)
    then show ?thesis using pop_set_step_ok [OF N ok PopSet n] step by simp
  qed (use np in auto)
qed

lemma steal_shift:
  assumes "queue_capacity N" and "queue_ok N n q xs" and "xs \<noteq> []"
  shows "(unat (age_top (age_increment N (tq_age q))) + length (tl xs)) mod unat N =
    (unat (age_top (tq_age q)) + length xs) mod unat N"
proof -
  obtain y ys where "xs = y # ys" using assms(3) by (cases xs) auto
  then show ?thesis
    using age_increment_newer(1) [OF assms(1) queue_okD(2) [OF assms(2)]] by (simp add: mod_simps)
qed

lemma owner_ok_steal:
  assumes N: "queue_capacity N" and q: "queue_ok N n q xs" and xs: "xs \<noteq> []" and o: "owner_ok N q xs pc"
  shows "owner_ok N (q\<lparr>tq_age := age_increment N (tq_age q)\<rparr>) (tl xs) pc"
proof -
  note sh = steal_shift [OF N q xs]
  have len: "length (tl xs) \<le> length xs" "length xs < m \<Longrightarrow> length (tl xs) < m" for m using xs by (cases xs; simp)+
  have s: "settled N (q\<lparr>tq_age := age_increment N (tq_age q)\<rparr>) (tl xs) = settled N q xs"
    unfolding settled_def using sh by simp
  have p: "popping N (q\<lparr>tq_age := age_increment N (tq_age q)\<rparr>) (tl xs) = popping N q xs"
    unfolding popping_def using sh by simp
  show ?thesis
  proof (cases pc)
    case (PopSlow b t old)
    then have "popping N q xs" "b = tq_bottom q" "xs = [t]" "tq_age q = old" using o xs by auto
    then have "unat b = unat (age_top old)"
      using popping_bottom [OF N q _ refl] queue_okD(2) [OF q] by simp
    then show ?thesis using o xs PopSlow p by (auto simp: word_unat_eq_iff)
  qed (use o xs s p len in \<open>auto simp: last_tl\<close>)
qed

lemma step_ok_thief:
  assumes "config_ok N n xs c" and "ev = None \<or> ev = Some EStealFail" and "thief_ok n (cf_queue c) xs pc"
  shows "step_ok N n xs c ev (c\<lparr>cf_queue := cf_queue c, cf_thieves := (cf_thieves c)(i := pc)\<rparr>)"
  using assms by (auto simp: step_ok_def config_ok_def)

lemma steal_cas_ok:
  assumes N: "queue_capacity N" and ok: "config_ok N n xs c" and xs: "xs \<noteq> []"
    and n: "n + 1 < 2 ^ 32" and q': "q' = cf_queue c\<lparr>tq_age := age_increment N (cf_age c)\<rparr>"
  shows "step_ok N n xs c (Some (ESteal (hd xs))) (c\<lparr>cf_queue := q', cf_thieves := (cf_thieves c)(i := TIdle)\<rparr>)"
proof -
  have q: "queue_ok N n (cf_queue c) xs" and o: "owner_ok N (cf_queue c) xs (cf_owner c)"
    using ok by (simp_all add: config_ok_def)
  note qok = queue_okD [OF q]
  note inc = age_increment_newer [OF N qok(2)]
  obtain K: "4 \<le> unat N" using capacity_facts [OF N] by metis
  define n' where "n' = (if age_tag (tq_age q') = age_tag (cf_age c) then n else n + 1)"
  have tag: "age_tag (age_increment N (cf_age c)) = of_nat n'" using inc(2) qok(4) by (simp add: n'_def q')
  have newer: "newer n (cf_age c) n' (tq_age q')" using inc(2,3) by (simp add: newer_def n'_def q')
  have "n' < 2 ^ 32" using n by (simp add: n'_def)
  then have thieves: "thief_ok n' q' (tl xs) (cf_thieves c j)" for j
    using ok tag by (intro thief_ok_newer [where xs = xs, OF _ newer]) (simp_all add: config_ok_def q')
  have "unat (age_top (age_increment N (cf_age c))) < unat N" using inc(1) K by simp
  then have "queue_ok N n' q' (tl xs)"
    using q tag holds_tl [OF qok(6)] inc(1) by (auto simp: queue_ok_def q')
  then have "config_ok N n' (tl xs) (c\<lparr>cf_queue := q', cf_thieves := (cf_thieves c)(i := TIdle)\<rparr>)"
    using owner_ok_steal [OF N q xs o] thieves by (simp add: config_ok_def q')
  then show ?thesis using xs by (simp add: step_ok_def n'_def)
qed

lemma pop_global_step_ok:
  assumes N: "queue_capacity N" and ok: "config_ok N n xs c" and "cf_thieves c i \<noteq> TIdle"
    and n: "n + 1 < 2 ^ 32"
    and step: "pop_global_step N (cf_queue c) (cf_thieves c i) = (q, pc, ev)"
  shows "step_ok N n xs c ev (c\<lparr>cf_queue := q, cf_thieves := (cf_thieves c)(i := pc)\<rparr>)"
proof -
  have q: "queue_ok N n (cf_queue c) xs" and o: "owner_ok N (cf_queue c) xs (cf_owner c)"
    and t: "thief_ok n (cf_queue c) xs (cf_thieves c i)"
    using ok by (simp_all add: config_ok_def)
  note qok = queue_okD [OF q]
  show ?thesis
  proof (cases "cf_thieves c i")
    case StealAge
    have "seen n (cf_age c) (cf_age c)" using qok(4) by (auto simp: seen_def)
    then show ?thesis using step step_ok_thief [OF ok, of ev pc i] by (auto simp: StealAge)
  next
    case (StealBottom old)
    have "settled N (cf_queue c) xs \<or> popping N (cf_queue c) xs" using o by (cases "cf_owner c") auto
    then have "unat (tq_size_of N (tq_bottom (cf_queue c)) (age_top (cf_age c))) \<le> length xs"
      using settled_size(2) [OF N q] popping_size [OF N q] by auto
    then have "old = cf_age c \<and> tq_size_of N (tq_bottom (cf_queue c)) (age_top old) \<noteq> 0 \<longrightarrow> xs \<noteq> []"
      by (auto simp: word_unat_eq_iff)
    then show ?thesis using step t step_ok_thief [OF ok, of ev pc i]
      by (auto simp: StealBottom split: if_split_asm)
  next
    case (StealLoad old)
    then show ?thesis using step t step_ok_thief [OF ok, of ev pc i] holds_hd [OF qok(6) _ qok(2)]
      by (auto simp: StealLoad)
  next
    case (StealCas old e)
    show ?thesis
    proof (cases "cf_age c = old")
      case True
      then have "q = cf_queue c\<lparr>tq_age := age_increment N (cf_age c)\<rparr>" "pc = TIdle" "ev = Some (ESteal (hd xs))" "xs \<noteq> []"
        using step t by (auto simp: StealCas age_cmpxchg_def)
      then show ?thesis using steal_cas_ok [OF N ok _ n] by simp
    next
      case False
      then show ?thesis using step t step_ok_thief [OF ok, of ev pc i] by (auto simp: StealCas age_cmpxchg_def)
    qed
  qed (use assms(3) in auto)
qed

section \<open>Linearizability\<close>

lemma tq_step_ok:
  assumes "queue_capacity N" and "config_ok N n xs c" and "tq_step N c ev c'" and "n + 1 < 2 ^ 32"
  shows "step_ok N n xs c ev c'"
  using assms(3)
proof cases
  case (own q pc)
  then show ?thesis
    using push_step_ok [OF assms(1,2)] pop_local_step_ok [OF assms(1,2)] assms(4)
    by (cases "pushing (cf_owner c)") (auto simp: owner_step_def)
next
  case (steal i q pc)
  then show ?thesis using pop_global_step_ok [OF assms(1,2)] assms(4) by blast
qed (use assms(2) in \<open>auto simp: step_ok_def config_ok_def\<close>)

lemma initial_config_ok:
  assumes "queue_capacity N" and "length es = unat N"
  shows "config_ok N 0 [] (initial_config es)"
proof -
  have "4 \<le> unat N" using capacity_facts [OF assms(1)] by metis
  then show ?thesis using assms(2)
    by (auto simp: config_ok_def initial_config_def new_task_queue_def queue_ok_def settled_def holds_def)
qed

lemma tq_exec_ok:
  assumes "queue_capacity N" and "length es = unat N" and "tq_exec N (initial_config es) evs n c" and "n + 1 < 2 ^ 32"
  shows "\<exists>xs. deque_run (unat N - 2) [] evs = Some xs \<and> config_ok N n xs c"
  using assms(3,4)
proof (induction rule: tq_exec.induct)
  case exec_start
  then show ?case using initial_config_ok [OF assms(1,2)] by simp
next
  case (exec_step evs n c1 ev c2)
  have n: "n + 1 < 2 ^ 32" using exec_step.prems by (simp split: if_split_asm)
  then obtain xs where xs: "deque_run (unat N - 2) [] evs = Some xs" "config_ok N n xs c1"
    using exec_step.IH by blast
  from tq_step_ok [OF assms(1) xs(2) exec_step.hyps(2) n] show ?case
    using xs(1) by (auto simp: step_ok_def deque_run_append deque_opt_def split: option.splits)
qed

section \<open>A thread that runs alone\<close>

text \<open>The interface of a bounded double-ended queue; \<open>rep q xs\<close> says that \<open>q\<close> stands for the list \<open>xs\<close>.\<close>

fun push_all :: "('q \<Rightarrow> 'e \<Rightarrow> bool \<times> 'q) \<Rightarrow> 'q \<Rightarrow> 'e list \<Rightarrow> bool list \<times> 'q" where
  "push_all push q [] = ([], q)"
| "push_all push q (t # ts) = (case push q t of (b, q1) \<Rightarrow> case push_all push q1 ts of (bs, q2) \<Rightarrow> (b # bs, q2))"

fun take_all :: "('q \<Rightarrow> 'e option \<times> 'q) \<Rightarrow> 'q \<Rightarrow> nat \<Rightarrow> 'e option list \<times> 'q" where
  "take_all tk q 0 = ([], q)"
| "take_all tk q (Suc n) = (case tk q of (r, q1) \<Rightarrow> case take_all tk q1 n of (rs, q2) \<Rightarrow> (r # rs, q2))"

locale bounded_deque =
  fixes rep :: "'q \<Rightarrow> 'e list \<Rightarrow> bool" and cap :: nat
    and push :: "'q \<Rightarrow> 'e \<Rightarrow> bool \<times> 'q" and pop steal :: "'q \<Rightarrow> 'e option \<times> 'q"
  assumes push_room: "rep q xs \<Longrightarrow> length xs < cap \<Longrightarrow> \<exists>q'. push q t = (True, q') \<and> rep q' (xs @ [t])"
    and push_full: "rep q xs \<Longrightarrow> cap \<le> length xs \<Longrightarrow> push q t = (False, q)"
    and pop_empty: "rep q [] \<Longrightarrow> \<exists>q'. pop q = (None, q') \<and> rep q' []"
    and pop_last: "rep q (xs @ [t]) \<Longrightarrow> \<exists>q'. pop q = (Some t, q') \<and> rep q' xs"
    and steal_empty: "rep q [] \<Longrightarrow> \<exists>q'. steal q = (None, q') \<and> rep q' []"
    and steal_first: "rep q (t # xs) \<Longrightarrow> \<exists>q'. steal q = (Some t, q') \<and> rep q' xs"
begin

lemma push_all_room:
  assumes "rep q xs" and "length xs + length ts \<le> cap"
  shows "\<exists>q'. push_all push q ts = (replicate (length ts) True, q') \<and> rep q' (xs @ ts)"
  using assms
proof (induction ts arbitrary: q xs)
  case (Cons t ts)
  obtain q1 where q1: "push q t = (True, q1)" "rep q1 (xs @ [t])" using push_room [of q xs t] Cons.prems by auto
  then show ?case using Cons.IH [of q1 "xs @ [t]"] Cons.prems(2) by auto
qed auto

lemma pop_all: "rep q xs \<Longrightarrow> \<exists>q'. take_all pop q (length xs) = (map Some (rev xs), q') \<and> rep q' []"
proof (induction xs arbitrary: q rule: rev_induct)
  case (snoc t xs)
  obtain q1 where q1: "pop q = (Some t, q1)" "rep q1 xs" using pop_last [OF snoc.prems] by auto
  then show ?case using snoc.IH [of q1] by auto
qed auto

lemma steal_all: "rep q xs \<Longrightarrow> \<exists>q'. take_all steal q (length xs) = (map Some xs, q') \<and> rep q' []"
proof (induction xs arbitrary: q)
  case (Cons t xs)
  obtain q1 where q1: "steal q = (Some t, q1)" "rep q1 xs" using steal_first [OF Cons.prems] by auto
  then show ?case using Cons.IH [of q1] by auto
qed auto

end

definition tq_rep :: "uint \<Rightarrow> 'e task_queue \<Rightarrow> 'e list \<Rightarrow> bool" where
  "tq_rep N q xs \<longleftrightarrow> queue_ok N (unat (age_tag (tq_age q))) q xs \<and> settled N q xs"

lemma tq_repI:
  assumes "length (tq_elems q) = unat N" "unat (age_top (tq_age q)) < unat N"
    "unat (tq_bottom q) < unat N" "length xs \<le> unat N - 2"
    "holds (unat N) (tq_elems q) (unat (age_top (tq_age q))) xs" "settled N q xs"
  shows "tq_rep N q xs"
  using assms by (simp add: tq_rep_def queue_ok_def)

lemma tq_push_room:
  assumes N: "queue_capacity N" and "tq_rep N q xs" and len: "length xs < unat N - 2"
  shows "\<exists>q'. tq_push N q t = (True, q') \<and> tq_rep N q' (xs @ [t])"
proof -
  have q: "queue_ok N (unat (age_tag (tq_age q))) q xs" and s: "settled N q xs" using assms(2) by (simp_all add: tq_rep_def)
  note qok = queue_okD [OF q]
  obtain K: "4 \<le> unat N" using capacity_facts [OF N] by metis
  have maxe: "unat (max_elems N) = unat N - 2" unfolding max_elems_def
    using K by (subst unat_sub) (auto simp: word_le_nat_alt)
  define q' where "q' = q\<lparr>tq_elems := (tq_elems q)[unat (tq_bottom q) := t], tq_bottom := increment_index N (tq_bottom q)\<rparr>"
  have "tq_push N q t = (True, q')"
    using settled_size(1) [OF N q s] len by (simp add: tq_push_def Let_def word_less_nat_alt maxe q'_def)
  moreover have B: "(unat (age_top (tq_age q)) + length xs) mod unat N = unat (tq_bottom q)"
    using s by (simp add: settled_def)
  moreover have "holds (unat N) (tq_elems q') (unat (age_top (tq_age q'))) (xs @ [t])"
    using holds_store [OF qok(6) _ B [symmetric], of t] len B qok(1,3) by (intro holds_append) (simp_all add: q'_def)
  moreover have "unat (increment_index N (tq_bottom q)) = (unat (age_top (tq_age q)) + length (xs @ [t])) mod unat N"
    unfolding unat_increment_index [OF N] B [symmetric] by (simp add: mod_simps)
  ultimately show ?thesis using qok(1,2) len K
    by (intro exI [of _ q'] conjI tq_repI) (simp_all add: q'_def settled_def)
qed

lemma tq_push_full:
  assumes N: "queue_capacity N" and "tq_rep N q xs" and len: "unat N - 2 \<le> length xs"
  shows "tq_push N q t = (False, q)"
proof -
  have q: "queue_ok N (unat (age_tag (tq_age q))) q xs" and s: "settled N q xs" using assms(2) by (simp_all add: tq_rep_def)
  obtain K: "4 \<le> unat N" using capacity_facts [OF N] by metis
  have "unat (max_elems N) = unat N - 2" "unat (N - 1) = unat N - 1" unfolding max_elems_def
    using K by (simp_all add: unat_sub word_le_nat_alt)
  then show ?thesis using settled_size(1) [OF N q s] len queue_okD(5) [OF q] K
    by (simp add: tq_push_def tq_push_slow_def Let_def word_less_nat_alt word_unat_eq_iff)
qed

lemma tq_pop_local_empty:
  assumes "queue_capacity N" and "tq_rep N q []"
  shows "tq_pop_local N q = (None, q)"
  using settled_size(1) [OF assms(1), of "unat (age_tag (tq_age q))" q "[]"] assms(2)
  by (simp add: tq_pop_local_def Let_def tq_rep_def unat_eq_zero)

lemma tq_pop_local_last:
  assumes N: "queue_capacity N" and "tq_rep N q (xs @ [t])"
  shows "\<exists>q'. tq_pop_local N q = (Some t, q') \<and> tq_rep N q' xs"
proof -
  have q: "queue_ok N (unat (age_tag (tq_age q))) q (xs @ [t])" and s: "settled N q (xs @ [t])"
    using assms(2) by (simp_all add: tq_rep_def)
  note qok = queue_okD [OF q]
  obtain K: "4 \<le> unat N" using capacity_facts [OF N] by metis
  define b where "b = decrement_index N (tq_bottom q)"
  define q1 where "q1 = q\<lparr>tq_bottom := b\<rparr>"
  have "(unat b + 1) mod unat N = unat (tq_bottom q)"
    using decrement_increment(2) [OF N qok(3)] unat_increment_index [OF N, of b] by (simp add: b_def)
  then have p: "popping N q1 (xs @ [t])" using s by (simp add: popping_def settled_def q1_def)
  have b: "unat b < unat N" using decrement_increment(1) [OF N qok(3)] K by (simp add: b_def)
  then have q1: "queue_ok N (unat (age_tag (tq_age q))) q1 (xs @ [t])" using q by (simp add: queue_ok_def q1_def)
  have B: "unat b = (unat (age_top (tq_age q)) + length xs) mod unat N"
    using popping_bottom [OF N q1 p refl] by (simp add: q1_def)
  have e: "tq_elems q ! unat b = t" using qok(6) B by (auto simp: holds_def dest!: spec [of _ "length xs"])
  have d: "dirty_size N (tq_bottom q) (age_top (tq_age q)) \<noteq> 0"
    using settled_size(1) [OF N q s] by (auto simp: word_unat_eq_iff)
  have sz: "0 < tq_size_of N b (age_top (tq_age q)) \<longleftrightarrow> xs \<noteq> []"
    using popping_size [OF N q1 p] by (auto simp: q1_def word_less_nat_alt)
  have xs: "length xs \<le> unat N - 2" "holds (unat N) (tq_elems q) (unat (age_top (tq_age q))) xs"
    using qok(5) holds_butlast [OF qok(6)] by auto
  show ?thesis
  proof (cases "xs = []")
    case False
    then have "tq_pop_local N q = (Some t, q1)" using d sz e by (simp add: tq_pop_local_def Let_def b_def q1_def)
    then show ?thesis using qok(1,2) b xs B by (auto simp: q1_def settled_def intro!: tq_repI)
  next
    case True
    then have bt: "b = age_top (tq_age q)" using B qok(2) by (simp add: word_unat_eq_iff)
    define q2 where "q2 = q1\<lparr>tq_age := \<lparr>age_top = b, age_tag = age_tag (tq_age q) + 1\<rparr>\<rparr>"
    have "tq_pop_local_slow N q1 b (tq_age q) = (True, q2)"
      by (simp add: tq_pop_local_slow_def age_cmpxchg_def bt q1_def q2_def Let_def)
    then have "tq_pop_local N q = (Some t, q2)"
      using d sz e True by (simp add: tq_pop_local_def Let_def b_def q1_def)
    then show ?thesis using qok(1) b True by (auto simp: q2_def q1_def settled_def holds_def intro!: tq_repI)
  qed
qed

lemma tq_pop_global_empty:
  assumes "queue_capacity N" and "tq_rep N q []"
  shows "tq_pop_global N q = (None, q)"
  using settled_size(2) [OF assms(1), of "unat (age_tag (tq_age q))" q "[]"] assms(2)
  by (simp add: tq_pop_global_def Let_def tq_rep_def unat_eq_zero)

lemma tq_pop_global_first:
  assumes N: "queue_capacity N" and "tq_rep N q (t # xs)"
  shows "\<exists>q'. tq_pop_global N q = (Some t, q') \<and> tq_rep N q' xs"
proof -
  have q: "queue_ok N (unat (age_tag (tq_age q))) q (t # xs)" and s: "settled N q (t # xs)"
    using assms(2) by (simp_all add: tq_rep_def)
  note qok = queue_okD [OF q]
  obtain K: "4 \<le> unat N" using capacity_facts [OF N] by metis
  define q' where "q' = q\<lparr>tq_age := age_increment N (tq_age q)\<rparr>"
  have "tq_size_of N (tq_bottom q) (age_top (tq_age q)) \<noteq> 0"
    using settled_size(2) [OF N q s] by (auto simp: word_unat_eq_iff)
  then have "tq_pop_global N q = (Some t, q')"
    using holds_hd [OF qok(6) _ qok(2)] by (simp add: tq_pop_global_def Let_def age_cmpxchg_def q'_def)
  moreover have inc: "unat (age_top (age_increment N (tq_age q))) = (unat (age_top (tq_age q)) + 1) mod unat N"
    by (rule age_increment_newer(1) [OF N qok(2)])
  moreover have "settled N q' xs" using steal_shift [OF N q] s by (simp add: settled_def q'_def)
  moreover have "unat (age_top (age_increment N (tq_age q))) < unat N" using inc K by simp
  ultimately show ?thesis using qok(1,3,5) holds_tl [OF qok(6)] by (auto simp: q'_def intro!: tq_repI)
qed

lemma tq_deque:
  assumes "queue_capacity N"
  shows "bounded_deque (tq_rep N) (unat N - 2) (tq_push N) (tq_pop_local N) (tq_pop_global N)"
  by (unfold_locales; simp add: tq_push_room [OF assms] tq_push_full [OF assms] tq_pop_local_empty [OF assms]
    tq_pop_local_last [OF assms] tq_pop_global_empty [OF assms] tq_pop_global_first [OF assms])

definition TASKQUEUE_SIZE :: uint where "TASKQUEUE_SIZE = push_bit 17 1"

lemma TASKQUEUE_SIZE_capacity: "queue_capacity TASKQUEUE_SIZE"
  by (auto simp: queue_capacity_def TASKQUEUE_SIZE_def push_bit_eq_mult intro!: exI [of _ 17])

interpretation task_queue:
  bounded_deque "tq_rep TASKQUEUE_SIZE" "unat TASKQUEUE_SIZE - 2" "tq_push TASKQUEUE_SIZE"
    "tq_pop_local TASKQUEUE_SIZE" "tq_pop_global TASKQUEUE_SIZE"
  by (rule tq_deque [OF TASKQUEUE_SIZE_capacity])

lemma new_task_queue_rep:
  assumes "queue_capacity N" and "length es = unat N"
  shows "tq_rep N (new_task_queue es) []"
proof -
  have "4 \<le> unat N" using capacity_facts [OF assms(1)] by metis
  then show ?thesis using assms(2) by (intro tq_repI) (auto simp: new_task_queue_def settled_def holds_def)
qed

lemma tq_size_rep: "queue_capacity N \<Longrightarrow> tq_rep N q xs \<Longrightarrow> unat (tq_size N q) = length xs"
  using settled_size(2) by (auto simp: tq_rep_def tq_size_def)

lemma oops_do_loop_rep:
  assumes "queue_capacity N" and "tq_rep N q xs"
  shows "map (\<lambda>i. tq_elems q ! unat i) (oops_do_loop N (length xs) (tq_bottom q)) = rev xs"
  using assms(2)
proof (induction xs arbitrary: q rule: rev_induct)
  case (snoc t xs)
  have q: "queue_ok N (unat (age_tag (tq_age q))) q (xs @ [t])" and s: "settled N q (xs @ [t])"
    using snoc.prems by (simp_all add: tq_rep_def)
  define q' where "q' = q\<lparr>tq_bottom := decrement_index N (tq_bottom q)\<rparr>"
  obtain K: "4 \<le> unat N" using capacity_facts [OF assms(1)] by metis
  note dec = decrement_increment [OF assms(1) queue_okD(3) [OF q]]
  have "(unat (decrement_index N (tq_bottom q)) + 1) mod unat N = unat (tq_bottom q)"
    using dec(2) unat_increment_index [OF assms(1), of "decrement_index N (tq_bottom q)"] by simp
  then have p: "popping N q' (xs @ [t])" using s by (simp add: popping_def settled_def q'_def)
  have "queue_ok N (unat (age_tag (tq_age q))) q' (xs @ [t])" using q dec(1) K by (simp add: queue_ok_def q'_def)
  note B = popping_bottom [OF assms(1) this p refl]
  have e: "tq_elems q ! unat (decrement_index N (tq_bottom q)) = t"
    using queue_okD(6) [OF q] B by (auto simp: q'_def holds_def dest!: spec [of _ "length xs"])
  have "tq_rep N q' xs" using queue_okD [OF q] dec(1) B K holds_butlast [OF queue_okD(6) [OF q]]
    by (intro tq_repI) (auto simp: q'_def settled_def)
  then have "map (\<lambda>i. tq_elems q' ! unat i) (oops_do_loop N (length xs) (tq_bottom q')) = rev xs" by (rule snoc.IH)
  then show ?case using e by (simp add: q'_def)
qed auto

end
