(* ===== verification/TaskQueue_Theorems.thy ===== *)
theory TaskQueue_Theorems
  imports TaskQueue_Correct
begin

text \<open>The properties of the work-stealing queue: linearizability, no task lost or taken twice, order, overflow.\<close>

section \<open>Tasks pushed and taken in an execution\<close>

fun pushed :: "'e event list \<Rightarrow> 'e list" where
  "pushed [] = []"
| "pushed (e # es) = (case e of EPush t \<Rightarrow> t # pushed es | _ \<Rightarrow> pushed es)"

fun taken :: "'e event list \<Rightarrow> 'e list" where
  "taken [] = []"
| "taken (e # es) = (case e of EPop t \<Rightarrow> t # taken es | ESteal t \<Rightarrow> t # taken es | _ \<Rightarrow> taken es)"

lemma deque_step_mset:
  assumes "deque_step cap q e = Some q'"
  shows "mset q + mset (pushed [e]) = mset (taken [e]) + mset q'"
proof (cases e)
  case (EPop t)
  then have "q = q' @ [t]" using assms by (auto split: if_split_asm)
  then show ?thesis using EPop by simp
next
  case (ESteal t)
  then have "q = t # q'" using assms by (cases q) (auto split: if_split_asm)
  then show ?thesis using ESteal by simp
qed (use assms in \<open>auto split: if_split_asm\<close>)

lemma deque_run_mset:
  "deque_run cap q es = Some q' \<Longrightarrow> mset q + mset (pushed es) = mset (taken es) + mset q'"
proof (induction es arbitrary: q)
  case (Cons e es)
  obtain q1 where q1: "deque_step cap q e = Some q1" "deque_run cap q1 es = Some q'"
    using Cons.prems by (auto split: option.splits)
  have split: "pushed (e # es) = pushed [e] @ pushed es" "taken (e # es) = taken [e] @ taken es"
    by (auto split: event.splits)
  have "mset q + mset (pushed (e # es)) = (mset q + mset (pushed [e])) + mset (pushed es)"
    unfolding split by (simp only: mset_append add.assoc)
  also have "\<dots> = mset (taken [e]) + (mset q1 + mset (pushed es))"
    unfolding deque_step_mset [OF q1(1)] by (simp only: add.assoc)
  also have "\<dots> = mset (taken (e # es)) + mset q'"
    unfolding Cons.IH [OF q1(2)] split by (simp only: mset_append add.assoc)
  finally show ?case .
qed simp

text \<open>An execution that pushes one task on a queue of four slots, for the examples below.\<close>

abbreviation four :: "nat list" where "four \<equiv> [0, 0, 0, 0]"

lemma capacity_four: "queue_capacity 4"
  by (auto simp: queue_capacity_def intro!: exI [of _ 2])

lemma push_exec:
  "\<exists>c. tq_exec 4 (initial_config four) [EPush 7] 0 c \<and> cf_owner c = OIdle"
proof -
  define c0 where "c0 = initial_config four"
  define c1 where "c1 = c0\<lparr>cf_owner := Push 7\<rparr>"
  define c2 where "c2 = c1\<lparr>cf_owner := PushTop 7 0\<rparr>"
  define c3 where "c3 = c2\<lparr>cf_owner := PushStore 7 0\<rparr>"
  define c4 where "c4 = c3\<lparr>cf_queue := (cf_queue c3)\<lparr>tq_elems := [7, 0, 0, 0]\<rparr>, cf_owner := PushBottom 7 0\<rparr>"
  define c5 where "c5 = c4\<lparr>cf_queue := (cf_queue c4)\<lparr>tq_bottom := 1\<rparr>, cf_owner := OIdle\<rparr>"
  note cs = c0_def c1_def c2_def c3_def c4_def c5_def initial_config_def new_task_queue_def
  have "tq_exec 4 c0 [] 0 c0" by (rule exec_start)
  moreover have "tq_step 4 c0 None c1" unfolding c1_def by (rule start_push) (simp add: cs)
  moreover have "tq_step 4 c1 None c2"
    using own [of c1 4 "cf_queue c1" "PushTop 7 0" None] by (simp add: cs owner_step_def)
  moreover have "tq_step 4 c2 None c3"
    using own [of c2 4 "cf_queue c2" "PushStore 7 0" None]
    by (simp add: cs owner_step_def Let_def dirty_size_def max_elems_def)
  moreover have "tq_step 4 c3 None c4"
    using own [of c3 4 "(cf_queue c3)\<lparr>tq_elems := [7, 0, 0, 0]\<rparr>" "PushBottom 7 0" None]
    by (simp add: cs owner_step_def)
  moreover have "tq_step 4 c4 (Some (EPush 7)) c5"
    using own [of c4 4 "(cf_queue c4)\<lparr>tq_bottom := 1\<rparr>" OIdle "Some (EPush 7)"]
    by (simp add: cs owner_step_def increment_index_def)
  ultimately have "tq_exec 4 c0 [EPush 7] 0 c5"
    using exec_step [of 4 c0 "[]" 0 c0 None c1] exec_step [of 4 c0 "[]" 0 c1 None c2]
      exec_step [of 4 c0 "[]" 0 c2 None c3] exec_step [of 4 c0 "[]" 0 c3 None c4]
      exec_step [of 4 c0 "[]" 0 c4 "Some (EPush 7)" c5] by (simp add: cs)
  then show ?thesis by (auto simp: cs)
qed

text \<open>
  C2: the queue is linearizable. However the steps of the owner (push, pop_local) and of any number of
  thieves (pop_global) interleave, the results of the operations, in the order in which they return,
  are a run of a sequential double-ended queue of capacity N - 2: push appends and fails only when
  the queue is full, pop_local takes the last task and fails only when there is none, a successful
  pop_global takes the first task. When the owner is idle the size of the queue is the number of its
  tasks. The tag has 32 bits; the execution changes it fewer than 2^32 - 1 times.
\<close>

theorem taskqueue_linearizable:
  assumes "queue_capacity N" and "length es = unat N"
    and "tq_exec N (initial_config es) evs n c" and "n + 1 < 2 ^ 32"
  shows "\<exists>xs. deque_run (unat N - 2) [] evs = Some xs \<and>
    (cf_owner c = OIdle \<longrightarrow> unat (tq_size N (cf_queue c)) = length xs)"
proof -
  obtain xs where xs: "deque_run (unat N - 2) [] evs = Some xs" "config_ok N n xs c"
    using tq_exec_ok [OF assms] by blast
  then show ?thesis using settled_size(2) [OF assms(1), of n "cf_queue c" xs]
    by (intro exI [of _ xs]) (auto simp: config_ok_def tq_size_def)
qed

theorem taskqueue_linearizable_witness:
  "\<exists>c. tq_exec 4 (initial_config four) [EPush 7] 0 c \<and> cf_owner c = OIdle \<and> unat (tq_size 4 (cf_queue c)) = 1"
proof -
  obtain c where c: "tq_exec 4 (initial_config four) [EPush 7] 0 c" "cf_owner c = OIdle" using push_exec by blast
  then have "unat (tq_size 4 (cf_queue c)) = 1"
    using taskqueue_linearizable [OF capacity_four _ c(1)] by auto
  then show ?thesis using c by blast
qed

text \<open>
  C17: in every such execution no task is taken more often than it was pushed, and once the owner is
  idle and the queue is empty every task has been taken exactly as often as it was pushed.
\<close>

theorem taskqueue_exactly_once:
  assumes "queue_capacity N" and "length es = unat N"
    and "tq_exec N (initial_config es) evs n c" and "n + 1 < 2 ^ 32"
  shows "mset (taken evs) \<subseteq># mset (pushed evs) \<and>
    (cf_owner c = OIdle \<and> tq_is_empty N (cf_queue c) \<longrightarrow> mset (taken evs) = mset (pushed evs))"
proof -
  obtain xs where xs: "deque_run (unat N - 2) [] evs = Some xs" "config_ok N n xs c"
    using tq_exec_ok [OF assms] by blast
  then have "mset (pushed evs) = mset (taken evs) + mset xs" using deque_run_mset [OF xs(1)] by simp
  moreover have "xs = []" if "cf_owner c = OIdle" "tq_is_empty N (cf_queue c)"
    using that xs(2) settled_size(2) [OF assms(1), of n "cf_queue c" xs]
    by (auto simp: config_ok_def tq_size_def tq_is_empty_def)
  ultimately show ?thesis by auto
qed

theorem taskqueue_exactly_once_witness:
  "\<exists>c. tq_exec 4 (initial_config four) [EPush 7] 0 c \<and> \<not> (cf_owner c = OIdle \<and> tq_is_empty 4 (cf_queue c))"
proof -
  obtain c where c: "tq_exec 4 (initial_config four) [EPush 7] 0 c" using push_exec by blast
  then show ?thesis using taskqueue_exactly_once [OF capacity_four _ c] by auto
qed

text \<open>
  C29: without interference, tasks pushed on a new queue until at most N - 2 are in it are all accepted;
  the owner takes them back in LIFO order, a thief in FIFO order, \<open>oops_do\<close> visits exactly them, from the
  last to the first, and a push on a queue of N - 2 tasks is refused and changes nothing.
\<close>

theorem taskqueue_order:
  assumes "queue_capacity N" and "length es = unat N" and "length ts \<le> unat N - 2"
  shows "\<exists>q. push_all (tq_push N) (new_task_queue es) ts = (replicate (length ts) True, q) \<and>
    fst (take_all (tq_pop_local N) q (length ts)) = map Some (rev ts) \<and>
    fst (take_all (tq_pop_global N) q (length ts)) = map Some ts \<and>
    map (\<lambda>i. tq_elems q ! unat i) (tq_oops_do N q) = rev ts \<and>
    (length ts = unat N - 2 \<longrightarrow> tq_push N q t = (False, q))"
proof -
  note d = tq_deque [OF assms(1)]
  obtain q where q: "push_all (tq_push N) (new_task_queue es) ts = (replicate (length ts) True, q)" "tq_rep N q ts"
    using bounded_deque.push_all_room [OF d new_task_queue_rep [OF assms(1,2)], of ts] assms(3) by auto
  have "map (\<lambda>i. tq_elems q ! unat i) (tq_oops_do N q) = rev ts"
    using oops_do_loop_rep [OF assms(1) q(2)] tq_size_rep [OF assms(1) q(2)] by (simp add: tq_oops_do_def)
  then show ?thesis
    using q bounded_deque.pop_all [OF d q(2)] bounded_deque.steal_all [OF d q(2)] bounded_deque.push_full [OF d q(2)]
    by (intro exI [of _ q]) auto
qed

theorem taskqueue_order_witness:
  "\<exists>q. push_all (tq_push 4) (new_task_queue four) [5, 6] = ([True, True], q) \<and> tq_push 4 q 7 = (False, q)"
  using taskqueue_order [OF capacity_four, of four "[5, 6]" 7] by auto

section \<open>The overflow queue\<close>

definition oq_rep :: "uint \<Rightarrow> 'e overflow_queue \<Rightarrow> 'e list \<Rightarrow> bool" where
  "oq_rep N q xs \<longleftrightarrow> tq_rep N (oq_queue q) xs"

text \<open>
  C30: a push on the overflow queue always succeeds and adds exactly the pushed task to the tasks of the
  queue and the overflow stack, going to the stack only when the queue is full; \<open>pop_overflow\<close> takes one
  task from the stack and leaves the queue alone; \<open>is_empty\<close> holds exactly when no task is left.
\<close>

theorem overflow_queue_keeps_tasks:
  assumes "queue_capacity N" and "oq_rep N q xs"
  shows "(\<exists>q' ys. oq_push N q t = (True, q') \<and> oq_rep N q' ys \<and>
      mset ys + mset (oq_stack q') = add_mset t (mset xs + mset (oq_stack q)) \<and>
      (oq_stack q' \<noteq> oq_stack q \<longleftrightarrow> length xs = unat N - 2)) \<and>
    (case oq_pop_overflow q of
       (None, q') \<Rightarrow> oq_stack q = [] \<and> q' = q
     | (Some e, q') \<Rightarrow> oq_stack q = e # oq_stack q' \<and> oq_queue q' = oq_queue q) \<and>
    (oq_is_empty N q \<longleftrightarrow> xs = [] \<and> oq_stack q = [])"
proof -
  have r: "tq_rep N (oq_queue q) xs" using assms(2) by (simp add: oq_rep_def)
  have len: "length xs \<le> unat N - 2" using r by (simp add: tq_rep_def queue_ok_def)
  have "\<exists>q' ys. oq_push N q t = (True, q') \<and> oq_rep N q' ys \<and>
      mset ys + mset (oq_stack q') = add_mset t (mset xs + mset (oq_stack q)) \<and>
      (oq_stack q' \<noteq> oq_stack q \<longleftrightarrow> length xs = unat N - 2)"
  proof (cases "length xs < unat N - 2")
    case True
    then show ?thesis using tq_push_room [OF assms(1) r True, of t]
      by (auto simp: oq_push_def oq_rep_def intro!: exI [of _ "xs @ [t]"])
  next
    case False
    then have "oq_push N q t = (True, q\<lparr>oq_stack := t # oq_stack q\<rparr>)"
      using tq_push_full [OF assms(1) r, of t] by (simp add: oq_push_def)
    then show ?thesis using r False len by (auto simp: oq_rep_def)
  qed
  moreover have "oq_is_empty N q \<longleftrightarrow> xs = [] \<and> oq_stack q = []"
    using tq_size_rep [OF assms(1) r] by (auto simp: oq_is_empty_def tq_is_empty_def word_unat_eq_iff)
  ultimately show ?thesis by (auto simp: oq_pop_overflow_def split: list.splits)
qed

theorem overflow_queue_keeps_tasks_witness:
  "\<exists>q'. oq_push 4 \<lparr>oq_queue = new_task_queue four, oq_stack = []\<rparr> 9 = (True, q')"
proof -
  have "oq_rep 4 \<lparr>oq_queue = new_task_queue four, oq_stack = []\<rparr> []"
    using new_task_queue_rep [OF capacity_four, of four] by (simp add: oq_rep_def)
  from overflow_queue_keeps_tasks [OF capacity_four this, of 9] show ?thesis by blast
qed

end
