(* ===== verification/TaskQueueSet.thy ===== *)
theory TaskQueueSet
  imports TaskQueue_Correct "HOL-Library.Signed_Division"
begin

text \<open>
  Stealing and termination of a gang of worker threads (\<open>src/src/share/vm/utilities/taskqueue.hpp\<close>,
  \<open>taskqueue.cpp\<close>): the random number generator, \<open>GenericTaskQueueSet\<close> (a list with one queue per
  thread) and \<open>ParallelTaskTerminator\<close>. The operations of the set are those of a thief that runs alone;
  the terminator is a step relation of all threads.
\<close>

section \<open>The random number generator\<close>

definition wrap_int :: "int \<Rightarrow> int" where
  "wrap_int x = (x + 2 ^ 31) mod 2 ^ 32 - 2 ^ 31"

definition randomParkAndMiller :: "int \<Rightarrow> int" where
  "randomParkAndMiller seed0 =
     (let a = 16807; m = 2147483647; q = 127773; r = 2836;
          hi = seed0 sdiv q;
          lo = seed0 smod q;
          test = wrap_int (wrap_int (a * lo) - wrap_int (r * hi))
      in if 0 < test then test else wrap_int (test + m))"

text \<open>\<open>randomParkAndMiller (seed) % _n\<close>: the seed is converted to \<open>uint\<close>.\<close>

definition random_index :: "nat \<Rightarrow> int \<Rightarrow> nat" where
  "random_index n seed = nat (seed mod 2 ^ 32) mod n"

section \<open>Stealing\<close>

text \<open>The loop that draws an index which is not in \<open>bad\<close>, starting from \<open>k\<close>.\<close>

partial_function (option) draw :: "nat \<Rightarrow> nat list \<Rightarrow> nat \<Rightarrow> int \<Rightarrow> (nat \<times> int) option" where
  "draw n bad k seed =
     (if k \<in> set bad then
        let seed' = randomParkAndMiller seed in draw n bad (random_index n seed') seed'
      else Some (k, seed))"

definition pop_from :: "uint \<Rightarrow> 'e task_queue list \<Rightarrow> nat \<Rightarrow> 'e option \<times> 'e task_queue list" where
  "pop_from N qs k = (case tq_pop_global N (qs ! k) of (r, q) \<Rightarrow> (r, qs[k := q]))"

definition steal_best_of_2 ::
    "uint \<Rightarrow> 'e task_queue list \<Rightarrow> nat \<Rightarrow> int \<Rightarrow> ('e option \<times> 'e task_queue list \<times> int) option" where
  "steal_best_of_2 N qs queue_num seed =
     (let n = length qs in
      if 2 < n then
        do { (k1, seed1) \<leftarrow> draw n [queue_num] queue_num seed;
             (k2, seed2) \<leftarrow> draw n [queue_num, k1] queue_num seed1;
             let sz1 = tq_size N (qs ! k1);
             let sz2 = tq_size N (qs ! k2);
             let (r, qs') = pop_from N qs (if sz2 > sz1 then k2 else k1);
             Some (r, qs', seed2) }
      else if n = 2 then
        let (r, qs') = pop_from N qs ((queue_num + 1) mod 2) in Some (r, qs', seed)
      else Some (None, qs, seed))"

fun steal_loop ::
    "uint \<Rightarrow> nat \<Rightarrow> 'e task_queue list \<Rightarrow> nat \<Rightarrow> int \<Rightarrow> ('e option \<times> 'e task_queue list \<times> int) option" where
  "steal_loop N 0 qs queue_num seed = Some (None, qs, seed)"
| "steal_loop N (Suc i) qs queue_num seed =
     do { (r, qs', seed') \<leftarrow> steal_best_of_2 N qs queue_num seed;
          if r \<noteq> None then Some (r, qs', seed') else steal_loop N i qs' queue_num seed' }"

definition tqs_steal ::
    "uint \<Rightarrow> 'e task_queue list \<Rightarrow> nat \<Rightarrow> int \<Rightarrow> ('e option \<times> 'e task_queue list \<times> int) option" where
  "tqs_steal N qs queue_num seed = steal_loop N (2 * length qs) qs queue_num seed"

fun tqs_peek :: "'e task_queue list \<Rightarrow> bool" where
  "tqs_peek [] = False"
| "tqs_peek (q # qs) = (if tq_peek q then True else tqs_peek qs)"

section \<open>The termination protocol\<close>

record spin_flags =
  WorkStealingHardSpins :: "64 word"
  WorkStealingSpinToYieldRatio :: "64 word"
  WorkStealingYieldsBeforeSleep :: "64 word"

record spin =
  yield_count :: uint
  hard_spin_count :: uint
  hard_spin_limit :: uint
  hard_spin_start :: uint

datatype spin_action = Yield | HardSpin uint | Sleep

definition spin_start :: "spin_flags \<Rightarrow> spin" where
  "spin_start f =
     (let lim = (if 0 < WorkStealingSpinToYieldRatio f
                 then max (ucast (drop_bit (unat (WorkStealingSpinToYieldRatio f)) (WorkStealingHardSpins f))) 1
                 else ucast (WorkStealingHardSpins f))
      in \<lparr>yield_count = 0, hard_spin_count = 0, hard_spin_limit = lim, hard_spin_start = lim\<rparr>)"

definition spin_once :: "spin_flags \<Rightarrow> spin \<Rightarrow> spin_action \<times> spin" where
  "spin_once f s =
     (if ucast (yield_count s) \<le> WorkStealingYieldsBeforeSleep f then
        let s1 = s\<lparr>yield_count := yield_count s + 1\<rparr> in
        if WorkStealingSpinToYieldRatio f < ucast (hard_spin_count s1) then
          (Yield, s1\<lparr>hard_spin_count := 0, hard_spin_limit := hard_spin_start s1\<rparr>)
        else
          let lim = min (2 * hard_spin_limit s1) (ucast (WorkStealingHardSpins f))
          in (HardSpin lim, s1\<lparr>hard_spin_limit := lim, hard_spin_count := hard_spin_count s1 + 1\<rparr>)
      else (Sleep, s\<lparr>yield_count := 0\<rparr>))"

text \<open>
  Where a thread is in \<open>offer_termination\<close>: before \<open>Atomic::inc\<close>, before the test of the counter, before
  the look for more work, between that look and \<open>Atomic::dec\<close>, and after the return. Other threads may
  step in between any two of these.
\<close>

datatype offer_pc = Offer | Check spin | Look spin | Withdraw | Returned bool

record terminator =
  tt_n_threads :: int
  tt_offered :: int

fun offer_termination_step :: "spin_flags \<Rightarrow> bool \<Rightarrow> bool \<Rightarrow> terminator \<Rightarrow> offer_pc \<Rightarrow> terminator \<times> offer_pc" where
  "offer_termination_step f peek should_exit tt Offer =
     (tt\<lparr>tt_offered := tt_offered tt + 1\<rparr>, Check (spin_start f))"
| "offer_termination_step f peek should_exit tt (Check s) =
     (if tt_offered tt = tt_n_threads tt then (tt, Returned True) else (tt, Look (snd (spin_once f s))))"
| "offer_termination_step f peek should_exit tt (Look s) =
     (if peek \<or> should_exit then (tt, Withdraw) else (tt, Check s))"
| "offer_termination_step f peek should_exit tt Withdraw =
     (tt\<lparr>tt_offered := tt_offered tt - 1\<rparr>, Returned False)"
| "offer_termination_step f peek should_exit tt (Returned r) = (tt, Returned r)"

definition reset_for_reuse :: "terminator \<Rightarrow> terminator" where
  "reset_for_reuse tt = (if tt_offered tt \<noteq> 0 then tt\<lparr>tt_offered := 0\<rparr> else tt)"

definition reset_for_reuse_n :: "terminator \<Rightarrow> int \<Rightarrow> terminator" where
  "reset_for_reuse_n tt n = (reset_for_reuse tt)\<lparr>tt_n_threads := n\<rparr>"

section \<open>The generator has full period\<close>

abbreviation pm_a :: nat where "pm_a \<equiv> 16807"
abbreviation pm_m :: nat where "pm_m \<equiv> 2147483647"

text \<open>
  Powers by repeated squaring, as a list of steps: whether to multiply by the base after squaring, the
  quotient by the modulus and the remainder. A step is checked by one multiplication.
\<close>

fun chain_ok :: "nat \<Rightarrow> nat \<Rightarrow> nat \<Rightarrow> (bool \<times> nat \<times> nat) list \<Rightarrow> bool" where
  "chain_ok m a r [] = True"
| "chain_ok m a r ((b, q, r') # cs) =
     (r * r * (if b then a else 1) = q * m + r' \<and> r' < m \<and> chain_ok m a r' cs)"

fun chain_exp :: "nat \<Rightarrow> (bool \<times> nat \<times> nat) list \<Rightarrow> nat" where
  "chain_exp n [] = n"
| "chain_exp n ((b, q, r) # cs) = chain_exp (2 * n + (if b then 1 else 0)) cs"

fun chain_end :: "nat \<Rightarrow> (bool \<times> nat \<times> nat) list \<Rightarrow> nat" where
  "chain_end r [] = r"
| "chain_end r ((b, q, r') # cs) = chain_end r' cs"

lemma chain_power:
  assumes "chain_ok m a r cs" and "a ^ n mod m = r"
  shows "a ^ chain_exp n cs mod m = chain_end r cs"
  using assms
proof (induction cs arbitrary: r n)
  case (Cons c cs)
  obtain b q r' where c: "c = (b, q, r')" by (cases c) auto
  have r: "r * r * (if b then a else 1) = q * m + r'" "r' < m" "chain_ok m a r' cs" using Cons.prems(1) c by auto
  define w where "w = (if b then a else 1)"
  have sq: "a ^ n * a ^ n mod m = r * r mod m" by (simp only: Cons.prems(2) [symmetric] mod_mult_eq)
  have "a ^ (2 * n + (if b then 1 else 0)) = a ^ n * a ^ n * w" by (simp add: power_add mult_2 w_def)
  then have "a ^ (2 * n + (if b then 1 else 0)) mod m = (a ^ n * a ^ n mod m) * w mod m"
    by (simp only: mod_mult_left_eq)
  also have "\<dots> = r * r * w mod m" by (simp only: sq mod_mult_left_eq)
  also have "\<dots> = r'" unfolding w_def r(1) using r(2) by simp
  finally show ?case using Cons.IH [OF r(3)] c by simp
qed simp

definition pm_chain_2 :: "(bool \<times> nat \<times> nat) list" where
  "pm_chain_2 = [
    (True, 2210, 1622650073), (True, 20606777505697, 101027544), (True, 79880343795, 114807987),
   (True, 103158386138, 1954899097), (True, 29909491305262, 1108728549), (True, 9620791340602, 2014119113),
   (True, 31749042787156, 685428651), (True, 3676925603767, 268317158), (True, 563452389790, 754609818),
   (True, 4456616228906, 994734886), (True, 7744172764823, 1083014291), (True, 9179704675745, 1655627552),
   (True, 21452881054676, 1181132756), (True, 10918368864620, 1079224412),
   (True, 9115570529787, 816826219), (True, 5221793265592, 817222503), (True, 5226861210374, 103492285),
   (True, 83825525814, 596864917), (True, 2788126276123, 1872592842), (True, 27443977374205, 2031328313),
   (True, 32293906114335, 1799481238), (True, 25342822424033, 1043219357),
   (True, 8517489528969, 566127400), (True, 2508353171430, 1470714790), (True, 16928452310198, 797756594),
   (True, 4980823357127, 1098008483), (True, 9435647880038, 706645637), (True, 3908082277510, 1877990613),
   (True, 27602420581071, 2147483646)]"

definition pm_chain_3 :: "(bool \<times> nat \<times> nat) list" where
  "pm_chain_3 = [
    (False, 0, 282475249), (True, 624483740091, 1144108930), (False, 609543753, 2007237709),
   (True, 31532466950512, 896544303), (False, 374294671, 2110010672), (True, 34844131047893, 1864546517),
   (False, 1618887165, 881140534), (True, 6076460717996, 1442645480), (False, 969146369, 1987502657),
   (True, 30915464103769, 237955200), (False, 26366988, 1656394764), (True, 21472768041046, 80227910),
   (False, 2997237, 99284761), (True, 77148151400, 1283266847), (False, 766838808, 544348633),
   (True, 2319074005699, 1029451770), (False, 493494303, 1175969859), (True, 10823126035944, 123152199),
   (False, 7062435, 448035156), (True, 1571030154395, 600776587), (False, 168072296, 313625057),
   (True, 769806973943, 154745822), (False, 11150850, 1401305734), (True, 15368310730002, 544774798),
   (False, 138198761, 1252779437), (True, 12283144679406, 1568664301), (False, 1145856310, 1695056031),
   (True, 22486841146545, 634005912), (False, 187178839, 634005911)]"

definition pm_chain_7 :: "(bool \<times> nat \<times> nat) list" where
  "pm_chain_7 = [
    (False, 0, 282475249), (False, 37156169, 984943658), (True, 7592470461575, 1458777923),
   (False, 990942600, 16531729), (False, 127264, 704877633), (True, 3888550956404, 595028635),
   (False, 164871605, 877819790), (False, 358823493, 338725129), (True, 897956230937, 2069048048),
   (False, 1993477263, 1973792143), (False, 1814149052, 1377979805), (True, 14860931772486, 184149733),
   (False, 15791097, 1588280530), (False, 1174693481, 1292075693), (True, 13065807265442, 634967969),
   (False, 187747330, 713072451), (False, 236775875, 808531276), (True, 5116276216053, 196288741),
   (False, 17941589, 864669998), (False, 348153619, 1994951511), (True, 31147631153798, 1617773341),
   (False, 1218724336, 1089368889), (False, 552611694, 315126303), (True, 777194365783, 1491475262),
   (False, 1035862815, 1410082339), (False, 925889333, 1210473470), (True, 11467556420741, 394883873),
   (False, 72612088, 1600955193)]"

definition pm_chain_11 :: "(bool \<times> nat \<times> nat) list" where
  "pm_chain_11 = [
    (False, 0, 282475249), (True, 624483740091, 1144108930), (True, 10244601872380, 823564440),
   (True, 5308300588653, 1264817709), (False, 744948088, 156091745), (True, 190686613610, 753799505),
   (False, 264595120, 462242385), (False, 99496926, 978719103), (False, 446052794, 1763464891),
   (True, 24338509034997, 702899908), (False, 230068471, 1503614727), (True, 17694303659837, 130893364),
   (True, 134089753805, 1854261437), (True, 26909291760328, 2117257767), (False, 2087457316, 2001314837),
   (True, 31346652167412, 1652403619), (False, 1271459144, 515678993), (False, 123830895, 1815619984),
   (False, 1535041224, 289296328), (True, 655007355770, 938103098), (False, 409799359, 473615331),
   (True, 1755544485368, 1921524631), (True, 28896965959070, 1008979637),
   (True, 7967556239905, 1317948048), (False, 808847629, 1034787341), (True, 8380357563795, 1819912402),
   (False, 1542307973, 298192073)]"

definition pm_chain_31 :: "(bool \<times> nat \<times> nat) list" where
  "pm_chain_31 = [
    (False, 0, 282475249), (False, 37156169, 984943658), (False, 451744538, 1457850878),
   (False, 989683523, 1137522503), (True, 10126988769233, 563613512), (False, 147922053, 1060806853),
   (False, 524013852, 1400285365), (False, 913068235, 175530180), (False, 14347417, 706642601),
   (True, 3908048696571, 108218770), (False, 5453500, 111398400), (False, 5778671, 2048666863),
   (False, 1954397148, 480822013), (False, 107656143, 1593778648), (True, 19879998311735, 1117044983),
   (False, 581047262, 766345775), (False, 273476283, 1275506524), (False, 757592214, 2107038118),
   (False, 2067354336, 1590438532), (True, 19796759750343, 389467447), (False, 70633782, 501934855),
   (False, 117318052, 495975381), (False, 114548755, 411385676), (False, 78807666, 424739074),
   (True, 1411902692579, 2147483519), (False, 2147483391, 16384)]"

definition pm_chain_151 :: "(bool \<times> nat \<times> nat) list" where
  "pm_chain_151 = [
    (True, 2210, 1622650073), (False, 1226083031, 470211272), (True, 1730399601868, 1784484492),
   (True, 24922172108667, 197493099), (False, 18162431, 590357944), (False, 162293437, 70982397),
   (True, 39433166865, 1719533808), (False, 1376865672, 2119315080), (False, 2091516000, 876554400),
   (False, 357789740, 444978220), (False, 92203550, 454021550), (False, 95989353, 2010792109),
   (False, 1882801254, 2100574543), (False, 2054690109, 1969511326), (True, 30358289627764, 63809424),
   (True, 31866178411, 489374315), (False, 111519927, 634585456), (True, 3151668734056, 1344438120),
   (True, 14146270898221, 1422968813), (False, 942889714, 1031122011), (False, 495096948, 2059074765),
   (True, 33182153418400, 597511775), (False, 166250542, 1013763951)]"

definition pm_chain_331 :: "(bool \<times> nat \<times> nat) list" where
  "pm_chain_331 = [
    (True, 2210, 1622650073), (False, 1226083031, 470211272), (False, 102957077, 1115438165),
   (False, 579376844, 1998097157), (True, 31245935967667, 585640194), (False, 159709917, 1807130337),
   (True, 25558731047603, 2043046042), (True, 32667555879834, 1255820950),
   (True, 12342859412665, 662128245), (True, 3431188387615, 182048270), (True, 259378185083, 1868832599),
   (True, 27333870776996, 1094535995), (True, 9376061157219, 1508402482),
   (True, 17807166169194, 1349594950), (False, 848158509, 924100177), (False, 397656642, 1315497955),
   (True, 13543804905873, 880535344), (True, 6068116645175, 150479927), (True, 177221936759, 2134324430),
   (False, 2121245849, 500693597), (True, 1962024426180, 642181603), (False, 192037416, 759513457)]"

lemma chain_value:
  assumes "chain_ok pm_m pm_a pm_a cs" and "chain_exp 1 cs = e" and "chain_end pm_a cs = v"
  shows "pm_a ^ e mod pm_m = v"
  using chain_power [OF assms(1), of 1] assms(2,3) by simp

lemma pm_powers:
  "pm_a ^ ((pm_m - 1) div 2) mod pm_m = 2147483646"
  "pm_a ^ ((pm_m - 1) div 3) mod pm_m = 634005911"
  "pm_a ^ ((pm_m - 1) div 7) mod pm_m = 1600955193"
  "pm_a ^ ((pm_m - 1) div 11) mod pm_m = 298192073"
  "pm_a ^ ((pm_m - 1) div 31) mod pm_m = 16384"
  "pm_a ^ ((pm_m - 1) div 151) mod pm_m = 1013763951"
  "pm_a ^ ((pm_m - 1) div 331) mod pm_m = 759513457"
  subgoal by (rule chain_value [of pm_chain_2]) (simp_all add: pm_chain_2_def)
  subgoal by (rule chain_value [of pm_chain_3]) (simp_all add: pm_chain_3_def)
  subgoal by (rule chain_value [of pm_chain_7]) (simp_all add: pm_chain_7_def)
  subgoal by (rule chain_value [of pm_chain_11]) (simp_all add: pm_chain_11_def)
  subgoal by (rule chain_value [of pm_chain_31]) (simp_all add: pm_chain_31_def)
  subgoal by (rule chain_value [of pm_chain_151]) (simp_all add: pm_chain_151_def)
  subgoal by (rule chain_value [of pm_chain_331]) (simp_all add: pm_chain_331_def)
  done

lemma pm_fermat: "pm_a ^ (pm_m - 1) mod pm_m = 1"
proof -
  have sq: "a ^ (h + h) mod m = (a ^ h mod m) * (a ^ h mod m) mod m" for a h m :: nat
    by (simp only: power_add mod_mult_eq)
  have e: "(pm_m - 1) div 2 + (pm_m - 1) div 2 = pm_m - 1" by simp
  have "2147483646 * 2147483646 mod pm_m = 1" by simp
  then show ?thesis using sq [of pm_a "(pm_m - 1) div 2" pm_m] unfolding e pm_powers(1) by (rule trans [rotated])
qed

lemma pm_not_one:
  "pm_a ^ ((pm_m - 1) div 2) mod pm_m \<noteq> 1"
  "pm_a ^ ((pm_m - 1) div 3) mod pm_m \<noteq> 1"
  "pm_a ^ ((pm_m - 1) div 7) mod pm_m \<noteq> 1"
  "pm_a ^ ((pm_m - 1) div 11) mod pm_m \<noteq> 1"
  "pm_a ^ ((pm_m - 1) div 31) mod pm_m \<noteq> 1"
  "pm_a ^ ((pm_m - 1) div 151) mod pm_m \<noteq> 1"
  "pm_a ^ ((pm_m - 1) div 331) mod pm_m \<noteq> 1"
  unfolding pm_powers by simp_all

text \<open>The numbers below 400 whose only divisors are 1 and themselves, decided by trial division.\<close>

definition indivisible :: "nat \<Rightarrow> bool" where
  "indivisible p \<longleftrightarrow> 0 < p \<and> p < 400 \<and> list_all (\<lambda>d. p \<le> d \<or> p mod d \<noteq> 0) [2..<20]"

lemma indivisible_dvd:
  assumes "indivisible p" and "g dvd p"
  shows "g = 1 \<or> g = p"
proof (rule ccontr)
  assume ne: "\<not> ?thesis"
  obtain h where h: "p = g * h" using assms(2) by blast
  have ind: "0 < p" "p < 400" "\<forall>d \<in> set [2..<20]. p \<le> d \<or> p mod d \<noteq> 0"
    using assms(1) unfolding indivisible_def list_all_iff by blast+
  have small: False if "2 \<le> d" "d < 20" "d < p" "d dvd p" for d
  proof -
    have "d \<in> set [2..<20]" using that(1,2) by (simp only: set_upt atLeastLessThan_iff)
    then show False using ind(3) that(3,4) by (metis dvd_imp_mod_0 linorder_not_less)
  qed
  have "0 < g" "0 < h" "h \<noteq> 1" "g \<noteq> 1" using ne h ind(1) by (auto intro: Nat.gr0I)
  then have gh: "2 \<le> g" "g < p" "2 \<le> h" "h < p" using h by auto
  have "g < 20 \<or> h < 20"
  proof (rule ccontr)
    assume "\<not> ?thesis"
    then have "20 * 20 \<le> g * h" by (intro mult_le_mono) auto
    then show False using h ind(2) by simp
  qed
  then show False using small [of g] small [of h] gh h by auto
qed

lemma indivisibleD:
  assumes "indivisible p" and "\<not> p dvd k" and "0 < p"
  shows "coprime k p"
  using indivisible_dvd [OF assms(1), of "gcd k p"] assms(2) by (metis coprime_iff_gcd_eq_1 gcd_dvd1 gcd_dvd2)

lemma indivisible_factors:
  "indivisible 2" "indivisible 3" "indivisible 7" "indivisible 11" "indivisible 31" "indivisible 151" "indivisible 331"
  unfolding indivisible_def by (simp_all add: upt_rec)

text \<open>Multiplicative order: the least exponent with power 1 divides every such exponent.\<close>

lemma power_one_dvd:
  fixes a m :: nat
  assumes "a ^ d mod m = 1" and "d dvd e"
  shows "a ^ e mod m = 1"
proof -
  obtain k where "e = d * k" using assms(2) by blast
  then have "a ^ e mod m = (a ^ d mod m) ^ k mod m" by (simp add: power_mult power_mod)
  then show ?thesis using assms(1) by (cases "m = 1") auto
qed

lemma order_dvd:
  fixes a m :: nat
  assumes d: "0 < d" "a ^ d mod m = 1" and least: "\<And>e. 0 < e \<Longrightarrow> a ^ e mod m = 1 \<Longrightarrow> d \<le> e"
    and n: "a ^ n mod m = 1"
  shows "d dvd n"
proof -
  have "a ^ n = a ^ (d * (n div d)) * a ^ (n mod d)" unfolding power_add [symmetric] by simp
  then have "a ^ n mod m = (a ^ (d * (n div d)) mod m) * a ^ (n mod d) mod m" by (simp only: mod_mult_left_eq)
  then have "a ^ (n mod d) mod m = 1" using n power_one_dvd [OF d(2) dvd_triv_left] by (simp only: mult_1)
  moreover have "n mod d < d" using d(1) by simp
  ultimately have "n mod d = 0" using least [of "n mod d"] by linarith
  then show ?thesis by auto
qed

lemma order_cofactor:
  fixes a m :: nat
  assumes "a ^ d mod m = 1" and "n = d * k" and "a ^ (n div p) mod m \<noteq> 1" and "0 < p"
  shows "\<not> p dvd k"
proof
  assume "p dvd k"
  then obtain j where "k = p * j" by blast
  then have "n div p = d * j" using assms(2,4) by simp
  then show False using assms(1,3) power_one_dvd [of a d m "d * j"] by simp
qed

lemma pm_order:
  assumes "pm_a ^ e mod pm_m = 1" and "0 < e"
  shows "pm_m - 1 \<le> e"
proof -
  define d where "d = (LEAST d. 0 < d \<and> pm_a ^ d mod pm_m = 1)"
  have "0 < d \<and> pm_a ^ d mod pm_m = 1" unfolding d_def by (rule LeastI [of _ e]) (use assms in blast)
  then have d: "0 < d" "pm_a ^ d mod pm_m = 1" by blast+
  have least: "d \<le> e" if "0 < e" "pm_a ^ e mod pm_m = 1" for e unfolding d_def using that by (intro Least_le) blast
  obtain k where k: "pm_m - 1 = d * k" using order_dvd [OF d least pm_fermat] by blast
  note no = order_cofactor [OF d(2) k]
  have "coprime k 2" "coprime k 3" "coprime k 7" "coprime k 11" "coprime k 31" "coprime k 151" "coprime k 331"
    by (rule indivisibleD [OF indivisible_factors(1) no [OF pm_not_one(1)]],
        simp_all only: zero_less_numeral)
      (rule indivisibleD [OF indivisible_factors(2) no [OF pm_not_one(2)]]
        indivisibleD [OF indivisible_factors(3) no [OF pm_not_one(3)]]
        indivisibleD [OF indivisible_factors(4) no [OF pm_not_one(4)]]
        indivisibleD [OF indivisible_factors(5) no [OF pm_not_one(5)]]
        indivisibleD [OF indivisible_factors(6) no [OF pm_not_one(6)]]
        indivisibleD [OF indivisible_factors(7) no [OF pm_not_one(7)]]; simp only: zero_less_numeral)+
  then have "coprime k (2 * (3 * (3 * (7 * (11 * (31 * (151 * 331)))))))" by (simp only: coprime_mult_right_iff)
  moreover have "2 * (3 * (3 * (7 * (11 * (31 * (151 * 331)))))) = pm_m - 1" by simp
  ultimately have "coprime k (pm_m - 1)" by (simp only:)
  then have "k = 1" unfolding k using coprime_common_divisor [of k "d * k" k] by simp
  then show ?thesis using k least [OF assms(2,1)] by (simp only: mult_1_right)
qed

lemma pm_cancel:
  fixes a m n :: nat
  assumes "a ^ n mod m = 1" and "i \<le> n"
  shows "a ^ (i + j + (n - i)) mod m = a ^ j mod m"
proof -
  have "a ^ (i + j + (n - i)) = a ^ n * a ^ j" using assms(2) by (simp add: power_add [symmetric] add.commute)
  then have "a ^ (i + j + (n - i)) mod m = (a ^ n mod m) * a ^ j mod m" by (simp only: mod_mult_left_eq)
  then show ?thesis using assms(1) by simp
qed

lemma power_differences:
  fixes a m n :: nat
  assumes n: "a ^ n mod m = 1" and order: "\<And>e. a ^ e mod m = 1 \<Longrightarrow> 0 < e \<Longrightarrow> n \<le> e"
    and ij: "i < j" "j < n"
  shows "a ^ i mod m \<noteq> a ^ j mod m"
proof
  assume eq: "a ^ i mod m = a ^ j mod m"
  have "a ^ (i + 0 + (n - i)) mod m = a ^ i mod m * a ^ (n - i) mod m" by (simp only: power_add mod_mult_left_eq add_0_right)
  also have "\<dots> = a ^ (i + (j - i) + (n - i)) mod m" using ij eq by (simp only: power_add mod_mult_left_eq) (simp add: power_add [symmetric])
  finally have "a ^ (i + 0 + (n - i)) mod m = a ^ (i + (j - i) + (n - i)) mod m" .
  moreover have "i \<le> n" using ij by simp
  ultimately have "a ^ (j - i) mod m = a ^ 0 mod m" by (simp only: pm_cancel [OF n])
  then have "a ^ (j - i) mod m = 1" using n by (cases "m = 1") (auto simp: mod_less)
  then show False using order [of "j - i"] ij by simp
qed

lemma full_period:
  fixes a m :: nat
  assumes n: "a ^ (m - 1) mod m = 1" and order: "\<And>e. a ^ e mod m = 1 \<Longrightarrow> 0 < e \<Longrightarrow> m - 1 \<le> e"
    and v: "0 < v" "v < m"
  shows "\<exists>i < m - 1. a ^ i mod m = v"
proof -
  let ?f = "\<lambda>i. a ^ i mod m"
  have inj: "inj_on ?f {..<m - 1}"
  proof (rule inj_onI)
    fix i j assume "i \<in> {..<m - 1}" "j \<in> {..<m - 1}" "?f i = ?f j"
    then show "i = j" using power_differences [OF n order, of i j] power_differences [OF n order, of j i]
      by (cases i j rule: linorder_cases) auto
  qed
  have pos: "?f i \<noteq> 0" if "i < m - 1" for i
  proof
    assume "?f i = 0"
    then have "?f (i + 0 + (m - 1 - i)) = 0" by (simp add: power_add mod_mult_left_eq [symmetric] del: mod_mult_left_eq)
    then show False using pm_cancel [OF n, of i 0] that n v by (cases "m = 1") auto
  qed
  have sub: "?f ` {..<m - 1} \<subseteq> {1..<m}" using pos v by (auto simp: Suc_le_eq)
  have "card (?f ` {..<m - 1}) = card {1..<m}" using card_image [OF inj] by simp
  then have "?f ` {..<m - 1} = {1..<m}" using sub by (intro card_subset_eq) auto
  then have "v \<in> ?f ` {..<m - 1}" using v by auto
  then show ?thesis by auto
qed

lemma pm_reaches:
  assumes "0 < s" "s < pm_m" "0 < v" "v < pm_m"
  shows "\<exists>i. pm_a ^ Suc i * s mod pm_m = v"
proof -
  have fp: "\<exists>i < pm_m - 1. pm_a ^ i mod pm_m = v" if "0 < v" "v < pm_m" for v
    by (rule full_period [OF pm_fermat _ that]) (rule pm_order)
  obtain i where i: "i < pm_m - 1" "pm_a ^ i mod pm_m = s" using fp [OF assms(1,2)] by blast
  obtain j where j: "pm_a ^ j mod pm_m = v" using fp [OF assms(3,4)] by blast
  define k where "k = j + (pm_m - 1 - i)"
  have "0 < k" using i(1) unfolding k_def by linarith
  then obtain l where l: "k = Suc l" by (cases k) auto
  have "pm_a ^ k * s mod pm_m = pm_a ^ k * (pm_a ^ i mod pm_m) mod pm_m" by (simp only: i(2))
  also have "\<dots> = pm_a ^ (k + i) mod pm_m" by (simp only: mod_mult_right_eq power_add)
  also have "k + i = i + j + (pm_m - 1 - i)" by (simp only: k_def add.commute add.left_commute)
  also have "pm_a ^ (i + j + (pm_m - 1 - i)) mod pm_m = pm_a ^ j mod pm_m"
    by (rule pm_cancel [OF pm_fermat]) (use i(1) in linarith)
  finally show ?thesis using l j by (intro exI [of _ l]) (simp only:)
qed

lemma pm_nonzero:
  assumes "0 < s" "s < pm_m"
  shows "pm_a * s mod pm_m \<noteq> 0"
proof
  assume z: "pm_a * s mod pm_m = 0"
  obtain i where i: "pm_a ^ Suc i * s mod pm_m = 1" using pm_reaches [OF assms, of 1] by auto
  have "pm_a ^ Suc i * s mod pm_m = pm_a ^ i * (pm_a * s mod pm_m) mod pm_m"
    by (simp only: mod_mult_right_eq power_Suc2 mult.assoc)
  then show False using i by (simp only: z)
qed

section \<open>Schrage's method computes the generator without overflow\<close>

lemma wrap_int_id: "- (2 ^ 31) \<le> x \<Longrightarrow> x < 2 ^ 31 \<Longrightarrow> wrap_int x = x"
  by (simp add: wrap_int_def)

lemma random_eq:
  assumes "0 < s" "s < pm_m"
  shows "randomParkAndMiller (int s) = int (pm_a * s mod pm_m)"
proof -
  define hi lo :: int where "hi = int s div 127773" and "lo = int s mod 127773"
  define test where "test = 16807 * lo - 2836 * hi"
  have lo: "0 \<le> lo" "lo < 127773" by (simp_all add: lo_def)
  have s: "int s = 127773 * hi + lo" by (simp add: hi_def lo_def)
  have hi: "0 \<le> hi" "hi \<le> 16807" using assms by (simp_all add: hi_def)
  have eq: "16807 * int s = 2147483647 * hi + test" using s by (simp add: test_def)
  have "int (pm_a * s mod pm_m) = 16807 * int s mod 2147483647" by (simp add: of_nat_mod)
  then have mod: "test mod 2147483647 = int (pm_a * s mod pm_m)" unfolding eq by simp
  have "test \<noteq> 0"
  proof
    assume "test = 0"
    then show False using mod pm_nonzero [OF assms] by simp
  qed
  have wraps: "wrap_int (wrap_int (16807 * lo) - wrap_int (2836 * hi)) = test"
    using lo hi by (simp add: wrap_int_id test_def)
  have sd: "int s sdiv 127773 = hi" "int s smod 127773 = lo"
    using assms(1) by (simp_all add: signed_divide_int_def signed_modulo_int_def hi_def lo_def)
  show ?thesis
  proof (cases "0 < test")
    case True
    then have "test mod 2147483647 = test" using lo hi by (intro mod_pos_pos_trivial) (auto simp: test_def)
    then show ?thesis using True mod by (simp add: randomParkAndMiller_def sd wraps Let_def)
  next
    case False
    then have r: "0 < test + 2147483647" "test + 2147483647 < 2147483647"
      using lo hi \<open>test \<noteq> 0\<close> by (auto simp: test_def)
    then have "test mod 2147483647 = test + 2147483647"
      by (metis mod_add_self2 mod_pos_pos_trivial less_imp_le)
    then show ?thesis using False r mod by (simp add: randomParkAndMiller_def sd wraps Let_def wrap_int_id)
  qed
qed

lemma random_range:
  assumes "0 < s" "s < pm_m"
  obtains s' where "randomParkAndMiller (int s) = int s'" "s' = pm_a * s mod pm_m" "0 < s'" "s' < pm_m"
  using random_eq [OF assms] pm_nonzero [OF assms] by (metis gr0I mod_less_divisor zero_less_numeral)

lemma random_index_nat: "s < pm_m \<Longrightarrow> random_index n (int s) = s mod n"
  by (simp add: random_index_def)

section \<open>Drawing ends\<close>

lemma draw_unfold:
  "draw n bad k seed =
     (if k \<in> set bad then draw n bad (random_index n (randomParkAndMiller seed)) (randomParkAndMiller seed)
      else Some (k, seed))"
  by (subst draw.simps) (simp only: Let_def)

lemma draw_good: "k \<notin> set bad \<Longrightarrow> draw n bad k seed = Some (k, seed)"
  by (subst draw_unfold) simp

lemma draw_bad:
  assumes "k \<in> set bad" and "randomParkAndMiller (int s) = int s'" and "s' < pm_m"
  shows "draw n bad k (int s) = draw n bad (s' mod n) (int s')"
  using assms by (subst draw_unfold) (simp add: random_index_nat)

lemma power_next:
  fixes a m :: nat
  shows "a ^ Suc i * (a * s mod m) mod m = a ^ Suc (Suc i) * s mod m"
  unfolding mod_mult_right_eq by (simp add: ac_simps)

lemma draw_returns_after:
  assumes "0 < s" "s < pm_m" and "(pm_a ^ Suc i * s mod pm_m) mod n \<notin> set bad"
  shows "\<exists>j s'. draw n bad k (int s) = Some (j, int s') \<and> j \<notin> set bad \<and> 0 < s' \<and> s' < pm_m \<and>
    (k \<in> set bad \<longrightarrow> (\<exists>t. j = t mod n))"
  using assms
proof (induction i arbitrary: k s)
  case 0
  obtain s' where s': "randomParkAndMiller (int s) = int s'" "s' = pm_a * s mod pm_m" "0 < s'" "s' < pm_m"
    using random_range [OF 0(1,2)] by blast
  have nb: "s' mod n \<notin> set bad" using 0(3) s'(2) by simp
  show ?case
  proof (cases "k \<in> set bad")
    case True
    then show ?thesis using draw_bad [OF True s'(1,4)] draw_good [OF nb] nb s'(3,4) by auto
  next
    case False
    then show ?thesis using draw_good [OF False] 0(1,2) by auto
  qed
next
  case (Suc i)
  obtain s' where s': "randomParkAndMiller (int s) = int s'" "s' = pm_a * s mod pm_m" "0 < s'" "s' < pm_m"
    using random_range [OF Suc.prems(1,2)] by blast
  have "pm_a ^ Suc i * s' mod pm_m = pm_a ^ Suc (Suc i) * s mod pm_m"
    unfolding s'(2) by (rule power_next)
  then have "(pm_a ^ Suc i * s' mod pm_m) mod n \<notin> set bad" using Suc.prems(3) by simp
  then obtain j t where j: "draw n bad (s' mod n) (int s') = Some (j, int t)" "j \<notin> set bad" "0 < t" "t < pm_m"
    "s' mod n \<in> set bad \<longrightarrow> (\<exists>t. j = t mod n)" using Suc.IH [OF s'(3,4), of "s' mod n"] by blast
  have jn: "\<exists>t. j = t mod n" using j(1,5) draw_good [of "s' mod n" bad n "int s'"] by (cases "s' mod n \<in> set bad") auto
  show ?case
  proof (cases "k \<in> set bad")
    case True
    then show ?thesis using draw_bad [OF True s'(1,4)] j jn by auto
  next
    case False
    then show ?thesis using draw_good [OF False] Suc.prems(1,2) by auto
  qed
qed

lemma draw_returns:
  assumes "0 < s" "s < pm_m" and "length bad < n" and "n < pm_m" and "k < n"
  shows "\<exists>j s'. draw n bad k (int s) = Some (j, int s') \<and> j \<notin> set bad \<and> j < n \<and> 0 < s' \<and> s' < pm_m"
proof -
  have "\<exists>v \<in> {1..n}. v mod n \<notin> set bad"
  proof (rule ccontr)
    assume "\<not> ?thesis"
    then have "(\<lambda>v. v mod n) ` {1..n} \<subseteq> set bad" by auto
    moreover have "v \<in> (\<lambda>v. v mod n) ` {1..n}" if "v < n" for v
      using that by (cases "v = 0") (auto intro: rev_image_eqI [of n] rev_image_eqI [of v])
    ultimately have "{..<n} \<subseteq> set bad" by auto
    then have "n \<le> length bad" using card_mono [of "set bad" "{..<n}"] card_length [of bad] by simp
    then show False using assms(3) by simp
  qed
  then obtain v where v: "v \<in> {1..n}" "v mod n \<notin> set bad" by blast
  then obtain i where "pm_a ^ Suc i * s mod pm_m = v" using pm_reaches [OF assms(1,2), of v] assms(4) by auto
  then have "(pm_a ^ Suc i * s mod pm_m) mod n \<notin> set bad" using v by (simp only:) simp
  from draw_returns_after [OF assms(1,2) this, of k] obtain j s' where
    r: "draw n bad k (int s) = Some (j, int s')" "j \<notin> set bad" "0 < s'" "s' < pm_m" "k \<in> set bad \<longrightarrow> (\<exists>t. j = t mod n)"
    by blast
  have "j < n"
  proof (cases "k \<in> set bad")
    case True
    then show ?thesis using r(5) assms(5) by auto
  next
    case False
    then show ?thesis using r(1) assms(5) by (simp add: draw_unfold [of n bad k])
  qed
  then show ?thesis using r by blast
qed

end
