(* ===== verification/TaskQueueSet_Correct.thy ===== *)
theory TaskQueueSet_Correct
  imports TaskQueueSet
begin

text \<open>Properties of the task queue set and of the termination protocol.\<close>

section \<open>Stealing\<close>

definition set_rep :: "uint \<Rightarrow> 'e task_queue list \<Rightarrow> 'e list list \<Rightarrow> bool" where
  "set_rep N qs xss \<longleftrightarrow> length qs = length xss \<and> (\<forall>i < length qs. tq_rep N (qs ! i) (xss ! i))"

definition stolen :: "uint \<Rightarrow> 'e list list \<Rightarrow> nat \<Rightarrow> 'e option \<Rightarrow> 'e task_queue list \<Rightarrow> bool" where
  "stolen N xss queue_num r qs \<longleftrightarrow>
     (case r of None \<Rightarrow> set_rep N qs xss
      | Some t \<Rightarrow> \<exists>k < length xss. k \<noteq> queue_num \<and> xss ! k \<noteq> [] \<and> t = hd (xss ! k) \<and>
          set_rep N qs (xss[k := tl (xss ! k)]))"

lemma pop_from_rep:
  assumes N: "queue_capacity N" and rep: "set_rep N qs xss" and k: "k < length qs" "k \<noteq> queue_num"
    and p: "pop_from N qs k = (r, qs')"
  shows "stolen N xss queue_num r qs'" and "r = None \<longleftrightarrow> xss ! k = []" and "length qs' = length qs"
proof -
  have q: "tq_rep N (qs ! k) (xss ! k)" "length qs = length xss" using rep k by (auto simp: set_rep_def)
  have "stolen N xss queue_num r qs' \<and> (r = None \<longleftrightarrow> xss ! k = [])"
  proof (cases "xss ! k")
    case Nil
    then show ?thesis using tq_pop_global_empty [OF N, of "qs ! k"] q p rep
      by (auto simp: pop_from_def stolen_def)
  next
    case (Cons t ts)
    then obtain q' where q': "tq_pop_global N (qs ! k) = (Some t, q')" "tq_rep N q' ts"
      using tq_pop_global_first [OF N, of "qs ! k" t ts] q by auto
    then have "set_rep N (qs[k := q']) (xss[k := ts])" using rep k by (auto simp: set_rep_def nth_list_update)
    then show ?thesis using Cons q' p k q(2) by (auto simp: pop_from_def stolen_def intro!: exI [of _ k])
  qed
  then show "stolen N xss queue_num r qs'" "r = None \<longleftrightarrow> xss ! k = []" by auto
  show "length qs' = length qs" using p by (auto simp: pop_from_def split: prod.splits)
qed

lemma steal_best_of_2_ok:
  assumes N: "queue_capacity N" and rep: "set_rep N qs xss" and n: "queue_num < length qs" "length qs < pm_m"
    and s: "0 < s" "s < pm_m"
  shows "\<exists>r qs' s'. steal_best_of_2 N qs queue_num (int s) = Some (r, qs', int s') \<and> 0 < s' \<and> s' < pm_m \<and>
    stolen N xss queue_num r qs' \<and> (length qs = 2 \<longrightarrow> (r = None \<longleftrightarrow> xss ! ((queue_num + 1) mod 2) = []))"
proof (cases "2 < length qs")
  case True
  obtain k1 s1 where k1: "draw (length qs) [queue_num] queue_num (int s) = Some (k1, int s1)"
    "k1 \<notin> set [queue_num]" "k1 < length qs" "0 < s1" "s1 < pm_m"
    using draw_returns [OF s, of "[queue_num]" "length qs" queue_num] True n by auto
  obtain k2 s2 where k2: "draw (length qs) [queue_num, k1] queue_num (int s1) = Some (k2, int s2)"
    "k2 \<notin> set [queue_num, k1]" "k2 < length qs" "0 < s2" "s2 < pm_m"
    using draw_returns [OF k1(4,5), of "[queue_num, k1]" "length qs" queue_num] True n by auto
  define k where "k = (if tq_size N (qs ! k2) > tq_size N (qs ! k1) then k2 else k1)"
  obtain r qs' where p: "pop_from N qs k = (r, qs')" by fastforce
  have "steal_best_of_2 N qs queue_num (int s) = Some (r, qs', int s2)"
    using True k1(1) k2(1) p by (simp add: steal_best_of_2_def k_def)
  moreover have "k < length qs" "k \<noteq> queue_num" using k1 k2 by (auto simp: k_def)
  ultimately show ?thesis using pop_from_rep(1) [OF N rep _ _ p] k2(4,5) True by auto
next
  case False
  show ?thesis
  proof (cases "length qs = 2")
    case True
    define k where "k = (queue_num + 1) mod 2"
    obtain r qs' where p: "pop_from N qs k = (r, qs')" by fastforce
    have "queue_num = 0 \<or> queue_num = 1" using n True by auto
    then have "k < length qs" "k \<noteq> queue_num" using True by (auto simp: k_def)
    then show ?thesis using True s p pop_from_rep(1,2) [OF N rep _ _ p]
      by (auto simp: steal_best_of_2_def k_def)
  next
    case one: False
    then show ?thesis using False s rep by (auto simp: steal_best_of_2_def stolen_def)
  qed
qed

lemma steal_loop_ok:
  assumes N: "queue_capacity N" and n: "queue_num < length xss" "length xss < pm_m"
    and "set_rep N qs xss" "0 < s" "s < pm_m"
  shows "\<exists>r qs' s'. steal_loop N i qs queue_num (int s) = Some (r, qs', int s') \<and> 0 < s' \<and> s' < pm_m \<and>
    stolen N xss queue_num r qs' \<and> (length xss = 2 \<and> 0 < i \<longrightarrow> (r = None \<longleftrightarrow> xss ! ((queue_num + 1) mod 2) = []))"
  using assms(4-)
proof (induction i arbitrary: qs s)
  case 0
  then show ?case by (simp add: stolen_def)
next
  case (Suc i)
  have len: "length qs = length xss" using Suc.prems(1) by (simp add: set_rep_def)
  obtain r qs' s' where r: "steal_best_of_2 N qs queue_num (int s) = Some (r, qs', int s')" "0 < s'" "s' < pm_m"
    "stolen N xss queue_num r qs'" "length qs = 2 \<longrightarrow> (r = None \<longleftrightarrow> xss ! ((queue_num + 1) mod 2) = [])"
    using steal_best_of_2_ok [OF N Suc.prems(1) n [folded len] Suc.prems(2,3)] by blast
  show ?case
  proof (cases r)
    case None
    then have "set_rep N qs' xss" using r(4) by (simp add: stolen_def)
    then obtain r1 qs1 s1 where r1: "steal_loop N i qs' queue_num (int s') = Some (r1, qs1, int s1)" "0 < s1" "s1 < pm_m"
      "stolen N xss queue_num r1 qs1" "length xss = 2 \<and> 0 < i \<longrightarrow> (r1 = None \<longleftrightarrow> xss ! ((queue_num + 1) mod 2) = [])"
      using Suc.IH [OF _ r(2,3)] by blast
    have "r1 = None" if "i = 0" using r1(1) that by simp
    then show ?thesis using r r1 None len by (cases "i = 0") auto
  next
    case (Some t)
    then show ?thesis using r len by auto
  qed
qed

lemma seed_nat:
  fixes x :: int
  assumes "0 < x" "x < 2147483647"
  obtains s where "x = int s" "0 < s" "s < pm_m"
  using assms by (intro that [of "nat x"]) auto

text \<open>
  C32: a thief that is not disturbed always gets an answer from \<open>steal\<close>: the loops that draw random queue
  numbers end, because the generator visits every number from 1 to 2^31 - 2. The answer is the oldest
  task of another thread's queue, which loses exactly this task, or none and no queue changes; with two
  threads it is none exactly when the other queue is empty. The seed stays in range.
\<close>

theorem tqs_steal_correct:
  assumes "queue_capacity N" and "set_rep N qs xss" and "queue_num < length qs" and "length qs < 2147483647"
    and "0 < seed" and "seed < 2147483647"
  shows "\<exists>r qs' seed'. tqs_steal N qs queue_num seed = Some (r, qs', seed') \<and> 0 < seed' \<and> seed' < 2147483647 \<and>
    stolen N xss queue_num r qs' \<and>
    (length qs = 2 \<longrightarrow> (r = None \<longleftrightarrow> xss ! ((queue_num + 1) mod 2) = []))"
proof -
  have len: "length qs = length xss" using assms(2) by (simp add: set_rep_def)
  obtain s where s: "seed = int s" "0 < s" "s < pm_m"
    using seed_nat [OF assms(5,6)] .
  obtain r qs' s' where "steal_loop N (2 * length qs) qs queue_num (int s) = Some (r, qs', int s')" "0 < s'" "s' < pm_m"
    "stolen N xss queue_num r qs'"
    "length xss = 2 \<and> 0 < 2 * length qs \<longrightarrow> (r = None \<longleftrightarrow> xss ! ((queue_num + 1) mod 2) = [])"
    using steal_loop_ok [OF assms(1) _ _ assms(2) s(2,3), of queue_num "2 * length qs"] assms(3,4) len by auto
  then show ?thesis using s len assms(3)
    by (intro exI [of _ r] exI [of _ qs'] exI [of _ "int s'"]) (auto simp: tqs_steal_def)
qed

theorem tqs_steal_correct_witness:
  "\<exists>r qs' seed'. tqs_steal 4 (replicate 3 (new_task_queue [0 :: nat, 0, 0, 0])) 1 17 = Some (r, qs', seed')"
proof -
  have cap: "queue_capacity 4" by (auto simp: queue_capacity_def intro!: exI [of _ 2])
  have "set_rep 4 (replicate 3 (new_task_queue [0 :: nat, 0, 0, 0])) (replicate 3 [])"
    using new_task_queue_rep [OF cap, of "[0 :: nat, 0, 0, 0]"] by (simp add: set_rep_def)
  from tqs_steal_correct [OF cap this, of 1 17] show ?thesis by auto
qed

text \<open>
  C33: \<open>randomParkAndMiller\<close> computes 16807 * seed modulo 2^31 - 1 by Schrage's method: for every seed in
  range no 32-bit operation overflows, the result is in range again, and from any seed every number
  in range is reached.
\<close>

theorem random_full_period:
  assumes "0 < seed" and "seed < 2147483647"
  shows "randomParkAndMiller seed = 16807 * seed mod 2147483647 \<and>
    0 < randomParkAndMiller seed \<and> randomParkAndMiller seed < 2147483647 \<and>
    (\<forall>v. 0 < v \<and> v < 2147483647 \<longrightarrow> (\<exists>i. (randomParkAndMiller ^^ Suc i) seed = v))"
proof -
  obtain s where s: "seed = int s" "0 < s" "s < pm_m"
    using seed_nat [OF assms] .
  have iter: "(randomParkAndMiller ^^ i) (int s) = int (pm_a ^ i * s mod pm_m) \<and> 0 < pm_a ^ i * s mod pm_m" for i
  proof (induction i)
    case (Suc i)
    define t where "t = pm_a ^ i * s mod pm_m"
    have t: "0 < t" "t < pm_m" using Suc by (simp_all add: t_def)
    have "pm_a * t mod pm_m = pm_a ^ Suc i * s mod pm_m"
      unfolding t_def by (simp only: mod_mult_right_eq power_Suc mult.assoc)
    then show ?case using Suc random_eq [OF t] pm_nonzero [OF t] by (simp add: t_def)
  qed (use s in simp)
  have "\<exists>i. (randomParkAndMiller ^^ Suc i) seed = v" if v: "0 < v" "v < 2147483647" for v
  proof -
    obtain u where u: "v = int u" "0 < u" "u < pm_m"
      using seed_nat [OF v] .
    obtain i where "pm_a ^ Suc i * s mod pm_m = u" using pm_reaches [OF s(2,3) u(2,3)] by blast
    then show ?thesis using iter [of "Suc i"] s(1) u(1) by (intro exI [of _ i]) (simp only:)
  qed
  moreover have "int (pm_a * s mod pm_m) = 16807 * seed mod 2147483647" by (simp add: of_nat_mod s(1))
  moreover have "0 < int (pm_a * s mod pm_m)" "int (pm_a * s mod pm_m) < 2147483647"
    using pm_nonzero [OF s(2,3)] by simp_all
  ultimately show ?thesis using random_eq [OF s(2,3)] unfolding s(1) by simp
qed

theorem random_full_period_witness: "randomParkAndMiller 1 = 16807 \<and> (\<exists>i. (randomParkAndMiller ^^ Suc i) 1 = 42)"
  using random_full_period [of 1] by auto

section \<open>The termination protocol\<close>

text \<open>
  All threads at once. A thread outside the protocol may take a task from a queue that has one, its own
  or, by stealing, another's; while it has a task in hand (\<open>g_busy\<close>) it may push on its own queue. It calls
  \<open>offer_termination\<close> when it has no task in hand and its own queue is empty, and again after an answer
  false. What \<open>peek\<close> sees and whether a \<open>TerminatorTerminator\<close> asks to exit is left open in every step:
  the scan of the queues is not atomic.
\<close>

record gang =
  g_tt :: terminator
  g_pc :: "nat \<Rightarrow> offer_pc option"
  g_has :: "nat \<Rightarrow> bool"
  g_busy :: "nat \<Rightarrow> bool"

inductive gang_step :: "spin_flags \<Rightarrow> nat \<Rightarrow> gang \<Rightarrow> gang \<Rightarrow> bool" for f n where
  take_task: "i < n \<Longrightarrow> g_pc g i = None \<Longrightarrow> j < n \<Longrightarrow> g_has g j \<Longrightarrow>
    gang_step f n g (g\<lparr>g_has := (g_has g)(j := b), g_busy := (g_busy g)(i := True)\<rparr>)"
| push_task: "i < n \<Longrightarrow> g_pc g i = None \<Longrightarrow> g_busy g i \<Longrightarrow> gang_step f n g (g\<lparr>g_has := (g_has g)(i := True)\<rparr>)"
| end_task: "i < n \<Longrightarrow> g_pc g i = None \<Longrightarrow> g_busy g i \<Longrightarrow> gang_step f n g (g\<lparr>g_busy := (g_busy g)(i := False)\<rparr>)"
| enter: "i < n \<Longrightarrow> g_pc g i = None \<Longrightarrow> \<not> g_has g i \<Longrightarrow> \<not> g_busy g i \<Longrightarrow>
    gang_step f n g (g\<lparr>g_pc := (g_pc g)(i := Some Offer)\<rparr>)"
| move: "i < n \<Longrightarrow> g_pc g i = Some pc \<Longrightarrow>
    offer_termination_step f peek should_exit (g_tt g) pc = (tt, pc') \<Longrightarrow>
    gang_step f n g (g\<lparr>g_tt := tt, g_pc := (g_pc g)(i := Some pc')\<rparr>)"
| resume: "i < n \<Longrightarrow> g_pc g i = Some (Returned False) \<Longrightarrow>
    gang_step f n g (g\<lparr>g_pc := (g_pc g)(i := None)\<rparr>)"

definition gang_start :: "nat \<Rightarrow> (nat \<Rightarrow> bool) \<Rightarrow> (nat \<Rightarrow> bool) \<Rightarrow> gang" where
  "gang_start n h b = \<lparr>g_tt = \<lparr>tt_n_threads = int n, tt_offered = 0\<rparr>, g_pc = (\<lambda>_. None), g_has = h, g_busy = b\<rparr>"

inductive gang_reach :: "spin_flags \<Rightarrow> nat \<Rightarrow> gang \<Rightarrow> bool" for f n where
  init: "gang_reach f n (gang_start n h b)"
| step: "gang_reach f n g \<Longrightarrow> gang_step f n g g' \<Longrightarrow> gang_reach f n g'"

text \<open>A thread whose offer is counted.\<close>

fun offering :: "offer_pc option \<Rightarrow> bool" where
  "offering (Some (Check s)) = True"
| "offering (Some (Look s)) = True"
| "offering (Some Withdraw) = True"
| "offering (Some (Returned r)) = r"
| "offering _ = False"

definition idle :: "nat \<Rightarrow> gang \<Rightarrow> bool" where
  "idle n g \<longleftrightarrow> (\<forall>j < n. \<not> g_has g j \<and> \<not> g_busy g j)"

definition gang_ok :: "nat \<Rightarrow> gang \<Rightarrow> bool" where
  "gang_ok n g \<longleftrightarrow> tt_n_threads (g_tt g) = int n \<and>
     tt_offered (g_tt g) = int (card {i. i < n \<and> offering (g_pc g i)}) \<and>
     (\<forall>i < n. g_has g i \<or> g_busy g i \<longrightarrow> g_pc g i = None) \<and>
     ((\<exists>i < n. g_pc g i = Some (Returned True)) \<longrightarrow> idle n g)"

lemma card_offering:
  assumes "i < n"
  shows "card {j. j < n \<and> offering (((g_pc g)(i := p)) j)} =
    card {j. j < n \<and> offering (g_pc g j)} - (if offering (g_pc g i) then 1 else 0) + (if offering p then 1 else 0)"
proof -
  define S where "S = {j. j < n \<and> j \<noteq> i \<and> offering (g_pc g j)}"
  have S: "finite S" "i \<notin> S" by (simp_all add: S_def)
  have "{j. j < n \<and> offering (((g_pc g)(i := p)) j)} = (if offering p then insert i S else S)"
    using assms by (auto simp: S_def)
  moreover have "{j. j < n \<and> offering (g_pc g j)} = (if offering (g_pc g i) then insert i S else S)"
    using assms by (auto simp: S_def)
  ultimately show ?thesis using S by simp
qed

lemma all_offering:
  assumes "card {i. i < n \<and> offering (g_pc g i)} = n" and "i < n"
  shows "offering (g_pc g i)"
proof -
  have "{i. i < n \<and> offering (g_pc g i)} = {..<n}"
    using assms(1) by (intro card_subset_eq) auto
  then show ?thesis using assms(2) by blast
qed

lemma offering_card_pos: "i < n \<Longrightarrow> offering (g_pc g i) \<Longrightarrow> 0 < card {j. j < n \<and> offering (g_pc g j)}"
  by (rule card_gt_0_iff [THEN iffD2]) auto

lemma gang_move_ok:
  assumes ok: "gang_ok n g" and i: "i < n" "g_pc g i = Some pc"
    and m: "offer_termination_step f peek should_exit (g_tt g) pc = (tt, pc')"
  shows "gang_ok n (g\<lparr>g_tt := tt, g_pc := (g_pc g)(i := Some pc')\<rparr>)"
proof -
  note card = card_offering [OF i(1), of g "Some pc'"] and pos = offering_card_pos [OF i(1), of g]
  have o: "tt_n_threads (g_tt g) = int n" "tt_offered (g_tt g) = int (card {i. i < n \<and> offering (g_pc g i)})"
    "\<And>j. j < n \<Longrightarrow> g_has g j \<or> g_busy g j \<Longrightarrow> g_pc g j = None"
    "\<And>j. j < n \<Longrightarrow> g_pc g j = Some (Returned True) \<Longrightarrow> idle n g"
    using ok by (auto simp: gang_ok_def)
  have tt: "tt_n_threads tt = int n" using m o(1) by (cases pc) (auto split: if_split_asm)
  have count: "tt_offered tt = int (card {j. j < n \<and> offering (((g_pc g)(i := Some pc')) j)})"
    using m o(2) i(2) pos unfolding card by (cases pc) (auto split: if_split_asm simp: of_nat_diff)
  have idle: "idle n g" if "pc' = Returned True"
  proof (cases "pc = Returned True")
    case True
    then show ?thesis using o(4) i by blast
  next
    case False
    then have "tt_offered (g_tt g) = tt_n_threads (g_tt g)"
      using m that by (cases pc) (auto split: if_split_asm)
    then have "card {i. i < n \<and> offering (g_pc g i)} = n" using o(1,2) by simp
    then have "g_pc g j \<noteq> None" if "j < n" for j using all_offering [of n g j] that by (cases "g_pc g j") auto
    then show ?thesis using o(3) unfolding idle_def by blast
  qed
  have i': "\<not> g_has g i \<and> \<not> g_busy g i" using o(3) i by auto
  have id: "idle n (g\<lparr>g_tt := tt, g_pc := p\<rparr>) = idle n g" for p by (simp add: idle_def)
  show ?thesis
    unfolding gang_ok_def id
    using tt count o(3,4) i' idle by auto
qed

lemma gang_step_ok:
  assumes "gang_ok n g" and "gang_step f n g g'"
  shows "gang_ok n g'"
  using assms(2)
proof cases
  case (take_task i j b)
  then show ?thesis using assms(1) by (auto simp: gang_ok_def idle_def)
next
  case (push_task i)
  then show ?thesis using assms(1) by (auto simp: gang_ok_def idle_def)
next
  case (end_task i)
  then show ?thesis using assms(1) by (auto simp: gang_ok_def idle_def)
next
  case (enter i)
  then show ?thesis using assms(1) card_offering [of i n g "Some Offer"] by (auto simp: gang_ok_def idle_def)
next
  case (move i pc peek should_exit tt pc')
  then show ?thesis using gang_move_ok [OF assms(1)] by blast
next
  case (resume i)
  then show ?thesis using assms(1) card_offering [of i n g None] by (auto simp: gang_ok_def idle_def)
qed

lemma gang_start_ok: "gang_ok n (gang_start n h b)"
  by (simp add: gang_start_def gang_ok_def)

lemma gang_reach_ok: "gang_reach f n g \<Longrightarrow> gang_ok n g"
  by (induction rule: gang_reach.induct) (simp_all only: gang_start_ok gang_step_ok)

lemma gang_steps_reach: "(gang_step f n)\<^sup>*\<^sup>* g g' \<Longrightarrow> gang_reach f n g \<Longrightarrow> gang_reach f n g'"
  by (induction rule: rtranclp_induct) (auto intro: step)

text \<open>The answer true is final.\<close>

lemma returned_true_stays:
  assumes "(gang_step f n)\<^sup>*\<^sup>* g g'" and "g_pc g i = Some (Returned True)"
  shows "g_pc g' i = Some (Returned True)"
  using assms
proof (induction rule: rtranclp_induct)
  case (step g' g'')
  then have "g_pc g' i = Some (Returned True)" by blast
  with step.hyps(2) show ?case by cases (auto split: if_split_asm)
qed

text \<open>The default values of the flags.\<close>

definition demo_flags :: spin_flags where
  "demo_flags = \<lparr>WorkStealingHardSpins = 4096, WorkStealingSpinToYieldRatio = 10, WorkStealingYieldsBeforeSleep = 5000\<rparr>"

text \<open>
  C6: the answer true is right and stays right, whatever the threads see when they look for work and
  whether or not they are asked to exit. In every state \<open>g'\<close> after \<open>offer_termination\<close> has returned true to
  a thread, no queue holds a task and no thread has one in hand. The counter is the number of threads
  whose offer stands, so it stays between 1 and \<open>_n_threads\<close>. Another thread may still be answered false,
  when it had looked before and withdraws its offer; but it finds no work, and as soon as the offers of all
  threads stand, the test of the counter answers true to each of them. A thread that sees the queues
  as they are and is not asked to exit does not withdraw any more.
\<close>

theorem termination_agreed:
  assumes "gang_reach f n g" and "i < n" and "g_pc g i = Some (Returned True)" and "(gang_step f n)\<^sup>*\<^sup>* g g'"
  shows "g_pc g' i = Some (Returned True) \<and> (\<forall>j < n. \<not> g_has g' j \<and> \<not> g_busy g' j) \<and>
    tt_offered (g_tt g') = int (card {j. j < n \<and> offering (g_pc g' j)}) \<and>
    1 \<le> tt_offered (g_tt g') \<and> tt_offered (g_tt g') \<le> tt_n_threads (g_tt g') \<and>
    ((\<forall>j < n. offering (g_pc g' j)) \<longrightarrow>
      (\<forall>s peek ex. offer_termination_step f peek ex (g_tt g') (Check s) = (g_tt g', Returned True))) \<and>
    (\<forall>s. offer_termination_step f (\<exists>j < n. g_has g' j) False (g_tt g') (Look s) = (g_tt g', Check s))"
proof -
  have ret: "g_pc g' i = Some (Returned True)" by (rule returned_true_stays [OF assms(4,3)])
  have ok: "gang_ok n g'" by (rule gang_reach_ok [OF gang_steps_reach [OF assms(4,1)]])
  have none: "\<forall>j < n. \<not> g_has g' j \<and> \<not> g_busy g' j" using ok ret assms(2) by (auto simp: gang_ok_def idle_def)
  have c: "tt_offered (g_tt g') = int (card {j. j < n \<and> offering (g_pc g' j)})" "tt_n_threads (g_tt g') = int n"
    using ok by (simp_all add: gang_ok_def)
  have "1 \<le> tt_offered (g_tt g')" using offering_card_pos [OF assms(2), of g'] ret c(1) by simp
  moreover have "card {j. j < n \<and> offering (g_pc g' j)} \<le> card {..<n}" by (intro card_mono) auto
  moreover have "tt_offered (g_tt g') = tt_n_threads (g_tt g')" if "\<forall>j < n. offering (g_pc g' j)"
  proof -
    have "{j. j < n \<and> offering (g_pc g' j)} = {..<n}" using that by auto
    then show ?thesis using c by simp
  qed
  ultimately show ?thesis using ret none c by auto
qed

text \<open>
  The witness: thread 0 is asked to exit, thread 1 then offers and is answered true before thread 0
  withdraws its offer; thread 0 is answered false although no work is left.
\<close>

definition demo_gang :: "offer_pc option \<Rightarrow> offer_pc option \<Rightarrow> int \<Rightarrow> gang" where
  "demo_gang p q k = \<lparr>g_tt = \<lparr>tt_n_threads = 2, tt_offered = k\<rparr>, g_pc = (\<lambda>_. None)(0 := p, 1 := q),
     g_has = (\<lambda>_. False), g_busy = (\<lambda>_. False)\<rparr>"

lemma demo_gang_move0:
  assumes "offer_termination_step demo_flags peek ex \<lparr>tt_n_threads = 2, tt_offered = k\<rparr> p =
    (\<lparr>tt_n_threads = 2, tt_offered = k'\<rparr>, p')"
  shows "gang_step demo_flags 2 (demo_gang (Some p) q k) (demo_gang (Some p') q k')"
  using move [of 0 2 "demo_gang (Some p) q k" p demo_flags peek ex] assms by (simp add: demo_gang_def fun_upd_twist)

lemma demo_gang_move1:
  assumes "offer_termination_step demo_flags peek ex \<lparr>tt_n_threads = 2, tt_offered = k\<rparr> p =
    (\<lparr>tt_n_threads = 2, tt_offered = k'\<rparr>, p')"
  shows "gang_step demo_flags 2 (demo_gang q (Some p) k) (demo_gang q (Some p') k')"
  using move [of 1 2 "demo_gang q (Some p) k" p demo_flags peek ex] assms by (simp add: demo_gang_def)

lemma demo_gang_enter:
  "gang_step demo_flags 2 (demo_gang None q k) (demo_gang (Some Offer) q k)"
  "gang_step demo_flags 2 (demo_gang q None k) (demo_gang q (Some Offer) k)"
  using enter [of 0 2 "demo_gang None q k" demo_flags] enter [of 1 2 "demo_gang q None k" demo_flags]
  by (simp_all add: demo_gang_def fun_upd_twist)

theorem termination_agreed_witness:
  "\<exists>g g'. gang_reach demo_flags 2 g \<and> g_pc g 1 = Some (Returned True) \<and> g_pc g 0 = Some Withdraw \<and>
     (gang_step demo_flags 2)\<^sup>*\<^sup>* g g' \<and> g_pc g' 0 = Some (Returned False) \<and>
     tt_offered (g_tt g') = 1 \<and> \<not> g_has g' 0 \<and> \<not> g_has g' 1"
proof -
  let ?s = "spin_start demo_flags"
  have "gang_reach demo_flags 2 (demo_gang None None 0)"
    using init [of demo_flags 2 "\<lambda>_. False" "\<lambda>_. False"] by (simp add: gang_start_def demo_gang_def)
  note r = step [OF step [OF this demo_gang_enter(1)] demo_gang_move0 [of True True _ _ 1 "Check ?s"], simplified]
  note r = step [OF r demo_gang_move0 [of True True _ _ 1 "Look (snd (spin_once demo_flags ?s))"], simplified]
  note r = step [OF r demo_gang_move0 [of False True _ _ 1 Withdraw], simplified]
  note r = step [OF step [OF r demo_gang_enter(2)] demo_gang_move1 [of False False _ _ 2 "Check ?s"], simplified]
  note r = step [OF r demo_gang_move1 [of False False _ _ 2 "Returned True"], simplified]
  have st: "(gang_step demo_flags 2)\<^sup>*\<^sup>* (demo_gang (Some Withdraw) (Some (Returned True)) 2)
      (demo_gang (Some (Returned False)) (Some (Returned True)) 1)"
    by (rule r_into_rtranclp, rule demo_gang_move0 [of False False]) simp
  have pc: "g_pc (demo_gang p q k) 0 = p" "g_pc (demo_gang p q k) 1 = q" for p q k by (simp_all add: demo_gang_def)
  show ?thesis
    using termination_agreed [OF r _ _ st, of 1] r st
    by (intro exI [of _ "demo_gang (Some Withdraw) (Some (Returned True)) 2"]
        exI [of _ "demo_gang (Some (Returned False)) (Some (Returned True)) 1"]) (simp add: pc, simp add: demo_gang_def)
qed

section \<open>Spinning\<close>

definition spin_ok :: "spin_flags \<Rightarrow> nat \<Rightarrow> spin \<Rightarrow> bool" where
  "spin_ok f k s \<longleftrightarrow> unat (yield_count s) = k mod (unat (WorkStealingYieldsBeforeSleep f) + 2) \<and>
     0 < unat (hard_spin_limit s) \<and> unat (hard_spin_limit s) \<le> unat (WorkStealingHardSpins f) \<and>
     0 < unat (hard_spin_start s) \<and> unat (hard_spin_start s) \<le> unat (WorkStealingHardSpins f)"

lemma unat_ucast_small:
  fixes w :: "64 word"
  assumes "unat w < 2 ^ 32"
  shows "unat (ucast w :: uint) = unat w"
  using assms by (simp add: unsigned_ucast_eq take_bit_nat_eq_self)

lemma unat_ucast_wide:
  fixes w :: uint
  shows "unat (ucast w :: 64 word) = unat w"
proof -
  have "unat w < 2 ^ 32" using unsigned_less [of w] by simp
  then show ?thesis by (simp add: unsigned_ucast_eq take_bit_nat_eq_self)
qed

lemma spin_start_ok:
  assumes "0 < unat (WorkStealingHardSpins f)" and "unat (WorkStealingHardSpins f) < 2 ^ 31"
  shows "spin_ok f 0 (spin_start f)"
proof -
  let ?H = "WorkStealingHardSpins f" and ?r = "unat (WorkStealingSpinToYieldRatio f)"
  have d: "unat (drop_bit ?r ?H) \<le> unat ?H" unfolding unat_drop_bit_eq by (simp add: drop_bit_eq_div)
  then have "unat (ucast (drop_bit ?r ?H) :: uint) = unat (drop_bit ?r ?H)" using assms(2) by (intro unat_ucast_small) simp
  then have m: "unat (max (ucast (drop_bit ?r ?H)) (1 :: uint)) = max (unat (drop_bit ?r ?H)) 1"
    by (auto simp: max_def word_le_nat_alt)
  have "unat (ucast ?H :: uint) = unat ?H" using assms(2) by (intro unat_ucast_small) simp
  then show ?thesis using assms(1) d m by (auto simp: spin_ok_def spin_start_def Let_def)
qed

lemma mod_step:
  fixes k m :: nat
  assumes "0 < m"
  shows "Suc k mod m = (if k mod m = m - 1 then 0 else k mod m + 1)"
  using assms by (auto simp: mod_Suc)

lemma spin_once_ok:
  assumes ok: "spin_ok f k s" and H: "unat (WorkStealingHardSpins f) < 2 ^ 31"
    and Y: "unat (WorkStealingYieldsBeforeSleep f) < 2 ^ 32 - 2"
  shows "spin_ok f (Suc k) (snd (spin_once f s))"
    and "fst (spin_once f s) = Sleep \<longleftrightarrow>
      k mod (unat (WorkStealingYieldsBeforeSleep f) + 2) = unat (WorkStealingYieldsBeforeSleep f) + 1"
    and "fst (spin_once f s) = HardSpin m \<Longrightarrow> 0 < unat m \<and> unat m \<le> unat (WorkStealingHardSpins f)"
proof -
  let ?Y = "unat (WorkStealingYieldsBeforeSleep f)" and ?H = "WorkStealingHardSpins f"
  have y: "unat (yield_count s) = k mod (?Y + 2)" and l: "0 < unat (hard_spin_limit s)" "unat (hard_spin_limit s) \<le> unat ?H"
    and st: "0 < unat (hard_spin_start s)" "unat (hard_spin_start s) \<le> unat ?H"
    using ok by (simp_all add: spin_ok_def)
  have le: "ucast (yield_count s) \<le> WorkStealingYieldsBeforeSleep f \<longleftrightarrow> k mod (?Y + 2) \<le> ?Y"
    by (simp only: word_le_nat_alt unat_ucast_wide y)
  have "k mod (?Y + 2) < ?Y + 2" by simp
  then have lt: "\<not> k mod (?Y + 2) \<le> ?Y \<longleftrightarrow> k mod (?Y + 2) = ?Y + 1" by linarith
  have suc: "unat (yield_count s + 1) = k mod (?Y + 2) + 1" if "k mod (?Y + 2) \<le> ?Y"
    using that Y y by (simp add: unat_word_ariths)
  define lim where "lim = min (2 * hard_spin_limit s) (ucast ?H)"
  have "unat (2 * hard_spin_limit s) = 2 * unat (hard_spin_limit s)" using l H by (simp add: unat_word_ariths)
  moreover have "unat (ucast ?H :: uint) = unat ?H" using H by (intro unat_ucast_small) simp
  ultimately have lim: "0 < unat lim" "unat lim \<le> unat ?H" using l by (auto simp: lim_def min_def word_le_nat_alt)
  note once = spin_once_def [of f s, folded lim_def, unfolded Let_def]
  show "spin_ok f (Suc k) (snd (spin_once f s))"
    using le lt suc l st lim mod_step [of "?Y + 2" k] by (auto simp: once lim_def [symmetric] spin_ok_def)
  show "fst (spin_once f s) = Sleep \<longleftrightarrow> k mod (?Y + 2) = ?Y + 1" using le lt by (auto simp: once)
  show "0 < unat m \<and> unat m \<le> unat ?H" if "fst (spin_once f s) = HardSpin m"
    using that lim by (auto simp: once lim_def [symmetric] split: if_split_asm)
qed

text \<open>
  While a thread waits in \<open>offer_termination\<close>, it sleeps in exactly one of every
  \<open>WorkStealingYieldsBeforeSleep\<close> + 2 rounds, and each hard spin is between 1 and
  \<open>WorkStealingHardSpins\<close> iterations long, for flags small enough not to wrap around in 32 bits.
\<close>

theorem spinning_bounded:
  assumes "0 < unat (WorkStealingHardSpins f)" and "unat (WorkStealingHardSpins f) < 2 ^ 31"
    and "unat (WorkStealingYieldsBeforeSleep f) < 2 ^ 32 - 2"
    and "s = ((\<lambda>s. snd (spin_once f s)) ^^ k) (spin_start f)"
  shows "(fst (spin_once f s) = Sleep \<longleftrightarrow>
      k mod (unat (WorkStealingYieldsBeforeSleep f) + 2) = unat (WorkStealingYieldsBeforeSleep f) + 1) \<and>
    (\<forall>m. fst (spin_once f s) = HardSpin m \<longrightarrow> 0 < unat m \<and> unat m \<le> unat (WorkStealingHardSpins f))"
proof -
  have "spin_ok f k (((\<lambda>s. snd (spin_once f s)) ^^ k) (spin_start f))" for k
    by (induction k) (use spin_start_ok [OF assms(1,2)] spin_once_ok(1) [OF _ assms(2,3)] in auto)
  then show ?thesis using spin_once_ok(2,3) [OF _ assms(2,3), of k s] assms(4) by blast
qed

theorem spinning_bounded_witness: "fst (spin_once demo_flags (spin_start demo_flags)) \<noteq> Sleep"
  using spinning_bounded [of demo_flags _ 0] by (simp add: demo_flags_def)

end
