(* ===== verification/BitMap.thy ===== *)
theory BitMap
  imports HS_Prelude
begin

text \<open>
  \<open>BitMap\<close> (\<open>src/src/share/vm/utilities/bitMap.hpp\<close>, \<open>bitMap.inline.hpp\<close>, \<open>bitMap.cpp\<close>): a set of bits in
  an array of 64-bit words. \<open>idx_t\<close> (\<open>size_t\<close>) is \<open>nat\<close> with the wrap-around written out; a word is a
  \<open>64 word\<close>. An access outside the array is \<open>None\<close>.
\<close>

section \<open>Representation\<close>

type_synonym bm_word_t = "64 word"

record bitmap =
  bm_map :: "bm_word_t list"
  bm_size :: nat

datatype range_hint = Unknown_range | Small_range | Large_range

definition bit_in_word :: "nat \<Rightarrow> nat" where
  "bit_in_word b = b mod 64"

definition bit_mask :: "nat \<Rightarrow> bm_word_t" where
  "bit_mask b = push_bit (bit_in_word b) 1"

definition word_index :: "nat \<Rightarrow> nat" where
  "word_index b = b div 64"

definition bit_index :: "nat \<Rightarrow> nat" where
  "bit_index w = w * 64 mod size_max"

definition size_in_words :: "bitmap \<Rightarrow> nat" where
  "size_in_words bm = word_index (uadd64 (bm_size bm) 63)"

definition word_index_round_up :: "bitmap \<Rightarrow> nat \<Rightarrow> nat" where
  "word_index_round_up bm b =
     (let bit_rounded_up = uadd64 b 63
      in if b < bit_rounded_up then word_index bit_rounded_up else size_in_words bm)"

definition map_word :: "bitmap \<Rightarrow> nat \<Rightarrow> bm_word_t option" where
  "map_word bm w = (if w < length (bm_map bm) then Some (bm_map bm ! w) else None)"

definition set_word :: "bitmap \<Rightarrow> nat \<Rightarrow> bm_word_t \<Rightarrow> bitmap option" where
  "set_word bm w v = (if w < length (bm_map bm) then Some (bm\<lparr>bm_map := (bm_map bm)[w := v]\<rparr>) else None)"

definition nth_bit :: "nat \<Rightarrow> bm_word_t" where
  "nth_bit n = (if 64 \<le> n then 0 else push_bit n 1)"

definition right_n_bits :: "nat \<Rightarrow> bm_word_t" where
  "right_n_bits n = nth_bit n - 1"

definition left_n_bits :: "nat \<Rightarrow> bm_word_t" where
  "left_n_bits n = push_bit (if 64 \<le> n then 0 else 64 - n) (right_n_bits n)"

section \<open>Single bits\<close>

definition bm_at :: "bitmap \<Rightarrow> nat \<Rightarrow> bool option" where
  "bm_at bm i = map_option (\<lambda>w. w AND bit_mask i \<noteq> 0) (map_word bm (word_index i))"

definition bm_set_bit :: "bitmap \<Rightarrow> nat \<Rightarrow> bitmap option" where
  "bm_set_bit bm b =
     do { w \<leftarrow> map_word bm (word_index b); set_word bm (word_index b) (w OR bit_mask b) }"

definition bm_clear_bit :: "bitmap \<Rightarrow> nat \<Rightarrow> bitmap option" where
  "bm_clear_bit bm b =
     do { w \<leftarrow> map_word bm (word_index b); set_word bm (word_index b) (w AND NOT (bit_mask b)) }"

definition bm_at_put :: "bitmap \<Rightarrow> nat \<Rightarrow> bool \<Rightarrow> bitmap option" where
  "bm_at_put bm offset v = (if v then bm_set_bit bm offset else bm_clear_bit bm offset)"

text \<open>
  \<open>cmpxchg\<close> on a word of the map, for a thread that runs alone; the loops of \<open>par_set_bit\<close> and
  \<open>par_clear_bit\<close> then end in the first round. \<open>BitMap_Par\<close> has the interleaved version.
\<close>

definition word_cas :: "bitmap \<Rightarrow> nat \<Rightarrow> bm_word_t \<Rightarrow> bm_word_t \<Rightarrow> (bm_word_t \<times> bitmap) option" where
  "word_cas bm w new_val old_val =
     do { cur \<leftarrow> map_word bm w;
          if cur = old_val then do { bm' \<leftarrow> set_word bm w new_val; Some (cur, bm') } else Some (cur, bm) }"

partial_function (option) par_set_loop :: "bitmap \<Rightarrow> nat \<Rightarrow> bm_word_t \<Rightarrow> bm_word_t \<Rightarrow> (bool \<times> bitmap) option" where
  "par_set_loop bm w m old_val =
     (let new_val = old_val OR m in
      if new_val = old_val then Some (False, bm)
      else do { (cur_val, bm') \<leftarrow> word_cas bm w new_val old_val;
                if cur_val = old_val then Some (True, bm') else par_set_loop bm' w m cur_val })"

partial_function (option) par_clear_loop :: "bitmap \<Rightarrow> nat \<Rightarrow> bm_word_t \<Rightarrow> bm_word_t \<Rightarrow> (bool \<times> bitmap) option" where
  "par_clear_loop bm w m old_val =
     (let new_val = old_val AND m in
      if new_val = old_val then Some (False, bm)
      else do { (cur_val, bm') \<leftarrow> word_cas bm w new_val old_val;
                if cur_val = old_val then Some (True, bm') else par_clear_loop bm' w m cur_val })"

definition bm_par_set_bit :: "bitmap \<Rightarrow> nat \<Rightarrow> (bool \<times> bitmap) option" where
  "bm_par_set_bit bm b =
     do { old_val \<leftarrow> map_word bm (word_index b); par_set_loop bm (word_index b) (bit_mask b) old_val }"

definition bm_par_clear_bit :: "bitmap \<Rightarrow> nat \<Rightarrow> (bool \<times> bitmap) option" where
  "bm_par_clear_bit bm b =
     do { old_val \<leftarrow> map_word bm (word_index b); par_clear_loop bm (word_index b) (NOT (bit_mask b)) old_val }"

definition bm_par_at_put :: "bitmap \<Rightarrow> nat \<Rightarrow> bool \<Rightarrow> (bool \<times> bitmap) option" where
  "bm_par_at_put bm b v = (if v then bm_par_set_bit bm b else bm_par_clear_bit bm b)"

section \<open>Ranges\<close>

definition inverted_bit_mask_for_range :: "nat \<Rightarrow> nat \<Rightarrow> bm_word_t" where
  "inverted_bit_mask_for_range beg fin =
     (let m = bit_mask beg - 1
      in if bit_in_word fin \<noteq> 0 then m OR NOT (bit_mask fin - 1) else m)"

definition set_range_within_word :: "bitmap \<Rightarrow> nat \<Rightarrow> nat \<Rightarrow> bitmap option" where
  "set_range_within_word bm beg fin =
     (if beg \<noteq> fin then
        let m = inverted_bit_mask_for_range beg fin
        in do { w \<leftarrow> map_word bm (word_index beg); set_word bm (word_index beg) (w OR NOT m) }
      else Some bm)"

definition clear_range_within_word :: "bitmap \<Rightarrow> nat \<Rightarrow> nat \<Rightarrow> bitmap option" where
  "clear_range_within_word bm beg fin =
     (if beg \<noteq> fin then
        let m = inverted_bit_mask_for_range beg fin
        in do { w \<leftarrow> map_word bm (word_index beg); set_word bm (word_index beg) (w AND m) }
      else Some bm)"

partial_function (option) par_put_loop :: "bitmap \<Rightarrow> nat \<Rightarrow> bm_word_t \<Rightarrow> bool \<Rightarrow> bm_word_t \<Rightarrow> bitmap option" where
  "par_put_loop bm pw mr v w =
     (let nw = (if v then w OR NOT mr else w AND mr)
      in do { (res, bm') \<leftarrow> word_cas bm pw nw w;
              if res = w then Some bm' else par_put_loop bm' pw mr v res })"

definition par_put_range_within_word :: "bitmap \<Rightarrow> nat \<Rightarrow> nat \<Rightarrow> bool \<Rightarrow> bitmap option" where
  "par_put_range_within_word bm beg fin v =
     (if beg \<noteq> fin then
        do { w \<leftarrow> map_word bm (word_index beg);
             par_put_loop bm (word_index beg) (inverted_bit_mask_for_range beg fin) v w }
      else Some bm)"

text \<open>\<open>for (idx_t i = beg; i < end; ++i) map[i] = v\<close>; the large versions are \<open>memset\<close>.\<close>

function fill_words :: "bitmap \<Rightarrow> nat \<Rightarrow> nat \<Rightarrow> bm_word_t \<Rightarrow> bitmap option" where
  "fill_words bm i fin v =
     (if i < fin then
        (case set_word bm i v of None \<Rightarrow> None | Some bm' \<Rightarrow> fill_words bm' (i + 1) fin v)
      else Some bm)"
  by pat_completeness auto
termination by (relation "measure (\<lambda>(bm, i, e, v). e - i)") auto

declare fill_words.simps [simp del]

definition set_range_of_words :: "bitmap \<Rightarrow> nat \<Rightarrow> nat \<Rightarrow> bitmap option" where
  "set_range_of_words bm beg fin = fill_words bm beg fin (NOT 0)"

definition clear_range_of_words :: "bitmap \<Rightarrow> nat \<Rightarrow> nat \<Rightarrow> bitmap option" where
  "clear_range_of_words bm beg fin = fill_words bm beg fin 0"

definition bm_memset :: "bitmap \<Rightarrow> nat \<Rightarrow> nat \<Rightarrow> bm_word_t \<Rightarrow> bitmap option" where
  "bm_memset bm beg n v =
     (if n = 0 then Some bm
      else if beg + n \<le> length (bm_map bm)
      then Some (bm\<lparr>bm_map := take beg (bm_map bm) @ replicate n v @ drop (beg + n) (bm_map bm)\<rparr>)
      else None)"

definition set_large_range_of_words :: "bitmap \<Rightarrow> nat \<Rightarrow> nat \<Rightarrow> bitmap option" where
  "set_large_range_of_words bm beg fin = bm_memset bm beg (usub64 fin beg) (NOT 0)"

definition clear_large_range_of_words :: "bitmap \<Rightarrow> nat \<Rightarrow> nat \<Rightarrow> bitmap option" where
  "clear_large_range_of_words bm beg fin = bm_memset bm beg (usub64 fin beg) 0"

definition bm_set_range :: "bitmap \<Rightarrow> nat \<Rightarrow> nat \<Rightarrow> bitmap option" where
  "bm_set_range bm beg fin =
     (let beg_full_word = word_index_round_up bm beg;
          end_full_word = word_index fin
      in if beg_full_word < end_full_word then
           do { bm1 \<leftarrow> set_range_within_word bm beg (bit_index beg_full_word);
                bm2 \<leftarrow> set_range_of_words bm1 beg_full_word end_full_word;
                set_range_within_word bm2 (bit_index end_full_word) fin }
         else
           let boundary = min (bit_index beg_full_word) fin
           in do { bm1 \<leftarrow> set_range_within_word bm beg boundary;
                   set_range_within_word bm1 boundary fin })"

definition bm_clear_range :: "bitmap \<Rightarrow> nat \<Rightarrow> nat \<Rightarrow> bitmap option" where
  "bm_clear_range bm beg fin =
     (let beg_full_word = word_index_round_up bm beg;
          end_full_word = word_index fin
      in if beg_full_word < end_full_word then
           do { bm1 \<leftarrow> clear_range_within_word bm beg (bit_index beg_full_word);
                bm2 \<leftarrow> clear_range_of_words bm1 beg_full_word end_full_word;
                clear_range_within_word bm2 (bit_index end_full_word) fin }
         else
           let boundary = min (bit_index beg_full_word) fin
           in do { bm1 \<leftarrow> clear_range_within_word bm beg boundary;
                   clear_range_within_word bm1 boundary fin })"

definition small_range_words :: nat where "small_range_words = 32"

definition is_small_range_of_words :: "nat \<Rightarrow> nat \<Rightarrow> bool" where
  "is_small_range_of_words beg_full_word end_full_word \<longleftrightarrow> end_full_word \<le> uadd64 beg_full_word small_range_words"

definition bm_set_large_range :: "bitmap \<Rightarrow> nat \<Rightarrow> nat \<Rightarrow> bitmap option" where
  "bm_set_large_range bm beg fin =
     (let beg_full_word = word_index_round_up bm beg;
          end_full_word = word_index fin
      in if is_small_range_of_words beg_full_word end_full_word then bm_set_range bm beg fin
         else do { bm1 \<leftarrow> set_range_within_word bm beg (bit_index beg_full_word);
                   bm2 \<leftarrow> set_large_range_of_words bm1 beg_full_word end_full_word;
                   set_range_within_word bm2 (bit_index end_full_word) fin })"

definition bm_clear_large_range :: "bitmap \<Rightarrow> nat \<Rightarrow> nat \<Rightarrow> bitmap option" where
  "bm_clear_large_range bm beg fin =
     (let beg_full_word = word_index_round_up bm beg;
          end_full_word = word_index fin
      in if is_small_range_of_words beg_full_word end_full_word then bm_clear_range bm beg fin
         else do { bm1 \<leftarrow> clear_range_within_word bm beg (bit_index beg_full_word);
                   bm2 \<leftarrow> clear_large_range_of_words bm1 beg_full_word end_full_word;
                   clear_range_within_word bm2 (bit_index end_full_word) fin })"

definition bm_at_put_range :: "bitmap \<Rightarrow> nat \<Rightarrow> nat \<Rightarrow> bool \<Rightarrow> bitmap option" where
  "bm_at_put_range bm start_offset end_offset v =
     (if v then bm_set_range bm start_offset end_offset else bm_clear_range bm start_offset end_offset)"

definition bm_at_put_large_range :: "bitmap \<Rightarrow> nat \<Rightarrow> nat \<Rightarrow> bool \<Rightarrow> bitmap option" where
  "bm_at_put_large_range bm beg fin v =
     (if v then bm_set_large_range bm beg fin else bm_clear_large_range bm beg fin)"

definition bm_par_at_put_range :: "bitmap \<Rightarrow> nat \<Rightarrow> nat \<Rightarrow> bool \<Rightarrow> bitmap option" where
  "bm_par_at_put_range bm beg fin v =
     (let beg_full_word = word_index_round_up bm beg;
          end_full_word = word_index fin
      in if beg_full_word < end_full_word then
           do { bm1 \<leftarrow> par_put_range_within_word bm beg (bit_index beg_full_word) v;
                bm2 \<leftarrow> (if v then set_range_of_words bm1 beg_full_word end_full_word
                       else clear_range_of_words bm1 beg_full_word end_full_word);
                par_put_range_within_word bm2 (bit_index end_full_word) fin v }
         else
           let boundary = min (bit_index beg_full_word) fin
           in do { bm1 \<leftarrow> par_put_range_within_word bm beg boundary v;
                   par_put_range_within_word bm1 boundary fin v })"

definition bm_par_at_put_large_range :: "bitmap \<Rightarrow> nat \<Rightarrow> nat \<Rightarrow> bool \<Rightarrow> bitmap option" where
  "bm_par_at_put_large_range bm beg fin v =
     (let beg_full_word = word_index_round_up bm beg;
          end_full_word = word_index fin
      in if is_small_range_of_words beg_full_word end_full_word then bm_par_at_put_range bm beg fin v
         else do { bm1 \<leftarrow> par_put_range_within_word bm beg (bit_index beg_full_word) v;
                   bm2 \<leftarrow> (if v then set_large_range_of_words bm1 beg_full_word end_full_word
                          else clear_large_range_of_words bm1 beg_full_word end_full_word);
                   par_put_range_within_word bm2 (bit_index end_full_word) fin v })"

text \<open>The versions with a hint about the size of the range.\<close>

definition bm_set_range_hint :: "bitmap \<Rightarrow> nat \<Rightarrow> nat \<Rightarrow> range_hint \<Rightarrow> bitmap option" where
  "bm_set_range_hint bm beg fin hint =
     (if hint = Small_range \<and> usub64 fin beg = 1 then bm_set_bit bm beg
      else if hint = Large_range then bm_set_large_range bm beg fin else bm_set_range bm beg fin)"

definition bm_clear_range_hint :: "bitmap \<Rightarrow> nat \<Rightarrow> nat \<Rightarrow> range_hint \<Rightarrow> bitmap option" where
  "bm_clear_range_hint bm beg fin hint =
     (if hint = Small_range \<and> usub64 fin beg = 1 then bm_clear_bit bm beg
      else if hint = Large_range then bm_clear_large_range bm beg fin else bm_clear_range bm beg fin)"

definition bm_par_set_range_hint :: "bitmap \<Rightarrow> nat \<Rightarrow> nat \<Rightarrow> range_hint \<Rightarrow> bitmap option" where
  "bm_par_set_range_hint bm beg fin hint =
     (if hint = Small_range \<and> usub64 fin beg = 1 then map_option snd (bm_par_at_put bm beg True)
      else if hint = Large_range then bm_par_at_put_large_range bm beg fin True
      else bm_par_at_put_range bm beg fin True)"

definition bm_par_clear_range_hint :: "bitmap \<Rightarrow> nat \<Rightarrow> nat \<Rightarrow> range_hint \<Rightarrow> bitmap option" where
  "bm_par_clear_range_hint bm beg fin hint =
     (if hint = Small_range \<and> usub64 fin beg = 1 then map_option snd (bm_par_at_put bm beg False)
      else if hint = Large_range then bm_par_at_put_large_range bm beg fin False
      else bm_par_at_put_range bm beg fin False)"

definition bm_clear :: "bitmap \<Rightarrow> bitmap option" where
  "bm_clear bm = clear_range_of_words bm 0 (size_in_words bm)"

definition bm_clear_large :: "bitmap \<Rightarrow> bitmap option" where
  "bm_clear_large bm = clear_large_range_of_words bm 0 (size_in_words bm)"

section \<open>Resizing\<close>

text \<open>
  \<open>resize\<close>. With \<open>in_resource_area\<close> false the old array is freed before it is copied from: \<open>freed\<close> is
  what the copy then finds there. \<open>fresh\<close> is the initial contents of the new array.
\<close>

definition bm_resize :: "bm_word_t list \<Rightarrow> (nat \<Rightarrow> bm_word_t) \<Rightarrow> bitmap \<Rightarrow> nat \<Rightarrow> bool \<Rightarrow> bitmap option" where
  "bm_resize freed fresh bm size_in_bits in_resource_area =
     (let old_size_in_words = size_in_words bm;
          old_map = (if in_resource_area then bm_map bm else freed);
          bm1 = bm\<lparr>bm_size := size_in_bits\<rparr>;
          new_size_in_words = size_in_words bm1;
          n = min old_size_in_words new_size_in_words;
          bm2 = bm1\<lparr>bm_map := take n old_map @ map fresh [n..<new_size_in_words]\<rparr>
      in if length old_map < n then None
         else if old_size_in_words < new_size_in_words
         then clear_range_of_words bm2 old_size_in_words (size_in_words bm2)
         else Some bm2)"

definition new_bitmap :: "(nat \<Rightarrow> bm_word_t) \<Rightarrow> nat \<Rightarrow> bitmap option" where
  "new_bitmap fresh size_in_bits = bm_resize [] fresh \<lparr>bm_map = [], bm_size = 0\<rparr> size_in_bits True"

definition bm_at_put_grow :: "(nat \<Rightarrow> bm_word_t) \<Rightarrow> bitmap \<Rightarrow> nat \<Rightarrow> bool \<Rightarrow> bitmap option" where
  "bm_at_put_grow fresh bm offset v =
     do { bm1 \<leftarrow> (if bm_size bm \<le> offset
                then bm_resize [] fresh bm (2 * max (bm_size bm) offset mod size_max) True
                else Some bm);
          bm_at_put bm1 offset v }"

end
