(* ===== verification/BitMap_Correct.thy ===== *)
theory BitMap_Correct
  imports BitMap
begin

text \<open>
  The bit map as a set of bit numbers: every operation of \<open>BitMap\<close> on ranges computes the expected set,
  and the optimised variants (large ranges, hints, compare-and-swap) agree with the plain ones.
\<close>

section \<open>The set of bits\<close>

definition bm_bits :: "bitmap \<Rightarrow> nat set" where
  "bm_bits bm = {i. i div 64 < length (bm_map bm) \<and> bit (bm_map bm ! (i div 64)) (i mod 64)}"

definition bm_ok :: "bitmap \<Rightarrow> bool" where
  "bm_ok bm \<longleftrightarrow> bm_size bm + 63 < size_max \<and> length (bm_map bm) = size_in_words bm"

definition bm_like :: "bitmap \<Rightarrow> bitmap \<Rightarrow> bool" where
  "bm_like bm bm' \<longleftrightarrow> bm_size bm' = bm_size bm \<and> length (bm_map bm') = length (bm_map bm)"

lemma bm_like_trans: "bm_like a b \<Longrightarrow> bm_like b c \<Longrightarrow> bm_like a c"
  by (simp add: bm_like_def)

lemma bm_ok_like: "bm_like bm bm' \<Longrightarrow> bm_ok bm \<Longrightarrow> bm_ok bm'"
  by (simp add: bm_like_def bm_ok_def size_in_words_def)

lemma bm_eqI:
  assumes "bm_like a b" and "bm_bits a = bm_bits b"
  shows "a = (b :: bitmap)"
proof -
  have "bm_map a ! w = bm_map b ! w" if w: "w < length (bm_map a)" for w
  proof (rule bit_word_eqI)
    fix n assume n: "n < LENGTH(64)"
    have "64 * w + n \<in> bm_bits a \<longleftrightarrow> 64 * w + n \<in> bm_bits b" using assms(2) by simp
    then show "bit (bm_map a ! w) n = bit (bm_map b ! w) n" using w n assms(1) by (simp add: bm_bits_def bm_like_def)
  qed
  then have "bm_map a = bm_map b" using assms(1) by (intro nth_equalityI) (auto simp: bm_like_def)
  then show ?thesis using assms(1) by (simp add: bm_like_def)
qed

lemma bm_ok_words:
  assumes "bm_ok bm"
  shows "length (bm_map bm) = (bm_size bm + 63) div 64" and "bm_size bm \<le> 64 * length (bm_map bm)"
    and "64 * length (bm_map bm) < size_max"
proof -
  show len: "length (bm_map bm) = (bm_size bm + 63) div 64"
    using assms by (simp add: bm_ok_def size_in_words_def word_index_def size_simps)
  have "(bm_size bm + 63) mod 64 < 64" by simp
  then show "bm_size bm \<le> 64 * length (bm_map bm)"
    using mult_div_mod_eq [of 64 "bm_size bm + 63"] unfolding len by linarith
  have "64 * ((bm_size bm + 63) div 64) \<le> bm_size bm + 63" by simp
  then show "64 * length (bm_map bm) < size_max" unfolding len using assms unfolding bm_ok_def by linarith
qed

section \<open>Words and masks\<close>

lemma set_word_bits:
  assumes "w < length (bm_map bm)"
  obtains bm' where "set_word bm w v = Some bm'" and "bm_like bm bm'"
    and "\<And>i. i \<in> bm_bits bm' \<longleftrightarrow> (if i div 64 = w then bit v (i mod 64) else i \<in> bm_bits bm)"
  using assms by (intro that [of "bm\<lparr>bm_map := (bm_map bm)[w := v]\<rparr>"])
    (auto simp: set_word_def bm_like_def bm_bits_def nth_list_update)

lemma bit_mask_minus_one: "bit_mask b - 1 = mask (b mod 64)"
  by (simp add: bit_mask_def bit_in_word_def mask_eq_exp_minus_1 push_bit_eq_mult)

lemma bit_bit_mask: "bit (bit_mask b) n \<longleftrightarrow> n = b mod 64"
  by (auto simp: bit_mask_def bit_in_word_def push_bit_eq_mult bit_exp_iff)

lemma pred_div:
  fixes e :: nat
  assumes "0 < e"
  shows "e div 64 = (if e mod 64 = 0 then Suc ((e - 1) div 64) else (e - 1) div 64)"
  using assms by (cases e) (auto simp: div_Suc)

lemma bit_inverted_mask:
  assumes "b < e" and "b div 64 = (e - 1) div 64" and "n < 64"
  shows "bit (inverted_bit_mask_for_range b e) n \<longleftrightarrow> \<not> (b \<le> 64 * (b div 64) + n \<and> 64 * (b div 64) + n < e)"
proof -
  define w where "w = b div 64"
  have b: "b = 64 * w + b mod 64" "b mod 64 < 64" by (simp_all add: w_def)
  show ?thesis
  proof (cases "e mod 64 = 0")
    case True
    then have "e div 64 = Suc w" using assms(1,2) pred_div [of e] by (simp add: w_def)
    then have "e = 64 * w + 64" using True mult_div_mod_eq [of 64 e] by simp
    then have "bit (inverted_bit_mask_for_range b e) n \<longleftrightarrow> n < b mod 64"
      using assms(3) by (simp add: inverted_bit_mask_for_range_def bit_in_word_def bit_mask_minus_one bit_mask_iff)
    then show ?thesis using b \<open>e = 64 * w + 64\<close> assms(3) unfolding w_def [symmetric] by linarith
  next
    case False
    then have "e div 64 = w" using assms(1,2) pred_div [of e] by (simp add: w_def)
    then have e: "e = 64 * w + e mod 64" using mult_div_mod_eq [of 64 e] by simp
    have "bit (inverted_bit_mask_for_range b e) n \<longleftrightarrow> n < b mod 64 \<or> \<not> n < e mod 64"
      using assms(3) False
      by (simp add: inverted_bit_mask_for_range_def bit_in_word_def bit_mask_minus_one bit_mask_iff bit_or_iff bit_not_iff)
    then show ?thesis using b e unfolding w_def [symmetric] by linarith
  qed
qed

text \<open>Adding or removing a set, according to the value put.\<close>

definition put :: "bool \<Rightarrow> nat set \<Rightarrow> nat set \<Rightarrow> nat set" where
  "put v S A = (if v then A \<union> S else A - S)"

definition put_within_word :: "bool \<Rightarrow> bitmap \<Rightarrow> nat \<Rightarrow> nat \<Rightarrow> bitmap option" where
  "put_within_word v = (if v then set_range_within_word else clear_range_within_word)"

lemma put_Un: "put v S (put v T A) = put v (S \<union> T) A"
  by (auto simp: put_def)

lemma put_within_word_bits:
  assumes "b = e \<or> b < e \<and> b div 64 = (e - 1) div 64 \<and> b div 64 < length (bm_map bm)"
  shows "\<exists>bm'. put_within_word v bm b e = Some bm' \<and> bm_like bm bm' \<and> bm_bits bm' = put v {b..<e} (bm_bits bm)"
proof (cases "b = e")
  case True
  then show ?thesis
    by (simp add: put_within_word_def set_range_within_word_def clear_range_within_word_def put_def bm_like_def)
next
  case False
  then have be: "b < e" "b div 64 = (e - 1) div 64" "b div 64 < length (bm_map bm)" using assms by auto
  define m x where "m = inverted_bit_mask_for_range b e"
    and "x = (if v then bm_map bm ! (b div 64) OR NOT m else bm_map bm ! (b div 64) AND m)"
  obtain bm' where bm': "set_word bm (b div 64) x = Some bm'" "bm_like bm bm'"
    "\<And>i. i \<in> bm_bits bm' \<longleftrightarrow> (if i div 64 = b div 64 then bit x (i mod 64) else i \<in> bm_bits bm)"
    using set_word_bits [OF be(3), of x] by blast
  have "i \<in> bm_bits bm' \<longleftrightarrow> i \<in> put v {b..<e} (bm_bits bm)" for i
  proof (cases "i div 64 = b div 64")
    case True
    have i: "64 * (b div 64) + i mod 64 = i" unfolding True [symmetric] by simp
    have "bit m (i mod 64) \<longleftrightarrow> \<not> (b \<le> i \<and> i < e)"
      using bit_inverted_mask [OF be(1,2), of "i mod 64"] unfolding i by (simp add: m_def)
    then show ?thesis using True be(3) unfolding bm'(3)
      by (auto simp: x_def put_def bm_bits_def bit_or_iff bit_and_iff bit_not_iff)
  next
    case False
    have "\<not> (b \<le> i \<and> i < e)"
    proof
      assume "b \<le> i \<and> i < e"
      then have "b div 64 \<le> i div 64" "i div 64 \<le> (e - 1) div 64" by (auto intro: div_le_mono)
      then show False using False be(2) by simp
    qed
    then show ?thesis using False unfolding bm'(3) by (auto simp: put_def)
  qed
  then have "bm_bits bm' = put v {b..<e} (bm_bits bm)" by blast
  moreover have "put_within_word v bm b e = Some bm'"
    using \<open>b \<noteq> e\<close> be(3) bm'(1) by (simp add: put_within_word_def set_range_within_word_def
      clear_range_within_word_def map_word_def word_index_def x_def m_def [symmetric] split: if_split_asm)
  ultimately show ?thesis using bm'(2) by blast
qed

lemma fill_words_eq:
  assumes "i \<le> e" and "e \<le> length (bm_map bm)"
  shows "fill_words bm i e v = Some (bm\<lparr>bm_map := take i (bm_map bm) @ replicate (e - i) v @ drop e (bm_map bm)\<rparr>)"
  using assms
proof (induction "e - i" arbitrary: i bm)
  case 0
  then show ?case by (subst fill_words.simps) simp
next
  case (Suc k)
  then have i: "i < e" "k = e - Suc i" by auto
  define bm1 where "bm1 = bm\<lparr>bm_map := (bm_map bm)[i := v]\<rparr>"
  have "fill_words bm i e v = fill_words bm1 (Suc i) e v"
    using i(1) Suc.prems by (subst fill_words.simps) (simp add: set_word_def bm1_def)
  also have "\<dots> = Some (bm1\<lparr>bm_map := take (Suc i) (bm_map bm1) @ replicate (e - Suc i) v @ drop e (bm_map bm1)\<rparr>)"
    using Suc.prems i by (intro Suc.hyps(1)) (simp_all add: bm1_def)
  finally have eq: "fill_words bm i e v =
    Some (bm1\<lparr>bm_map := take (Suc i) (bm_map bm1) @ replicate (e - Suc i) v @ drop e (bm_map bm1)\<rparr>)" .
  have "take (Suc i) (bm_map bm1) = take i (bm_map bm) @ [v]"
    using i(1) Suc.prems(2) by (simp add: bm1_def take_Suc_conv_app_nth)
  moreover have "e - i = Suc (e - Suc i)" using i(1) by simp
  ultimately show ?case using eq i(1) by (simp add: bm1_def)
qed

lemma fill_words_bits:
  assumes "i \<le> e" and "e \<le> length (bm_map bm)"
  shows "\<exists>bm'. fill_words bm i e (if v then NOT 0 else 0) = Some bm' \<and> bm_like bm bm' \<and>
    bm_bits bm' = put v {64 * i..<64 * e} (bm_bits bm)"
proof -
  define x :: bm_word_t where "x = (if v then NOT 0 else 0)"
  define bm' where "bm' = bm\<lparr>bm_map := take i (bm_map bm) @ replicate (e - i) x @ drop e (bm_map bm)\<rparr>"
  have len: "length (bm_map bm') = length (bm_map bm)" using assms by (simp add: bm'_def)
  have word: "bm_map bm' ! w = (if i \<le> w \<and> w < e then x else bm_map bm ! w)" if "w < length (bm_map bm)" for w
    using assms that by (auto simp: bm'_def nth_append)
  have "bit x (j mod 64) = v" for j by (simp add: x_def bit_not_iff)
  moreover have "i \<le> j div 64 \<and> j div 64 < e \<longleftrightarrow> 64 * i \<le> j \<and> j < 64 * e" for j
    by (auto simp: less_eq_div_iff_mult_less_eq div_less_iff_less_mult mult.commute)
  moreover have "j div 64 < length (bm_map bm)" if "j < 64 * e" for j
    using that assms(2) by (simp add: div_less_iff_less_mult)
  ultimately have "j \<in> bm_bits bm' \<longleftrightarrow> j \<in> put v {64 * i..<64 * e} (bm_bits bm)" for j
    using word [of "j div 64"] len by (auto simp: bm_bits_def put_def split: if_splits)
  moreover have "fill_words bm i e x = Some bm'" using fill_words_eq [OF assms, of x] by (simp add: bm'_def)
  ultimately show ?thesis using len by (intro exI [of _ bm']) (auto simp: x_def bm_like_def bm'_def)
qed

section \<open>Ranges\<close>

lemma round_up_word:
  assumes "bm_ok bm" and "b \<le> bm_size bm"
  shows "word_index_round_up bm b = (b + 63) div 64" and "(b + 63) div 64 \<le> length (bm_map bm)"
    and "bit_index ((b + 63) div 64) = 64 * ((b + 63) div 64)"
    and "bit_index (b div 64) = 64 * (b div 64)"
proof -
  have b: "b + 63 < size_max" using assms by (simp add: bm_ok_def)
  then show "word_index_round_up bm b = (b + 63) div 64"
    by (simp add: word_index_round_up_def word_index_def Let_def size_simps)
  show le: "(b + 63) div 64 \<le> length (bm_map bm)" unfolding bm_ok_words(1) [OF assms(1)] using assms(2) by (intro div_le_mono) simp
  show "bit_index ((b + 63) div 64) = 64 * ((b + 63) div 64)"
    using le bm_ok_words(3) [OF assms(1)] by (simp add: bit_index_def)
  have "64 * (b div 64) < size_max" using b by (intro order.strict_trans1 [OF _ b]) simp
  then show "bit_index (b div 64) = 64 * (b div 64)" by (simp add: bit_index_def)
qed

lemma range_word:
  assumes "bm_ok bm" and "b \<le> e" and "e \<le> bm_size bm" and "64 * (e div 64) \<le> b"
  shows "b = e \<or> b < e \<and> b div 64 = (e - 1) div 64 \<and> b div 64 < length (bm_map bm)"
proof (cases "b = e")
  case False
  then have be: "b < e" using assms(2) by simp
  have "b div 64 \<le> (e - 1) div 64" "(e - 1) div 64 \<le> e div 64" using be by (auto intro: div_le_mono)
  moreover have "e div 64 \<le> b div 64" using assms(4) by (simp add: less_eq_div_iff_mult_less_eq mult.commute)
  moreover have "b div 64 < length (bm_map bm)"
    using be assms(3) bm_ok_words(2) [OF assms(1)] by (simp add: div_less_iff_less_mult mult.commute)
  ultimately show ?thesis using be by simp
qed simp

lemma range_first_word:
  assumes "bm_ok bm" and "b \<le> e" and "e \<le> bm_size bm" and "e \<le> 64 * ((b + 63) div 64)"
  shows "b = e \<or> b < e \<and> b div 64 = (e - 1) div 64 \<and> b div 64 < length (bm_map bm)"
proof (cases "b = e")
  case False
  then have be: "b < e" using assms(2) by simp
  have "b div 64 \<le> (e - 1) div 64" using be by (intro div_le_mono) simp
  moreover have "(e - 1) div 64 < (b + 63) div 64" using be assms(4) by (simp add: div_less_iff_less_mult mult.commute)
  moreover have "(b + 63) div 64 \<le> Suc (b div 64)" using div_le_mono [of "b + 63" "b + 64" 64] by simp
  moreover have "b div 64 < length (bm_map bm)"
    using be assms(3) bm_ok_words(2) [OF assms(1)] by (simp add: div_less_iff_less_mult mult.commute)
  ultimately show ?thesis using be by linarith
qed simp

lemma bm_at_put_range_def2:
  "bm_at_put_range bm b e v =
     (let bf = word_index_round_up bm b; ef = word_index e
      in if bf < ef then
           do { bm1 \<leftarrow> put_within_word v bm b (bit_index bf);
                bm2 \<leftarrow> fill_words bm1 bf ef (if v then NOT 0 else 0);
                put_within_word v bm2 (bit_index ef) e }
         else let boundary = min (bit_index bf) e
           in do { bm1 \<leftarrow> put_within_word v bm b boundary; put_within_word v bm1 boundary e })"
  by (simp add: bm_at_put_range_def bm_set_range_def bm_clear_range_def put_within_word_def
      set_range_of_words_def clear_range_of_words_def Let_def)

lemma bm_at_put_range_bits:
  assumes ok: "bm_ok bm" and be: "b \<le> e" "e \<le> bm_size bm"
  shows "\<exists>bm'. bm_at_put_range bm b e v = Some bm' \<and> bm_like bm bm' \<and> bm_bits bm' = put v {b..<e} (bm_bits bm)"
proof -
  define bf where "bf = (b + 63) div 64"
  have b: "b \<le> bm_size bm" using be by simp
  note ru = round_up_word [OF ok b, folded bf_def] round_up_word(4) [OF ok be(2)]
  have "(b + 63) mod 64 < 64" by simp
  then have lo: "b \<le> 64 * bf" using mult_div_mod_eq [of 64 "b + 63"] unfolding bf_def by linarith
  show ?thesis
  proof (cases "bf < e div 64")
    case True
    then have le: "64 * bf \<le> e" "64 * bf \<le> 64 * (e div 64)" "64 * (e div 64) \<le> e" by simp_all
    have lens: "e div 64 \<le> length (bm_map bm)" unfolding bm_ok_words(1) [OF ok] using be(2) by (intro div_le_mono) simp
    obtain bm1 where bm1: "put_within_word v bm b (64 * bf) = Some bm1" "bm_like bm bm1"
      "bm_bits bm1 = put v {b..<64 * bf} (bm_bits bm)"
      using put_within_word_bits [OF range_first_word [OF ok lo]] le be unfolding bf_def by fastforce
    obtain bm2 where bm2: "fill_words bm1 bf (e div 64) (if v then NOT 0 else 0) = Some bm2" "bm_like bm1 bm2"
      "bm_bits bm2 = put v {64 * bf..<64 * (e div 64)} (bm_bits bm1)"
      using fill_words_bits [of bf "e div 64" bm1 v] True lens bm1(2) by (auto simp: bm_like_def)
    have ok2: "bm_ok bm2" "e \<le> bm_size bm2"
      using bm_ok_like [OF bm_like_trans [OF bm1(2) bm2(2)] ok] bm1(2) bm2(2) be(2) by (auto simp: bm_like_def)
    obtain bm3 where bm3: "put_within_word v bm2 (64 * (e div 64)) e = Some bm3" "bm_like bm2 bm3"
      "bm_bits bm3 = put v {64 * (e div 64)..<e} (bm_bits bm2)"
      using put_within_word_bits [OF range_word [OF ok2(1) le(3) ok2(2) order_refl]] by blast
    have "{b..<e} = {64 * (e div 64)..<e} \<union> ({64 * bf..<64 * (e div 64)} \<union> {b..<64 * bf})"
      using lo le by (auto simp: ivl_disj_un)
    then have "bm_bits bm3 = put v {b..<e} (bm_bits bm)" by (simp only: bm3(3) bm2(3) bm1(3) put_Un)
    moreover have "bm_at_put_range bm b e v = Some bm3"
      using True by (simp add: bm_at_put_range_def2 ru word_index_def bm1(1) bm2(1) bm3(1))
    ultimately show ?thesis using bm1(2) bm2(2) bm3(2) bm_like_trans by blast
  next
    case False
    define m where "m = min (64 * bf) e"
    have m: "b \<le> m" "m \<le> e" "m \<le> 64 * bf" using lo be by (auto simp: m_def)
    have m2: "64 * (e div 64) \<le> m" using False by (auto simp: m_def)
    obtain bm1 where bm1: "put_within_word v bm b m = Some bm1" "bm_like bm bm1" "bm_bits bm1 = put v {b..<m} (bm_bits bm)"
      using put_within_word_bits [OF range_first_word [OF ok m(1)]] m be unfolding bf_def by fastforce
    have ok1: "bm_ok bm1" "e \<le> bm_size bm1" using bm_ok_like [OF bm1(2) ok] bm1(2) be(2) by (auto simp: bm_like_def)
    obtain bm2 where bm2: "put_within_word v bm1 m e = Some bm2" "bm_like bm1 bm2" "bm_bits bm2 = put v {m..<e} (bm_bits bm1)"
      using put_within_word_bits [OF range_word [OF ok1(1) m(2) ok1(2) m2]] by blast
    have "{b..<e} = {m..<e} \<union> {b..<m}" using m by auto
    then have "bm_bits bm2 = put v {b..<e} (bm_bits bm)" by (simp only: bm2(3) bm1(3) put_Un)
    moreover have "bm_at_put_range bm b e v = Some bm2"
      using False bm1(1) bm2(1) by (simp add: bm_at_put_range_def2 ru word_index_def m_def)
    ultimately show ?thesis using bm1(2) bm2(2) bm_like_trans by blast
  qed
qed

section \<open>The optimised variants agree with the plain ones\<close>

lemma word_cas_same: "map_word bm w = Some old \<Longrightarrow> word_cas bm w new old = map_option (Pair old) (set_word bm w new)"
  by (cases "set_word bm w new") (simp_all add: word_cas_def)

lemma par_put_within_word: "par_put_range_within_word bm b e v = put_within_word v bm b e"
proof (cases "map_word bm (word_index b)")
  case None
  then show ?thesis
    by (simp add: par_put_range_within_word_def put_within_word_def set_range_within_word_def clear_range_within_word_def)
next
  case (Some w)
  have "par_put_loop bm (word_index b) mr v w = set_word bm (word_index b) (if v then w OR NOT mr else w AND mr)" for mr
    by (subst par_put_loop.simps) (auto simp: word_cas_same [OF Some] split: Option.bind_splits)
  then show ?thesis using Some
    by (cases v) (simp_all add: par_put_range_within_word_def put_within_word_def set_range_within_word_def clear_range_within_word_def)
qed

lemma par_at_put_range_eq: "bm_par_at_put_range bm b e v = bm_at_put_range bm b e v"
  by (simp add: bm_par_at_put_range_def bm_at_put_range_def2 par_put_within_word set_range_of_words_def
      clear_range_of_words_def Let_def if_distrib [of "fill_words _ _ _"] cong: if_cong)

lemma memset_fill:
  assumes "i \<le> e" and "e \<le> length (bm_map bm)" and "length (bm_map bm) < size_max"
  shows "bm_memset bm i (usub64 e i) v = fill_words bm i e v"
proof -
  have "usub64 e i = e - i" using assms by (simp add: size_simps)
  then show ?thesis using assms fill_words_eq [OF assms(1,2), of v] by (auto simp: bm_memset_def)
qed

lemma large_steps:
  assumes ok: "bm_ok bm" and be: "b \<le> e" "e \<le> bm_size bm"
    and big: "\<not> is_small_range_of_words (word_index_round_up bm b) (word_index e)"
  shows "do { bm1 \<leftarrow> put_within_word v bm b (bit_index (word_index_round_up bm b));
              bm2 \<leftarrow> bm_memset bm1 (word_index_round_up bm b) (usub64 (word_index e) (word_index_round_up bm b))
                        (if v then NOT 0 else 0);
              put_within_word v bm2 (bit_index (word_index e)) e } = bm_at_put_range bm b e v"
proof -
  define bf where "bf = (b + 63) div 64"
  have b: "b \<le> bm_size bm" using be by simp
  note ru = round_up_word [OF ok b, folded bf_def]
  have lens: "e div 64 \<le> length (bm_map bm)" unfolding bm_ok_words(1) [OF ok] using be(2) by (intro div_le_mono) simp
  have sm: "length (bm_map bm) < size_max" using bm_ok_words(3) [OF ok] by simp
  have "bf < e div 64"
  proof (rule ccontr)
    assume "\<not> bf < e div 64"
    then have "uadd64 bf 32 = bf + 32" using ru(2) bm_ok_words(3) [OF ok]
      by (intro uadd64_less) (simp add: size_max_def)
    then show False using big \<open>\<not> bf < e div 64\<close>
      by (simp add: is_small_range_of_words_def small_range_words_def ru(1) word_index_def)
  qed
  moreover have "bm_memset bm1 bf (usub64 (e div 64) bf) x = fill_words bm1 bf (e div 64) x"
    if "bm_like bm bm1" for bm1 x
    using that lens sm \<open>bf < e div 64\<close> by (intro memset_fill) (auto simp: bm_like_def)
  moreover have "bm_like bm bm1" if "put_within_word v bm b c = Some bm1" for bm1 c
    using that by (auto simp: put_within_word_def set_range_within_word_def clear_range_within_word_def
        set_word_def bm_like_def split: if_split_asm Option.bind_splits)
  ultimately show ?thesis
    by (cases "put_within_word v bm b (bit_index bf)") (simp_all add: bm_at_put_range_def2 ru(1) word_index_def Let_def)
qed

lemma at_put_large_range_eq:
  assumes "bm_ok bm" and "b \<le> e" and "e \<le> bm_size bm"
  shows "bm_at_put_large_range bm b e v = bm_at_put_range bm b e v"
proof (cases "is_small_range_of_words (word_index_round_up bm b) (word_index e)")
  case True
  then show ?thesis
    by (simp add: bm_at_put_large_range_def bm_at_put_range_def bm_set_large_range_def bm_clear_large_range_def Let_def)
next
  case False
  then show ?thesis unfolding large_steps [OF assms False, symmetric]
    by (simp add: bm_at_put_large_range_def bm_set_large_range_def bm_clear_large_range_def put_within_word_def
        set_large_range_of_words_def clear_large_range_of_words_def Let_def)
qed

lemma par_at_put_large_range_eq:
  assumes "bm_ok bm" and "b \<le> e" and "e \<le> bm_size bm"
  shows "bm_par_at_put_large_range bm b e v = bm_at_put_range bm b e v"
proof (cases "is_small_range_of_words (word_index_round_up bm b) (word_index e)")
  case True
  then show ?thesis by (simp add: bm_par_at_put_large_range_def par_at_put_range_eq Let_def)
next
  case False
  then show ?thesis unfolding large_steps [OF assms False, symmetric]
    by (simp add: bm_par_at_put_large_range_def par_put_within_word set_large_range_of_words_def
        clear_large_range_of_words_def Let_def if_distrib [of "bm_memset _ _ _"] cong: if_cong)
qed

section \<open>Single bits\<close>

lemma word_index_less:
  assumes "bm_ok bm" and "i < bm_size bm"
  shows "word_index i < length (bm_map bm)"
  using assms(2) bm_ok_words(2) [OF assms(1)] by (simp add: word_index_def div_less_iff_less_mult)

lemma bm_at_bits:
  assumes "word_index i < length (bm_map bm)"
  shows "bm_at bm i = Some (i \<in> bm_bits bm)"
proof -
  have "w AND bit_mask i \<noteq> 0 \<longleftrightarrow> bit w (i mod 64)" for w :: bm_word_t
  proof
    assume "bit w (i mod 64)"
    then have "bit (w AND bit_mask i) (i mod 64)" by (simp add: bit_and_iff bit_bit_mask)
    then show "w AND bit_mask i \<noteq> 0" by auto
  next
    assume "w AND bit_mask i \<noteq> 0"
    then obtain n where "bit (w AND bit_mask i) n" by (auto simp: bit_eq_iff)
    then show "bit w (i mod 64)" by (auto simp: bit_and_iff bit_bit_mask)
  qed
  then show ?thesis using assms by (simp add: bm_at_def map_word_def bm_bits_def word_index_def)
qed

lemma bm_at_put_bits:
  assumes "word_index i < length (bm_map bm)"
  shows "\<exists>bm'. bm_at_put bm i v = Some bm' \<and> bm_like bm bm' \<and> bm_bits bm' = put v {i} (bm_bits bm)"
proof -
  have w: "i div 64 < length (bm_map bm)" using assms by (simp add: word_index_def)
  define x where "x = (if v then bm_map bm ! (i div 64) OR bit_mask i else bm_map bm ! (i div 64) AND NOT (bit_mask i))"
  obtain bm' where bm': "set_word bm (i div 64) x = Some bm'" "bm_like bm bm'"
    "\<And>j. j \<in> bm_bits bm' \<longleftrightarrow> (if j div 64 = i div 64 then bit x (j mod 64) else j \<in> bm_bits bm)"
    using set_word_bits [OF w, of x] by blast
  have same: "j = i" if "j div 64 = i div 64" "j mod 64 = i mod 64" for j
    using that by (metis mult_div_mod_eq)
  have "j \<in> bm_bits bm' \<longleftrightarrow> j \<in> put v {i} (bm_bits bm)" for j
  proof (cases "j div 64 = i div 64")
    case True
    then have "j \<in> bm_bits bm \<longleftrightarrow> bit (bm_map bm ! (i div 64)) (j mod 64)" using w by (simp add: bm_bits_def)
    then show ?thesis using True same unfolding bm'(3)
      by (auto simp: x_def put_def bit_or_iff bit_and_iff bit_not_iff bit_bit_mask)
  next
    case False
    then show ?thesis unfolding bm'(3) by (auto simp: put_def)
  qed
  then have "bm_bits bm' = put v {i} (bm_bits bm)" by blast
  moreover have "bm_at_put bm i v = Some bm'"
    using w bm'(1) by (simp add: bm_at_put_def bm_set_bit_def bm_clear_bit_def map_word_def word_index_def x_def split: if_split_asm)
  ultimately show ?thesis using bm'(2) by blast
qed

lemma set_word_same: "map_word bm w = Some x \<Longrightarrow> set_word bm w x = Some bm"
  by (auto simp: map_word_def set_word_def split: if_split_asm)

lemma bm_par_at_put_eq:
  assumes "word_index i < length (bm_map bm)"
  shows "bm_par_at_put bm i v = map_option (Pair ((i \<in> bm_bits bm) \<noteq> v)) (bm_at_put bm i v)"
proof -
  define w where "w = bm_map bm ! word_index i"
  have m: "map_word bm (word_index i) = Some w" using assms by (simp add: map_word_def w_def)
  have b: "i \<in> bm_bits bm \<longleftrightarrow> bit w (i mod 64)" using assms by (simp add: bm_bits_def word_index_def w_def)
  have "w OR bit_mask i = w" if "bit w (i mod 64)"
    using that by (intro bit_word_eqI) (auto simp: bit_or_iff bit_bit_mask)
  moreover have "w AND NOT (bit_mask i) = w" if "\<not> bit w (i mod 64)"
    using that by (intro bit_word_eqI) (auto simp: bit_and_iff bit_not_iff bit_bit_mask)
  moreover have "bit (w OR bit_mask i) (i mod 64)" "\<not> bit (w AND NOT (bit_mask i)) (i mod 64)"
    by (simp_all add: bit_or_iff bit_and_iff bit_not_iff bit_bit_mask)
  ultimately have s: "w OR bit_mask i = w \<longleftrightarrow> bit w (i mod 64)" "w AND NOT (bit_mask i) = w \<longleftrightarrow> \<not> bit w (i mod 64)"
    by metis+
  have "par_set_loop bm (word_index i) (bit_mask i) w = map_option (Pair (\<not> bit w (i mod 64))) (set_word bm (word_index i) (w OR bit_mask i))"
    using s(1) set_word_same [OF m] by (subst par_set_loop.simps) (auto simp: Let_def word_cas_same [OF m] split: Option.bind_splits)
  moreover have "par_clear_loop bm (word_index i) (NOT (bit_mask i)) w =
      map_option (Pair (bit w (i mod 64))) (set_word bm (word_index i) (w AND NOT (bit_mask i)))"
    using s(2) set_word_same [OF m] by (subst par_clear_loop.simps) (auto simp: Let_def word_cas_same [OF m] split: Option.bind_splits)
  ultimately show ?thesis
    using m b by (simp add: bm_par_at_put_def bm_par_set_bit_def bm_par_clear_bit_def bm_at_put_def bm_set_bit_def bm_clear_bit_def)
qed

lemma at_put_range_single:
  assumes ok: "bm_ok bm" and "Suc b \<le> bm_size bm"
  shows "bm_at_put bm b v = bm_at_put_range bm b (Suc b) v"
proof -
  obtain x where x: "bm_at_put bm b v = Some x" "bm_like bm x" "bm_bits x = put v {b} (bm_bits bm)"
    using bm_at_put_bits [OF word_index_less [OF ok], of b v] assms(2) by auto
  obtain y where y: "bm_at_put_range bm b (Suc b) v = Some y" "bm_like bm y" "bm_bits y = put v {b..<Suc b} (bm_bits bm)"
    using bm_at_put_range_bits [OF ok _ assms(2), of b v] by auto
  have "x = y" using x y by (intro bm_eqI) (auto simp: bm_like_def)
  then show ?thesis using x y by simp
qed

end
