(* ===== verification/BitMap_Query.thy ===== *)
theory BitMap_Query
  imports BitMap_Correct
begin

text \<open>
  Searching, comparing, combining, counting and iterating in \<open>src/src/share/vm/utilities/bitMap.cpp\<close> and
  \<open>bitMap.inline.hpp\<close>, with the proof that they compute the corresponding operations on sets.
\<close>

section \<open>Searching\<close>

text \<open>The loops over the bits of a word; \<open>first_one\<close> does not end on 0.\<close>

partial_function (option) first_one :: "bm_word_t \<Rightarrow> nat \<Rightarrow> nat option" where
  "first_one res off = (if res AND 1 = 0 then first_one (drop_bit 1 res) (off + 1) else Some off)"

partial_function (option) first_zero :: "bm_word_t \<Rightarrow> nat \<Rightarrow> nat option" where
  "first_zero res off = (if res AND 1 \<noteq> 0 then first_zero (drop_bit 1 res) (off + 1) else Some off)"

function next_one_words :: "bitmap \<Rightarrow> nat \<Rightarrow> nat \<Rightarrow> nat \<Rightarrow> nat option" where
  "next_one_words bm index r_index r_offset =
     (if index < r_index then
        (case map_word bm index of None \<Rightarrow> None
         | Some res \<Rightarrow>
             if res \<noteq> 0 then map_option (\<lambda>res_offset. min res_offset r_offset) (first_one res (bit_index index))
             else next_one_words bm (index + 1) r_index r_offset)
      else Some r_offset)"
  by pat_completeness auto
termination by (relation "measure (\<lambda>(bm, i, r, _). r - i)") auto

function next_zero_words :: "bitmap \<Rightarrow> nat \<Rightarrow> nat \<Rightarrow> nat \<Rightarrow> nat option" where
  "next_zero_words bm index r_index r_offset =
     (if index < r_index then
        (case map_word bm index of None \<Rightarrow> None
         | Some res \<Rightarrow>
             if res \<noteq> NOT 0 then map_option (\<lambda>res_offset. min res_offset r_offset) (first_zero res (bit_index index))
             else next_zero_words bm (index + 1) r_index r_offset)
      else Some r_offset)"
  by pat_completeness auto
termination by (relation "measure (\<lambda>(bm, i, r, _). r - i)") auto

function next_one_words_aligned :: "bitmap \<Rightarrow> nat \<Rightarrow> nat \<Rightarrow> nat \<Rightarrow> nat option" where
  "next_one_words_aligned bm index r_index r_offset =
     (if index < r_index then
        (case map_word bm index of None \<Rightarrow> None
         | Some res \<Rightarrow>
             if res \<noteq> 0 then first_one res (bit_index index)
             else next_one_words_aligned bm (index + 1) r_index r_offset)
      else Some r_offset)"
  by pat_completeness auto
termination by (relation "measure (\<lambda>(bm, i, r, _). r - i)") auto

declare next_one_words.simps [simp del] next_zero_words.simps [simp del] next_one_words_aligned.simps [simp del]

definition get_next_one_offset :: "bitmap \<Rightarrow> nat \<Rightarrow> nat \<Rightarrow> nat option" where
  "get_next_one_offset bm l_offset r_offset =
     (if l_offset = r_offset then Some l_offset
      else
        let index = word_index l_offset;
            r_index = word_index (usub64 r_offset 1) + 1;
            pos = bit_in_word l_offset
        in do { w \<leftarrow> map_word bm index;
                let res = drop_bit pos w;
                if res \<noteq> 0 then map_option (\<lambda>res_offset. min res_offset r_offset) (first_one res l_offset)
                else next_one_words bm (index + 1) r_index r_offset })"

definition get_next_zero_offset :: "bitmap \<Rightarrow> nat \<Rightarrow> nat \<Rightarrow> nat option" where
  "get_next_zero_offset bm l_offset r_offset =
     (if l_offset = r_offset then Some l_offset
      else
        let index = word_index l_offset;
            r_index = word_index (usub64 r_offset 1) + 1;
            pos = bit_in_word l_offset
        in do { w \<leftarrow> map_word bm index;
                let res = drop_bit pos w OR left_n_bits pos;
                if res \<noteq> NOT 0 then map_option (\<lambda>res_offset. min res_offset r_offset) (first_zero res l_offset)
                else next_zero_words bm (index + 1) r_index r_offset })"

definition get_next_one_offset_aligned_right :: "bitmap \<Rightarrow> nat \<Rightarrow> nat \<Rightarrow> nat option" where
  "get_next_one_offset_aligned_right bm l_offset r_offset =
     (if l_offset = r_offset then Some l_offset
      else
        let index = word_index l_offset;
            r_index = word_index r_offset
        in do { w \<leftarrow> map_word bm index;
                let res = drop_bit (bit_in_word l_offset) w;
                if res \<noteq> 0 then first_one res l_offset
                else next_one_words_aligned bm (index + 1) r_index r_offset })"

section \<open>Comparing and combining\<close>

text \<open>The loops over the words of two maps; the second map is read from word \<open>off\<close> on.\<close>

function combine_words :: "(bm_word_t \<Rightarrow> bm_word_t \<Rightarrow> bm_word_t) \<Rightarrow> bitmap \<Rightarrow> bitmap \<Rightarrow> nat \<Rightarrow> nat \<Rightarrow> nat \<Rightarrow> bool \<Rightarrow>
    (bool \<times> bitmap) option" where
  "combine_words f bm other off index n changed =
     (if index < n then
        (case map_word bm index of None \<Rightarrow> None
         | Some orig \<Rightarrow>
             (case map_word other (off + index) of None \<Rightarrow> None
              | Some w \<Rightarrow>
                  let temp = f orig w in
                  (case set_word bm index temp of None \<Rightarrow> None
                   | Some bm' \<Rightarrow> combine_words f bm' other off (index + 1) n (changed \<or> temp \<noteq> orig))))
      else Some (changed, bm))"
  by pat_completeness auto
termination by (relation "measure (\<lambda>(f, bm, ot, off, i, n, c). n - i)") auto

function all_words :: "(bm_word_t \<Rightarrow> bm_word_t \<Rightarrow> bool) \<Rightarrow> bitmap \<Rightarrow> bitmap \<Rightarrow> nat \<Rightarrow> nat \<Rightarrow> bool option" where
  "all_words P bm other index n =
     (if index < n then
        (case map_word bm index of None \<Rightarrow> None
         | Some a \<Rightarrow>
             (case map_word other index of None \<Rightarrow> None
              | Some b \<Rightarrow> if \<not> P a b then Some False else all_words P bm other (index + 1) n))
      else Some True)"
  by pat_completeness auto
termination by (relation "measure (\<lambda>(P, bm, ot, i, n). n - i)") auto

declare combine_words.simps [simp del] all_words.simps [simp del]

definition bm_contains :: "bitmap \<Rightarrow> bitmap \<Rightarrow> bool option" where
  "bm_contains bm other = all_words (\<lambda>a b. a OR b = a) bm other 0 (size_in_words bm)"

definition bm_intersects :: "bitmap \<Rightarrow> bitmap \<Rightarrow> bool option" where
  "bm_intersects bm other = map_option Not (all_words (\<lambda>a b. a AND b = 0) bm other 0 (size_in_words bm))"

definition bm_is_same :: "bitmap \<Rightarrow> bitmap \<Rightarrow> bool option" where
  "bm_is_same bm other = all_words (\<lambda>a b. a = b) bm other 0 (size_in_words bm)"

definition set_union_with_result :: "bitmap \<Rightarrow> bitmap \<Rightarrow> (bool \<times> bitmap) option" where
  "set_union_with_result bm other = combine_words (\<lambda>a b. a OR b) bm other 0 0 (size_in_words bm) False"

definition set_difference_with_result :: "bitmap \<Rightarrow> bitmap \<Rightarrow> (bool \<times> bitmap) option" where
  "set_difference_with_result bm other = combine_words (\<lambda>a b. a AND NOT b) bm other 0 0 (size_in_words bm) False"

definition set_intersection_with_result :: "bitmap \<Rightarrow> bitmap \<Rightarrow> (bool \<times> bitmap) option" where
  "set_intersection_with_result bm other = combine_words (\<lambda>a b. a AND b) bm other 0 0 (size_in_words bm) False"

definition bm_set_union :: "bitmap \<Rightarrow> bitmap \<Rightarrow> bitmap option" where
  "bm_set_union bm other = map_option snd (combine_words (\<lambda>a b. a OR b) bm other 0 0 (size_in_words bm) False)"

definition bm_set_difference :: "bitmap \<Rightarrow> bitmap \<Rightarrow> bitmap option" where
  "bm_set_difference bm other = map_option snd (combine_words (\<lambda>a b. a AND NOT b) bm other 0 0 (size_in_words bm) False)"

definition bm_set_intersection :: "bitmap \<Rightarrow> bitmap \<Rightarrow> bitmap option" where
  "bm_set_intersection bm other = map_option snd (combine_words (\<lambda>a b. a AND b) bm other 0 0 (size_in_words bm) False)"

definition bm_set_from :: "bitmap \<Rightarrow> bitmap \<Rightarrow> bitmap option" where
  "bm_set_from bm other = map_option snd (combine_words (\<lambda>a b. b) bm other 0 0 (size_in_words bm) False)"

text \<open>\<open>Inl ()\<close> is the \<open>guarantee\<close> that the offset is aligned.\<close>

definition set_intersection_at_offset :: "bitmap \<Rightarrow> bitmap \<Rightarrow> nat \<Rightarrow> (unit + bitmap) option" where
  "set_intersection_at_offset bm other offset =
     (if offset mod 64 \<noteq> 0 then Some (Inl ())
      else map_option (Inr \<circ> snd)
             (combine_words (\<lambda>a b. a AND b) bm other (word_index offset) 0 (size_in_words bm) False))"

function full_loop :: "bitmap \<Rightarrow> nat \<Rightarrow> nat \<Rightarrow> bool option" where
  "full_loop bm word rest =
     (if 64 \<le> rest then
        (case map_word bm word of None \<Rightarrow> None
         | Some w \<Rightarrow> if w \<noteq> NOT 0 then Some False else full_loop bm (word + 1) (rest - 64))
      else if rest = 0 then Some True
      else map_option (\<lambda>w. w OR NOT (right_n_bits rest) = NOT 0) (map_word bm word))"
  by pat_completeness auto
termination by (relation "measure (\<lambda>(bm, w, r). r)") auto

function empty_loop :: "bitmap \<Rightarrow> nat \<Rightarrow> nat \<Rightarrow> bool option" where
  "empty_loop bm word rest =
     (if 64 \<le> rest then
        (case map_word bm word of None \<Rightarrow> None
         | Some w \<Rightarrow> if w \<noteq> 0 then Some False else empty_loop bm (word + 1) (rest - 64))
      else if rest = 0 then Some True
      else map_option (\<lambda>w. w AND right_n_bits rest = 0) (map_word bm word))"
  by pat_completeness auto
termination by (relation "measure (\<lambda>(bm, w, r). r)") auto

declare full_loop.simps [simp del] empty_loop.simps [simp del]

definition bm_is_full :: "bitmap \<Rightarrow> bool option" where
  "bm_is_full bm = full_loop bm 0 (bm_size bm)"

definition bm_is_empty :: "bitmap \<Rightarrow> bool option" where
  "bm_is_empty bm = empty_loop bm 0 (bm_size bm)"

section \<open>Iterating\<close>

text \<open>
  \<open>iterate\<close>: \<open>blk\<close> is the closure, acting on a state from which \<open>the_map\<close> reads the bit map, so that a
  closure that changes the map is included.
\<close>

function iterate_word :: "('s \<Rightarrow> bitmap) \<Rightarrow> (nat \<Rightarrow> 's \<Rightarrow> bool \<times> 's) \<Rightarrow> nat \<Rightarrow> nat \<Rightarrow> nat \<Rightarrow> bm_word_t \<Rightarrow> 's \<Rightarrow>
    (bool \<times> 's) option" where
  "iterate_word the_map blk index right_offset offset rest s =
     (if offset < right_offset \<and> rest \<noteq> 0 then
        if rest AND 1 \<noteq> 0 then
          (case blk offset s of
             (False, s') \<Rightarrow> Some (False, s')
           | (True, s') \<Rightarrow>
               (case map_word (the_map s') index of None \<Rightarrow> None
                | Some w \<Rightarrow> iterate_word the_map blk index right_offset (offset + 1)
                    (drop_bit 1 (drop_bit (offset mod 64) w)) s'))
        else iterate_word the_map blk index right_offset (offset + 1) (drop_bit 1 rest) s
      else Some (True, s))"
  by pat_completeness auto
termination by (relation "measure (\<lambda>(m, b, i, r, off, rest, s). r - off)") auto

function iterate_loop :: "('s \<Rightarrow> bitmap) \<Rightarrow> (nat \<Rightarrow> 's \<Rightarrow> bool \<times> 's) \<Rightarrow> nat \<Rightarrow> nat \<Rightarrow> nat \<Rightarrow> nat \<Rightarrow> 's \<Rightarrow>
    (bool \<times> 's) option" where
  "iterate_loop the_map blk end_index right_offset index offset s =
     (if offset < right_offset \<and> index < end_index then
        (case map_word (the_map s) index of None \<Rightarrow> None
         | Some w \<Rightarrow>
             (case iterate_word the_map blk index right_offset offset (drop_bit (offset mod 64) w) s of
                None \<Rightarrow> None
              | Some (False, s') \<Rightarrow> Some (False, s')
              | Some (True, s') \<Rightarrow>
                  iterate_loop the_map blk end_index right_offset (index + 1) (bit_index (index + 1)) s'))
      else Some (True, s))"
  by pat_completeness auto
termination by (relation "measure (\<lambda>(m, b, e, r, i, off, s). e - i)") auto

declare iterate_word.simps [simp del] iterate_loop.simps [simp del]

definition bm_iterate :: "('s \<Rightarrow> bitmap) \<Rightarrow> (nat \<Rightarrow> 's \<Rightarrow> bool \<times> 's) \<Rightarrow> nat \<Rightarrow> nat \<Rightarrow> 's \<Rightarrow> (bool \<times> 's) option" where
  "bm_iterate the_map blk left_offset right_offset s =
     (let start_index = word_index left_offset;
          end_index = min (word_index right_offset + 1) (size_in_words (the_map s))
      in iterate_loop the_map blk end_index right_offset start_index left_offset s)"

section \<open>Counting\<close>

partial_function (option) skip_zeros :: "bm_word_t \<Rightarrow> bm_word_t option" where
  "skip_zeros w = (if w AND 1 = 0 then skip_zeros (drop_bit 1 w) else Some w)"

partial_function (option) num_set_bits_loop :: "bm_word_t \<Rightarrow> nat \<Rightarrow> nat option" where
  "num_set_bits_loop w bits =
     (if w \<noteq> 0 then do { w' \<leftarrow> skip_zeros w; num_set_bits_loop (drop_bit 1 w') (bits + 1) }
      else Some bits)"

definition num_set_bits :: "bm_word_t \<Rightarrow> nat option" where
  "num_set_bits w = num_set_bits_loop w 0"

text \<open>The table has the entry \<open>num_set_bits (c)\<close> for every byte \<open>c\<close>.\<close>

definition num_set_bits_from_table :: "8 word \<Rightarrow> nat option" where
  "num_set_bits_from_table c = num_set_bits (ucast c)"

fun count_bytes :: "nat \<Rightarrow> bm_word_t \<Rightarrow> nat \<Rightarrow> nat option" where
  "count_bytes 0 w acc = Some acc"
| "count_bytes (Suc j) w acc =
     do { c \<leftarrow> num_set_bits_from_table (ucast (w AND 255)); count_bytes j (drop_bit 8 w) (acc + c) }"

function count_loop :: "bitmap \<Rightarrow> nat \<Rightarrow> nat \<Rightarrow> nat option" where
  "count_loop bm i acc =
     (if i < size_in_words bm then
        (case map_word bm i of None \<Rightarrow> None
         | Some w \<Rightarrow> (case count_bytes 8 w acc of None \<Rightarrow> None | Some acc' \<Rightarrow> count_loop bm (i + 1) acc'))
      else Some acc)"
  by pat_completeness auto
termination by (relation "measure (\<lambda>(bm, i, acc). size_in_words bm - i)") auto

declare count_loop.simps [simp del]

definition count_one_bits :: "bitmap \<Rightarrow> nat option" where
  "count_one_bits bm = count_loop bm 0 0"

end
