(* ===== verification/BitMap_Props.thy ===== *)
theory BitMap_Props
  imports BitMap_Query
begin

text \<open>The searches, comparisons, counts and iterations of the bit map compute the operations on its set of bits.\<close>

section \<open>Searching a word\<close>

lemma and_one_iff: "w AND 1 = 0 \<longleftrightarrow> \<not> bit w 0" for w :: bm_word_t
  by (simp add: and_one_eq bit_0 mod_2_eq_odd)

lemma bit_drop_one: "bit (drop_bit 1 w) n \<longleftrightarrow> bit w (Suc n)" for w :: bm_word_t
  unfolding bit_drop_bit_eq by simp

definition first_bit :: "bool \<Rightarrow> bm_word_t \<Rightarrow> nat \<Rightarrow> nat option" where
  "first_bit v = (if v then first_one else first_zero)"

lemma first_bit_eq:
  assumes "bit w k = v" and "\<forall>j < k. bit w j \<noteq> v" and "k < 64"
  shows "first_bit v w off = Some (off + k)"
  using assms
proof (induction k arbitrary: w off)
  case 0
  then show ?case
    by (cases v) (simp_all add: first_bit_def first_one.simps [of w] first_zero.simps [of w] and_one_iff)
next
  case (Suc k)
  have b0: "bit w 0 \<noteq> v" using Suc.prems(2) by blast
  have a: "bit (drop_bit 1 w) k = v" using Suc.prems(1) by (simp only: bit_drop_one)
  have b: "\<forall>j < k. bit (drop_bit 1 w) j \<noteq> v" using Suc.prems(2) by (simp only: bit_drop_one) auto
  have "k < 64" using Suc.prems(3) by simp
  then have "first_bit v (drop_bit 1 w) (off + 1) = Some (off + 1 + k)" by (rule Suc.IH [OF a b])
  moreover have "first_bit v w off = first_bit v (drop_bit 1 w) (off + 1)"
    using b0 by (cases v)
      (simp_all only: first_bit_def if_True if_False first_one.simps [of w] first_zero.simps [of w] and_one_iff, simp_all)
  ultimately show ?case by simp
qed

definition none_of :: "bool \<Rightarrow> bm_word_t" where
  "none_of v = (if v then 0 else NOT 0)"

lemma none_of_bits: "w = none_of v \<longleftrightarrow> (\<forall>n < 64. bit w n \<noteq> v)"
proof
  assume "\<forall>n < 64. bit w n \<noteq> v"
  then show "w = none_of v" by (intro bit_word_eqI) (auto simp: none_of_def bit_not_iff)
qed (auto simp: none_of_def bit_not_iff)

lemma first_bit_found:
  assumes "w \<noteq> none_of v"
  obtains k where "k < 64" "bit w k = v" "\<forall>j < k. bit w j \<noteq> v" "\<And>off. first_bit v w off = Some (off + k)"
proof -
  obtain n where n: "n < 64" "bit w n = v" using assms by (auto simp: none_of_bits)
  define k where "k = (LEAST k. bit w k = v)"
  have k: "bit w k = v" "k \<le> n" unfolding k_def
    by (rule LeastI [of "\<lambda>k. bit w k = v", OF n(2)], rule Least_le [of "\<lambda>k. bit w k = v", OF n(2)])
  moreover have "\<forall>j < k. bit w j \<noteq> v" unfolding k_def using not_less_Least by blast
  ultimately show thesis using n(1) by (intro that [of k] first_bit_eq) auto
qed

section \<open>Searching the map\<close>

text \<open>Whether bit \<open>i\<close> of the map has the value \<open>v\<close>; \<open>x\<close> is the next such bit in the range from \<open>l\<close> to \<open>r\<close>, or \<open>r\<close>.\<close>

definition is_next :: "bitmap \<Rightarrow> bool \<Rightarrow> nat \<Rightarrow> nat \<Rightarrow> nat \<Rightarrow> bool" where
  "is_next bm v l r x \<longleftrightarrow> x \<le> r \<and> (l \<le> r \<longrightarrow> l \<le> x) \<and> (x < r \<longrightarrow> (x \<in> bm_bits bm) = v) \<and>
     (\<forall>j. l \<le> j \<and> j < x \<longrightarrow> (j \<in> bm_bits bm) \<noteq> v)"

definition next_words :: "bool \<Rightarrow> bitmap \<Rightarrow> nat \<Rightarrow> nat \<Rightarrow> nat \<Rightarrow> nat option" where
  "next_words v = (if v then next_one_words else next_zero_words)"

lemma next_words_unfold:
  "next_words v bm index r_index r =
     (if index < r_index then
        (case map_word bm index of None \<Rightarrow> None
         | Some res \<Rightarrow>
             if res \<noteq> none_of v then map_option (\<lambda>x. min x r) (first_bit v res (bit_index index))
             else next_words v bm (index + 1) r_index r)
      else Some r)"
  by (cases v; cases "map_word bm index")
    (simp_all add: next_words_def next_one_words.simps [of bm index] next_zero_words.simps [of bm index]
      none_of_def first_bit_def)

lemma word_bit: "w < length (bm_map bm) \<Longrightarrow> n < 64 \<Longrightarrow> 64 * w + n \<in> bm_bits bm \<longleftrightarrow> bit (bm_map bm ! w) n"
  by (simp add: bm_bits_def)

lemma bit_in_word_range:
  fixes j w :: nat
  assumes "64 * w \<le> j" and "j < 64 * w + 64"
  obtains n where "j = 64 * w + n" "n < 64"
  using assms by (intro that [of "j - 64 * w"]) auto

lemma is_next_in_word:
  assumes w: "w < length (bm_map bm)" and p: "p \<le> k" and k: "k < 64" "bit (bm_map bm ! w) k = v"
    and before: "\<forall>j. p \<le> j \<and> j < k \<longrightarrow> bit (bm_map bm ! w) j \<noteq> v"
  shows "is_next bm v (64 * w + p) r (min (64 * w + k) r)"
proof -
  have "(j \<in> bm_bits bm) \<noteq> v" if j: "64 * w + p \<le> j" "j < 64 * w + k" for j
  proof -
    obtain n where n: "j = 64 * w + n" "n < 64" using bit_in_word_range [of w j] j k(1) by auto
    then show ?thesis using before j by (simp add: word_bit [OF w])
  qed
  then show ?thesis using k p by (auto simp: is_next_def word_bit [OF w] min_def split: if_split_asm)
qed

lemma is_next_skip:
  assumes "is_next bm v m r x" and "l \<le> m" and "m \<le> r \<or> r \<le> x" and "\<And>j. l \<le> j \<Longrightarrow> j < m \<Longrightarrow> (j \<in> bm_bits bm) \<noteq> v"
  shows "is_next bm v l r x"
proof -
  have x: "x \<le> r" "m \<le> r \<longrightarrow> m \<le> x" "x < r \<longrightarrow> (x \<in> bm_bits bm) = v" "\<And>j. m \<le> j \<Longrightarrow> j < x \<Longrightarrow> (j \<in> bm_bits bm) \<noteq> v"
    using assms(1) by (auto simp: is_next_def)
  have "l \<le> r \<longrightarrow> l \<le> x" using assms(2,3) x(1,2) by auto
  moreover have "(j \<in> bm_bits bm) \<noteq> v" if "l \<le> j" "j < x" for j
    using assms(4) [OF that(1)] x(4) [of j] that(2) by (cases "j < m") auto
  ultimately show ?thesis using x(1,3) by (simp add: is_next_def)
qed

lemma next_words_ok:
  assumes "r_index \<le> length (bm_map bm)" and "64 * length (bm_map bm) < size_max"
    and "r \<le> 64 * r_index" and "index \<le> r_index" and "64 * r_index < r + 64"
  shows "\<exists>x. next_words v bm index r_index r = Some x \<and> is_next bm v (64 * index) r x"
  using assms(4)
proof (induction "r_index - index" arbitrary: index)
  case 0
  then show ?case using assms(3) by (subst next_words_unfold) (auto simp: is_next_def)
next
  case (Suc d)
  then have i: "index < r_index" "index < length (bm_map bm)" using assms(1) by auto
  have bi: "bit_index index = 64 * index" using i(2) assms(2) by (simp add: bit_index_def)
  show ?case
  proof (cases "bm_map bm ! index = none_of v")
    case False
    then obtain k where k: "k < 64" "bit (bm_map bm ! index) k = v" "\<forall>j < k. bit (bm_map bm ! index) j \<noteq> v"
      "\<And>off. first_bit v (bm_map bm ! index) off = Some (off + k)" using first_bit_found by blast
    then show ?thesis using i False is_next_in_word [of index bm 0 k v r]
      by (subst next_words_unfold) (simp add: map_word_def bi)
  next
    case True
    have "d = r_index - Suc index" "Suc index \<le> r_index" using Suc.hyps(2) i by linarith+
    then obtain x where x: "next_words v bm (Suc index) r_index r = Some x" "is_next bm v (64 * Suc index) r x"
      using Suc.hyps(1) by blast
    have "(j \<in> bm_bits bm) \<noteq> v" if j: "64 * index \<le> j" "j < 64 * Suc index" for j
    proof -
      obtain n where n: "j = 64 * index + n" "n < 64" using bit_in_word_range [of index j] j by auto
      then show ?thesis using True by (simp add: word_bit [OF i(2)] none_of_bits)
    qed
    moreover have "64 * Suc index \<le> r \<or> r \<le> x"
    proof (cases "Suc index < r_index")
      case True
      then show ?thesis using assms(5) by auto
    next
      case False
      then have "x = r" using x(1) by (simp add: next_words_unfold [of v bm "Suc index"])
      then show ?thesis by simp
    qed
    ultimately have "is_next bm v (64 * index) r x" using is_next_skip [OF x(2), of "64 * index"] by simp
    then show ?thesis using x(1) i True by (subst next_words_unfold) (simp add: map_word_def)
  qed
qed

text \<open>The part of a word from position \<open>p\<close> on, as the searches build it.\<close>

definition tail_word :: "bool \<Rightarrow> nat \<Rightarrow> bm_word_t \<Rightarrow> bm_word_t" where
  "tail_word v p w = (if v then drop_bit p w else drop_bit p w OR left_n_bits p)"

lemma right_n_bits_mask: "n < 64 \<Longrightarrow> right_n_bits n = mask n"
  by (simp add: right_n_bits_def nth_bit_def mask_eq_exp_minus_1 push_bit_eq_mult)

lemma bit_tail_word:
  assumes "p < 64" and "n < 64"
  shows "bit (tail_word v p w) n \<longleftrightarrow> (if p + n < 64 then bit w (p + n) else \<not> v)"
proof -
  have "bit (left_n_bits p) n \<longleftrightarrow> 64 \<le> p + n"
    using assms by (auto simp: left_n_bits_def right_n_bits_mask bit_push_bit_iff bit_mask_iff)
  moreover have "bit (drop_bit p w) n \<longleftrightarrow> p + n < 64 \<and> bit w (p + n)"
    unfolding bit_drop_bit_eq by (auto dest: bit_imp_le_length)
  ultimately show ?thesis using assms by (auto simp: tail_word_def bit_or_iff dest: bit_imp_le_length)
qed

definition get_next :: "bool \<Rightarrow> bitmap \<Rightarrow> nat \<Rightarrow> nat \<Rightarrow> nat option" where
  "get_next v = (if v then get_next_one_offset else get_next_zero_offset)"

lemma get_next_unfold:
  assumes "l < r" and "map_word bm (l div 64) = Some w"
  shows "get_next v bm l r =
    (if tail_word v (l mod 64) w \<noteq> none_of v
     then map_option (\<lambda>x. min x r) (first_bit v (tail_word v (l mod 64) w) l)
     else next_words v bm (l div 64 + 1) (word_index (usub64 r 1) + 1) r)"
  using assms by (simp add: get_next_def get_next_one_offset_def get_next_zero_offset_def word_index_def bit_in_word_def
      tail_word_def none_of_def first_bit_def next_words_def Let_def)

lemma get_next_ok:
  assumes ok: "bm_ok bm" and lr: "l \<le> r" "r \<le> bm_size bm"
  shows "\<exists>x. get_next v bm l r = Some x \<and> is_next bm v l r x"
proof (cases "l = r")
  case True
  then show ?thesis by (auto simp: get_next_def get_next_one_offset_def get_next_zero_offset_def is_next_def)
next
  case False
  define w where "w = l div 64"
  have l: "l = 64 * w + l mod 64" "l mod 64 < 64" by (simp_all add: w_def)
  have lt: "l < r" using False lr by simp
  have w: "w < length (bm_map bm)" using word_index_less [OF ok, of l] lt lr by (simp add: word_index_def w_def)
  define t where "t = tail_word v (l mod 64) (bm_map bm ! w)"
  note tb = bit_tail_word [OF l(2), of _ v "bm_map bm ! w", folded t_def]
  define ri where "ri = Suc ((r - 1) div 64)"
  have r1: "word_index (usub64 r 1) + 1 = ri"
    using lt lr ok by (simp add: size_simps bm_ok_def ri_def word_index_def)
  note un = get_next_unfold [OF lt, of bm "bm_map bm ! w" v, folded w_def t_def, unfolded r1]
  have m: "map_word bm w = Some (bm_map bm ! w)" using w by (simp add: map_word_def)
  show ?thesis
  proof (cases "t = none_of v")
    case False
    then obtain k where k: "k < 64" "bit t k = v" "\<forall>j < k. bit t j \<noteq> v" "\<And>off. first_bit v t off = Some (off + k)"
      using first_bit_found by blast
    have p: "l mod 64 + k < 64" "bit (bm_map bm ! w) (l mod 64 + k) = v"
      using k(2) tb [OF k(1)] by (auto split: if_split_asm)
    have "\<forall>j. l mod 64 \<le> j \<and> j < l mod 64 + k \<longrightarrow> bit (bm_map bm ! w) j \<noteq> v"
    proof (intro allI impI)
      fix j assume j: "l mod 64 \<le> j \<and> j < l mod 64 + k"
      then have "bit t (j - l mod 64) \<noteq> v" "j - l mod 64 < 64" using k(1,3) by auto
      then show "bit (bm_map bm ! w) j \<noteq> v" using tb [of "j - l mod 64"] j p(1) by auto
    qed
    from is_next_in_word [OF w _ p this, of r] have "is_next bm v l r (min (l + k) r)"
      using l(1) by (simp add: add.assoc [symmetric])
    then show ?thesis using False un [OF m] k(4) by simp
  next
    case True
    have skip: "(j \<in> bm_bits bm) \<noteq> v" if j: "l \<le> j" "j < 64 * Suc w" for j
    proof -
      have "64 * w \<le> j" using l(1) j(1) by linarith
      then obtain n where n: "j = 64 * w + n" "n < 64" using bit_in_word_range [of w j] j by auto
      then have "l mod 64 \<le> n" using l(1) j(1) by linarith
      moreover have "bit t (n - l mod 64) \<noteq> v" using True n(2) none_of_bits [of t v] by simp
      ultimately show ?thesis using tb [of "n - l mod 64"] n by (simp add: word_bit [OF w])
    qed
    have "(r - 1) div 64 < length (bm_map bm)"
      using word_index_less [OF ok, of "r - 1"] lt lr by (simp add: word_index_def)
    then have ri: "ri \<le> length (bm_map bm)" "r \<le> 64 * ri" "64 * ri < r + 64" "Suc w \<le> ri"
      using lt mult_div_mod_eq [of 64 "r - 1"] mod_less_divisor [of 64 "r - 1"] div_le_mono [of l "r - 1" 64]
      by (auto simp: ri_def w_def)
    obtain x where x: "next_words v bm (Suc w) ri r = Some x" "is_next bm v (64 * Suc w) r x"
      using next_words_ok [OF ri(1) bm_ok_words(3) [OF ok] ri(2,4,3)] by blast
    have "64 * Suc w \<le> r \<or> r \<le> x"
    proof (cases "Suc w < ri")
      case True
      then show ?thesis using ri(3) by auto
    next
      case False
      then show ?thesis using x(1) by (simp add: next_words_unfold [of v bm "Suc w"])
    qed
    then have "is_next bm v l r x" using l skip by (intro is_next_skip [OF x(2)]) auto
    then show ?thesis using True un [OF m] x(1) by simp
  qed
qed

lemma first_one_word:
  assumes "w \<noteq> 0"
  obtains k where "first_one w off = Some (off + k)" "bit w k"
proof -
  have "w \<noteq> none_of True" using assms by (simp add: none_of_def)
  then obtain k where "bit w k = True" "first_bit True w off = Some (off + k)" using first_bit_found by blast
  then show thesis using that by (simp add: first_bit_def)
qed

lemma next_one_words_aligned_eq:
  assumes "64 * length (bm_map bm) < size_max" and "r = 64 * r_index" and "r_index \<le> length (bm_map bm)"
  shows "next_one_words_aligned bm index r_index r = next_one_words bm index r_index r"
proof (induction "r_index - index" arbitrary: index)
  case 0
  then show ?case by (simp add: next_one_words_aligned.simps [of bm index] next_one_words.simps [of bm index])
next
  case (Suc d)
  then have i: "index < r_index" "index < length (bm_map bm)" using assms(3) by auto
  have bi: "bit_index index = 64 * index" using i(2) assms(1) by (simp add: bit_index_def)
  define w where "w = bm_map bm ! index"
  have m: "map_word bm index = Some w" using i by (simp add: map_word_def w_def)
  show ?case
  proof (cases "w = 0")
    case True
    have "next_one_words_aligned bm (index + 1) r_index r = next_one_words bm (index + 1) r_index r"
      using Suc.hyps(2) by (intro Suc.hyps(1)) simp
    then show ?thesis using i True m
      by (simp add: next_one_words_aligned.simps [of bm index] next_one_words.simps [of bm index])
  next
    case False
    obtain k where k: "first_one w (64 * index) = Some (64 * index + k)" "bit w k" using first_one_word [OF False] by blast
    have "k < 64" using k(2) by (auto dest: bit_imp_le_length)
    then have "64 * index + k \<le> r" using i(1) assms(2) by simp
    then show ?thesis using i False m k(1)
      by (simp add: next_one_words_aligned.simps [of bm index] next_one_words.simps [of bm index] bi)
  qed
qed

lemma aligned_right_eq:
  assumes ok: "bm_ok bm" and lr: "l \<le> r" "r \<le> bm_size bm" and al: "r mod 64 = 0"
  shows "get_next_one_offset_aligned_right bm l r = get_next_one_offset bm l r"
proof (cases "l = r")
  case True
  then show ?thesis by (simp add: get_next_one_offset_aligned_right_def get_next_one_offset_def)
next
  case False
  then have lt: "l < r" using lr by simp
  have r: "r = 64 * (r div 64)" using al mult_div_mod_eq [of 64 r] by simp
  have ri: "word_index (usub64 r 1) + 1 = r div 64"
    using lt lr ok pred_div [of r] al by (simp add: size_simps bm_ok_def word_index_def)
  have rl: "r div 64 \<le> length (bm_map bm)" unfolding bm_ok_words(1) [OF ok] using lr(2) by (intro div_le_mono) simp
  have wl: "l div 64 < length (bm_map bm)" using word_index_less [OF ok, of l] lt lr by (simp add: word_index_def)
  define t where "t = drop_bit (l mod 64) (bm_map bm ! (l div 64))"
  have x: "x \<le> r" if nz: "t \<noteq> 0" and fo: "first_one t l = Some x" for x
  proof -
    obtain k where k: "x = l + k" "bit t k" using first_one_word [OF nz, of l] fo by auto
    then have "bit (bm_map bm ! (l div 64)) (l mod 64 + k)" unfolding t_def bit_drop_bit_eq by simp
    then have "l mod 64 + k < 64" by (auto dest: bit_imp_le_length)
    moreover have "l + k = 64 * (l div 64) + (l mod 64 + k)" by simp
    ultimately have "l + k < 64 * Suc (l div 64)" by (simp only: mult_Suc_right)
    also have "\<dots> \<le> 64 * (r div 64)" using lt r by (intro mult_le_mono2 Suc_leI) (simp add: div_less_iff_less_mult)
    finally show ?thesis using k(1) r by simp
  qed
  show ?thesis
  proof (cases "t = 0")
    case True
    then show ?thesis
      using wl False ri next_one_words_aligned_eq [OF bm_ok_words(3) [OF ok] r rl, of "l div 64 + 1"]
      by (simp add: get_next_one_offset_aligned_right_def get_next_one_offset_def map_word_def word_index_def
          bit_in_word_def t_def Let_def)
  next
    case nz: False
    obtain k where "first_one t l = Some (l + k)" using first_one_word [OF nz, of l] by blast
    then show ?thesis using wl False nz x
      by (simp add: get_next_one_offset_aligned_right_def get_next_one_offset_def map_word_def word_index_def
          bit_in_word_def t_def Let_def)
  qed
qed

section \<open>Combining and comparing\<close>

lemma combine_words_ok:
  assumes "index \<le> n" and "n \<le> length (bm_map bm)" and "off + n \<le> length (bm_map other)"
  shows "\<exists>bm'. combine_words f bm other off index n c = Some (c \<or> bm' \<noteq> bm, bm') \<and> bm_like bm bm' \<and>
    (\<forall>j < length (bm_map bm). bm_map bm' ! j =
       (if index \<le> j \<and> j < n then f (bm_map bm ! j) (bm_map other ! (off + j)) else bm_map bm ! j))"
  using assms
proof (induction "n - index" arbitrary: index bm c)
  case 0
  then show ?case by (auto simp: combine_words.simps [of f bm] bm_like_def)
next
  case (Suc d)
  then have i: "index < n" "index < length (bm_map bm)" "off + index < length (bm_map other)" by auto
  define t where "t = f (bm_map bm ! index) (bm_map other ! (off + index))"
  define bm1 where "bm1 = bm\<lparr>bm_map := (bm_map bm)[index := t]\<rparr>"
  have un: "combine_words f bm other off index n c =
      combine_words f bm1 other off (index + 1) n (c \<or> t \<noteq> bm_map bm ! index)"
    using i by (simp add: combine_words.simps [of f bm] map_word_def set_word_def t_def bm1_def Let_def)
  have "d = n - (index + 1)" "index + 1 \<le> n" "n \<le> length (bm_map bm1)" using Suc.hyps(2) Suc.prems i by (auto simp: bm1_def)
  then obtain bm' where bm': "combine_words f bm1 other off (index + 1) n (c \<or> t \<noteq> bm_map bm ! index) =
      Some ((c \<or> t \<noteq> bm_map bm ! index) \<or> bm' \<noteq> bm1, bm')" "bm_like bm1 bm'"
    "\<forall>j < length (bm_map bm1). bm_map bm' ! j =
       (if index + 1 \<le> j \<and> j < n then f (bm_map bm1 ! j) (bm_map other ! (off + j)) else bm_map bm1 ! j)"
    using Suc.hyps(1) Suc.prems(3) by blast
  have like: "bm_like bm bm'" using bm'(2) by (simp add: bm_like_def bm1_def)
  have words: "\<forall>j < length (bm_map bm). bm_map bm' ! j =
      (if index \<le> j \<and> j < n then f (bm_map bm ! j) (bm_map other ! (off + j)) else bm_map bm ! j)"
    using bm'(3) i by (auto simp: bm1_def t_def nth_list_update)
  have "bm' \<noteq> bm \<longleftrightarrow> t \<noteq> bm_map bm ! index \<or> bm' \<noteq> bm1"
  proof (cases "t = bm_map bm ! index")
    case True
    then have "bm1 = bm" by (simp add: bm1_def)
    then show ?thesis using True by simp
  next
    case False
    then have "bm_map bm' ! index \<noteq> bm_map bm ! index" using words i by (simp add: t_def)
    then show ?thesis using False by auto
  qed
  then show ?case using un bm'(1) like words by (intro exI [of _ bm']) auto
qed

text \<open>Combining two maps of the same size, bit by bit.\<close>

lemma combine_bits:
  assumes ok: "bm_ok bm" "bm_ok other" and sz: "bm_size bm = bm_size other"
    and f: "\<And>a b n. n < 64 \<Longrightarrow> bit (f a b) n \<longleftrightarrow> g (bit a n) (bit b n)" and g: "\<not> g False False"
  shows "\<exists>bm'. combine_words f bm other 0 0 (size_in_words bm) False = Some (bm' \<noteq> bm, bm') \<and> bm_like bm bm' \<and>
    bm_bits bm' = {i. g (i \<in> bm_bits bm) (i \<in> bm_bits other)}"
proof -
  have len: "size_in_words bm = length (bm_map bm)" "length (bm_map other) = length (bm_map bm)"
    using ok sz by (simp_all add: bm_ok_def size_in_words_def)
  obtain bm' where bm': "combine_words f bm other 0 0 (size_in_words bm) False = Some (False \<or> bm' \<noteq> bm, bm')"
    "bm_like bm bm'" "\<forall>j < length (bm_map bm). bm_map bm' ! j = f (bm_map bm ! j) (bm_map other ! j)"
    using combine_words_ok [of 0 "length (bm_map bm)" bm 0 other f False] len by auto
  have "i \<in> bm_bits bm' \<longleftrightarrow> g (i \<in> bm_bits bm) (i \<in> bm_bits other)" for i
    using bm'(2,3) f [of "i mod 64"] g len(2) by (cases "i div 64 < length (bm_map bm)") (auto simp: bm_bits_def bm_like_def)
  then show ?thesis using bm'(1,2) by auto
qed

lemma all_words_ok:
  assumes "index \<le> n" and "n \<le> length (bm_map bm)" and "n \<le> length (bm_map other)"
  shows "all_words P bm other index n = Some (\<forall>j. index \<le> j \<and> j < n \<longrightarrow> P (bm_map bm ! j) (bm_map other ! j))"
  using assms
proof (induction "n - index" arbitrary: index)
  case 0
  then show ?case by (auto simp: all_words.simps [of P bm])
next
  case (Suc d)
  then have i: "index < n" "index < length (bm_map bm)" "index < length (bm_map other)" by auto
  have IH: "all_words P bm other (index + 1) n = Some (\<forall>j. index + 1 \<le> j \<and> j < n \<longrightarrow> P (bm_map bm ! j) (bm_map other ! j))"
    using Suc.hyps Suc.prems i by (intro Suc.hyps(1)) auto
  have "(\<forall>j. index \<le> j \<and> j < n \<longrightarrow> P (bm_map bm ! j) (bm_map other ! j)) \<longleftrightarrow>
      P (bm_map bm ! index) (bm_map other ! index) \<and> (\<forall>j. index + 1 \<le> j \<and> j < n \<longrightarrow> P (bm_map bm ! j) (bm_map other ! j))"
    using i(1) by (auto simp: Suc_le_eq) (metis le_neq_implies_less)
  then show ?case using i IH by (simp add: all_words.simps [of P bm other index] map_word_def)
qed

lemma compare_bits:
  assumes ok: "bm_ok bm" "bm_ok other" and sz: "bm_size bm = bm_size other"
    and P: "\<And>a b. P a b \<longleftrightarrow> (\<forall>n < 64. Q (bit a n) (bit b n))" and Q: "Q False False"
  shows "all_words P bm other 0 (size_in_words bm) = Some (\<forall>i. Q (i \<in> bm_bits bm) (i \<in> bm_bits other))"
proof -
  have len: "size_in_words bm = length (bm_map bm)" "length (bm_map other) = length (bm_map bm)"
    using ok sz by (simp_all add: bm_ok_def size_in_words_def)
  have "(\<forall>j < length (bm_map bm). \<forall>n < 64. Q (bit (bm_map bm ! j) n) (bit (bm_map other ! j) n)) \<longleftrightarrow>
      (\<forall>i. Q (i \<in> bm_bits bm) (i \<in> bm_bits other))" (is "?L \<longleftrightarrow> ?R")
  proof
    assume L: ?L
    show ?R
    proof
      fix i
      show "Q (i \<in> bm_bits bm) (i \<in> bm_bits other)"
        using L Q len(2) by (cases "i div 64 < length (bm_map bm)") (auto simp: bm_bits_def)
    qed
  next
    assume R: ?R
    show ?L
    proof (intro allI impI)
      fix j n :: nat assume "j < length (bm_map bm)" "n < 64"
      then show "Q (bit (bm_map bm ! j) n) (bit (bm_map other ! j) n)"
        using R [rule_format, of "64 * j + n"] len(2) by (simp add: word_bit)
    qed
  qed
  then show ?thesis using all_words_ok [of 0 "length (bm_map bm)" bm other P] len by (simp add: P)
qed

section \<open>Full and empty\<close>

lemma or_full: "w OR NOT (mask n) = NOT 0 \<longleftrightarrow> (\<forall>k < n. k < 64 \<longrightarrow> bit w k)" for w :: bm_word_t
proof
  assume eq: "w OR NOT (mask n) = NOT 0"
  show "\<forall>k < n. k < 64 \<longrightarrow> bit w k"
    using arg_cong [OF eq, of "\<lambda>x. bit x _"] by (auto simp: bit_or_iff bit_not_iff bit_mask_iff)
next
  assume "\<forall>k < n. k < 64 \<longrightarrow> bit w k"
  then show "w OR NOT (mask n) = NOT 0"
    by (intro bit_word_eqI) (auto simp: bit_or_iff bit_not_iff bit_mask_iff not_less)
qed

lemmas or_full' = or_full [simplified]

lemma and_empty: "w AND mask n = 0 \<longleftrightarrow> (\<forall>k < n. k < 64 \<longrightarrow> \<not> bit w k)" for w :: bm_word_t
proof
  assume eq: "w AND mask n = 0"
  show "\<forall>k < n. k < 64 \<longrightarrow> \<not> bit w k"
    using arg_cong [OF eq, of "\<lambda>x. bit x _"] by (auto simp: bit_and_iff bit_mask_iff)
next
  assume "\<forall>k < n. k < 64 \<longrightarrow> \<not> bit w k"
  then show "w AND mask n = 0" by (intro bit_word_eqI) (auto simp: bit_and_iff bit_mask_iff)
qed

definition value_loop :: "bool \<Rightarrow> bitmap \<Rightarrow> nat \<Rightarrow> nat \<Rightarrow> bool option" where
  "value_loop v = (if v then full_loop else empty_loop)"

lemma value_loop_unfold:
  "value_loop v bm word rest =
     (if 64 \<le> rest then
        (case map_word bm word of None \<Rightarrow> None
         | Some w \<Rightarrow> if w \<noteq> none_of (\<not> v) then Some False else value_loop v bm (word + 1) (rest - 64))
      else if rest = 0 then Some True
      else map_option (\<lambda>w. \<forall>k < rest. bit w k = v) (map_word bm word))"
  by (cases v; cases "map_word bm word")
    (auto simp: value_loop_def full_loop.simps [of bm word] empty_loop.simps [of bm word] none_of_def
      right_n_bits_mask or_full or_full' and_empty)

lemma interval_split:
  fixes a b c :: nat
  assumes "a \<le> b" and "b \<le> c"
  shows "(\<forall>i. a \<le> i \<and> i < c \<longrightarrow> P i) \<longleftrightarrow> (\<forall>i. a \<le> i \<and> i < b \<longrightarrow> P i) \<and> (\<forall>i. b \<le> i \<and> i < c \<longrightarrow> P i)"
  using assms by (meson dual_order.trans linorder_not_less order_less_le_trans)

lemma value_loop_ok:
  assumes "64 * word + rest \<le> 64 * length (bm_map bm)"
  shows "value_loop v bm word rest = Some (\<forall>i. 64 * word \<le> i \<and> i < 64 * word + rest \<longrightarrow> (i \<in> bm_bits bm) = v)"
  using assms
proof (induction rest arbitrary: word rule: less_induct)
  case (less rest)
  have word: "(\<forall>i. 64 * word \<le> i \<and> i < 64 * word + k \<longrightarrow> (i \<in> bm_bits bm) = v) \<longleftrightarrow> (\<forall>n < k. bit (bm_map bm ! word) n = v)"
    if w: "word < length (bm_map bm)" and k: "k \<le> 64" for k
  proof
    assume a: "\<forall>i. 64 * word \<le> i \<and> i < 64 * word + k \<longrightarrow> (i \<in> bm_bits bm) = v"
    have "bit (bm_map bm ! word) n = v" if "n < k" for n
      using word_bit [OF w, of n] k a [rule_format, of "64 * word + n"] that by simp
    then show "\<forall>n < k. bit (bm_map bm ! word) n = v" by blast
  next
    assume a: "\<forall>n < k. bit (bm_map bm ! word) n = v"
    have "(i \<in> bm_bits bm) = v" if i: "64 * word \<le> i" "i < 64 * word + k" for i
    proof -
      obtain n where n: "i = 64 * word + n" "n < 64" using bit_in_word_range [of word i] i k by auto
      then show ?thesis using word_bit [OF w, of n] a i by simp
    qed
    then show "\<forall>i. 64 * word \<le> i \<and> i < 64 * word + k \<longrightarrow> (i \<in> bm_bits bm) = v" by blast
  qed
  show ?case
  proof (cases "64 \<le> rest")
    case True
    then have w: "word < length (bm_map bm)" using less.prems by linarith
    have IH: "value_loop v bm (word + 1) (rest - 64) =
        Some (\<forall>i. 64 * (word + 1) \<le> i \<and> i < 64 * (word + 1) + (rest - 64) \<longrightarrow> (i \<in> bm_bits bm) = v)"
      using True less.prems by (intro less.IH) auto
    have split: "(\<forall>i. 64 * word \<le> i \<and> i < 64 * word + rest \<longrightarrow> (i \<in> bm_bits bm) = v) \<longleftrightarrow>
        (\<forall>i. 64 * word \<le> i \<and> i < 64 * word + 64 \<longrightarrow> (i \<in> bm_bits bm) = v) \<and>
        (\<forall>i. 64 * (word + 1) \<le> i \<and> i < 64 * (word + 1) + (rest - 64) \<longrightarrow> (i \<in> bm_bits bm) = v)"
      using interval_split [of "64 * word" "64 * word + 64" "64 * word + rest"] True by (simp add: ac_simps)
    have "bm_map bm ! word \<noteq> none_of (\<not> v) \<longleftrightarrow> \<not> (\<forall>n < 64. bit (bm_map bm ! word) n = v)" by (auto simp: none_of_bits)
    then show ?thesis unfolding split word [OF w order_refl]
      using True w IH by (simp add: value_loop_unfold [of v bm word] map_word_def)
  next
    case False
    show ?thesis
    proof (cases "rest = 0")
      case True
      then show ?thesis by (auto simp: value_loop_unfold [of v bm word])
    next
      case nz: False
      then have w: "word < length (bm_map bm)" using less.prems by linarith
      show ?thesis unfolding word [OF w less_imp_le [OF False [unfolded not_le]]]
        using False nz w by (simp add: value_loop_unfold [of v bm word] map_word_def)
    qed
  qed
qed

section \<open>Iteration\<close>

text \<open>
  The specification of \<open>iterate\<close>: the closure runs on a list of offsets until it answers
  \<open>false\<close>.  A closure may change the map it is called on, as long as it leaves the bits above
  the one it is called for.
\<close>

fun run_closure :: "(nat \<Rightarrow> 's \<Rightarrow> bool \<times> 's) \<Rightarrow> nat list \<Rightarrow> 's \<Rightarrow> bool \<times> 's" where
  "run_closure blk [] s = (True, s)"
| "run_closure blk (i # is) s = (case blk i s of (False, s') \<Rightarrow> (False, s') | (True, s') \<Rightarrow> run_closure blk is s')"

definition keeps_ahead :: "('s \<Rightarrow> bitmap) \<Rightarrow> (nat \<Rightarrow> 's \<Rightarrow> bool \<times> 's) \<Rightarrow> bool" where
  "keeps_ahead the_map blk \<longleftrightarrow> (\<forall>i s. bm_like (the_map s) (the_map (snd (blk i s))) \<and>
     (\<forall>j > i. j \<in> bm_bits (the_map (snd (blk i s))) \<longleftrightarrow> j \<in> bm_bits (the_map s)))"

lemma run_closure_append:
  "run_closure blk (is @ js) s =
     (case run_closure blk is s of (False, s') \<Rightarrow> (False, s') | (True, s') \<Rightarrow> run_closure blk js s')"
  by (induction "is" arbitrary: s) (auto split: prod.split bool.split)

lemma run_closure_keeps:
  assumes "keeps_ahead the_map blk" and "\<forall>i \<in> set is. i < j"
  shows "bm_like (the_map s) (the_map (snd (run_closure blk is s)))"
    and "j \<in> bm_bits (the_map (snd (run_closure blk is s))) \<longleftrightarrow> j \<in> bm_bits (the_map s)"
proof -
  have "bm_like (the_map s) (the_map (snd (run_closure blk is s))) \<and>
    (j \<in> bm_bits (the_map (snd (run_closure blk is s))) \<longleftrightarrow> j \<in> bm_bits (the_map s))" using assms(2)
  proof (induction "is" arbitrary: s)
    case Nil
    then show ?case by (simp add: bm_like_def)
  next
    case (Cons i "is")
    obtain c s' where b: "blk i s = (c, s')" by fastforce
    have "bm_like (the_map s) (the_map s')" "j \<in> bm_bits (the_map s') \<longleftrightarrow> j \<in> bm_bits (the_map s)"
      using assms(1) Cons.prems b unfolding keeps_ahead_def by (metis snd_conv list.set_intros(1))+
    then show ?case using Cons.IH [of s'] Cons.prems bm_like_trans b by (auto split: bool.split)
  qed
  then show "bm_like (the_map s) (the_map (snd (run_closure blk is s)))"
    and "j \<in> bm_bits (the_map (snd (run_closure blk is s))) \<longleftrightarrow> j \<in> bm_bits (the_map s)" by simp_all
qed

lemma odd_bit_0: "w AND 1 \<noteq> 0 \<longleftrightarrow> bit w 0" for w :: bm_word_t
  by (simp add: and_one_eq bit_0 odd_iff_mod_2_eq_one)

lemma drop_bit_ne: "drop_bit k w = 0 \<Longrightarrow> k \<le> n \<Longrightarrow> \<not> bit w n" for w :: bm_word_t
  using bit_drop_bit_eq [of k w] by (metis bit_0_eq bot_apply bot_bool_def le_add_diff_inverse o_apply)

lemma iterate_word_ok:
  assumes keep: "keeps_ahead the_map blk" and "index < length (bm_map (the_map s))"
    and "64 * index \<le> offset" and "offset \<le> 64 * index + 64"
    and "rest = drop_bit (offset - 64 * index) (bm_map (the_map s) ! index)"
  shows "iterate_word the_map blk index right_offset offset rest s =
    Some (run_closure blk (filter (\<lambda>i. i \<in> bm_bits (the_map s)) [offset..<min right_offset (64 * index + 64)]) s)"
  using assms(2-)
proof (induction "right_offset - offset" arbitrary: offset rest s)
  case 0
  then show ?case by (simp add: iterate_word.simps)
next
  case (Suc d)
  let ?e = "min right_offset (64 * index + 64)"
  show ?case
  proof (cases "rest = 0")
    case True
    have "i \<notin> bm_bits (the_map s)" if i: "i \<in> set [offset..<?e]" for i
    proof -
      obtain n where n: "i = 64 * index + n" "n < 64" using bit_in_word_range [of index i] i Suc.prems by auto
      moreover have "offset - 64 * index \<le> n" using n i by auto
      ultimately show ?thesis using word_bit [OF Suc.prems(1), of n] drop_bit_ne True Suc.prems(4) by auto
    qed
    then have "filter (\<lambda>i. i \<in> bm_bits (the_map s)) [offset..<?e] = []" by (simp add: filter_empty_conv)
    then show ?thesis using True by (simp add: iterate_word.simps)
  next
    case False
    have o64: "offset < 64 * index + 64"
    proof (rule ccontr)
      assume "\<not> offset < 64 * index + 64"
      then have "rest = drop_bit 64 (bm_map (the_map s) ! index)" using Suc.prems by simp
      then show False using False by (simp add: drop_bit_eq_zero_iff_not_bit_last bit_word_eqI bit_drop_bit_eq bit_imp_le_length)
    qed
    define k where "k = offset - 64 * index"
    have k: "offset = 64 * index + k" "k < 64" using o64 Suc.prems(2) by (auto simp: k_def)
    then have km: "offset mod 64 = k" by simp
    have list: "[offset..<?e] = offset # [offset + 1..<?e]" using Suc.hyps(2) o64 by (simp add: upt_conv_Cons)
    have low: "rest AND 1 \<noteq> 0 \<longleftrightarrow> offset \<in> bm_bits (the_map s)"
      using word_bit [OF Suc.prems(1), of k] k by (simp add: odd_bit_0 Suc.prems(4) bit_drop_bit_eq)
    have step: "drop_bit 1 (drop_bit k w) = drop_bit (offset + 1 - 64 * index) w" for w :: bm_word_t
      by (simp only: drop_bit_drop_bit) (simp add: k add.commute)
    show ?thesis
    proof (cases "offset \<in> bm_bits (the_map s)")
      case out: False
      have "iterate_word the_map blk index right_offset (offset + 1) (drop_bit 1 rest) s =
          Some (run_closure blk (filter (\<lambda>i. i \<in> bm_bits (the_map s)) [offset + 1..<?e]) s)"
        by (rule Suc.hyps(1)) (use Suc.hyps(2) Suc.prems o64 k step in auto)
      then show ?thesis using Suc.hyps(2) False out low list by (simp add: iterate_word.simps [of _ _ _ _ offset] del: upt_Suc)
    next
      case True
      obtain c s' where b: "blk offset s = (c, s')" by fastforce
      have like: "bm_like (the_map s) (the_map s')" and ahead: "\<And>j. offset < j \<Longrightarrow> j \<in> bm_bits (the_map s') \<longleftrightarrow> j \<in> bm_bits (the_map s)"
        using keep b unfolding keeps_ahead_def by (metis snd_conv)+
      have i': "index < length (bm_map (the_map s'))" using like Suc.prems(1) by (simp add: bm_like_def)
      have "iterate_word the_map blk index right_offset (offset + 1) (drop_bit 1 (drop_bit k (bm_map (the_map s') ! index))) s' =
          Some (run_closure blk (filter (\<lambda>i. i \<in> bm_bits (the_map s')) [offset + 1..<?e]) s')"
        by (rule Suc.hyps(1)) (use Suc.hyps(2) Suc.prems o64 i' step in auto)
      moreover have "filter (\<lambda>i. i \<in> bm_bits (the_map s')) [offset + 1..<?e] = filter (\<lambda>i. i \<in> bm_bits (the_map s)) [offset + 1..<?e]"
        by (rule filter_cong) (auto simp: ahead)
      moreover have "offset < right_offset" using Suc.hyps(2) by simp
      ultimately show ?thesis using False True low list i' b km
        by (simp add: iterate_word.simps [of _ _ _ _ offset] map_word_def del: upt_Suc split: bool.split)
    qed
  qed
qed

lemma iterate_loop_ok:
  assumes keep: "keeps_ahead the_map blk" and "right_offset \<le> 64 * length (bm_map (the_map s))"
    and "end_index = min (right_offset div 64 + 1) (length (bm_map (the_map s)))"
    and "64 * index \<le> offset" and "offset < 64 * index + 64" and "64 * length (bm_map (the_map s)) < size_max"
  shows "iterate_loop the_map blk end_index right_offset index offset s =
    Some (run_closure blk (filter (\<lambda>i. i \<in> bm_bits (the_map s)) [offset..<right_offset]) s)"
  using assms(2-)
proof (induction "end_index - index" arbitrary: index offset s rule: less_induct)
  case less
  show ?case
  proof (cases "offset < right_offset")
    case False
    then show ?thesis by (simp add: iterate_loop.simps)
  next
    case True
    let ?m = "min right_offset (64 * index + 64)" and ?P = "\<lambda>i. i \<in> bm_bits (the_map s)"
    have idx: "index < length (bm_map (the_map s))" using True less.prems by linarith
    have end_i: "index < end_index" using True less.prems idx by (auto simp: less_Suc_eq_le less_eq_div_iff_mult_less_eq)
    have om: "offset mod 64 = offset - 64 * index"
      using less.prems by (metis add_diff_cancel_left' le_Suc_ex mod_less mod_mult_self4 nat_add_left_cancel_less)
    have word: "iterate_word the_map blk index right_offset offset (drop_bit (offset mod 64) (bm_map (the_map s) ! index)) s =
        Some (run_closure blk (filter ?P [offset..<?m]) s)"
      by (rule iterate_word_ok [OF keep idx]) (use less.prems om in auto)
    have list: "[offset..<right_offset] = [offset..<?m] @ [?m..<right_offset]"
      using True less.prems upt_add_eq_append [of offset ?m "right_offset - ?m"] by simp
    obtain c s' where r: "run_closure blk (filter ?P [offset..<?m]) s = (c, s')" by fastforce
    have like: "bm_like (the_map s) (the_map s')"
      using run_closure_keeps(1) [OF keep, of "filter ?P [offset..<?m]" ?m s] r by simp
    have bits: "j \<in> bm_bits (the_map s') \<longleftrightarrow> ?P j" if "?m \<le> j" for j
    proof -
      have "\<forall>i \<in> set (filter ?P [offset..<?m]). i < j" using that by auto
      then show ?thesis using run_closure_keeps(2) [OF keep, of "filter ?P [offset..<?m]" j s] r by simp
    qed
    have "iterate_loop the_map blk end_index right_offset (index + 1) (64 * (index + 1)) s' =
        Some (run_closure blk (filter (\<lambda>i. i \<in> bm_bits (the_map s')) [64 * (index + 1)..<right_offset]) s')"
      by (rule less.hyps) (use end_i less.prems like in \<open>auto simp: bm_like_def\<close>)
    moreover have "filter (\<lambda>i. i \<in> bm_bits (the_map s')) [64 * (index + 1)..<right_offset] = filter ?P [?m..<right_offset]"
      by (cases "right_offset \<le> 64 * index + 64") (auto intro!: filter_cong simp: bits add.commute)
    moreover have "bit_index (index + 1) = 64 * (index + 1)" using idx less.prems(5) by (simp add: bit_index_def)
    ultimately show ?thesis using True end_i idx word r unfolding list filter_append run_closure_append
      by (simp add: iterate_loop.simps [of _ _ _ _ index] map_word_def split: bool.split)
  qed
qed

lemma bm_iterate_ok:
  assumes "keeps_ahead the_map blk" and "bm_ok (the_map s)" and "right_offset \<le> bm_size (the_map s)"
  shows "bm_iterate the_map blk left_offset right_offset s =
    Some (run_closure blk (filter (\<lambda>i. i \<in> bm_bits (the_map s)) [left_offset..<right_offset]) s)"
proof -
  have "left_offset < 64 * (left_offset div 64) + 64" using mult_div_mod_eq [of 64 left_offset] mod_less_divisor [of 64 left_offset] by linarith
  then show ?thesis using assms bm_ok_words(2,3) [OF assms(2)]
    by (simp add: bm_iterate_def Let_def iterate_loop_ok word_index_def bm_ok_def)
qed

section \<open>Counting\<close>

lemma bits_shift: "{n. bit (drop_bit k w) n} = (\<lambda>n. n - k) ` {n. bit w n \<and> k \<le> n}" for w :: bm_word_t
proof -
  have "n \<in> (\<lambda>n. n - k) ` {n. bit w n \<and> k \<le> n}" if "bit w (k + n)" for n
    using that by (intro image_eqI [of _ _ "k + n"]) auto
  then show ?thesis by (auto simp: bit_drop_bit_eq)
qed

lemma card_bits_split: "card {n. bit w n} = card {n. bit w n \<and> n < k} + card {n. bit (drop_bit k w) n}" for w :: bm_word_t
proof -
  have fin: "finite {n. bit w n}" by (rule finite_subset [of _ "{..<64}"]) (auto dest: bit_imp_le_length)
  have split: "{n. bit w n} = {n. bit w n \<and> n < k} \<union> {n. bit w n \<and> k \<le> n}" by auto
  have "card ({n. bit w n \<and> n < k} \<union> {n. bit w n \<and> k \<le> n}) = card {n. bit w n \<and> n < k} + card {n. bit w n \<and> k \<le> n}"
    by (rule card_Un_disjoint) (use fin in \<open>auto elim: rev_finite_subset\<close>)
  moreover have "card {n. bit (drop_bit k w) n} = card {n. bit w n \<and> k \<le> n}"
    unfolding bits_shift by (rule card_image) (auto simp: inj_on_def)
  ultimately show ?thesis by (subst split) simp
qed

lemma card_low_bit: "card {n. bit w n \<and> n < Suc 0} = (if bit w 0 then 1 else 0)" for w :: bm_word_t
proof -
  have "{n. bit w n \<and> n < Suc 0} = (if bit w 0 then {0} else {})" by auto
  then show ?thesis by simp
qed

lemma shift_smaller: "w \<noteq> 0 \<Longrightarrow> unat (drop_bit 1 w) < unat w" for w :: bm_word_t
  using unat_gt_0 [of w] by (simp add: drop_bit_eq_div unat_div)

lemma skip_zeros_ok: "w \<noteq> 0 \<Longrightarrow> \<exists>w'. skip_zeros w = Some w' \<and> bit w' 0 \<and> unat w' \<le> unat w \<and> card {n. bit w' n} = card {n. bit w n}"
proof (induction w rule: measure_induct_rule [of unat])
  case (less w)
  show ?case
  proof (cases "bit w 0")
    case True
    then show ?thesis using odd_bit_0 [of w] by (simp add: skip_zeros.simps [of w])
  next
    case False
    then have nz: "drop_bit 1 w \<noteq> 0" using less.prems drop_bit_ne [of 1 w]
      by (metis bit_eqI bit_0_eq bot_apply bot_bool_def less_one not_less)
    obtain w' where "skip_zeros (drop_bit 1 w) = Some w'" "bit w' 0" "unat w' \<le> unat (drop_bit 1 w)"
      "card {n. bit w' n} = card {n. bit (drop_bit 1 w) n}" using less.IH [OF shift_smaller [OF less.prems] nz] by auto
    moreover have "skip_zeros w = skip_zeros (drop_bit 1 w)" using False odd_bit_0 [of w] by (subst skip_zeros.simps) simp
    moreover have "card {n. bit w n} = card {n. bit (drop_bit 1 w) n}" using card_bits_split [of w 1] card_low_bit [of w] False by simp
    ultimately show ?thesis using shift_smaller [OF less.prems] by auto
  qed
qed

lemma num_set_bits_loop_ok: "num_set_bits_loop w bits = Some (bits + card {n. bit w n})"
proof (induction w arbitrary: bits rule: measure_induct_rule [of unat])
  case (less w)
  show ?case
  proof (cases "w = 0")
    case True
    then show ?thesis by (subst num_set_bits_loop.simps) (simp add: bot_fun_def)
  next
    case False
    obtain w' where w': "skip_zeros w = Some w'" "bit w' 0" "unat w' \<le> unat w" "card {n. bit w' n} = card {n. bit w n}"
      using skip_zeros_ok [OF False] by auto
    then have nz: "w' \<noteq> 0" by auto
    have "num_set_bits_loop (drop_bit 1 w') (bits + 1) = Some (bits + 1 + card {n. bit (drop_bit 1 w') n})"
      using less.IH shift_smaller [OF nz] w'(3) by simp
    then show ?thesis using False w' card_bits_split [of w' 1] card_low_bit [of w']
      by (subst num_set_bits_loop.simps) simp
  qed
qed

lemma num_set_bits_ok: "num_set_bits w = Some (card {n. bit w n})"
  by (simp add: num_set_bits_def num_set_bits_loop_ok)

lemma count_bytes_ok: "count_bytes j w acc = Some (acc + card {n. bit w n \<and> n < 8 * j})"
proof (induction j arbitrary: w acc)
  case 0
  then show ?case by simp
next
  case (Suc j)
  have byte: "{n. bit (ucast (ucast (w AND 255) :: 8 word) :: bm_word_t) n} = {n. bit w n \<and> n < 8}"
  proof -
    have m: "(255 :: bm_word_t) = mask 8" by (simp add: mask_eq_exp_minus_1)
    show ?thesis unfolding m by (auto simp: bit_ucast_iff bit_and_iff bit_mask_iff)
  qed
  have "card {n. bit w n \<and> n < 8 * Suc j} = card {n. bit w n \<and> n < 8} + card {n. bit (drop_bit 8 w) n \<and> n < 8 * j}"
  proof -
    have a: "{n. bit w n \<and> n < 8 * Suc j} = {n. bit (take_bit (8 * Suc j) w) n}"
      and b: "{n. bit (take_bit (8 * Suc j) w) n \<and> n < 8} = {n. bit w n \<and> n < 8}"
      and c: "{n. bit (drop_bit 8 (take_bit (8 * Suc j) w)) n} = {n. bit (drop_bit 8 w) n \<and> n < 8 * j}"
      by (auto simp: bit_take_bit_iff bit_drop_bit_eq)
    show ?thesis unfolding a card_bits_split [of _ 8] b c ..
  qed
  then show ?case by (simp add: num_set_bits_from_table_def num_set_bits_ok byte Suc.IH del: mult_Suc_right)
qed

lemma count_loop_ok:
  assumes "length (bm_map bm) = size_in_words bm" and "i \<le> size_in_words bm"
  shows "count_loop bm i acc = Some (acc + card {n \<in> bm_bits bm. 64 * i \<le> n})"
  using assms(2)
proof (induction "size_in_words bm - i" arbitrary: i acc)
  case 0
  have none: "{n \<in> bm_bits bm. 64 * i \<le> n} = {}" using 0 assms(1) by (auto simp: bm_bits_def div_less_iff_less_mult)
  show ?case unfolding none using 0 by (subst count_loop.simps) simp
next
  case (Suc d)
  then have i: "i < size_in_words bm" "i < length (bm_map bm)" using assms(1) by auto
  let ?w = "bm_map bm ! i"
  have IH: "count_loop bm (i + 1) acc' = Some (acc' + card {n \<in> bm_bits bm. 64 * (i + 1) \<le> n})" for acc'
    by (rule Suc.hyps(1)) (use Suc.hyps(2) i in auto)
  have fin: "finite (bm_bits bm)"
    by (rule finite_subset [of _ "{..<64 * length (bm_map bm)}"]) (auto simp: bm_bits_def div_less_iff_less_mult mult.commute)
  have img: "(\<lambda>n. 64 * i + n) ` {n. bit ?w n \<and> n < 64} = {n \<in> bm_bits bm. 64 * i \<le> n \<and> n < 64 * i + 64}"
  proof (intro equalityI subsetI)
    fix n assume "n \<in> (\<lambda>n. 64 * i + n) ` {n. bit ?w n \<and> n < 64}"
    then show "n \<in> {n \<in> bm_bits bm. 64 * i \<le> n \<and> n < 64 * i + 64}" using word_bit [OF i(2)] by auto
  next
    fix n assume n: "n \<in> {n \<in> bm_bits bm. 64 * i \<le> n \<and> n < 64 * i + 64}"
    then obtain k where "n = 64 * i + k" "k < 64" using bit_in_word_range [of i n] by auto
    then show "n \<in> (\<lambda>n. 64 * i + n) ` {n. bit ?w n \<and> n < 64}" using n word_bit [OF i(2), of k] by auto
  qed
  have "{n \<in> bm_bits bm. 64 * i \<le> n} = {n \<in> bm_bits bm. 64 * i \<le> n \<and> n < 64 * i + 64} \<union> {n \<in> bm_bits bm. 64 * (i + 1) \<le> n}"
    by auto
  then have "card {n \<in> bm_bits bm. 64 * i \<le> n} =
      card {n \<in> bm_bits bm. 64 * i \<le> n \<and> n < 64 * i + 64} + card {n \<in> bm_bits bm. 64 * (i + 1) \<le> n}"
    using fin by (simp only:) (rule card_Un_disjoint; auto)
  moreover have "card {n \<in> bm_bits bm. 64 * i \<le> n \<and> n < 64 * i + 64} = card {n. bit ?w n \<and> n < 64}"
    unfolding img [symmetric] by (rule card_image) (simp add: inj_on_def)
  ultimately show ?case using i by (simp add: count_loop.simps [of bm i] map_word_def count_bytes_ok IH [simplified])
qed

lemma count_one_bits_ok: "bm_ok bm \<Longrightarrow> count_one_bits bm = Some (card (bm_bits bm))"
  by (simp add: count_one_bits_def count_loop_ok bm_ok_def)

end
