(* ===== verification/BitMap_Par.thy ===== *)
theory BitMap_Par
  imports BitMap_Correct
begin

text \<open>
  \<open>BitMap::par_set_bit\<close> and \<open>par_clear_bit\<close> (bitMap.inline.hpp) run by many threads at once on
  one map.  A thread's call is cut where another thread can run in between: the load of the
  word, and every compare-and-swap.  A schedule is the list of the threads in the order of their
  steps.
\<close>

section \<open>The interleaved calls\<close>

datatype par_pc = ParStart | ParLoaded bm_word_t | ParDone bool

definition put_in_word :: "nat \<Rightarrow> bool \<Rightarrow> bm_word_t \<Rightarrow> bm_word_t" where
  "put_in_word b v old_val = (if v then old_val OR bit_mask b else old_val AND NOT (bit_mask b))"

text \<open>A step of a call on bit \<open>b\<close>, \<open>v\<close> for \<open>par_set_bit\<close> and \<open>\<not> v\<close> for \<open>par_clear_bit\<close>.\<close>

fun par_put_step :: "nat \<Rightarrow> bool \<Rightarrow> bitmap \<Rightarrow> par_pc \<Rightarrow> (bitmap \<times> par_pc) option" where
  "par_put_step b v bm ParStart = do { old_val \<leftarrow> map_word bm (word_index b); Some (bm, ParLoaded old_val) }"
| "par_put_step b v bm (ParLoaded old_val) =
     (let new_val = put_in_word b v old_val in
      if new_val = old_val then Some (bm, ParDone False)
      else do { (cur_val, bm') \<leftarrow> word_cas bm (word_index b) new_val old_val;
                Some (bm', if cur_val = old_val then ParDone True else ParLoaded cur_val) })"
| "par_put_step b v bm (ParDone r) = Some (bm, ParDone r)"

text \<open>Thread \<open>t\<close> calls \<open>par_set_bit\<close> or \<open>par_clear_bit\<close> as \<open>ops t\<close> says.\<close>

fun par_run :: "(nat \<Rightarrow> nat \<times> bool) \<Rightarrow> nat list \<Rightarrow> bitmap \<times> (nat \<Rightarrow> par_pc) \<Rightarrow> (bitmap \<times> (nat \<Rightarrow> par_pc)) option" where
  "par_run ops [] s = Some s"
| "par_run ops (t # ts) (bm, pcs) =
     do { (bm', pc) \<leftarrow> par_put_step (fst (ops t)) (snd (ops t)) bm (pcs t); par_run ops ts (bm', pcs(t := pc)) }"

section \<open>One step\<close>

lemma put_in_word_same: "put_in_word b v w = w \<longleftrightarrow> bit w (b mod 64) = v"
proof
  assume "put_in_word b v w = w"
  then have "bit (put_in_word b v w) (b mod 64) = bit w (b mod 64)" by simp
  then show "bit w (b mod 64) = v"
    by (auto simp: put_in_word_def bit_or_iff bit_and_iff bit_not_iff bit_bit_mask split: if_split_asm)
next
  assume "bit w (b mod 64) = v"
  then show "put_in_word b v w = w"
    by (intro bit_word_eqI) (auto simp: put_in_word_def bit_or_iff bit_and_iff bit_not_iff bit_bit_mask)
qed

lemma par_put_step_cases:
  assumes "word_index b < length (bm_map bm)"
  obtains (quiet) pc' where "par_put_step b v bm pc = Some (bm, pc')" and "pc' = ParDone True \<longleftrightarrow> pc = ParDone True"
      and "pc' = ParDone False \<Longrightarrow> pc = ParDone False \<or> (\<exists>w. pc = ParLoaded w \<and> bit w (b mod 64) = v)"
      and "\<And>w. pc' = ParLoaded w \<Longrightarrow> w = bm_map bm ! word_index b"
      and "\<And>w. pc = ParLoaded w \<Longrightarrow> w = bm_map bm ! word_index b \<Longrightarrow> pc' = ParDone False"
      and "\<And>r. pc = ParDone r \<Longrightarrow> pc' = ParDone r" and "pc' \<noteq> ParStart"
  | (success) bm' where "par_put_step b v bm pc = Some (bm', ParDone True)" and "\<And>r. pc \<noteq> ParDone r"
      and "(b \<in> bm_bits bm) = (\<not> v)" and "bm_like bm bm'" and "bm_bits bm' = put v {b} (bm_bits bm)"
proof (cases pc)
  case ParStart
  then show ?thesis using assms by (intro quiet) (auto simp: map_word_def)
next
  case (ParDone r)
  then show ?thesis using assms by (intro quiet) auto
next
  case (ParLoaded old)
  define cur where "cur = bm_map bm ! word_index b"
  have m: "map_word bm (word_index b) = Some cur" using assms by (simp add: map_word_def cur_def)
  show ?thesis
  proof (cases "put_in_word b v old = old")
    case True
    then show ?thesis using ParLoaded by (intro quiet [of "ParDone False"]) (auto simp: put_in_word_same)
  next
    case ne: False
    show ?thesis
    proof (cases "cur = old")
      case False
      then show ?thesis using ParLoaded ne m
        by (intro quiet [of "ParLoaded cur"]) (auto simp: word_cas_def cur_def)
    next
      case True
      obtain bm' where bm': "bm_at_put bm b v = Some bm'" "bm_like bm bm'" "bm_bits bm' = put v {b} (bm_bits bm)"
        using bm_at_put_bits [OF assms] by blast
      have "set_word bm (word_index b) (put_in_word b v old) = Some bm'"
        using bm'(1) m True by (cases v) (auto simp: bm_at_put_def bm_set_bit_def bm_clear_bit_def put_in_word_def)
      moreover have "(b \<in> bm_bits bm) = (\<not> v)"
        using ne True assms by (auto simp: put_in_word_same bm_bits_def cur_def word_index_def)
      ultimately show ?thesis using ParLoaded ne m True bm' by (intro success [of bm']) (auto simp: word_cas_def)
    qed
  qed
qed

section \<open>Accounting\<close>

text \<open>The number of the \<open>n\<close> threads whose call on bit \<open>b\<close> with value \<open>v\<close> has returned \<open>true\<close>.\<close>

definition winners :: "(nat \<Rightarrow> nat \<times> bool) \<Rightarrow> nat \<Rightarrow> (nat \<Rightarrow> par_pc) \<Rightarrow> nat \<Rightarrow> bool \<Rightarrow> nat set" where
  "winners ops n pcs b v = {t. t < n \<and> ops t = (b, v) \<and> pcs t = ParDone True}"

definition net :: "(nat \<Rightarrow> nat \<times> bool) \<Rightarrow> nat \<Rightarrow> (nat \<Rightarrow> par_pc) \<Rightarrow> nat \<Rightarrow> int" where
  "net ops n pcs b = int (card (winners ops n pcs b True)) - int (card (winners ops n pcs b False))"

lemma finite_winners [simp]: "finite (winners ops n pcs b v)"
  by (simp add: winners_def)

lemma winners_quiet: "pc = ParDone True \<longleftrightarrow> pcs t = ParDone True \<Longrightarrow> winners ops n (pcs(t := pc)) b v = winners ops n pcs b v"
  by (auto simp: winners_def)

lemma winners_success:
  assumes "t < n" and "pcs t \<noteq> ParDone True"
  shows "card (winners ops n (pcs(t := ParDone True)) b v) = card (winners ops n pcs b v) + of_bool (ops t = (b, v))"
proof -
  have "winners ops n (pcs(t := ParDone True)) b v = (if ops t = (b, v) then insert t (winners ops n pcs b v) else winners ops n pcs b v)"
    using assms by (auto simp: winners_def)
  moreover have "t \<notin> winners ops n pcs b v" using assms by (simp add: winners_def)
  ultimately show ?thesis by simp
qed

definition par_fits :: "(nat \<Rightarrow> nat \<times> bool) \<Rightarrow> nat \<Rightarrow> bitmap \<Rightarrow> bool" where
  "par_fits ops n bm \<longleftrightarrow> (\<forall>t < n. word_index (fst (ops t)) < length (bm_map bm))"

lemma par_fits_like: "bm_like bm bm' \<Longrightarrow> par_fits ops n bm \<Longrightarrow> par_fits ops n bm'"
  by (simp add: par_fits_def bm_like_def)

lemma par_run_balanced:
  assumes "set ts \<subseteq> {..<n}" and "par_fits ops n bm"
  shows "\<exists>bm' pcs'. par_run ops ts (bm, pcs) = Some (bm', pcs') \<and> bm_like bm bm' \<and>
    (\<forall>b. net ops n pcs' b - net ops n pcs b = of_bool (b \<in> bm_bits bm') - of_bool (b \<in> bm_bits bm))"
  using assms
proof (induction ts arbitrary: bm pcs)
  case Nil
  then show ?case by (simp add: bm_like_def)
next
  case (Cons t ts)
  obtain b0 v0 where op: "ops t = (b0, v0)" by fastforce
  have t: "t < n" "word_index b0 < length (bm_map bm)" using Cons.prems op by (auto simp: par_fits_def)
  from t(2) show ?case
  proof (cases rule: par_put_step_cases [where v = v0 and pc = "pcs t"])
    case (quiet pc')
    have "net ops n (pcs(t := pc')) b = net ops n pcs b" for b
      by (simp only: net_def winners_quiet [of pc' pcs t, OF quiet(2)])
    then show ?thesis using Cons.IH [of bm "pcs(t := pc')"] Cons.prems op quiet(1) by (simp del: fun_upd_apply)
  next
    case (success bm')
    have "pcs t \<noteq> ParDone True" using success(2) by blast
    note win = winners_success [of t n pcs ops, OF t(1) this]
    have n: "net ops n (pcs(t := ParDone True)) b - net ops n pcs b = of_bool (b \<in> bm_bits bm') - of_bool (b \<in> bm_bits bm)" for b
      using success(3) by (cases "b = b0"; cases v0) (auto simp: net_def win op success(5) put_def)
    show ?thesis
    proof -
      have ts: "set ts \<subseteq> {..<n}" using Cons.prems(1) by simp
      obtain bm2 pcs2 where r: "par_run ops ts (bm', pcs(t := ParDone True)) = Some (bm2, pcs2)" "bm_like bm' bm2"
        "\<And>b. net ops n pcs2 b - net ops n (pcs(t := ParDone True)) b = of_bool (b \<in> bm_bits bm2) - of_bool (b \<in> bm_bits bm')"
        using Cons.IH [OF ts par_fits_like [OF success(4) Cons.prems(2)]] by blast
      have "net ops n pcs2 b - net ops n pcs b = of_bool (b \<in> bm_bits bm2) - of_bool (b \<in> bm_bits bm)" for b
        using r(3) [of b] n [of b] by simp
      then show ?thesis using r(1,2) success(1,4) op bm_like_trans by auto
    qed
  qed
qed

section \<open>A call that returned has its value in the map\<close>

definition seen_inv :: "(nat \<Rightarrow> nat \<times> bool) \<Rightarrow> nat \<Rightarrow> nat \<Rightarrow> bool \<Rightarrow> bitmap \<Rightarrow> (nat \<Rightarrow> par_pc) \<Rightarrow> bool" where
  "seen_inv ops n b v bm pcs \<longleftrightarrow> (\<forall>t < n. ops t = (b, v) \<longrightarrow>
     (case pcs t of ParStart \<Rightarrow> True | ParLoaded w \<Rightarrow> bit w (b mod 64) = v \<longrightarrow> (b \<in> bm_bits bm) = v
      | ParDone r \<Rightarrow> (b \<in> bm_bits bm) = v))"

lemma seen_inv_run:
  assumes "set ts \<subseteq> {..<n}" and "par_fits ops n bm" and same: "\<forall>t < n. fst (ops t) = b \<longrightarrow> snd (ops t) = v"
    and "seen_inv ops n b v bm pcs" and "par_run ops ts (bm, pcs) = Some (bm', pcs')"
  shows "seen_inv ops n b v bm' pcs'"
  using assms(1,2,4,5)
proof (induction ts arbitrary: bm pcs)
  case Nil
  then show ?case by simp
next
  case (Cons t ts)
  obtain b0 v0 where op: "ops t = (b0, v0)" by fastforce
  have t: "t < n" "word_index b0 < length (bm_map bm)" using Cons.prems op by (auto simp: par_fits_def)
  from t(2) show ?case
  proof (cases rule: par_put_step_cases [where v = v0 and pc = "pcs t"])
    case (quiet pc')
    have "seen_inv ops n b v bm (pcs(t := pc'))"
      using Cons.prems(3) quiet(2-4) t op
      by (auto simp: seen_inv_def bm_bits_def word_index_def split: par_pc.splits)
    then show ?thesis using Cons.IH [of bm "pcs(t := pc')"] Cons.prems op quiet(1) by (simp add: fun_upd_def)
  next
    case (success bm1)
    have "v0 = v" if "b0 = b" using same t op that by auto
    then have "seen_inv ops n b v bm1 (pcs(t := ParDone True))"
      using Cons.prems(3) op unfolding seen_inv_def success(5)
      by (auto simp: put_def split: par_pc.splits)
    then show ?thesis using Cons.IH [of bm1 "pcs(t := ParDone True)"] Cons.prems par_fits_like [OF success(4)] op success(1) by (simp add: fun_upd_def)
  qed
qed

section \<open>Progress\<close>

text \<open>
  A compare-and-swap of \<open>t\<close> fails only when another call has succeeded since the load, and every
  other call succeeds once: this bounds the steps \<open>t\<close> still takes.
\<close>

definition running :: "nat \<Rightarrow> (nat \<Rightarrow> par_pc) \<Rightarrow> nat \<Rightarrow> nat set" where
  "running n pcs t = {u. u < n \<and> u \<noteq> t \<and> (\<forall>r. pcs u \<noteq> ParDone r)}"

definition remaining :: "(nat \<Rightarrow> nat \<times> bool) \<Rightarrow> nat \<Rightarrow> bitmap \<Rightarrow> (nat \<Rightarrow> par_pc) \<Rightarrow> nat \<Rightarrow> nat" where
  "remaining ops n bm pcs t =
     (case pcs t of ParDone r \<Rightarrow> 0
      | ParStart \<Rightarrow> 2 + card (running n pcs t)
      | ParLoaded w \<Rightarrow> (if w = bm_map bm ! word_index (fst (ops t)) then 1 else 2) + card (running n pcs t))"

lemma finite_running [simp]: "finite (running n pcs t)"
  by (simp add: running_def)

lemma running_own: "running n (pcs(t := pc)) t = running n pcs t"
  by (auto simp: running_def)

lemma running_mono: "(\<And>r. pcs u = ParDone r \<Longrightarrow> pc = ParDone r) \<Longrightarrow> card (running n (pcs(u := pc)) t) \<le> card (running n pcs t)"
  by (rule card_mono) (auto simp: running_def)

lemma running_done:
  assumes "u < n" and "u \<noteq> t" and "\<And>r. pcs u \<noteq> ParDone r"
  shows "card (running n (pcs(u := ParDone r)) t) + 1 = card (running n pcs t)"
proof -
  have "running n pcs t = insert u (running n (pcs(u := ParDone r)) t)" using assms by (auto simp: running_def)
  moreover have "u \<notin> running n (pcs(u := ParDone r)) t" by (simp add: running_def)
  ultimately show ?thesis by simp
qed

lemma remaining_step:
  assumes "u < n" and "word_index (fst (ops u)) < length (bm_map bm)"
    and "par_put_step (fst (ops u)) (snd (ops u)) bm (pcs u) = Some (bm', pc)"
  shows "remaining ops n bm' (pcs(u := pc)) t + of_bool (u = t) \<le> max (remaining ops n bm pcs t) (of_bool (u = t))"
  using assms(2)
proof (cases rule: par_put_step_cases [where v = "snd (ops u)" and pc = "pcs u"])
  case (quiet pc')
  then have eq: "pc' = pc" "bm' = bm" using assms(3) by auto
  show ?thesis
  proof (cases "u = t")
    case True
    then show ?thesis using quiet(2-7) unfolding eq
      by (cases "pcs t"; cases pc) (auto simp: remaining_def running_own)
  next
    case False
    have "card (running n (pcs(u := pc)) t) \<le> card (running n pcs t)"
      by (rule running_mono) (use quiet(6) eq in auto)
    then show ?thesis using False unfolding eq by (auto simp: remaining_def split: par_pc.split)
  qed
next
  case (success bm1)
  then have eq: "pc = ParDone True" "bm' = bm1" using assms(3) by auto
  show ?thesis
  proof (cases "u = t")
    case True
    then show ?thesis unfolding eq by (simp add: remaining_def)
  next
    case False
    then show ?thesis using running_done [OF assms(1) False, of pcs True] success(2) unfolding eq
      by (cases "pcs t") (auto simp: remaining_def)
  qed
qed

lemma remaining_run:
  assumes "set ts \<subseteq> {..<n}" and "par_fits ops n bm" and "par_run ops ts (bm, pcs) = Some (bm', pcs')"
  shows "remaining ops n bm' pcs' t \<le> remaining ops n bm pcs t - count_list ts t"
  using assms
proof (induction ts arbitrary: bm pcs)
  case Nil
  then show ?case by simp
next
  case (Cons u ts)
  have u: "u < n" "word_index (fst (ops u)) < length (bm_map bm)" "set ts \<subseteq> {..<n}" using Cons.prems by (auto simp: par_fits_def)
  obtain bm1 pc where step: "par_put_step (fst (ops u)) (snd (ops u)) bm (pcs u) = Some (bm1, pc)"
    and run: "par_run ops ts (bm1, pcs(u := pc)) = Some (bm', pcs')" using Cons.prems(3) by (auto split: Option.bind_split_asm)
  have "bm_like bm bm1" using u(2)
    by (cases rule: par_put_step_cases [where v = "snd (ops u)" and pc = "pcs u"]) (use step in \<open>auto simp: bm_like_def\<close>)
  then have "remaining ops n bm' pcs' t \<le> remaining ops n bm1 (pcs(u := pc)) t - count_list ts t"
    using Cons.IH [OF u(3) par_fits_like run] Cons.prems(2) by blast
  then show ?case using remaining_step [of u n ops bm pcs bm1 pc t, OF u(1,2) step] by (auto split: if_split_asm)
qed

section \<open>Theorems\<close>

text \<open>Two threads that set bit 3 of an empty map of one word.\<close>

definition demo_ops :: "nat \<Rightarrow> nat \<times> bool" where
  "demo_ops t = (3, True)"

definition demo_bits :: bitmap where
  "demo_bits = \<lparr>bm_map = [0], bm_size = 64\<rparr>"

text \<open>
  C18: for any number of threads calling par_set_bit and par_clear_bit on bits of one map, in any
  interleaving of their loads and compare-and-swaps, no step faults, and for every bit the calls
  that returned true account for the bit: one more set than clear when the bit went from clear
  to set, one less when it went from set to clear, as many otherwise. When all the calls on a
  bit are of one kind, every call on it that has returned finds its value in the map, so of
  several par_set_bit on a clear bit exactly one returns true.
\<close>

theorem par_bit_one_winner:
  assumes "set ts \<subseteq> {..<n}" and "par_fits ops n bm"
  shows "\<exists>bm' pcs'. par_run ops ts (bm, \<lambda>t. ParStart) = Some (bm', pcs') \<and> bm_like bm bm' \<and>
    (\<forall>b. int (card (winners ops n pcs' b True)) - int (card (winners ops n pcs' b False)) =
       of_bool (b \<in> bm_bits bm') - of_bool (b \<in> bm_bits bm)) \<and>
    (\<forall>b v t r. (\<forall>t' < n. fst (ops t') = b \<longrightarrow> snd (ops t') = v) \<longrightarrow> t < n \<longrightarrow> ops t = (b, v) \<longrightarrow> pcs' t = ParDone r \<longrightarrow>
       (b \<in> bm_bits bm') = v \<and> card (winners ops n pcs' b v) = of_bool ((b \<in> bm_bits bm) \<noteq> v))"
proof -
  let ?p0 = "\<lambda>t :: nat. ParStart"
  obtain bm' pcs' where r: "par_run ops ts (bm, ?p0) = Some (bm', pcs')" "bm_like bm bm'"
    "\<And>b. net ops n pcs' b - net ops n ?p0 b = of_bool (b \<in> bm_bits bm') - of_bool (b \<in> bm_bits bm)"
    using par_run_balanced [OF assms] by blast
  have net: "int (card (winners ops n pcs' b True)) - int (card (winners ops n pcs' b False)) =
      of_bool (b \<in> bm_bits bm') - of_bool (b \<in> bm_bits bm)" for b
    using r(3) [of b] by (simp add: net_def winners_def)
  have "(b \<in> bm_bits bm') = v \<and> card (winners ops n pcs' b v) = of_bool ((b \<in> bm_bits bm) \<noteq> v)"
    if same: "\<forall>t' < n. fst (ops t') = b \<longrightarrow> snd (ops t') = v" and t: "t < n" "ops t = (b, v)" "pcs' t = ParDone r" for b v t r
  proof -
    have "seen_inv ops n b v bm' pcs'" by (rule seen_inv_run [OF assms same _ r(1)]) (simp add: seen_inv_def)
    then have bv: "(b \<in> bm_bits bm') = v" using t by (auto simp: seen_inv_def)
    have "winners ops n pcs' b (\<not> v) = {}" using same by (auto simp: winners_def)
    then show ?thesis using bv net [of b] by (cases v) auto
  qed
  then show ?thesis using r(1,2) net by blast
qed

theorem par_bit_one_winner_witness:
  "\<exists>bm' pcs'. par_run demo_ops [0, 1, 0, 1, 1] (demo_bits, \<lambda>t. ParStart) = Some (bm', pcs') \<and> bm_like demo_bits bm' \<and>
    (\<forall>b. int (card (winners demo_ops 2 pcs' b True)) - int (card (winners demo_ops 2 pcs' b False)) =
       of_bool (b \<in> bm_bits bm') - of_bool (b \<in> bm_bits demo_bits)) \<and>
    (\<forall>b v t r. (\<forall>t' < 2. fst (demo_ops t') = b \<longrightarrow> snd (demo_ops t') = v) \<longrightarrow> t < 2 \<longrightarrow> demo_ops t = (b, v) \<longrightarrow> pcs' t = ParDone r \<longrightarrow>
       (b \<in> bm_bits bm') = v \<and> card (winners demo_ops 2 pcs' b v) = of_bool ((b \<in> bm_bits demo_bits) \<noteq> v))"
  by (rule par_bit_one_winner) (auto simp: par_fits_def word_index_def demo_ops_def demo_bits_def)

text \<open>
  C34: a call of par_set_bit or par_clear_bit ends after at most n + 1 of its own steps when n
  threads make one call each, whatever the others do: the load, one failed compare-and-swap per
  other thread, and the last one.
\<close>

theorem par_bit_wait_free:
  assumes "set ts \<subseteq> {..<n}" and "par_fits ops n bm" and "t < n" and "n + 1 \<le> count_list ts t"
  shows "\<exists>bm' pcs' r. par_run ops ts (bm, \<lambda>t. ParStart) = Some (bm', pcs') \<and> pcs' t = ParDone r"
proof -
  let ?p0 = "\<lambda>t :: nat. ParStart"
  obtain bm' pcs' where r: "par_run ops ts (bm, ?p0) = Some (bm', pcs')" using par_run_balanced [OF assms(1,2)] by blast
  have "running n ?p0 t = {..<n} - {t}" by (auto simp: running_def)
  then have "remaining ops n bm ?p0 t = n + 1" using assms(3) by (simp add: remaining_def)
  then have "remaining ops n bm' pcs' t = 0" using remaining_run [OF assms(1,2) r, of t] assms(4) by simp
  then show ?thesis using r by (auto simp: remaining_def split: par_pc.split_asm if_split_asm)
qed

theorem par_bit_wait_free_witness:
  "\<exists>bm' pcs' r. par_run demo_ops [0, 1, 0, 0] (demo_bits, \<lambda>t. ParStart) = Some (bm', pcs') \<and> pcs' 0 = ParDone r"
  by (rule par_bit_wait_free [of "[0, 1, 0, 0]" 2]) (auto simp: par_fits_def word_index_def demo_ops_def demo_bits_def)

end
