(* ===== verification/BitMap_Theorems.thy ===== *)
theory BitMap_Theorems
  imports BitMap_Props BitMap_Par
begin

text \<open>
  What \<open>BitMap\<close> (bitMap.hpp, bitMap.inline.hpp, bitMap.cpp) promises, over the set of the offsets
  whose bit is one; and \<open>BitMap2D\<close> as a client of the interface \<open>at\<close> and \<open>at_put\<close>.
\<close>

section \<open>Resizing\<close>

lemma size_in_words_fit: "bm_size bm + 63 < size_max \<Longrightarrow> size_in_words bm = (bm_size bm + 63) div 64"
  by (simp add: size_in_words_def word_index_round_up_def word_index_def uadd64_def)

lemma below_words: "i < 64 * k \<longleftrightarrow> i div 64 < k" for i :: nat
  by (simp add: div_less_iff_less_mult mult.commute)

lemma above_words: "64 * k \<le> i \<longleftrightarrow> k \<le> i div 64" for i :: nat
  by (simp add: less_eq_div_iff_mult_less_eq mult.commute)

lemma resize_bits:
  assumes ok: "bm_ok bm" and n: "n + 63 < size_max"
  shows "\<exists>bm'. bm_resize freed fresh bm n True = Some bm' \<and> bm_ok bm' \<and> bm_size bm' = n \<and>
    bm_bits bm' = bm_bits bm \<inter> {..<64 * size_in_words bm'}"
proof -
  let ?old = "length (bm_map bm)" and ?new = "size_in_words (bm\<lparr>bm_size := n\<rparr>)"
  define m where "m = take (min ?old ?new) (bm_map bm) @ map fresh [min ?old ?new..<?new]"
  define bm2 where "bm2 = bm\<lparr>bm_size := n, bm_map := m\<rparr>"
  have len: "length (bm_map bm2) = ?new" "size_in_words bm2 = ?new" "bm_size bm2 = n"
    by (simp_all add: bm2_def m_def size_in_words_def)
  have old: "size_in_words bm = ?old" using ok by (simp add: bm_ok_def)
  show ?thesis
  proof (cases "?old < ?new")
    case False
    then have m: "m = take ?new (bm_map bm)" by (simp add: m_def)
    have "bm_bits bm2 = bm_bits bm \<inter> {..<64 * ?new}"
      using False by (auto simp: bm_bits_def bm2_def m below_words)
    then show ?thesis using False n len old
      by (intro exI [of _ bm2]) (auto simp: bm_resize_def Let_def bm_ok_def bm2_def m_def)
  next
    case True
    obtain bm' where bm': "fill_words bm2 ?old ?new 0 = Some bm'" "bm_like bm2 bm'" "bm_bits bm' = put False {64 * ?old..<64 * ?new} (bm_bits bm2)"
      using fill_words_bits [of ?old ?new bm2 False] True len by auto
    have "i \<in> bm_bits bm' \<longleftrightarrow> i \<in> bm_bits bm \<inter> {..<64 * ?new}" for i
    proof -
      have "i \<in> bm_bits bm' \<longleftrightarrow> i div 64 < ?old \<and> i \<in> bm_bits bm2"
        unfolding bm'(3) using len(1) by (auto simp: put_def below_words above_words bm_bits_def)
      moreover have "i \<in> bm_bits bm2 \<longleftrightarrow> i \<in> bm_bits bm" if "i div 64 < ?old"
        using that True len(1) by (simp add: bm_bits_def) (simp add: bm2_def m_def nth_append)
      ultimately show ?thesis using True by (auto simp: below_words bm_bits_def)
    qed
    then have "bm_bits bm' = bm_bits bm \<inter> {..<64 * ?new}" by (rule set_eqI)
    moreover have "bm_size bm' = n" "length (bm_map bm') = ?new" "size_in_words bm' = ?new"
      using bm'(2) len by (simp_all add: bm_like_def size_in_words_def)
    moreover have "bm_resize freed fresh bm n True = clear_range_of_words bm2 ?old (size_in_words bm2)"
      using True unfolding bm_resize_def Let_def old if_True by (simp add: bm2_def m_def)
    then have "bm_resize freed fresh bm n True = Some bm'" using bm'(1) by (simp add: clear_range_of_words_def len(2))
    ultimately show ?thesis using n by (simp add: bm_ok_def)
  qed
qed

lemma at_put_grow_bits:
  assumes ok: "bm_ok bm" and fit: "2 * max (bm_size bm) offset + 63 < size_max" and nz: "0 < max (bm_size bm) offset"
  shows "\<exists>bm'. bm_at_put_grow fresh bm offset v = Some bm' \<and> bm_ok bm' \<and>
    bm_size bm' = (if bm_size bm \<le> offset then 2 * offset else bm_size bm) \<and>
    bm_bits bm' = put v {offset} (bm_bits bm)"
proof -
  obtain bm1 where bm1: "(if bm_size bm \<le> offset then bm_resize [] fresh bm (2 * max (bm_size bm) offset mod size_max) True
      else Some bm) = Some bm1" "bm_ok bm1" "bm_size bm1 = (if bm_size bm \<le> offset then 2 * offset else bm_size bm)"
    "bm_bits bm1 = bm_bits bm"
  proof (cases "bm_size bm \<le> offset")
    case True
    then have "2 * offset + 63 < size_max" using fit by simp
    then obtain bm' where "bm_resize [] fresh bm (2 * offset) True = Some bm'" "bm_ok bm'" "bm_size bm' = 2 * offset"
      "bm_bits bm' = bm_bits bm \<inter> {..<64 * size_in_words bm'}" using resize_bits [OF ok] by blast
    moreover have "length (bm_map bm) \<le> size_in_words bm'"
      using bm_ok_words(1) [OF ok] size_in_words_fit [of bm'] calculation(2,3) True by (simp add: bm_ok_def div_le_mono)
    then have "bm_bits bm \<subseteq> {..<64 * size_in_words bm'}" by (auto simp: bm_bits_def below_words)
    ultimately show ?thesis using True fit that [of bm'] by (simp add: Int_absorb2)
  next
    case False
    then show ?thesis using ok that [of bm] by simp
  qed
  have "offset < bm_size bm1" using bm1(3) nz by auto
  then have w: "word_index offset < length (bm_map bm1)" using word_index_less [OF bm1(2)] by simp
  obtain bm' where bm': "bm_at_put bm1 offset v = Some bm'" "bm_like bm1 bm'" "bm_bits bm' = put v {offset} (bm_bits bm1)"
    using bm_at_put_bits [OF w] by blast
  then have "bm_ok bm'" "bm_size bm' = bm_size bm1" using bm_ok_like bm1(2) by (simp_all add: bm_like_def)
  then show ?thesis using bm1 bm' by (simp add: bm_at_put_grow_def)
qed

section \<open>Sets and comparisons\<close>

lemma bit_all_eq: "a = b \<longleftrightarrow> (\<forall>n < 64. bit a n = bit b n)" for a b :: bm_word_t
  by (auto intro!: bit_word_eqI)

lemma set_operation_bits:
  assumes "bm_ok bm" and "bm_ok other" and "bm_size bm = bm_size other"
  shows "\<exists>bm'. set_union_with_result bm other = Some (bm' \<noteq> bm, bm') \<and> bm_like bm bm' \<and> bm_bits bm' = bm_bits bm \<union> bm_bits other"
    and "\<exists>bm'. set_difference_with_result bm other = Some (bm' \<noteq> bm, bm') \<and> bm_like bm bm' \<and> bm_bits bm' = bm_bits bm - bm_bits other"
    and "\<exists>bm'. set_intersection_with_result bm other = Some (bm' \<noteq> bm, bm') \<and> bm_like bm bm' \<and> bm_bits bm' = bm_bits bm \<inter> bm_bits other"
    and "bm_set_from bm other = Some other"
proof -
  note c = combine_bits [OF assms]
  show "\<exists>bm'. set_union_with_result bm other = Some (bm' \<noteq> bm, bm') \<and> bm_like bm bm' \<and> bm_bits bm' = bm_bits bm \<union> bm_bits other"
    using c [of "\<lambda>a b. a OR b" "\<lambda>x y. x \<or> y"] unfolding set_union_with_result_def by (simp add: bit_or_iff Un_def)
  show "\<exists>bm'. set_difference_with_result bm other = Some (bm' \<noteq> bm, bm') \<and> bm_like bm bm' \<and> bm_bits bm' = bm_bits bm - bm_bits other"
    using c [of "\<lambda>a b. a AND NOT b" "\<lambda>x y. x \<and> \<not> y"] unfolding set_difference_with_result_def
    by (simp add: bit_and_iff bit_not_iff set_diff_eq)
  show "\<exists>bm'. set_intersection_with_result bm other = Some (bm' \<noteq> bm, bm') \<and> bm_like bm bm' \<and> bm_bits bm' = bm_bits bm \<inter> bm_bits other"
    using c [of "\<lambda>a b. a AND b" "\<lambda>x y. x \<and> y"] unfolding set_intersection_with_result_def by (simp add: bit_and_iff Int_def)
  obtain bm' where "bm_set_from bm other = Some bm'" "bm_like bm bm'" "bm_bits bm' = bm_bits other"
    using c [of "\<lambda>a b. b" "\<lambda>x y. y"] unfolding bm_set_from_def by auto
  moreover have "bm_like bm' other" using calculation(2) assms by (simp add: bm_like_def bm_ok_def size_in_words_def)
  ultimately show "bm_set_from bm other = Some other" using bm_eqI by simp
qed

lemma comparison_bits:
  assumes "bm_ok bm" and "bm_ok other" and "bm_size bm = bm_size other"
  shows "bm_contains bm other = Some (bm_bits other \<subseteq> bm_bits bm)"
    and "bm_intersects bm other = Some (bm_bits bm \<inter> bm_bits other \<noteq> {})"
    and "bm_is_same bm other = Some (bm = other)"
proof -
  note c = compare_bits [OF assms]
  have "all_words (\<lambda>a b. a OR b = a) bm other 0 (size_in_words bm) = Some (\<forall>i. i \<in> bm_bits other \<longrightarrow> i \<in> bm_bits bm)"
    by (rule c) (subst bit_all_eq, auto simp: bit_or_iff)
  then show "bm_contains bm other = Some (bm_bits other \<subseteq> bm_bits bm)" by (auto simp: bm_contains_def)
  have "all_words (\<lambda>a b. a AND b = 0) bm other 0 (size_in_words bm) = Some (\<forall>i. i \<in> bm_bits bm \<longrightarrow> i \<notin> bm_bits other)"
    by (rule c) (subst bit_all_eq, auto simp: bit_and_iff)
  then show "bm_intersects bm other = Some (bm_bits bm \<inter> bm_bits other \<noteq> {})" by (auto simp: bm_intersects_def)
  have "bm_like bm other" using assms by (simp add: bm_like_def bm_ok_def size_in_words_def)
  then have "bm = other \<longleftrightarrow> bm_bits bm = bm_bits other" using bm_eqI by auto
  moreover have "all_words (\<lambda>a b. a = b) bm other 0 (size_in_words bm) = Some (\<forall>i. i \<in> bm_bits bm \<longleftrightarrow> i \<in> bm_bits other)"
    by (rule c) (auto simp: bit_all_eq)
  ultimately show "bm_is_same bm other = Some (bm = other)" by (auto simp: bm_is_same_def)
qed

section \<open>Theorems\<close>

definition demo_row :: bitmap where
  "demo_row = \<lparr>bm_map = [0, 0], bm_size = 70\<rparr>"

definition demo_full :: bitmap where
  "demo_full = \<lparr>bm_map = [NOT 0, 0], bm_size = 70\<rparr>"

lemma demo_ok: "bm_ok demo_row" "bm_ok demo_full" "bm_size demo_row = 70" "bm_size demo_full = 70"
  by (simp_all add: bm_ok_def demo_row_def demo_full_def size_in_words_def word_index_def uadd64_def size_max_def)

text \<open>
  C11: setting or clearing the bits of a range that lies in the map gives the map in which exactly
  these bits have the new value; the plain, the large and the parallel versions, and every size
  hint given to them, give that same map.
\<close>

theorem bitmap_range_correct:
  assumes "bm_ok bm" and "b \<le> e" and "e \<le> bm_size bm"
  shows "\<exists>bm'. bm_ok bm' \<and> bm_size bm' = bm_size bm \<and> bm_bits bm' = put v {b..<e} (bm_bits bm) \<and>
    bm_at_put_range bm b e v = Some bm' \<and> bm_at_put_large_range bm b e v = Some bm' \<and>
    bm_par_at_put_range bm b e v = Some bm' \<and> bm_par_at_put_large_range bm b e v = Some bm' \<and>
    (if v then bm_set_range_hint else bm_clear_range_hint) bm b e hint = Some bm' \<and>
    (if v then bm_par_set_range_hint else bm_par_clear_range_hint) bm b e hint = Some bm'"
proof -
  obtain bm' where r: "bm_at_put_range bm b e v = Some bm'" "bm_like bm bm'" "bm_bits bm' = put v {b..<e} (bm_bits bm)"
    using bm_at_put_range_bits [OF assms] by blast
  note eqs = at_put_large_range_eq [OF assms] par_at_put_large_range_eq [OF assms] par_at_put_range_eq
  have sm: "size_max > e" using assms bm_ok_def by auto
  have single: "bm_at_put bm b v = Some bm'" "map_option snd (bm_par_at_put bm b v) = Some bm'" if "usub64 e b = 1"
  proof -
    have e: "e = Suc b" using that assms(2) sm by (simp add: usub64_le)
    then show at: "bm_at_put bm b v = Some bm'" using at_put_range_single [OF assms(1)] assms(3) r(1) by simp
    have "word_index b < length (bm_map bm)" using word_index_less [OF assms(1)] e assms(3) by simp
    then show "map_option snd (bm_par_at_put bm b v) = Some bm'" using at by (simp add: bm_par_at_put_eq)
  qed
  have "(if v then bm_set_range_hint else bm_clear_range_hint) bm b e hint = Some bm'"
    using single(1) r(1) eqs(1) [of v] by (cases v) (auto simp: bm_set_range_hint_def bm_clear_range_hint_def bm_at_put_def bm_at_put_range_def bm_at_put_large_range_def)
  moreover have "(if v then bm_par_set_range_hint else bm_par_clear_range_hint) bm b e hint = Some bm'"
    using single(2) r(1) eqs(2,3) by (cases v) (auto simp: bm_par_set_range_hint_def bm_par_clear_range_hint_def)
  ultimately show ?thesis using r eqs bm_ok_like [OF r(2) assms(1)] by (auto simp: bm_like_def)
qed

theorem bitmap_range_correct_witness:
  "\<exists>bm'. bm_ok bm' \<and> bm_size bm' = bm_size demo_row \<and> bm_bits bm' = put True {3..<68} (bm_bits demo_row) \<and>
    bm_at_put_range demo_row 3 68 True = Some bm' \<and> bm_at_put_large_range demo_row 3 68 True = Some bm' \<and>
    bm_par_at_put_range demo_row 3 68 True = Some bm' \<and> bm_par_at_put_large_range demo_row 3 68 True = Some bm' \<and>
    (if True then bm_set_range_hint else bm_clear_range_hint) demo_row 3 68 Large_range = Some bm' \<and>
    (if True then bm_par_set_range_hint else bm_par_clear_range_hint) demo_row 3 68 Large_range = Some bm'"
  by (rule bitmap_range_correct) (simp_all add: demo_ok)

text \<open>
  C35: get_next_one_offset and get_next_zero_offset return the first offset of the range with the
  bit they look for, and the right end when there is none; the version for a right end that is a
  multiple of the word size returns the same.
\<close>

theorem bitmap_next_offset:
  assumes "bm_ok bm" and "l \<le> r" and "r \<le> bm_size bm"
  shows "\<exists>one zero. get_next_one_offset bm l r = Some one \<and> get_next_zero_offset bm l r = Some zero \<and>
    is_next bm True l r one \<and> is_next bm False l r zero \<and>
    (r mod 64 = 0 \<longrightarrow> get_next_one_offset_aligned_right bm l r = Some one)"
  using get_next_ok [OF assms, of True] get_next_ok [OF assms, of False] aligned_right_eq [OF assms] by (auto simp: get_next_def)

theorem bitmap_next_offset_witness:
  "\<exists>one zero. get_next_one_offset demo_full 3 64 = Some one \<and> get_next_zero_offset demo_full 3 64 = Some zero \<and>
    is_next demo_full True 3 64 one \<and> is_next demo_full False 3 64 zero \<and>
    ((64 :: nat) mod 64 = 0 \<longrightarrow> get_next_one_offset_aligned_right demo_full 3 64 = Some one)"
  by (rule bitmap_next_offset) (simp_all add: demo_ok)

text \<open>
  C36: on two maps of one size, set_union, set_difference, set_intersection and set_from compute the
  set operation their name says, and the versions with a result say whether the map changed;
  contains, intersects and is_same decide inclusion, overlap and equality.
\<close>

theorem bitmap_set_operations:
  assumes "bm_ok bm" and "bm_ok other" and "bm_size bm = bm_size other"
  shows "\<exists>u d i. bm_bits u = bm_bits bm \<union> bm_bits other \<and> bm_bits d = bm_bits bm - bm_bits other \<and>
    bm_bits i = bm_bits bm \<inter> bm_bits other \<and> bm_ok u \<and> bm_ok d \<and> bm_ok i \<and>
    set_union_with_result bm other = Some (u \<noteq> bm, u) \<and> bm_set_union bm other = Some u \<and>
    set_difference_with_result bm other = Some (d \<noteq> bm, d) \<and> bm_set_difference bm other = Some d \<and>
    set_intersection_with_result bm other = Some (i \<noteq> bm, i) \<and> bm_set_intersection bm other = Some i \<and>
    bm_set_from bm other = Some other \<and> bm_contains bm other = Some (bm_bits other \<subseteq> bm_bits bm) \<and>
    bm_intersects bm other = Some (bm_bits bm \<inter> bm_bits other \<noteq> {}) \<and> bm_is_same bm other = Some (bm = other)"
proof -
  have plain: "bm_set_union bm other = map_option snd (set_union_with_result bm other)"
    "bm_set_difference bm other = map_option snd (set_difference_with_result bm other)"
    "bm_set_intersection bm other = map_option snd (set_intersection_with_result bm other)"
    by (simp_all add: bm_set_union_def bm_set_difference_def bm_set_intersection_def
        set_union_with_result_def set_difference_with_result_def set_intersection_with_result_def)
  show ?thesis using set_operation_bits [OF assms] comparison_bits [OF assms] bm_ok_like [OF _ assms(1)]
    unfolding plain by force
qed

theorem bitmap_set_operations_witness:
  "\<exists>u d i. bm_bits u = bm_bits demo_row \<union> bm_bits demo_full \<and> bm_bits d = bm_bits demo_row - bm_bits demo_full \<and>
    bm_bits i = bm_bits demo_row \<inter> bm_bits demo_full \<and> bm_ok u \<and> bm_ok d \<and> bm_ok i \<and>
    set_union_with_result demo_row demo_full = Some (u \<noteq> demo_row, u) \<and> bm_set_union demo_row demo_full = Some u \<and>
    set_difference_with_result demo_row demo_full = Some (d \<noteq> demo_row, d) \<and> bm_set_difference demo_row demo_full = Some d \<and>
    set_intersection_with_result demo_row demo_full = Some (i \<noteq> demo_row, i) \<and> bm_set_intersection demo_row demo_full = Some i \<and>
    bm_set_from demo_row demo_full = Some demo_full \<and> bm_contains demo_row demo_full = Some (bm_bits demo_full \<subseteq> bm_bits demo_row) \<and>
    bm_intersects demo_row demo_full = Some (bm_bits demo_row \<inter> bm_bits demo_full \<noteq> {}) \<and>
    bm_is_same demo_row demo_full = Some (demo_row = demo_full)"
  by (rule bitmap_set_operations) (simp_all add: demo_ok)

text \<open>
  C37: iterate calls the closure on exactly the set bits of the range, in increasing order, until
  the closure answers false, and returns its last answer. The closure may change the map it is
  called on, provided it leaves the bits above the one it is called for.
\<close>

theorem bitmap_iterate_correct:
  assumes "keeps_ahead the_map blk" and "bm_ok (the_map s)" and "right_offset \<le> bm_size (the_map s)"
  shows "bm_iterate the_map blk left_offset right_offset s =
    Some (run_closure blk (filter (\<lambda>i. i \<in> bm_bits (the_map s)) [left_offset..<right_offset]) s)"
  using assms by (rule bm_iterate_ok)

text \<open>A closure that clears the bit it is called for and stops at the third.\<close>

definition demo_closure :: "nat \<Rightarrow> bitmap \<times> nat \<Rightarrow> bool \<times> bitmap \<times> nat" where
  "demo_closure i = (\<lambda>(bm, n). (n < 2, (case bm_at_put bm i False of None \<Rightarrow> bm | Some bm' \<Rightarrow> bm'), n + 1))"

lemma demo_closure_keeps: "keeps_ahead fst demo_closure"
proof -
  have "bm_like bm (case bm_at_put bm i False of None \<Rightarrow> bm | Some bm' \<Rightarrow> bm') \<and>
    (\<forall>j > i. j \<in> bm_bits (case bm_at_put bm i False of None \<Rightarrow> bm | Some bm' \<Rightarrow> bm') \<longleftrightarrow> j \<in> bm_bits bm)" for bm i
  proof (cases "word_index i < length (bm_map bm)")
    case True
    then obtain bm' where "bm_at_put bm i False = Some bm'" "bm_like bm bm'" "bm_bits bm' = put False {i} (bm_bits bm)"
      using bm_at_put_bits by blast
    then show ?thesis by (simp add: put_def)
  next
    case False
    then have "bm_at_put bm i False = None" by (simp add: bm_at_put_def bm_clear_bit_def map_word_def)
    then show ?thesis by (simp add: bm_like_def)
  qed
  then show ?thesis unfolding keeps_ahead_def demo_closure_def by (simp add: case_prod_beta)
qed

theorem bitmap_iterate_correct_witness:
  "bm_iterate fst demo_closure 2 66 (demo_full, 0) =
    Some (run_closure demo_closure (filter (\<lambda>i. i \<in> bm_bits (fst (demo_full, 0 :: nat))) [2..<66]) (demo_full, 0))"
  by (rule bitmap_iterate_correct) (simp_all add: demo_closure_keeps demo_ok)

text \<open>
  \<open>count_one_bits\<close>, which goes through a table of the bytes, returns the number of set bits of
  the words of the map; is_full and is_empty decide whether all the bits below the size are set,
  and whether none is, whatever the unused bits of the last word hold.
\<close>

theorem bitmap_count_full_empty:
  assumes "bm_ok bm"
  shows "count_one_bits bm = Some (card (bm_bits bm)) \<and>
    bm_is_full bm = Some ({..<bm_size bm} \<subseteq> bm_bits bm) \<and>
    bm_is_empty bm = Some ({..<bm_size bm} \<inter> bm_bits bm = {})"
proof -
  note loop = value_loop_ok [of 0 "bm_size bm" bm]
  have "bm_size bm \<le> 64 * length (bm_map bm)" by (rule bm_ok_words(2) [OF assms])
  then have "full_loop bm 0 (bm_size bm) = Some (\<forall>i < bm_size bm. i \<in> bm_bits bm)"
    "empty_loop bm 0 (bm_size bm) = Some (\<forall>i < bm_size bm. i \<notin> bm_bits bm)"
    using loop [of True] loop [of False] by (simp_all add: value_loop_def)
  then show ?thesis using count_one_bits_ok [OF assms] by (auto simp: bm_is_full_def bm_is_empty_def)
qed

theorem bitmap_count_full_empty_witness:
  "count_one_bits demo_full = Some (card (bm_bits demo_full)) \<and>
    bm_is_full demo_full = Some ({..<bm_size demo_full} \<subseteq> bm_bits demo_full) \<and>
    bm_is_empty demo_full = Some ({..<bm_size demo_full} \<inter> bm_bits demo_full = {})"
  by (rule bitmap_count_full_empty) (simp add: demo_ok)

text \<open>Outside the resource area the words are copied from the array that has just been freed.\<close>

lemma resize_reads_freed:
  assumes "length freed = length (bm_map bm)"
  shows "bm_resize freed fresh bm n False = bm_resize [] fresh (bm\<lparr>bm_map := freed\<rparr>) n True"
  using assms by (simp add: bm_resize_def Let_def size_in_words_def)

text \<open>
  C38: in the resource area, resize keeps the bits of the words that fit and zeroes the words it adds.
  The words are kept whole: a bit above the old size that was set in the last old word is in the map
  again when it grows. Outside the resource area, resize gives what it would give for a map with the
  words that are found in the freed old array. at_put_grow, which resizes in the resource area,
  changes exactly the bit it is given, at any offset whose doubled value does not overflow, except on
  an empty map at offset 0, where it resizes to twice zero bits and writes outside the map.
\<close>

theorem bitmap_grow_correct:
  assumes "bm_ok bm" and "n + 63 < size_max"
  shows "(\<exists>bm'. bm_resize freed fresh bm n True = Some bm' \<and> bm_ok bm' \<and> bm_size bm' = n \<and>
      bm_bits bm' = bm_bits bm \<inter> {..<64 * size_in_words bm'}) \<and>
    (length freed = length (bm_map bm) \<longrightarrow>
      bm_resize freed fresh bm n False = bm_resize [] fresh (bm\<lparr>bm_map := freed\<rparr>) n True) \<and>
    (2 * max (bm_size bm) offset + 63 < size_max \<longrightarrow>
      (if max (bm_size bm) offset = 0 then bm_at_put_grow fresh bm offset v = None
       else \<exists>bm'. bm_at_put_grow fresh bm offset v = Some bm' \<and> bm_ok bm' \<and> offset < bm_size bm' \<and>
              bm_size bm \<le> bm_size bm' \<and> bm_bits bm' = put v {offset} (bm_bits bm)))"
proof -
  have "bm_at_put_grow fresh bm offset v = None" if z: "max (bm_size bm) offset = 0"
  proof -
    have "0 + 63 < size_max" by (simp add: size_max_def)
    then obtain bm' where "bm_resize [] fresh bm 0 True = Some bm'" "bm_ok bm'" "bm_size bm' = 0"
      using resize_bits [OF assms(1)] by blast
    moreover have "bm_map bm' = []" using calculation(2,3) bm_ok_words(1) [of bm'] by simp
    ultimately show ?thesis using z
      by (simp add: bm_at_put_grow_def bm_at_put_def bm_set_bit_def bm_clear_bit_def map_word_def)
  qed
  moreover have "\<exists>bm'. bm_at_put_grow fresh bm offset v = Some bm' \<and> bm_ok bm' \<and> offset < bm_size bm' \<and>
      bm_size bm \<le> bm_size bm' \<and> bm_bits bm' = put v {offset} (bm_bits bm)"
    if fit: "2 * max (bm_size bm) offset + 63 < size_max" and nz: "max (bm_size bm) offset \<noteq> 0"
  proof -
    have "0 < max (bm_size bm) offset" using nz by linarith
    then obtain bm' where "bm_at_put_grow fresh bm offset v = Some bm'" "bm_ok bm'" "bm_bits bm' = put v {offset} (bm_bits bm)"
      "bm_size bm' = (if bm_size bm \<le> offset then 2 * offset else bm_size bm)"
      using at_put_grow_bits [OF assms(1) fit] by blast
    moreover have "offset < bm_size bm'" "bm_size bm \<le> bm_size bm'"
      using calculation(4) nz by (auto simp: max_def split: if_split_asm)
    ultimately show ?thesis by blast
  qed
  ultimately show ?thesis using resize_bits [OF assms] resize_reads_freed [of freed bm fresh n] by simp
qed

theorem bitmap_grow_correct_witness:
  "(\<exists>bm'. bm_resize [] (\<lambda>i. 5) demo_full 200 True = Some bm' \<and> bm_ok bm' \<and> bm_size bm' = 200 \<and>
      bm_bits bm' = bm_bits demo_full \<inter> {..<64 * size_in_words bm'}) \<and>
    (\<exists>bm'. bm_at_put_grow (\<lambda>i. 5) demo_full 100 True = Some bm' \<and> bm_ok bm' \<and> 100 < bm_size bm' \<and>
       bm_size demo_full \<le> bm_size bm' \<and> bm_bits bm' = put True {100} (bm_bits demo_full))"
proof -
  have "max (bm_size demo_full) 100 = 100" "2 * (100 :: nat) + 63 < size_max" by (simp_all add: demo_ok size_max_def)
  then show ?thesis
    using bitmap_grow_correct [of demo_full 200 "[]" "\<lambda>i. 5" 100 True] demo_ok(2) by (simp add: size_max_def)
qed

text \<open>Bits above the size are kept by a shrinking \<open>resize\<close>, and come back when the map grows again.\<close>

lemma resize_stale_bits:
  "bm_resize [] (\<lambda>i. 0) \<lparr>bm_map = [NOT 0], bm_size = 64\<rparr> 1 True = Some \<lparr>bm_map = [NOT 0], bm_size = 1\<rparr>"
  "bm_resize [] (\<lambda>i. 0) \<lparr>bm_map = [NOT 0], bm_size = 1\<rparr> 64 True = Some \<lparr>bm_map = [NOT 0], bm_size = 64\<rparr>"
  by (simp_all add: bm_resize_def Let_def size_in_words_def word_index_def uadd64_def size_max_def)

end
