(* ===== verification/BitMap2D.thy ===== *)
theory BitMap2D
  imports BitMap_Theorems
begin

text \<open>
  \<open>BitMap2D\<close> (bitMap.hpp, bitMap.cpp): a table of slots of \<open>_bits_per_slot\<close> bits kept in one
  \<open>BitMap\<close>.  It uses of \<open>BitMap\<close> only \<open>at\<close>, \<open>at_put\<close> and \<open>at_put_grow\<close>, whose contract is the
  locale \<open>bit_array\<close>.
\<close>

section \<open>The table\<close>

record bitmap2d =
  bm2_map :: bitmap
  bm2_bits_per_slot :: nat

definition new_bitmap2d :: "(nat \<Rightarrow> bm_word_t) \<Rightarrow> nat \<Rightarrow> nat \<Rightarrow> bitmap2d option" where
  "new_bitmap2d fresh size_in_slots bits_per_slot =
     do { m \<leftarrow> new_bitmap fresh (size_in_slots * bits_per_slot mod size_max);
          Some \<lparr>bm2_map = m, bm2_bits_per_slot = bits_per_slot\<rparr> }"

definition bm2_bit_index :: "bitmap2d \<Rightarrow> nat \<Rightarrow> nat \<Rightarrow> nat" where
  "bm2_bit_index t slot_index bit_within_slot_index =
     uadd64 (slot_index * bm2_bits_per_slot t mod size_max) bit_within_slot_index"

definition bm2_size_in_bits :: "bitmap2d \<Rightarrow> nat" where
  "bm2_size_in_bits t = bm_size (bm2_map t)"

definition bm2_size_in_slots :: "bitmap2d \<Rightarrow> nat" where
  "bm2_size_in_slots t = bm_size (bm2_map t) div bm2_bits_per_slot t"

definition bm2_is_valid_index :: "bitmap2d \<Rightarrow> nat \<Rightarrow> nat \<Rightarrow> bool" where
  "bm2_is_valid_index t slot b = (bm2_bit_index t slot b < bm2_size_in_bits t)"

definition bm2_at :: "bitmap2d \<Rightarrow> nat \<Rightarrow> nat \<Rightarrow> bool option" where
  "bm2_at t slot b = bm_at (bm2_map t) (bm2_bit_index t slot b)"

definition bm2_set_bit :: "bitmap2d \<Rightarrow> nat \<Rightarrow> nat \<Rightarrow> bitmap2d option" where
  "bm2_set_bit t slot b = do { m \<leftarrow> bm_set_bit (bm2_map t) (bm2_bit_index t slot b); Some (t\<lparr>bm2_map := m\<rparr>) }"

definition bm2_clear_bit :: "bitmap2d \<Rightarrow> nat \<Rightarrow> nat \<Rightarrow> bitmap2d option" where
  "bm2_clear_bit t slot b = do { m \<leftarrow> bm_clear_bit (bm2_map t) (bm2_bit_index t slot b); Some (t\<lparr>bm2_map := m\<rparr>) }"

definition bm2_at_put :: "bitmap2d \<Rightarrow> nat \<Rightarrow> nat \<Rightarrow> bool \<Rightarrow> bitmap2d option" where
  "bm2_at_put t slot b v = do { m \<leftarrow> bm_at_put (bm2_map t) (bm2_bit_index t slot b) v; Some (t\<lparr>bm2_map := m\<rparr>) }"

definition bm2_at_put_grow :: "(nat \<Rightarrow> bm_word_t) \<Rightarrow> bitmap2d \<Rightarrow> nat \<Rightarrow> nat \<Rightarrow> bool \<Rightarrow> bitmap2d option" where
  "bm2_at_put_grow fresh t slot b v =
     do { m \<leftarrow> bm_at_put_grow fresh (bm2_map t) (bm2_bit_index t slot b) v; Some (t\<lparr>bm2_map := m\<rparr>) }"

definition bm2_clear :: "bitmap2d \<Rightarrow> bitmap2d option" where
  "bm2_clear t = do { m \<leftarrow> bm_clear (bm2_map t); Some (t\<lparr>bm2_map := m\<rparr>) }"

section \<open>The contract of a bit array\<close>

text \<open>
  \<open>put\<close> is any operation that writes one bit, defined on the states and offsets \<open>can_put\<close> allows;
  it keeps the array valid, never shortens it, and changes the bit it is given only.
\<close>

locale bit_array =
  fixes get :: "'m \<Rightarrow> nat \<Rightarrow> bool option" and put_bit :: "'m \<Rightarrow> nat \<Rightarrow> bool \<Rightarrow> 'm option"
    and len :: "'m \<Rightarrow> nat" and valid :: "'m \<Rightarrow> bool" and can_put :: "'m \<Rightarrow> nat \<Rightarrow> bool"
  assumes get_defined: "valid m \<Longrightarrow> i < len m \<Longrightarrow> get m i \<noteq> None"
    and put_defined: "valid m \<Longrightarrow> can_put m i \<Longrightarrow> put_bit m i v \<noteq> None"
    and put_valid: "valid m \<Longrightarrow> can_put m i \<Longrightarrow> put_bit m i v = Some m' \<Longrightarrow> valid m' \<and> len m \<le> len m' \<and> i < len m'"
    and get_put: "valid m \<Longrightarrow> can_put m i \<Longrightarrow> put_bit m i v = Some m' \<Longrightarrow> j < len m \<or> j = i \<Longrightarrow>
      get m' j = (if j = i then Some v else get m j)"
begin

text \<open>A table of slots of \<open>w\<close> bits over the array: a bit of a slot is not another bit of another slot.\<close>

lemma slot_inj:
  fixes s :: nat
  assumes "b < w" and "b' < w" and "s * w + b = s' * w + b'"
  shows "s = s' \<and> b = b'"
proof -
  have "s = (s * w + b) div w" "s' = (s' * w + b') div w" using assms(1,2) by simp_all
  then show ?thesis using assms(3) by simp
qed

lemma table_get_put:
  assumes "valid m" and "can_put m (s * w + b)" and "b < w" and "b' < w" and "s' * w + b' < len m"
  shows "\<exists>m'. put_bit m (s * w + b) v = Some m' \<and> valid m' \<and> s * w + b < len m' \<and> get m' (s * w + b) = Some v \<and>
    get m' (s' * w + b') = (if s' = s \<and> b' = b then Some v else get m (s' * w + b'))"
proof -
  obtain m' where m': "put_bit m (s * w + b) v = Some m'" using put_defined assms(1,2) by blast
  have "s' * w + b' = s * w + b \<longleftrightarrow> s' = s \<and> b' = b" using slot_inj [of b' w b s' s] assms(3,4) by auto
  then show ?thesis using get_put [OF assms(1,2) m'] put_valid [OF assms(1,2) m'] assms(5) m' by auto
qed

end

lemma bm_at_size: "bm_ok m \<Longrightarrow> i < bm_size m \<Longrightarrow> bm_at m i = Some (i \<in> bm_bits m)"
  using bm_at_bits word_index_less by blast

interpretation fixed_map: bit_array bm_at bm_at_put bm_size bm_ok "\<lambda>m i. i < bm_size m"
proof
  fix m m' :: bitmap and i j :: nat and v :: bool
  show "bm_ok m \<Longrightarrow> i < bm_size m \<Longrightarrow> bm_at m i \<noteq> None" by (simp add: bm_at_size)
  assume m: "bm_ok m" "i < bm_size m"
  then obtain m1 where m1: "bm_at_put m i v = Some m1" "bm_like m m1" "bm_bits m1 = put v {i} (bm_bits m)"
    using bm_at_put_bits word_index_less by blast
  have ok: "bm_ok m1" "bm_size m1 = bm_size m" using bm_ok_like [OF m1(2) m(1)] m1(2) by (simp_all add: bm_like_def)
  show "bm_at_put m i v \<noteq> None" using m1 by simp
  assume "bm_at_put m i v = Some m'"
  then have eq: "m' = m1" using m1 by simp
  show "bm_ok m' \<and> bm_size m \<le> bm_size m' \<and> i < bm_size m'" using ok m unfolding eq by simp
  show "bm_at m' j = (if j = i then Some v else bm_at m j)" if "j < bm_size m \<or> j = i"
    using that ok m m1(3) unfolding eq by (auto simp: bm_at_size put_def)
qed

definition can_grow :: "bitmap \<Rightarrow> nat \<Rightarrow> bool" where
  "can_grow m i \<longleftrightarrow> 0 < max (bm_size m) i \<and> 2 * max (bm_size m) i + 63 < size_max"

interpretation growing_map: bit_array bm_at "bm_at_put_grow fresh" bm_size bm_ok can_grow for fresh
proof
  fix m m' :: bitmap and i j :: nat and v :: bool
  show "bm_ok m \<Longrightarrow> i < bm_size m \<Longrightarrow> bm_at m i \<noteq> None" by (simp add: bm_at_size)
  assume m: "bm_ok m" "can_grow m i"
  then obtain m1 where m1: "bm_at_put_grow fresh m i v = Some m1" "bm_ok m1" "bm_bits m1 = put v {i} (bm_bits m)"
    "bm_size m1 = (if bm_size m \<le> i then 2 * i else bm_size m)"
    using at_put_grow_bits [OF m(1)] unfolding can_grow_def by blast
  have sz: "bm_size m \<le> bm_size m1" "i < bm_size m1" using m(2) m1(4) by (auto simp: can_grow_def)
  show "bm_at_put_grow fresh m i v \<noteq> None" using m1 by simp
  assume "bm_at_put_grow fresh m i v = Some m'"
  then have eq: "m' = m1" using m1 by simp
  show "bm_ok m' \<and> bm_size m \<le> bm_size m' \<and> i < bm_size m'" using sz m1(2) unfolding eq by simp
  show "bm_at m' j = (if j = i then Some v else bm_at m j)" if "j < bm_size m \<or> j = i"
    using that sz m1(2,3) m(1) unfolding eq by (auto simp: bm_at_size put_def)
qed

section \<open>Theorems\<close>

lemma bm2_bit_index_fit:
  assumes "slot * bm2_bits_per_slot t + b < size_max"
  shows "bm2_bit_index t slot b = slot * bm2_bits_per_slot t + b"
  using assms by (simp add: bm2_bit_index_def uadd64_def)

lemma bm2_bit_index_map [simp]: "bm2_bit_index (t\<lparr>bm2_map := m\<rparr>) = bm2_bit_index t"
  by (simp add: bm2_bit_index_def fun_eq_iff)

text \<open>
  C39: in a table of slots, writing a bit of a slot with at_put, or with at_put_grow at a slot the
  table does not reach yet, makes at return the value written for it and leaves every other bit of
  every slot of the table.
\<close>

theorem bitmap2d_get_put:
  assumes "bm_ok (bm2_map t)" and "b < bm2_bits_per_slot t" and "b' < bm2_bits_per_slot t"
    and "s' * bm2_bits_per_slot t + b' < bm2_size_in_bits t"
    and grow: "can_grow (bm2_map t) (s * bm2_bits_per_slot t + b)"
  shows "\<exists>t'. bm2_at_put_grow fresh t s b v = Some t' \<and> bm_ok (bm2_map t') \<and> bm2_is_valid_index t' s b \<and>
    bm2_at t' s b = Some v \<and> bm2_at t' s' b' = (if s' = s \<and> b' = b then Some v else bm2_at t s' b') \<and>
    (bm2_is_valid_index t s b \<longrightarrow> bm2_at_put t s b v = Some t' \<and>
       (if v then bm2_set_bit t s b else bm2_clear_bit t s b) = Some t')"
proof -
  let ?w = "bm2_bits_per_slot t"
  have fit: "s * ?w + b < size_max" "s' * ?w + b' < size_max"
    using grow assms(1,4) unfolding can_grow_def bm2_size_in_bits_def bm_ok_def by (auto simp: max_def split: if_split_asm)
  note i = fit [THEN bm2_bit_index_fit]
  have len: "s' * ?w + b' < bm_size (bm2_map t)" using assms(4) by (simp add: bm2_size_in_bits_def)
  obtain m' where m': "bm_at_put_grow fresh (bm2_map t) (s * ?w + b) v = Some m'" "bm_ok m'" "s * ?w + b < bm_size m'"
    "bm_at m' (s * ?w + b) = Some v" "bm_at m' (s' * ?w + b') = (if s' = s \<and> b' = b then Some v else bm_at (bm2_map t) (s' * ?w + b'))"
    using growing_map.table_get_put [OF assms(1) grow assms(2,3) len] by blast
  have "bm_at_put (bm2_map t) (s * ?w + b) v = Some m'" if "bm2_is_valid_index t s b"
    using that m'(1) i by (simp add: bm2_is_valid_index_def bm2_size_in_bits_def bm_at_put_grow_def)
  then show ?thesis using m' i
    by (intro exI [of _ "t\<lparr>bm2_map := m'\<rparr>"])
      (auto simp: bm2_at_put_grow_def bm2_at_put_def bm2_at_def bm2_is_valid_index_def bm2_size_in_bits_def
        bm2_set_bit_def bm2_clear_bit_def bm_at_put_def)
qed

definition demo_table :: bitmap2d where
  "demo_table = \<lparr>bm2_map = demo_full, bm2_bits_per_slot = 7\<rparr>"

theorem bitmap2d_get_put_witness:
  "\<exists>t'. bm2_at_put_grow (\<lambda>i. 5) demo_table 20 6 True = Some t' \<and> bm_ok (bm2_map t') \<and> bm2_is_valid_index t' 20 6 \<and>
    bm2_at t' 20 6 = Some True \<and> bm2_at t' 9 2 = (if (9 :: nat) = 20 \<and> (2 :: nat) = 6 then Some True else bm2_at demo_table 9 2) \<and>
    (bm2_is_valid_index demo_table 20 6 \<longrightarrow> bm2_at_put demo_table 20 6 True = Some t' \<and>
       (if True then bm2_set_bit demo_table 20 6 else bm2_clear_bit demo_table 20 6) = Some t')"
  by (rule bitmap2d_get_put)
    (simp_all add: demo_table_def demo_ok can_grow_def bm2_size_in_bits_def size_max_def)

end
