(* ===== verification/OopRecorder.thy ===== *)
theory OopRecorder
  imports HS_Prelude
begin

text \<open>
  \<open>ValueRecorder\<close> and \<open>OopRecorder\<close> (\<open>src/src/share/vm/code/oopRecorder.hpp\<close>, \<open>oopRecorder.cpp\<close>): the
  table of the object and metadata handles that compiled code refers to by index.  A handle is a
  pointer, a \<open>64 word\<close> with 0 for \<open>NULL\<close>; \<open>non_oop\<close> is \<open>Universe::non_oop_word()\<close>.  An access outside
  an array is \<open>None\<close>; the index -1 of \<open>maybe_find_index\<close> is \<open>None\<close> in its result.
\<close>

section \<open>The cache of indexes\<close>

type_synonym handle = "64 word"
type_synonym cache_entry = "32 word"

definition cache_size :: nat where "cache_size = 512"

definition cache_index :: "handle \<Rightarrow> nat" where
  "cache_index h =
     (let ci = (ucast h :: 32 word);
          ci = ci XOR drop_bit 16 ci;
          ci = ci + drop_bit 8 ci
      in unat (ci AND 511))"

definition cache_location_collision :: "cache_entry \<Rightarrow> bool" where
  "cache_location_collision v = (v AND 1 \<noteq> 0)"

definition cache_location_index :: "cache_entry \<Rightarrow> int" where
  "cache_location_index v = sint (signed_drop_bit 1 v)"

definition set_cache_location_index :: "cache_entry list \<Rightarrow> nat \<Rightarrow> nat \<Rightarrow> cache_entry list" where
  "set_cache_location_index cache loc index =
     (let cval0 = cache ! loc;
          cval1 = push_bit 1 (of_nat index);
          cval1 = (if cval0 \<noteq> 0 \<and> cval1 \<noteq> cval0 then cval1 + 1 else cval1)
      in cache[loc := cval1])"

definition new_index_cache :: "cache_entry list" where
  "new_index_cache = replicate cache_size 0"

section \<open>The recorder of values\<close>

record value_recorder =
  vr_handles :: "handle list option"
  vr_no_finds :: "nat list"
  vr_indexes :: "cache_entry list option"
  vr_arena :: bool
  vr_complete :: bool

definition first_index :: nat where "first_index = 1"

definition index_cache_threshold :: nat where "index_cache_threshold = 20"

definition new_value_recorder :: "bool \<Rightarrow> value_recorder" where
  "new_value_recorder arena =
     \<lparr>vr_handles = None, vr_no_finds = [], vr_indexes = None, vr_arena = arena, vr_complete = False\<rparr>"

definition vr_size :: "value_recorder \<Rightarrow> nat \<times> value_recorder" where
  "vr_size r = ((case vr_handles r of None \<Rightarrow> 0 | Some hs \<Rightarrow> length hs * 8), r\<lparr>vr_complete := True\<rparr>)"

definition vr_count :: "value_recorder \<Rightarrow> nat" where
  "vr_count r = (case vr_handles r of None \<Rightarrow> 0 | Some hs \<Rightarrow> length hs + first_index)"

definition is_real :: "handle \<Rightarrow> handle \<Rightarrow> bool" where
  "is_real non_oop h \<longleftrightarrow> h \<noteq> 0 \<and> h \<noteq> non_oop"

definition vr_is_unused :: "value_recorder \<Rightarrow> bool" where
  "vr_is_unused r \<longleftrightarrow> vr_handles r = None \<and> \<not> vr_complete r"

definition maybe_initialize :: "value_recorder \<Rightarrow> value_recorder" where
  "maybe_initialize r = (case vr_handles r of None \<Rightarrow> r\<lparr>vr_handles := Some [], vr_no_finds := []\<rparr> | Some hs \<Rightarrow> r)"

definition vr_at :: "value_recorder \<Rightarrow> nat \<Rightarrow> handle option" where
  "vr_at r index =
     (if index = 0 then Some 0
      else case vr_handles r of None \<Rightarrow> None
           | Some hs \<Rightarrow> if index - first_index < length hs then Some (hs ! (index - first_index)) else None)"

text \<open>The loop that loads a new cache with the handles of the table, the first of which has index \<open>i + 1\<close>.\<close>

fun load_cache :: "nat list \<Rightarrow> nat \<Rightarrow> handle list \<Rightarrow> cache_entry list \<Rightarrow> cache_entry list" where
  "load_cache no_finds i [] cache = cache"
| "load_cache no_finds i (h # hs) cache =
     load_cache no_finds (i + 1) hs
       (if i + first_index \<in> set no_finds then cache
        else set_cache_location_index cache (cache_index h) (i + first_index))"

definition add_handle :: "handle \<Rightarrow> value_recorder \<Rightarrow> handle \<Rightarrow> bool \<Rightarrow> nat \<times> value_recorder" where
  "add_handle non_oop r0 h make_findable =
     (let r = maybe_initialize r0;
          hs = the (vr_handles r);
          index = length hs + first_index;
          r1 = r\<lparr>vr_handles := Some (hs @ [h])\<rparr>
      in (index,
          if make_findable then
            (case vr_indexes r1 of
               Some cache \<Rightarrow> r1\<lparr>vr_indexes := Some (set_cache_location_index cache (cache_index h) index)\<rparr>
             | None \<Rightarrow>
                 if index = index_cache_threshold \<and> vr_arena r1
                 then r1\<lparr>vr_indexes := Some (load_cache (vr_no_finds r1) 0 (hs @ [h]) new_index_cache)\<rparr>
                 else r1)
          else if is_real non_oop h then r1\<lparr>vr_no_finds := vr_no_finds r1 @ [index]\<rparr>
          else r1))"

text \<open>The linear search of \<open>maybe_find_index\<close>, from the most recent of the first \<open>n\<close> handles down.\<close>

fun search_handles :: "handle list \<Rightarrow> nat list \<Rightarrow> handle \<Rightarrow> nat \<Rightarrow> nat option" where
  "search_handles hs no_finds h 0 = None"
| "search_handles hs no_finds h (Suc i) =
     (if hs ! i = h \<and> i + first_index \<notin> set no_finds then Some (i + first_index)
      else search_handles hs no_finds h i)"

definition linear_find :: "value_recorder \<Rightarrow> handle \<Rightarrow> (nat option \<times> value_recorder) option" where
  "linear_find r h =
     (let hs = the (vr_handles r)
      in case search_handles hs (vr_no_finds r) h (length hs) of
           None \<Rightarrow> Some (None, r)
         | Some findex \<Rightarrow>
             Some (Some findex,
               r\<lparr>vr_indexes := map_option (\<lambda>cache. set_cache_location_index cache (cache_index h) findex) (vr_indexes r)\<rparr>))"

definition maybe_find_index :: "value_recorder \<Rightarrow> handle \<Rightarrow> (nat option \<times> value_recorder) option" where
  "maybe_find_index r0 h =
     (let r = maybe_initialize r0; hs = the (vr_handles r)
      in if h = 0 then Some (Some 0, r)
         else case vr_indexes r of
           None \<Rightarrow> linear_find r h
         | Some cache \<Rightarrow>
             (let cval = cache ! cache_index h; cindex = cache_location_index cval
              in if cindex = 0 then Some (None, r)
                 else if int first_index \<le> cindex then
                   (if nat cindex - first_index < length hs then
                      if hs ! (nat cindex - first_index) = h then Some (Some (nat cindex), r)
                      else if \<not> cache_location_collision cval then Some (None, r)
                      else linear_find r h
                    else None)
                 else if \<not> cache_location_collision cval then Some (None, r)
                 else linear_find r h))"

definition allocate_index :: "handle \<Rightarrow> value_recorder \<Rightarrow> handle \<Rightarrow> nat \<times> value_recorder" where
  "allocate_index non_oop r h = add_handle non_oop r h False"

definition find_index :: "handle \<Rightarrow> value_recorder \<Rightarrow> handle \<Rightarrow> (nat \<times> value_recorder) option" where
  "find_index non_oop r h =
     (case maybe_find_index r h of
        None \<Rightarrow> None
      | Some (Some index, r') \<Rightarrow> Some (index, r')
      | Some (None, r') \<Rightarrow> Some (add_handle non_oop r' h True))"

section \<open>The recorder of oops and metadata\<close>

text \<open>The recorder without deduplication (\<open>_object_lookup == NULL\<close>).\<close>

record oop_recorder =
  or_oops :: value_recorder
  or_metadata :: value_recorder

definition new_oop_recorder :: "bool \<Rightarrow> oop_recorder" where
  "new_oop_recorder arena = \<lparr>or_oops = new_value_recorder arena, or_metadata = new_value_recorder arena\<rparr>"

definition find_oop_index :: "handle \<Rightarrow> oop_recorder \<Rightarrow> handle \<Rightarrow> (nat \<times> oop_recorder) option" where
  "find_oop_index non_oop r h = map_option (map_prod id (\<lambda>v. r\<lparr>or_oops := v\<rparr>)) (find_index non_oop (or_oops r) h)"

definition find_metadata_index :: "handle \<Rightarrow> oop_recorder \<Rightarrow> handle \<Rightarrow> (nat \<times> oop_recorder) option" where
  "find_metadata_index non_oop r h =
     map_option (map_prod id (\<lambda>v. r\<lparr>or_metadata := v\<rparr>)) (find_index non_oop (or_metadata r) h)"

definition allocate_oop_index :: "handle \<Rightarrow> oop_recorder \<Rightarrow> handle \<Rightarrow> nat \<times> oop_recorder" where
  "allocate_oop_index non_oop r h = map_prod id (\<lambda>v. r\<lparr>or_oops := v\<rparr>) (allocate_index non_oop (or_oops r) h)"

definition allocate_metadata_index :: "handle \<Rightarrow> oop_recorder \<Rightarrow> handle \<Rightarrow> nat \<times> oop_recorder" where
  "allocate_metadata_index non_oop r h =
     map_prod id (\<lambda>v. r\<lparr>or_metadata := v\<rparr>) (allocate_index non_oop (or_metadata r) h)"

definition recorder_oop_at :: "oop_recorder \<Rightarrow> nat \<Rightarrow> handle option" where
  "recorder_oop_at r index = vr_at (or_oops r) index"

definition recorder_metadata_at :: "oop_recorder \<Rightarrow> nat \<Rightarrow> handle option" where
  "recorder_metadata_at r index = vr_at (or_metadata r) index"

definition or_is_unused :: "oop_recorder \<Rightarrow> bool" where
  "or_is_unused r \<longleftrightarrow> vr_is_unused (or_oops r) \<and> vr_is_unused (or_metadata r)"

definition or_freeze :: "oop_recorder \<Rightarrow> oop_recorder" where
  "or_freeze r = r\<lparr>or_oops := snd (vr_size (or_oops r)), or_metadata := snd (vr_size (or_metadata r))\<rparr>"

end
