(* ===== verification/OopRecorder_Correct.thy ===== *)
theory OopRecorder_Correct
  imports OopRecorder
begin

text \<open>
  The recorder is a two-way mapping between handles and indexes: the leaky cache of indexes never
  hides a handle, so \<open>find_index\<close> gives one index per handle, and \<open>allocate_index\<close> a new one each time.
\<close>

section \<open>Cache entries\<close>

definition entry :: "nat \<Rightarrow> bool \<Rightarrow> cache_entry" where
  "entry i c = push_bit 1 (of_nat i) + of_bool c"

lemma unat_entry: "i < 2 ^ 30 \<Longrightarrow> unat (entry i c) = 2 * i + of_bool c"
proof -
  assume i: "i < 2 ^ 30"
  have "entry i c = of_nat (2 * i + of_bool c)" by (simp add: entry_def push_bit_eq_mult)
  moreover have "2 * i + of_bool c < 2 ^ 32" using i by (simp split: if_split)
  ultimately show ?thesis by (simp add: unat_of_nat del: of_nat_add of_nat_mult)
qed

lemma sint_entry: "i < 2 ^ 30 \<Longrightarrow> sint (entry i c) = 2 * int i + of_bool c"
proof -
  assume i: "i < 2 ^ 30"
  have u: "uint (entry i c) = 2 * int i + of_bool c" unfolding uint_nat unat_entry [OF i] by simp
  moreover have "2 * int i + of_bool c < 2 ^ 31" using i by simp
  ultimately show ?thesis by (simp add: sint_uint signed_take_bit_int_eq_self)
qed

lemma entry_index [simp]: "i < 2 ^ 30 \<Longrightarrow> cache_location_index (entry i c) = int i"
  by (simp add: cache_location_index_def sint_signed_drop_bit_eq sint_entry drop_bit_eq_div)

lemma entry_collision [simp]: "i < 2 ^ 30 \<Longrightarrow> cache_location_collision (entry i c) = c"
proof -
  assume i: "i < 2 ^ 30"
  have "entry i c AND 1 \<noteq> 0 \<longleftrightarrow> bit (entry i c) 0" by (simp add: and_one_eq bit_0 odd_iff_mod_2_eq_one)
  also have "\<dots> \<longleftrightarrow> bit (unat (entry i c)) 0" by (simp add: bit_unsigned_iff)
  also have "\<dots> \<longleftrightarrow> c" unfolding unat_entry [OF i] by (simp add: bit_0)
  finally show ?thesis by (simp add: cache_location_collision_def)
qed

lemma entry_nonzero [simp]: "0 < i \<Longrightarrow> i < 2 ^ 30 \<Longrightarrow> entry i c \<noteq> 0"
  using unat_entry [of i c] by auto

lemma cache_index_less: "cache_index h < 512"
proof -
  have "unat (w AND 511) < 512" for w :: "32 word"
  proof -
    have "w AND 511 = take_bit 9 w" by (simp add: take_bit_eq_mask mask_eq_exp_minus_1)
    then have "unat (w AND 511) = take_bit 9 (unat w)" by (simp add: unsigned_take_bit_eq)
    then show ?thesis using take_bit_nat_less_exp [of 9 "unat w"] by simp
  qed
  then show ?thesis by (simp add: cache_index_def Let_def)
qed

section \<open>The cache never hides a handle\<close>

text \<open>
  \<open>cache_tracks n nf F cache\<close>: every entry of the cache is an index of the table of \<open>n\<close> handles
  that is not marked as unfindable, and for every \<open>F h i\<close> the entry \<open>h\<close> hashes to either is \<open>i\<close> or
  carries the collision bit.
\<close>

definition tracked :: "cache_entry \<Rightarrow> nat \<Rightarrow> bool" where
  "tracked v i \<longleftrightarrow> v \<noteq> 0 \<and> (cache_location_index v = int i \<or> cache_location_collision v)"

definition cache_tracks :: "nat \<Rightarrow> nat set \<Rightarrow> (handle \<Rightarrow> nat \<Rightarrow> bool) \<Rightarrow> cache_entry list \<Rightarrow> bool" where
  "cache_tracks n nf F cache \<longleftrightarrow> length cache = cache_size \<and>
     (\<forall>loc < cache_size. cache ! loc = 0 \<or> (\<exists>i c. 0 < i \<and> i \<le> n \<and> i \<notin> nf \<and> cache ! loc = entry i c)) \<and>
     (\<forall>h i. F h i \<longrightarrow> tracked (cache ! cache_index h) i)"

lemma cache_tracks_new: "cache_tracks n nf (\<lambda>h i. False) new_index_cache"
  by (simp add: cache_tracks_def new_index_cache_def)

lemma cache_tracks_mono:
  assumes "cache_tracks n nf F cache" and "n \<le> n'" and "\<And>i. i \<in> nf' \<Longrightarrow> i \<le> n \<Longrightarrow> i \<in> nf" and "\<And>h i. G h i \<Longrightarrow> F h i"
  shows "cache_tracks n' nf' G cache"
  using assms unfolding cache_tracks_def by (meson order_trans)

lemma cache_tracks_set:
  assumes t: "cache_tracks n nf F cache" and n: "n < 2 ^ 30" and i: "0 < i" "i \<le> n" "i \<notin> nf"
  shows "cache_tracks n nf (\<lambda>g j. F g j \<or> g = h \<and> j = i) (set_cache_location_index cache (cache_index h) i)"
proof -
  define v where "v = cache ! cache_index h"
  define c where "c \<longleftrightarrow> v \<noteq> 0 \<and> entry i False \<noteq> v"
  have h: "cache_index h < length cache" using t cache_index_less [of h] by (simp add: cache_tracks_def cache_size_def)
  have set: "set_cache_location_index cache (cache_index h) i = cache[cache_index h := entry i c]"
    by (simp add: set_cache_location_index_def Let_def entry_def c_def v_def)
  have i30: "i < 2 ^ 30" using i n by simp
  have "tracked (entry i c) j" if "tracked v j" for j
  proof (cases c)
    case False
    then have "v = entry i False" using that by (auto simp: c_def tracked_def)
    then show ?thesis using that i30 i(1) by (simp add: tracked_def)
  next
    case True
    then show ?thesis using i30 i(1) by (simp add: tracked_def)
  qed
  moreover have "tracked (entry i c) i" using i30 i(1) by (simp add: tracked_def)
  ultimately show ?thesis using t i h unfolding cache_tracks_def set
    by (auto simp: nth_list_update v_def)
qed

lemma load_cache_tracks:
  assumes "cache_tracks n nf F cache" and "n < 2 ^ 30" and "k + length hs \<le> n" and "nf = set no_finds"
  shows "cache_tracks n nf (\<lambda>g j. F g j \<or> (k < j \<and> j \<le> k + length hs \<and> j \<notin> nf \<and> hs ! (j - k - 1) = g)) (load_cache no_finds k hs cache)"
  using assms(1,3)
proof (induction hs arbitrary: k F cache)
  case Nil
  then show ?case by (auto elim!: cache_tracks_mono)
next
  case (Cons h hs)
  define cache1 where "cache1 = (if k + 1 \<in> nf then cache else set_cache_location_index cache (cache_index h) (k + 1))"
  define F1 where "F1 g j \<longleftrightarrow> F g j \<or> (g = h \<and> j = k + 1 \<and> k + 1 \<notin> nf)" for g j
  have "cache_tracks n nf F1 cache1"
    using Cons.prems cache_tracks_set [OF Cons.prems(1) assms(2), of "k + 1" h]
    by (cases "k + 1 \<in> nf") (auto simp: cache1_def F1_def elim!: cache_tracks_mono)
  then have "cache_tracks n nf (\<lambda>g j. F1 g j \<or> (k + 1 < j \<and> j \<le> k + 1 + length hs \<and> j \<notin> nf \<and> hs ! (j - (k + 1) - 1) = g))
      (load_cache no_finds (k + 1) hs cache1)" using Cons.prems(2) by (intro Cons.IH) auto
  moreover have "load_cache no_finds k (h # hs) cache = load_cache no_finds (k + 1) hs cache1"
    by (simp add: cache1_def first_index_def assms(4))
  ultimately show ?case
  proof (simp only:, elim cache_tracks_mono)
    fix g j
    assume "F g j \<or> k < j \<and> j \<le> k + length (h # hs) \<and> j \<notin> nf \<and> (h # hs) ! (j - k - 1) = g"
    then show "F1 g j \<or> k + 1 < j \<and> j \<le> k + 1 + length hs \<and> j \<notin> nf \<and> hs ! (j - (k + 1) - 1) = g"
      by (cases "j = k + 1") (auto simp: F1_def nth_Cons')
  qed auto
qed

section \<open>The recorder\<close>

definition vr_list :: "value_recorder \<Rightarrow> handle list" where
  "vr_list r = (case vr_handles r of None \<Rightarrow> [] | Some hs \<Rightarrow> hs)"

definition vr_hidden :: "value_recorder \<Rightarrow> nat set" where
  "vr_hidden r = (case vr_handles r of None \<Rightarrow> {} | Some hs \<Rightarrow> set (vr_no_finds r))"

text \<open>Handle \<open>h\<close> has index \<open>i\<close>, and \<open>find_index\<close> may return it.\<close>

definition vr_findable :: "handle \<Rightarrow> value_recorder \<Rightarrow> handle \<Rightarrow> nat \<Rightarrow> bool" where
  "vr_findable non_oop r h i \<longleftrightarrow>
     0 < i \<and> i \<le> length (vr_list r) \<and> vr_list r ! (i - 1) = h \<and> i \<notin> vr_hidden r \<and> is_real non_oop h"

definition vr_ok :: "handle \<Rightarrow> value_recorder \<Rightarrow> bool" where
  "vr_ok non_oop r \<longleftrightarrow> length (vr_list r) < 2 ^ 30 \<and> (\<forall>i \<in> vr_hidden r. i \<le> length (vr_list r)) \<and>
     (\<forall>h i j. vr_findable non_oop r h i \<and> vr_findable non_oop r h j \<longrightarrow> i = j) \<and>
     (vr_handles r = None \<longrightarrow> vr_indexes r = None) \<and>
     (\<forall>cache. vr_indexes r = Some cache \<longrightarrow> cache_tracks (length (vr_list r)) (vr_hidden r) (vr_findable non_oop r) cache)"

lemma vr_ok_new: "vr_ok non_oop (new_value_recorder arena)"
  by (simp add: vr_ok_def new_value_recorder_def vr_list_def vr_hidden_def vr_findable_def)

lemma maybe_initialize_same [simp]:
  "vr_list (maybe_initialize r) = vr_list r" "vr_hidden (maybe_initialize r) = vr_hidden r"
  "vr_indexes (maybe_initialize r) = vr_indexes r" "vr_arena (maybe_initialize r) = vr_arena r"
  "vr_handles (maybe_initialize r) = Some (vr_list r)" "set (vr_no_finds (maybe_initialize r)) = vr_hidden r"
  "vr_findable non_oop (maybe_initialize r) = vr_findable non_oop r"
  by (auto simp: maybe_initialize_def vr_list_def vr_hidden_def vr_findable_def fun_eq_iff split: option.split)

lemma vr_ok_initialize [simp]: "vr_ok non_oop r \<Longrightarrow> vr_ok non_oop (maybe_initialize r)"
  by (simp add: vr_ok_def)

lemma search_handles_some:
  "search_handles hs nf h n = Some i \<Longrightarrow> 0 < i \<and> i \<le> n \<and> hs ! (i - 1) = h \<and> i \<notin> set nf"
  by (induction n) (auto simp: first_index_def split: if_split_asm)

lemma search_handles_none:
  "search_handles hs nf h n = None \<Longrightarrow> 0 < i \<Longrightarrow> i \<le> n \<Longrightarrow> hs ! (i - 1) = h \<Longrightarrow> i \<in> set nf"
  by (induction n) (auto simp: first_index_def le_Suc_eq split: if_split_asm)

text \<open>What a search for a real handle does to the recorder.\<close>

definition finds :: "handle \<Rightarrow> value_recorder \<Rightarrow> handle \<Rightarrow> nat option \<times> value_recorder \<Rightarrow> bool" where
  "finds non_oop r h = (\<lambda>(res, r'). vr_ok non_oop r' \<and> vr_handles r' = Some (vr_list r) \<and> vr_hidden r' = vr_hidden r \<and>
     (case res of None \<Rightarrow> \<forall>i. \<not> vr_findable non_oop r h i | Some i \<Rightarrow> vr_findable non_oop r h i))"

lemma linear_find_ok:
  assumes ok: "vr_ok non_oop r" and hs: "vr_handles r = Some hs" and real: "is_real non_oop h"
  shows "\<exists>x. linear_find r h = Some x \<and> finds non_oop r h x"
proof -
  have l: "vr_list r = hs" "vr_hidden r = set (vr_no_finds r)" using hs by (simp_all add: vr_list_def vr_hidden_def)
  show ?thesis
  proof (cases "search_handles hs (vr_no_finds r) h (length hs)")
    case None
    then have "\<not> vr_findable non_oop r h i" for i
      using search_handles_none [OF None, of i] by (auto simp: vr_findable_def l)
    then show ?thesis using None ok hs by (auto simp: linear_find_def finds_def l)
  next
    case (Some i)
    then have i: "0 < i" "i \<le> length hs" "hs ! (i - 1) = h" "i \<notin> set (vr_no_finds r)" using search_handles_some by blast+
    then have f: "vr_findable non_oop r h i" using real by (simp add: vr_findable_def l)
    define r' where "r' = r\<lparr>vr_indexes := map_option (\<lambda>cache. set_cache_location_index cache (cache_index h) i) (vr_indexes r)\<rparr>"
    have same: "vr_list r' = hs" "vr_hidden r' = vr_hidden r" "vr_findable non_oop r' = vr_findable non_oop r"
      using hs by (auto simp: r'_def vr_list_def vr_hidden_def vr_findable_def fun_eq_iff)
    have "vr_ok non_oop r'"
    proof -
      have "cache_tracks (length hs) (vr_hidden r) (vr_findable non_oop r) (set_cache_location_index cache (cache_index h) i)"
        if "vr_indexes r = Some cache" for cache
      proof -
        have "cache_tracks (length hs) (vr_hidden r) (vr_findable non_oop r) cache" using ok that by (simp add: vr_ok_def l)
        from cache_tracks_set [OF this, of i h] show ?thesis
          using ok i by (auto simp: vr_ok_def l elim!: cache_tracks_mono)
      qed
      then show ?thesis using ok same hs by (auto simp: vr_ok_def l r'_def)
    qed
    then show ?thesis using Some f hs same by (auto simp: linear_find_def finds_def l r'_def)
  qed
qed

lemma maybe_find_index_ok:
  assumes ok: "vr_ok non_oop r" and real: "is_real non_oop h"
  shows "\<exists>x. maybe_find_index r h = Some x \<and> finds non_oop r h x"
proof -
  let ?r = "maybe_initialize r"
  have ok': "vr_ok non_oop ?r" using ok by simp
  have lin: "\<exists>x. linear_find ?r h = Some x \<and> finds non_oop r h x"
    using linear_find_ok [OF ok' maybe_initialize_same(5) real] unfolding finds_def maybe_initialize_same .
  have h: "h \<noteq> 0" using real by (simp add: is_real_def)
  show ?thesis
  proof (cases "vr_indexes r")
    case None
    then show ?thesis using lin h by (simp add: maybe_find_index_def Let_def)
  next
    case (Some cache)
    define v where "v = cache ! cache_index h"
    have t: "cache_tracks (length (vr_list r)) (vr_hidden r) (vr_findable non_oop r) cache" using ok Some by (simp add: vr_ok_def)
    have n30: "length (vr_list r) < 2 ^ 30" using ok by (simp add: vr_ok_def)
    have miss: "\<not> vr_findable non_oop r h i" if "\<not> tracked v i" for i using t that by (auto simp: cache_tracks_def v_def)
    have fin: "finds non_oop r h (res, ?r) \<longleftrightarrow> (case res of None \<Rightarrow> \<forall>i. \<not> vr_findable non_oop r h i | Some i \<Rightarrow> vr_findable non_oop r h i)" for res
      using ok by (simp add: finds_def)
    consider "v = 0" | i c where "0 < i" "i \<le> length (vr_list r)" "i \<notin> vr_hidden r" "v = entry i c"
      using t cache_index_less [of h] unfolding cache_tracks_def v_def cache_size_def by blast
    then show ?thesis
    proof cases
      case 1
      then have "maybe_find_index r h = Some (None, ?r)"
        using h Some by (simp add: maybe_find_index_def Let_def v_def cache_location_index_def)
      then show ?thesis using miss 1 fin by (simp add: tracked_def)
    next
      case 2
      then have i30: "i < 2 ^ 30" using n30 by simp
      have idx: "cache_location_index v = int i" and col: "cache_location_collision v = c" using 2(4) i30 by simp_all
      have il: "i - Suc 0 < length (vr_list r)" using 2(1,2) by linarith
      have eq: "maybe_find_index r h = (if vr_list r ! (i - 1) = h then Some (Some i, ?r)
          else if \<not> c then Some (None, ?r) else linear_find ?r h)"
        using h Some 2(1) il idx col by (simp add: maybe_find_index_def Let_def v_def first_index_def)
      have "vr_findable non_oop r h i" if "vr_list r ! (i - 1) = h" using 2 that real by (simp add: vr_findable_def)
      moreover have "\<forall>j. \<not> vr_findable non_oop r h j" if ne: "vr_list r ! (i - 1) \<noteq> h" and "\<not> c"
      proof (intro allI notI)
        fix j assume j: "vr_findable non_oop r h j"
        then have "tracked v j" using miss by blast
        then have "j = i" using idx col \<open>\<not> c\<close> by (simp add: tracked_def)
        then show False using j ne by (simp add: vr_findable_def)
      qed
      ultimately show ?thesis using eq fin lin by auto
    qed
  qed
qed

lemma add_handle_list:
  assumes "add_handle non_oop r h mf = (i, r')"
  shows "i = length (vr_list r) + 1" and "vr_handles r' = Some (vr_list r @ [h])" and "vr_list r' = vr_list r @ [h]"
    and "vr_hidden r' = vr_hidden r \<union> (if \<not> mf \<and> is_real non_oop h then {i} else {})"
proof -
  show "i = length (vr_list r) + 1" using assms by (auto simp: add_handle_def Let_def first_index_def)
  show hs: "vr_handles r' = Some (vr_list r @ [h])"
    using assms by (auto simp: add_handle_def Let_def split: if_split_asm option.split_asm)
  then show "vr_list r' = vr_list r @ [h]" by (simp add: vr_list_def)
  show "vr_hidden r' = vr_hidden r \<union> (if \<not> mf \<and> is_real non_oop h then {i} else {})"
    unfolding vr_hidden_def [of r'] hs using assms maybe_initialize_same(6) [of r]
    by (auto simp: add_handle_def Let_def split: if_split_asm option.split_asm)
qed

lemma add_handle_findable:
  assumes ok: "vr_ok non_oop r" and add: "add_handle non_oop r h mf = (i, r')"
  shows "vr_findable non_oop r' g j \<longleftrightarrow> vr_findable non_oop r g j \<or> (mf \<and> is_real non_oop h \<and> g = h \<and> j = i)"
proof -
  note l = add_handle_list [OF add]
  have "\<forall>k \<in> vr_hidden r. k \<le> length (vr_list r)" using ok by (simp add: vr_ok_def)
  then show ?thesis by (cases "j = i") (auto simp: vr_findable_def l nth_append le_Suc_eq)
qed

lemma add_handle_ok:
  assumes ok: "vr_ok non_oop r" and add: "add_handle non_oop r h mf = (i, r')"
    and new: "mf \<Longrightarrow> \<forall>j. \<not> vr_findable non_oop r h j" and fit: "length (vr_list r) + 1 < 2 ^ 30" and real: "mf \<Longrightarrow> is_real non_oop h"
  shows "vr_ok non_oop r'"
proof -
  note l = add_handle_list [OF add] and f = add_handle_findable [OF ok add]
  let ?n = "length (vr_list r)"
  have "cache_tracks (?n + 1) (vr_hidden r') (vr_findable non_oop r') cache'" if c': "vr_indexes r' = Some cache'" for cache'
  proof (cases "vr_indexes r")
    case (Some cache)
    have "cache_tracks ?n (vr_hidden r) (vr_findable non_oop r) cache" using ok Some by (simp add: vr_ok_def)
    then have t: "cache_tracks (?n + 1) (vr_hidden r') (vr_findable non_oop r) cache"
      by (rule cache_tracks_mono) (auto simp: l split: if_split_asm)
    show ?thesis
    proof (cases mf)
      case True
      then have "cache' = set_cache_location_index cache (cache_index h) i"
        using c' add Some by (auto simp: add_handle_def Let_def)
      moreover have "i \<notin> vr_hidden r'" using ok True by (auto simp: l vr_ok_def)
      ultimately show ?thesis using cache_tracks_set [OF t fit, of i h] f True real by (auto simp: l elim!: cache_tracks_mono)
    next
      case False
      then have "cache' = cache" using c' add Some by (auto simp: add_handle_def Let_def split: if_split_asm)
      then show ?thesis using t f False by (auto elim!: cache_tracks_mono)
    qed
  next
    case None
    then have mf: "mf" and c: "cache' = load_cache (vr_no_finds (maybe_initialize r)) 0 (vr_list r @ [h]) new_index_cache"
      using c' add by (auto simp: add_handle_def Let_def split: if_split_asm)
    have "vr_hidden r' = set (vr_no_finds (maybe_initialize r))" using mf by (simp add: l)
    from load_cache_tracks [OF cache_tracks_new fit _ this, of 0 "vr_list r @ [h]"] show ?thesis
      unfolding c by (auto simp: vr_findable_def l elim!: cache_tracks_mono)
  qed
  moreover have "\<forall>g j k. vr_findable non_oop r' g j \<and> vr_findable non_oop r' g k \<longrightarrow> j = k"
    using ok new unfolding f by (auto simp: vr_ok_def)
  moreover have "\<forall>j \<in> vr_hidden r'. j \<le> ?n + 1" using ok by (auto simp: l vr_ok_def split: if_split_asm)
  ultimately show ?thesis using fit by (simp add: vr_ok_def l)
qed

lemma vr_at_list: "vr_at r i = (if i = 0 then Some 0 else if i \<le> length (vr_list r) then Some (vr_list r ! (i - 1)) else None)"
  by (auto simp: vr_at_def vr_list_def first_index_def split: option.split)

lemma vr_findable_at: "vr_findable non_oop r h i \<Longrightarrow> vr_at r i = Some h"
  by (simp add: vr_findable_def vr_at_list)

text \<open>A later state of the recorder: the table has grown at its end.\<close>

definition vr_later :: "handle \<Rightarrow> value_recorder \<Rightarrow> value_recorder \<Rightarrow> bool" where
  "vr_later non_oop r r' \<longleftrightarrow> (\<exists>hs. vr_list r' = vr_list r @ hs) \<and>
     (\<forall>g j. j \<le> length (vr_list r) \<longrightarrow> vr_findable non_oop r' g j = vr_findable non_oop r g j)"

lemma vr_later_trans: "vr_later non_oop a b \<Longrightarrow> vr_later non_oop b c \<Longrightarrow> vr_later non_oop a c"
  unfolding vr_later_def by fastforce

lemma vr_later_at: "vr_later non_oop r r' \<Longrightarrow> vr_at r i = Some h \<Longrightarrow> vr_at r' i = Some h"
  by (auto simp: vr_later_def vr_at_list nth_append split: if_split_asm)

lemma find_index_ok:
  assumes ok: "vr_ok non_oop r" and real: "h = 0 \<or> is_real non_oop h" and fit: "length (vr_list r) + 1 < 2 ^ 30"
  shows "\<exists>i r'. find_index non_oop r h = Some (i, r') \<and> vr_ok non_oop r' \<and> vr_later non_oop r r' \<and>
    length (vr_list r') \<le> length (vr_list r) + 1 \<and> (if h = 0 then i = 0 else vr_findable non_oop r' h i)"
proof (cases "h = 0")
  case True
  then show ?thesis using ok by (auto simp: find_index_def maybe_find_index_def Let_def vr_later_def)
next
  case False
  then have real': "is_real non_oop h" using real by simp
  obtain res r1 where m: "maybe_find_index r h = Some (res, r1)" and fin: "finds non_oop r h (res, r1)"
    using maybe_find_index_ok [OF ok real'] by auto
  have r1: "vr_ok non_oop r1" "vr_list r1 = vr_list r" "vr_hidden r1 = vr_hidden r" using fin by (auto simp: finds_def vr_list_def)
  then have f1: "vr_findable non_oop r1 = vr_findable non_oop r" by (simp add: vr_findable_def fun_eq_iff)
  show ?thesis
  proof (cases res)
    case (Some i)
    then show ?thesis using m fin r1 f1 False by (auto simp: find_index_def finds_def vr_later_def)
  next
    case None
    obtain i r' where add: "add_handle non_oop r1 h True = (i, r')" by fastforce
    have new: "\<forall>j. \<not> vr_findable non_oop r1 h j" using None fin f1 by (simp add: finds_def)
    note f = add_handle_findable [OF r1(1) add] and l = add_handle_list [OF add]
    have "vr_ok non_oop r'" by (rule add_handle_ok [OF r1(1) add]) (use new fit real' r1 in auto)
    moreover have "vr_later non_oop r r'" by (auto simp: vr_later_def l f r1 f1)
    ultimately show ?thesis using None m add f real' l r1 False by (auto simp: find_index_def)
  qed
qed

lemma allocate_index_ok:
  assumes ok: "vr_ok non_oop r" and fit: "length (vr_list r) + 1 < 2 ^ 30" and a: "allocate_index non_oop r h = (i, r')"
  shows "vr_ok non_oop r'" and "vr_later non_oop r r'" and "i = length (vr_list r) + 1" and "vr_list r' = vr_list r @ [h]"
    and "\<not> vr_findable non_oop r' g i"
proof -
  have add: "add_handle non_oop r h False = (i, r')" using a by (simp add: allocate_index_def)
  note f = add_handle_findable [OF ok add] and l = add_handle_list [OF add]
  show "vr_ok non_oop r'" by (rule add_handle_ok [OF ok add]) (use fit in auto)
  show "vr_later non_oop r r'" by (auto simp: vr_later_def l f)
  show "i = length (vr_list r) + 1" "vr_list r' = vr_list r @ [h]" by (simp_all add: l)
  show "\<not> vr_findable non_oop r' g i" unfolding f by (simp add: vr_findable_def l)
qed

section \<open>Sequences of calls\<close>

datatype vr_op = Find handle | Allocate handle

fun op_handle :: "vr_op \<Rightarrow> handle" where
  "op_handle (Find h) = h"
| "op_handle (Allocate h) = h"

fun vr_step :: "handle \<Rightarrow> value_recorder \<Rightarrow> vr_op \<Rightarrow> (nat \<times> value_recorder) option" where
  "vr_step non_oop r (Find h) = find_index non_oop r h"
| "vr_step non_oop r (Allocate h) = Some (allocate_index non_oop r h)"

fun vr_run :: "handle \<Rightarrow> value_recorder \<Rightarrow> vr_op list \<Rightarrow> (nat list \<times> value_recorder) option" where
  "vr_run non_oop r [] = Some ([], r)"
| "vr_run non_oop r (op # ops) =
     do { (i, r1) \<leftarrow> vr_step non_oop r op; (is, r2) \<leftarrow> vr_run non_oop r1 ops; Some (i # is, r2) }"

fun op_ok :: "handle \<Rightarrow> vr_op \<Rightarrow> bool" where
  "op_ok non_oop (Find h) \<longleftrightarrow> h = 0 \<or> is_real non_oop h"
| "op_ok non_oop (Allocate h) \<longleftrightarrow> True"

text \<open>What a call's result stands for in a later state.\<close>

fun op_means :: "handle \<Rightarrow> value_recorder \<Rightarrow> vr_op \<Rightarrow> nat \<Rightarrow> bool" where
  "op_means non_oop r (Find h) i \<longleftrightarrow> (if h = 0 then i = 0 else vr_findable non_oop r h i)"
| "op_means non_oop r (Allocate h) i \<longleftrightarrow> 0 < i \<and> i \<le> length (vr_list r) \<and> vr_list r ! (i - 1) = h \<and> (\<forall>g. \<not> vr_findable non_oop r g i)"

lemma vr_findable_bound: "vr_findable non_oop r h i \<Longrightarrow> 0 < i \<and> i \<le> length (vr_list r)"
  by (simp add: vr_findable_def)

lemma vr_later_findable: "vr_later non_oop r r' \<Longrightarrow> vr_findable non_oop r h i \<Longrightarrow> vr_findable non_oop r' h i"
  unfolding vr_later_def using vr_findable_bound by blast

lemma op_means_later: "vr_later non_oop r r' \<Longrightarrow> op_means non_oop r op i \<Longrightarrow> op_means non_oop r' op i"
  by (cases op) (auto simp: vr_later_findable, auto simp: vr_later_def nth_append)

lemma op_means_at: "op_means non_oop r op i \<Longrightarrow> vr_at r i = Some (op_handle op)"
  by (cases op) (auto simp: vr_findable_def vr_at_list split: if_split_asm)

lemma vr_step_ok:
  assumes "vr_ok non_oop r" and "op_ok non_oop op" and "length (vr_list r) + 1 < 2 ^ 30"
  shows "\<exists>i r'. vr_step non_oop r op = Some (i, r') \<and> vr_ok non_oop r' \<and> vr_later non_oop r r' \<and>
    length (vr_list r') \<le> length (vr_list r) + 1 \<and> op_means non_oop r' op i \<and>
    (case op of Find h \<Rightarrow> True | Allocate h \<Rightarrow> length (vr_list r) < i \<and> i \<le> length (vr_list r'))"
proof (cases op)
  case (Find h)
  then show ?thesis using find_index_ok [OF assms(1) _ assms(3), of h] assms(2) by simp
next
  case (Allocate h)
  obtain i r' where a: "allocate_index non_oop r h = (i, r')" by fastforce
  then show ?thesis using allocate_index_ok [OF assms(1,3) a] Allocate by simp
qed

lemma vr_run_ok:
  assumes "vr_ok non_oop r" and "\<forall>op \<in> set ops. op_ok non_oop op" and "length (vr_list r) + length ops < 2 ^ 30"
  shows "\<exists>is r'. vr_run non_oop r ops = Some (is, r') \<and> vr_ok non_oop r' \<and> vr_later non_oop r r' \<and>
    length is = length ops \<and> (\<forall>k < length ops. op_means non_oop r' (ops ! k) (is ! k)) \<and>
    (\<forall>k < length ops. \<forall>h. ops ! k = Allocate h \<longrightarrow> length (vr_list r) < is ! k \<and> (\<forall>j < k. \<forall>g. ops ! j = Allocate g \<longrightarrow> is ! j < is ! k))"
  using assms
proof (induction ops arbitrary: r)
  case Nil
  then show ?case by (simp add: vr_later_def)
next
  case (Cons op ops)
  obtain i r1 where s: "vr_step non_oop r op = Some (i, r1)" "vr_ok non_oop r1" "vr_later non_oop r r1"
    "length (vr_list r1) \<le> length (vr_list r) + 1" "op_means non_oop r1 op i"
    and al: "case op of Find h \<Rightarrow> True | Allocate h \<Rightarrow> length (vr_list r) < i \<and> i \<le> length (vr_list r1)"
    using vr_step_ok [OF Cons.prems(1)] Cons.prems(2,3) by fastforce
  obtain "is" r2 where t: "vr_run non_oop r1 ops = Some (is, r2)" "vr_ok non_oop r2" "vr_later non_oop r1 r2" "length is = length ops"
    "\<forall>k < length ops. op_means non_oop r2 (ops ! k) (is ! k)"
    and al': "\<forall>k < length ops. \<forall>h. ops ! k = Allocate h \<longrightarrow> length (vr_list r1) < is ! k \<and> (\<forall>j < k. \<forall>g. ops ! j = Allocate g \<longrightarrow> is ! j < is ! k)"
    using Cons.IH [OF s(2)] Cons.prems(2,3) s(4) by fastforce
  have len: "length (vr_list r) \<le> length (vr_list r1)" using s(3) by (auto simp: vr_later_def)
  have "op_means non_oop r2 ((op # ops) ! k) ((i # is) ! k)" if "k < length (op # ops)" for k
    using that t(5) op_means_later [OF t(3) s(5)] by (cases k) auto
  moreover have "length (vr_list r) < (i # is) ! k \<and> (\<forall>j < k. \<forall>g. (op # ops) ! j = Allocate g \<longrightarrow> (i # is) ! j < (i # is) ! k)"
    if k: "k < length (op # ops)" and h: "(op # ops) ! k = Allocate h" for k h
  proof (cases k)
    case 0
    then show ?thesis using h al by simp
  next
    case (Suc m)
    then have m: "length (vr_list r1) < is ! m" "\<forall>j < m. \<forall>g. ops ! j = Allocate g \<longrightarrow> is ! j < is ! m" using k h al' by auto
    have "(i # is) ! j < (i # is) ! k" if "j < k" "(op # ops) ! j = Allocate g" for j g
      using that m al Suc by (cases j) auto
    then show ?thesis using m(1) len Suc by auto
  qed
  ultimately show ?case using s(1,3) t(1-4) vr_later_trans [OF s(3) t(3)] by auto
qed

section \<open>Theorems\<close>

text \<open>
  C13: over any sequence of find_index and allocate_index on a new recorder, long enough that the
  cache of indexes is in use, every call returns an index under which the table holds its
  handle; find_index returns one index for one handle every time; and allocate_index never
  returns an index that any other call returns, and returns increasing indexes.
\<close>

theorem value_recorder_two_way:
  assumes "\<forall>op \<in> set ops. op_ok non_oop op" and "length ops < 2 ^ 30"
  shows "\<exists>is r. vr_run non_oop (new_value_recorder arena) ops = Some (is, r) \<and> length is = length ops \<and>
    (\<forall>k < length ops. vr_at r (is ! k) = Some (op_handle (ops ! k))) \<and>
    (\<forall>j < length ops. \<forall>k < length ops. \<forall>h. ops ! j = Find h \<longrightarrow>
       (case ops ! k of Find g \<Rightarrow> is ! j = is ! k \<longleftrightarrow> h = g | Allocate g \<Rightarrow> is ! j \<noteq> is ! k)) \<and>
    (\<forall>j k. j < k \<and> k < length ops \<longrightarrow> (\<exists>h g. ops ! j = Allocate h \<and> ops ! k = Allocate g) \<longrightarrow> is ! j < is ! k)"
proof -
  let ?r0 = "new_value_recorder arena"
  have "length (vr_list ?r0) = 0" by (simp add: new_value_recorder_def vr_list_def)
  then obtain "is" r where run: "vr_run non_oop ?r0 ops = Some (is, r)" "vr_ok non_oop r" "length is = length ops"
    and mean: "\<forall>k < length ops. op_means non_oop r (ops ! k) (is ! k)"
    and up: "\<forall>k < length ops. \<forall>h. ops ! k = Allocate h \<longrightarrow> (\<forall>j < k. \<forall>g. ops ! j = Allocate g \<longrightarrow> is ! j < is ! k)"
    using vr_run_ok [OF vr_ok_new assms(1), of arena] assms(2) by auto
  have at: "\<forall>k < length ops. vr_at r (is ! k) = Some (op_handle (ops ! k))" using mean op_means_at by blast
  have "case ops ! k of Find g \<Rightarrow> is ! j = is ! k \<longleftrightarrow> h = g | Allocate g \<Rightarrow> is ! j \<noteq> is ! k"
    if jk: "j < length ops" "k < length ops" and h: "ops ! j = Find h" for j k h
  proof (cases "ops ! k")
    case (Find g)
    have mj: "if h = 0 then is ! j = 0 else vr_findable non_oop r h (is ! j)" using mean jk(1) h by force
    have mk: "if g = 0 then is ! k = 0 else vr_findable non_oop r g (is ! k)" using mean jk(2) Find by force
    have "is ! j = is ! k" if "h = g" using that mj mk run(2) unfolding vr_ok_def by (metis (full_types))
    moreover have "h = g" if "is ! j = is ! k" using at jk h Find that by (metis op_handle.simps(1) option.inject)
    ultimately show ?thesis using Find by auto
  next
    case (Allocate g)
    have mj: "if h = 0 then is ! j = 0 else vr_findable non_oop r h (is ! j)" using mean jk(1) h by force
    have mk: "op_means non_oop r (Allocate g) (is ! k)" using mean jk(2) Allocate by force
    show ?thesis using mj mk Allocate by (auto split: if_split_asm)
  qed
  then show ?thesis using run(1,3) at up by blast
qed

theorem value_recorder_two_way_witness:
  "\<exists>is r. vr_run 5 (new_value_recorder True) [Find 8, Allocate 8, Find 16, Find 8] = Some (is, r) \<and>
    is ! 0 = is ! 3 \<and> is ! 0 \<noteq> is ! 1 \<and> is ! 0 \<noteq> is ! 2 \<and> vr_at r (is ! 2) = Some 16"
proof -
  let ?ops = "[Find 8, Allocate 8, Find 16, Find 8]"
  have ok: "\<forall>op \<in> set ?ops. op_ok 5 op" "length ?ops < 2 ^ 30" by (simp_all add: is_real_def)
  obtain "is" r where run: "vr_run 5 (new_value_recorder True) ?ops = Some (is, r)"
    and at: "\<forall>k < length ?ops. vr_at r (is ! k) = Some (op_handle (?ops ! k))"
    and eq: "\<forall>j < length ?ops. \<forall>k < length ?ops. \<forall>h. ?ops ! j = Find h \<longrightarrow>
       (case ?ops ! k of Find g \<Rightarrow> is ! j = is ! k \<longleftrightarrow> h = g | Allocate g \<Rightarrow> is ! j \<noteq> is ! k)"
    using value_recorder_two_way [OF ok, of True] by blast
  have "is ! 0 = is ! 3" using eq [rule_format, of 0 3 8] by simp
  moreover have "is ! 0 \<noteq> is ! 1" using eq [rule_format, of 0 1 8] by simp
  moreover have "is ! 0 \<noteq> is ! 2" using eq [rule_format, of 0 2 8] by simp
  moreover have "vr_at r (is ! 2) = Some 16" using at [rule_format, of 2] by simp
  ultimately show ?thesis using run by blast
qed

end
