(* ===== verification/GrowableArray.thy ===== *)
theory GrowableArray
  imports HS_Prelude
begin

text \<open>
  \<open>GrowableArray\<close> (\<open>src/src/share/vm/utilities/growableArray.hpp\<close>): the resizable array of the virtual
  machine.  The record has the allocated elements, as many as \<open>_max\<close>, and the length in use.  \<open>None\<close> is
  an access outside the array or an overflow of \<open>int\<close>.  \<open>dflt\<close> is the value of the default constructor
  of the elements.  Every operation implements one on the list of the elements in use.
\<close>

section \<open>The operations\<close>

record 'a growable_array =
  ga_data :: "'a list"
  ga_len :: nat

definition new_growable_array :: "nat \<Rightarrow> nat \<Rightarrow> 'a \<Rightarrow> 'a \<Rightarrow> 'a growable_array" where
  "new_growable_array initial_size initial_len filler dflt =
     \<lparr>ga_data = replicate initial_len filler @ replicate (initial_size - initial_len) dflt, ga_len = initial_len\<rparr>"

definition ga_max :: "'a growable_array \<Rightarrow> nat" where
  "ga_max a = length (ga_data a)"

definition ga_clear :: "'a growable_array \<Rightarrow> 'a growable_array" where
  "ga_clear a = a\<lparr>ga_len := 0\<rparr>"

definition ga_trunc_to :: "'a growable_array \<Rightarrow> nat \<Rightarrow> 'a growable_array option" where
  "ga_trunc_to a l = (if l \<le> ga_len a then Some (a\<lparr>ga_len := l\<rparr>) else None)"

text \<open>The loop of \<open>grow\<close> that doubles \<open>_max\<close>.\<close>

function grow_max :: "nat \<Rightarrow> nat \<Rightarrow> nat option" where
  "grow_max j m = (if j < m \<or> m = 0 then Some m else if m * 2 < 2 ^ 31 then grow_max j (m * 2) else None)"
  by pat_completeness auto
termination by (relation "measure (\<lambda>(j, m). Suc j - m)") auto

declare grow_max.simps [simp del]

definition ga_grow :: "'a \<Rightarrow> 'a growable_array \<Rightarrow> nat \<Rightarrow> 'a growable_array option" where
  "ga_grow dflt a j =
     map_option (\<lambda>m. a\<lparr>ga_data := take (ga_len a) (ga_data a) @ replicate (m - ga_len a) dflt\<rparr>)
       (grow_max j (if ga_max a = 0 then 1 else ga_max a))"

definition ga_store :: "'a growable_array \<Rightarrow> nat \<Rightarrow> 'a \<Rightarrow> 'a growable_array option" where
  "ga_store a i x = (if i < ga_max a then Some (a\<lparr>ga_data := (ga_data a)[i := x]\<rparr>) else None)"

definition ga_append :: "'a \<Rightarrow> 'a growable_array \<Rightarrow> 'a \<Rightarrow> (nat \<times> 'a growable_array) option" where
  "ga_append dflt a elem =
     do { a1 \<leftarrow> (if ga_len a = ga_max a then ga_grow dflt a (ga_len a) else Some a);
          a2 \<leftarrow> ga_store (a1\<lparr>ga_len := ga_len a1 + 1\<rparr>) (ga_len a1) elem;
          Some (ga_len a1, a2) }"

definition ga_at :: "'a growable_array \<Rightarrow> nat \<Rightarrow> 'a option" where
  "ga_at a i = (if i < ga_len a then Some (ga_data a ! i) else None)"

definition ga_first :: "'a growable_array \<Rightarrow> 'a option" where
  "ga_first a = (if 0 < ga_len a then Some (ga_data a ! 0) else None)"

definition ga_top :: "'a growable_array \<Rightarrow> 'a option" where
  "ga_top a = (if 0 < ga_len a then Some (ga_data a ! (ga_len a - 1)) else None)"

definition ga_pop :: "'a growable_array \<Rightarrow> ('a \<times> 'a growable_array) option" where
  "ga_pop a = (if 0 < ga_len a then Some (ga_data a ! (ga_len a - 1), a\<lparr>ga_len := ga_len a - 1\<rparr>) else None)"

definition ga_at_put :: "'a growable_array \<Rightarrow> nat \<Rightarrow> 'a \<Rightarrow> 'a growable_array option" where
  "ga_at_put a i elem = (if i < ga_len a then ga_store a i elem else None)"

text \<open>The loops that fill the elements from \<open>j\<close> on, \<open>n\<close> of them.\<close>

fun fill_loop :: "'a \<Rightarrow> 'a list \<Rightarrow> nat \<Rightarrow> nat \<Rightarrow> 'a list" where
  "fill_loop fill d j 0 = d"
| "fill_loop fill d j (Suc n) = fill_loop fill (d[j := fill]) (Suc j) n"

definition ga_at_grow :: "'a \<Rightarrow> 'a growable_array \<Rightarrow> nat \<Rightarrow> 'a \<Rightarrow> ('a \<times> 'a growable_array) option" where
  "ga_at_grow dflt a i fill =
     (if ga_len a \<le> i then
        do { a1 \<leftarrow> (if ga_max a \<le> i then ga_grow dflt a i else Some a);
             let a2 = a1\<lparr>ga_data := fill_loop fill (ga_data a1) (ga_len a1) (Suc i - ga_len a1), ga_len := i + 1\<rparr>;
             Some (ga_data a2 ! i, a2) }
      else Some (ga_data a ! i, a))"

definition raw_at_put_grow :: "'a \<Rightarrow> 'a growable_array \<Rightarrow> nat \<Rightarrow> 'a \<Rightarrow> 'a \<Rightarrow> 'a growable_array option" where
  "raw_at_put_grow dflt a i p fill =
     do { a2 \<leftarrow> (if ga_len a \<le> i then
                  do { a1 \<leftarrow> (if ga_max a \<le> i then ga_grow dflt a i else Some a);
                       Some (a1\<lparr>ga_data := fill_loop fill (ga_data a1) (ga_len a1) (i - ga_len a1), ga_len := i + 1\<rparr>) }
                else Some a);
          ga_store a2 i p }"

text \<open>The searches from the front and from the back.\<close>

fun find_loop :: "('a \<Rightarrow> bool) \<Rightarrow> 'a list \<Rightarrow> nat \<Rightarrow> nat \<Rightarrow> nat option" where
  "find_loop p d i 0 = None"
| "find_loop p d i (Suc n) = (if p (d ! i) then Some i else find_loop p d (Suc i) n)"

fun find_back_loop :: "('a \<Rightarrow> bool) \<Rightarrow> 'a list \<Rightarrow> nat \<Rightarrow> nat option" where
  "find_back_loop p d 0 = None"
| "find_back_loop p d (Suc i) = (if p (d ! i) then Some i else find_back_loop p d i)"

definition ga_contains :: "'a growable_array \<Rightarrow> 'a \<Rightarrow> bool" where
  "ga_contains a elem = (find_loop (\<lambda>x. x = elem) (ga_data a) 0 (ga_len a) \<noteq> None)"

definition ga_append_if_missing :: "'a \<Rightarrow> 'a growable_array \<Rightarrow> 'a \<Rightarrow> (bool \<times> 'a growable_array) option" where
  "ga_append_if_missing dflt a elem =
     (let missed = \<not> ga_contains a elem
      in if missed then map_option (\<lambda>(idx, a'). (missed, a')) (ga_append dflt a elem) else Some (missed, a))"

text \<open>\<open>find\<close> and \<open>find_from_end\<close> give -1 when there is no such element.\<close>

definition ga_find :: "'a growable_array \<Rightarrow> ('a \<Rightarrow> bool) \<Rightarrow> int" where
  "ga_find a f = (case find_loop f (ga_data a) 0 (ga_len a) of Some i \<Rightarrow> int i | None \<Rightarrow> - 1)"

definition ga_find_from_end :: "'a growable_array \<Rightarrow> ('a \<Rightarrow> bool) \<Rightarrow> int" where
  "ga_find_from_end a f = (case find_back_loop f (ga_data a) (ga_len a) of Some i \<Rightarrow> int i | None \<Rightarrow> - 1)"

text \<open>The loop \<open>for (j = ...; j < _len; j++) _data[j-1] = _data[j]\<close>, with \<open>n\<close> rounds left.\<close>

fun shift_down :: "'a list \<Rightarrow> nat \<Rightarrow> nat \<Rightarrow> 'a list" where
  "shift_down d j 0 = d"
| "shift_down d j (Suc n) = shift_down (d[j - 1 := d ! j]) (Suc j) n"

definition ga_remove_at :: "'a growable_array \<Rightarrow> nat \<Rightarrow> 'a growable_array option" where
  "ga_remove_at a index =
     (if index < ga_len a
      then Some (a\<lparr>ga_data := shift_down (ga_data a) (Suc index) (ga_len a - Suc index), ga_len := ga_len a - 1\<rparr>)
      else None)"

definition ga_remove :: "'a growable_array \<Rightarrow> 'a \<Rightarrow> 'a growable_array option" where
  "ga_remove a elem =
     (case find_loop (\<lambda>x. x = elem) (ga_data a) 0 (ga_len a) of
        Some i \<Rightarrow> Some (a\<lparr>ga_data := shift_down (ga_data a) (Suc i) (ga_len a - Suc i), ga_len := ga_len a - 1\<rparr>)
      | None \<Rightarrow> None)"

definition ga_delete_at :: "'a growable_array \<Rightarrow> nat \<Rightarrow> 'a growable_array option" where
  "ga_delete_at a index =
     (if index < ga_len a then
        (let n = ga_len a - 1
         in Some (if index < n then a\<lparr>ga_data := (ga_data a)[index := ga_data a ! n], ga_len := n\<rparr> else a\<lparr>ga_len := n\<rparr>))
      else None)"

text \<open>The loop \<open>for (j = _len - 1; j >= idx; j--) _data[j + 1] = _data[j]\<close>, from \<open>j + 1\<close> down.\<close>

fun shift_up :: "'a list \<Rightarrow> nat \<Rightarrow> nat \<Rightarrow> 'a list" where
  "shift_up d idx 0 = d"
| "shift_up d idx (Suc j) = (if idx \<le> j then shift_up (d[Suc j := d ! j]) idx j else d)"

definition ga_insert_before :: "'a \<Rightarrow> 'a growable_array \<Rightarrow> nat \<Rightarrow> 'a \<Rightarrow> 'a growable_array option" where
  "ga_insert_before dflt a idx elem =
     (if idx \<le> ga_len a then
        do { a1 \<leftarrow> (if ga_len a = ga_max a then ga_grow dflt a (ga_len a) else Some a);
             ga_store (a1\<lparr>ga_data := shift_up (ga_data a1) idx (ga_len a1), ga_len := ga_len a1 + 1\<rparr>) idx elem }
      else None)"

fun append_all_loop :: "'a \<Rightarrow> 'a growable_array \<Rightarrow> 'a list \<Rightarrow> 'a growable_array option" where
  "append_all_loop dflt a [] = Some a"
| "append_all_loop dflt a (x # xs) = do { a1 \<leftarrow> raw_at_put_grow dflt a (ga_len a) x dflt; append_all_loop dflt a1 xs }"

definition ga_append_all :: "'a \<Rightarrow> 'a growable_array \<Rightarrow> 'a growable_array \<Rightarrow> 'a growable_array option" where
  "ga_append_all dflt a l = append_all_loop dflt a (take (ga_len l) (ga_data l))"

section \<open>Binary search\<close>

text \<open>
  \<open>find_sorted\<close> on the elements \<open>xs\<close> in use: the position and whether the key was found there.  The
  sum of \<open>min\<close> and \<open>max\<close> is computed in \<open>uint\<close> and does not overflow.
\<close>

function find_sorted_loop :: "('k \<Rightarrow> 'a \<Rightarrow> int) \<Rightarrow> 'k \<Rightarrow> 'a list \<Rightarrow> int \<Rightarrow> int \<Rightarrow> nat \<times> bool" where
  "find_sorted_loop compare key xs mn mx =
     (if mn \<le> mx then
        (let mid = (mx + mn) div 2; diff = compare key (xs ! nat mid)
         in if diff > 0 then find_sorted_loop compare key xs (mid + 1) mx
            else if diff < 0 then find_sorted_loop compare key xs mn (mid - 1)
            else (nat mid, True))
      else (nat mn, False))"
  by pat_completeness auto
termination
  by (relation "measure (\<lambda>(compare, key, xs, mn, mx). nat (mx + 1 - mn))") auto

declare find_sorted_loop.simps [simp del]

definition find_sorted :: "('k \<Rightarrow> 'a \<Rightarrow> int) \<Rightarrow> 'k \<Rightarrow> 'a list \<Rightarrow> nat \<times> bool" where
  "find_sorted compare key xs = find_sorted_loop compare key xs 0 (int (length xs) - 1)"

definition insert_before :: "'a list \<Rightarrow> nat \<Rightarrow> 'a \<Rightarrow> 'a list" where
  "insert_before xs idx elem = take idx xs @ elem # drop idx xs"

definition insert_sorted :: "('a \<Rightarrow> 'a \<Rightarrow> int) \<Rightarrow> 'a \<Rightarrow> 'a list \<Rightarrow> 'a \<times> 'a list" where
  "insert_sorted compare key xs =
     (case find_sorted compare key xs of (loc, found) \<Rightarrow>
        let xs' = (if found then xs else insert_before xs loc key) in (xs' ! loc, xs'))"

definition ga_find_sorted :: "('k \<Rightarrow> 'a \<Rightarrow> int) \<Rightarrow> 'k \<Rightarrow> 'a growable_array \<Rightarrow> nat \<times> bool" where
  "ga_find_sorted compare key a = find_sorted_loop compare key (ga_data a) 0 (int (ga_len a) - 1)"

definition ga_insert_sorted :: "'a \<Rightarrow> ('a \<Rightarrow> 'a \<Rightarrow> int) \<Rightarrow> 'a \<Rightarrow> 'a growable_array \<Rightarrow> ('a \<times> 'a growable_array) option" where
  "ga_insert_sorted dflt compare key a =
     (case ga_find_sorted compare key a of (loc, found) \<Rightarrow>
        do { a1 \<leftarrow> (if found then Some a else ga_insert_before dflt a loc key);
             x \<leftarrow> ga_at a1 loc;
             Some (x, a1) })"

end
