(* ===== verification/GrowableArray_Correct.thy ===== *)
theory GrowableArray_Correct
  imports GrowableArray
begin

text \<open>
  The growable array implements a list: the elements in use after any sequence of operations are
  those of the operations on lists.  Binary search with a comparison that is a strict order finds a
  key exactly when it is there, and insertion keeps the array sorted.
\<close>

section \<open>The elements in use\<close>

definition ga_elems :: "'a growable_array \<Rightarrow> 'a list" where
  "ga_elems a = take (ga_len a) (ga_data a)"

definition ga_ok :: "'a growable_array \<Rightarrow> bool" where
  "ga_ok a \<longleftrightarrow> ga_len a \<le> length (ga_data a) \<and> length (ga_data a) < 2 ^ 31"

lemma ga_elems_length [simp]: "ga_ok a \<Longrightarrow> length (ga_elems a) = ga_len a"
  by (simp add: ga_elems_def ga_ok_def)

lemma ga_elems_nth: "i < ga_len a \<Longrightarrow> ga_elems a ! i = ga_data a ! i"
  by (simp add: ga_elems_def)

lemma grow_max_ok: "0 < m \<Longrightarrow> m < 2 ^ 31 \<Longrightarrow> j < 2 ^ 30 \<Longrightarrow> \<exists>m'. grow_max j m = Some m' \<and> j < m' \<and> m \<le> m' \<and> m' < 2 ^ 31"
proof (induction j m rule: grow_max.induct)
  case (1 j m)
  show ?case
  proof (cases "j < m")
    case True
    then show ?thesis using 1 by (subst grow_max.simps) auto
  next
    case False
    then have "m * 2 < 2 ^ 31" using 1(4) by simp
    moreover from this obtain m' where "grow_max j (m * 2) = Some m'" "j < m'" "m * 2 \<le> m'" "m' < 2 ^ 31" using 1 False by auto
    ultimately show ?thesis using False 1(2) by (subst grow_max.simps) auto
  qed
qed

lemma ga_grow_ok:
  assumes ok: "ga_ok a" and j: "j < 2 ^ 30" "ga_len a \<le> j"
  shows "\<exists>a'. ga_grow dflt a j = Some a' \<and> ga_ok a' \<and> ga_elems a' = ga_elems a \<and> ga_len a' = ga_len a \<and> j < length (ga_data a')"
proof -
  let ?m = "if ga_max a = 0 then 1 else ga_max a"
  have "0 < ?m" "?m < 2 ^ 31" using ok by (simp_all add: ga_ok_def ga_max_def)
  from grow_max_ok [OF this j(1)] obtain m' where m': "grow_max j ?m = Some m'" "j < m'" "?m \<le> m'" "m' < 2 ^ 31" by blast
  then show ?thesis using ok j by (auto simp: ga_grow_def ga_ok_def ga_elems_def)
qed

text \<open>Room for the element at index \<open>i\<close>, as the operations that grow make it.\<close>

lemma ga_room:
  assumes "ga_ok a" and "i < 2 ^ 30" and "ga_len a \<le> i" and "\<not> c \<Longrightarrow> i < ga_max a"
  shows "\<exists>a'. (if c then ga_grow dflt a i else Some a) = Some a' \<and> ga_ok a' \<and> ga_elems a' = ga_elems a \<and> ga_len a' = ga_len a \<and> i < length (ga_data a')"
  using ga_grow_ok [OF assms(1-3), of dflt] assms by (auto simp: ga_max_def)

lemma fill_loop_eq: "j + n \<le> length d \<Longrightarrow> fill_loop x d j n = take j d @ replicate n x @ drop (j + n) d"
proof (induction n arbitrary: d j)
  case (Suc n)
  then have "fill_loop x d j (Suc n) = take (Suc j) (d[j := x]) @ replicate n x @ drop (Suc j + n) (d[j := x])" by simp
  also have "take (Suc j) (d[j := x]) = take j d @ [x]" using Suc.prems by (simp add: take_Suc_conv_app_nth)
  finally show ?case by simp
qed simp

lemma fill_loop_length [simp]: "length (fill_loop x d j n) = length d"
  by (induction n arbitrary: d j) auto

lemma shift_down_length [simp]: "length (shift_down d j n) = length d"
  by (induction n arbitrary: d j) auto

lemma shift_down_nth:
  "0 < j \<Longrightarrow> j + n \<le> length d \<Longrightarrow> i < length d \<Longrightarrow> shift_down d j n ! i = (if j - 1 \<le> i \<and> i < j - 1 + n then d ! Suc i else d ! i)"
  by (induction n arbitrary: d j) (auto simp: nth_list_update)

lemma shift_up_length [simp]: "length (shift_up d idx j) = length d"
  by (induction j arbitrary: d) auto

lemma shift_up_nth:
  "j < length d \<Longrightarrow> i < length d \<Longrightarrow> shift_up d idx j ! i = (if idx < i \<and> i \<le> j then d ! (i - 1) else d ! i)"
  by (induction j arbitrary: d) (auto simp: nth_list_update le_Suc_eq)

lemma find_loop_Some:
  "find_loop p d i n = Some k \<Longrightarrow> i \<le> k \<and> k < i + n \<and> p (d ! k) \<and> (\<forall>m. i \<le> m \<and> m < k \<longrightarrow> \<not> p (d ! m))"
proof (induction n arbitrary: i)
  case (Suc n)
  show ?case
  proof (cases "p (d ! i)")
    case False
    then have "Suc i \<le> k \<and> k < Suc i + n \<and> p (d ! k) \<and> (\<forall>m. Suc i \<le> m \<and> m < k \<longrightarrow> \<not> p (d ! m))"
      using Suc.IH [of "Suc i"] Suc.prems by simp
    then show ?thesis using False by (metis Suc_leD Suc_leI add_Suc_shift le_neq_implies_less)
  qed (use Suc.prems in auto)
qed simp

lemma find_loop_None: "find_loop p d i n = None \<Longrightarrow> i \<le> m \<Longrightarrow> m < i + n \<Longrightarrow> \<not> p (d ! m)"
proof (induction n arbitrary: i)
  case (Suc n)
  then show ?case by (cases "m = i") (auto split: if_split_asm)
qed simp

lemma find_back_loop_Some: "find_back_loop p d n = Some k \<Longrightarrow> k < n \<and> p (d ! k) \<and> (\<forall>m. k < m \<and> m < n \<longrightarrow> \<not> p (d ! m))"
  by (induction n) (auto simp: less_Suc_eq split: if_split_asm)

lemma find_back_loop_None: "find_back_loop p d n = None \<Longrightarrow> m < n \<Longrightarrow> \<not> p (d ! m)"
  by (induction n) (auto simp: less_Suc_eq split: if_split_asm)

section \<open>The operations on lists\<close>

datatype 'a ga_op = Append 'a | Append_if_missing 'a | Pop | At_put nat 'a | At_grow nat 'a | At_put_grow nat 'a 'a
  | Remove 'a | Remove_at nat | Delete_at nat | Insert_before nat 'a | Append_all "'a growable_array" | Clear | Trunc_to nat

fun ga_apply :: "'a \<Rightarrow> 'a growable_array \<Rightarrow> 'a ga_op \<Rightarrow> 'a growable_array option" where
  "ga_apply dflt a (Append x) = map_option snd (ga_append dflt a x)"
| "ga_apply dflt a (Append_if_missing x) = map_option snd (ga_append_if_missing dflt a x)"
| "ga_apply dflt a Pop = map_option snd (ga_pop a)"
| "ga_apply dflt a (At_put i x) = ga_at_put a i x"
| "ga_apply dflt a (At_grow i x) = map_option snd (ga_at_grow dflt a i x)"
| "ga_apply dflt a (At_put_grow i x fill) = raw_at_put_grow dflt a i x fill"
| "ga_apply dflt a (Remove x) = ga_remove a x"
| "ga_apply dflt a (Remove_at i) = ga_remove_at a i"
| "ga_apply dflt a (Delete_at i) = ga_delete_at a i"
| "ga_apply dflt a (Insert_before i x) = ga_insert_before dflt a i x"
| "ga_apply dflt a (Append_all b) = ga_append_all dflt a b"
| "ga_apply dflt a Clear = Some (ga_clear a)"
| "ga_apply dflt a (Trunc_to n) = ga_trunc_to a n"

text \<open>The same operations on lists; \<open>None\<close> where the assertions of the code do not hold.\<close>

definition pad_to :: "nat \<Rightarrow> 'a \<Rightarrow> 'a list \<Rightarrow> 'a list" where
  "pad_to n x xs = xs @ replicate (n - length xs) x"

fun list_apply :: "'a list \<Rightarrow> 'a ga_op \<Rightarrow> 'a list option" where
  "list_apply xs (Append x) = Some (xs @ [x])"
| "list_apply xs (Append_if_missing x) = Some (if x \<in> set xs then xs else xs @ [x])"
| "list_apply xs Pop = (if xs = [] then None else Some (butlast xs))"
| "list_apply xs (At_put i x) = (if i < length xs then Some (xs[i := x]) else None)"
| "list_apply xs (At_grow i x) = Some (pad_to (Suc i) x xs)"
| "list_apply xs (At_put_grow i x fill) = Some ((pad_to (Suc i) fill xs)[i := x])"
| "list_apply xs (Remove x) = (if x \<in> set xs then Some (remove1 x xs) else None)"
| "list_apply xs (Remove_at i) = (if i < length xs then Some (take i xs @ drop (Suc i) xs) else None)"
| "list_apply xs (Delete_at i) = (if i < length xs then Some (butlast (xs[i := last xs])) else None)"
| "list_apply xs (Insert_before i x) = (if i \<le> length xs then Some (insert_before xs i x) else None)"
| "list_apply xs (Append_all b) = Some (xs @ ga_elems b)"
| "list_apply xs Clear = Some []"
| "list_apply xs (Trunc_to n) = (if n \<le> length xs then Some (take n xs) else None)"

text \<open>An upper bound of the length after the operation, within which \<open>int\<close> does not overflow.\<close>

fun op_grows :: "'a ga_op \<Rightarrow> nat" where
  "op_grows (At_grow i x) = Suc i"
| "op_grows (At_put_grow i x fill) = Suc i"
| "op_grows (Append_all b) = Suc (ga_len b)"
| "op_grows _ = 1"

definition implements :: "'a growable_array option \<Rightarrow> 'a list option \<Rightarrow> bool" where
  "implements r s \<longleftrightarrow> (case s of None \<Rightarrow> r = None | Some ys \<Rightarrow> (\<exists>a. r = Some a \<and> ga_ok a \<and> ga_elems a = ys))"

lemma implementsI: "r = Some a \<Longrightarrow> ga_ok a \<Longrightarrow> ga_elems a = ys \<Longrightarrow> implements r (Some ys)"
  by (simp add: implements_def)

section \<open>Each operation\<close>

lemma ga_store_ok:
  assumes "ga_ok a" and "i < length (ga_data a)"
  shows "\<exists>a'. ga_store a i x = Some a' \<and> ga_ok a' \<and> ga_len a' = ga_len a \<and> ga_elems a' = (ga_elems a)[i := x]"
  using assms by (auto simp: ga_store_def ga_max_def ga_ok_def ga_elems_def take_update_swap)

lemma append_ok:
  assumes ok: "ga_ok a" and len: "ga_len a < 2 ^ 30"
  shows "\<exists>a'. ga_append dflt a x = Some (ga_len a, a') \<and> ga_ok a' \<and> ga_elems a' = ga_elems a @ [x]"
proof -
  obtain a1 where a1: "(if ga_len a = ga_max a then ga_grow dflt a (ga_len a) else Some a) = Some a1"
    "ga_ok a1" "ga_elems a1 = ga_elems a" "ga_len a1 = ga_len a" "ga_len a < length (ga_data a1)"
    using ga_room [OF ok len order_refl, of "ga_len a = ga_max a" dflt] ok by (auto simp: ga_ok_def ga_max_def)
  have "ga_elems (a1\<lparr>ga_len := ga_len a1 + 1\<rparr>) = ga_elems a @ [ga_data a1 ! ga_len a]"
    using a1(3-5) by (simp add: ga_elems_def take_Suc_conv_app_nth)
  moreover have "ga_ok (a1\<lparr>ga_len := ga_len a1 + 1\<rparr>)" using a1(2,4,5) by (simp add: ga_ok_def)
  moreover obtain a2 where a2: "ga_store (a1\<lparr>ga_len := ga_len a1 + 1\<rparr>) (ga_len a1) x = Some a2" "ga_ok a2"
    "ga_elems a2 = (ga_elems (a1\<lparr>ga_len := ga_len a1 + 1\<rparr>))[ga_len a1 := x]"
    using ga_store_ok [of "a1\<lparr>ga_len := ga_len a1 + 1\<rparr>" "ga_len a1" x] calculation(2) a1(4,5) by auto
  ultimately have "ga_elems a2 = ga_elems a @ [x]" using a1(4) ok by (simp add: list_update_append)
  then show ?thesis using a1(1,4) a2(1,2) by (simp add: ga_append_def)
qed

lemma contains_iff: "ga_ok a \<Longrightarrow> ga_contains a x \<longleftrightarrow> x \<in> set (ga_elems a)"
proof
  assume "ga_ok a" and "ga_contains a x"
  then obtain k where "find_loop (\<lambda>y. y = x) (ga_data a) 0 (ga_len a) = Some k" by (auto simp: ga_contains_def)
  then show "x \<in> set (ga_elems a)" using find_loop_Some [of "\<lambda>y. y = x" "ga_data a" 0 "ga_len a" k] \<open>ga_ok a\<close>
    by (auto simp: in_set_conv_nth ga_elems_nth)
next
  assume ok: "ga_ok a" and "x \<in> set (ga_elems a)"
  then obtain k where "k < ga_len a" "ga_data a ! k = x" by (auto simp: in_set_conv_nth ga_elems_nth)
  then show "ga_contains a x" using find_loop_None [of "\<lambda>y. y = x" "ga_data a" 0 "ga_len a" k] by (auto simp: ga_contains_def)
qed

text \<open>Growing to an index beyond the length, with the elements in between filled.\<close>

lemma grow_fill:
  assumes ok: "ga_ok a" and i: "i < 2 ^ 30" "ga_len a \<le> i"
  shows "\<exists>a1. (if ga_max a \<le> i then ga_grow dflt a i else Some a) = Some a1 \<and> ga_len a1 = ga_len a \<and> i < length (ga_data a1) \<and> ga_ok a1 \<and>
    ga_elems a1 = ga_elems a"
  using ga_room [OF ok i, of "ga_max a \<le> i" dflt] by auto

lemma at_grow_ok:
  assumes ok: "ga_ok a" and i: "i < 2 ^ 30"
  shows "\<exists>x' a'. ga_at_grow dflt a i x = Some (x', a') \<and> ga_ok a' \<and> ga_elems a' = pad_to (Suc i) x (ga_elems a) \<and> x' = ga_elems a' ! i"
proof (cases "ga_len a \<le> i")
  case True
  obtain a1 where a1: "(if ga_max a \<le> i then ga_grow dflt a i else Some a) = Some a1" "ga_len a1 = ga_len a"
    "i < length (ga_data a1)" "ga_ok a1" "ga_elems a1 = ga_elems a" using grow_fill [OF ok i True] by blast
  let ?a2 = "a1\<lparr>ga_data := fill_loop x (ga_data a1) (ga_len a1) (Suc i - ga_len a1), ga_len := i + 1\<rparr>"
  have "ga_elems ?a2 = pad_to (Suc i) x (ga_elems a)"
    using a1 True ok by (simp add: ga_elems_def fill_loop_eq pad_to_def ga_ok_def)
  moreover have "ga_ok ?a2" using a1(2-4) True by (simp add: ga_ok_def)
  moreover have "ga_data ?a2 ! i = ga_elems ?a2 ! i" by (simp add: ga_elems_def)
  ultimately show ?thesis using a1(1) True by (simp add: ga_at_grow_def Let_def)
next
  case False
  then show ?thesis using ok by (simp add: ga_at_grow_def pad_to_def ga_elems_nth)
qed

lemma at_put_grow_ok:
  assumes ok: "ga_ok a" and i: "i < 2 ^ 30"
  shows "\<exists>a'. raw_at_put_grow dflt a i x fill = Some a' \<and> ga_ok a' \<and> ga_elems a' = (pad_to (Suc i) fill (ga_elems a))[i := x]"
proof (cases "ga_len a \<le> i")
  case True
  obtain a1 where a1: "(if ga_max a \<le> i then ga_grow dflt a i else Some a) = Some a1" "ga_len a1 = ga_len a"
    "i < length (ga_data a1)" "ga_ok a1" "ga_elems a1 = ga_elems a" using grow_fill [OF ok i True] by blast
  define a2 where "a2 = a1\<lparr>ga_data := fill_loop fill (ga_data a1) (ga_len a1) (i - ga_len a1), ga_len := i + 1\<rparr>"
  have "ga_elems a2 = ga_elems a @ replicate (i - ga_len a) fill @ [ga_data a1 ! i]"
  proof -
    have "fill_loop fill (ga_data a1) (ga_len a1) (i - ga_len a1) = ga_elems a @ replicate (i - ga_len a) fill @ ga_data a1 ! i # drop (Suc i) (ga_data a1)"
      using a1 True by (simp add: fill_loop_eq ga_elems_def Cons_nth_drop_Suc)
    then show ?thesis using True ok unfolding a2_def ga_elems_def [of "_ \<lparr>ga_len := _\<rparr>"] by (simp add: Suc_diff_le)
  qed
  then have "(ga_elems a2)[i := x] = (pad_to (Suc i) fill (ga_elems a))[i := x]"
    using ok True by (simp add: pad_to_def list_update_append Suc_diff_le replicate_append_same [symmetric])
  moreover have "ga_ok a2" "i < length (ga_data a2)" using a1(2-4) True by (simp_all add: ga_ok_def a2_def)
  ultimately show ?thesis using a1(1) True ga_store_ok [of a2 i x] by (auto simp: raw_at_put_grow_def a2_def)
next
  case False
  then show ?thesis using ok ga_store_ok [of a i x] by (auto simp: raw_at_put_grow_def pad_to_def ga_ok_def)
qed

lemma remove_at_ok:
  assumes ok: "ga_ok a" and i: "i < ga_len a"
  shows "\<exists>a'. ga_remove_at a i = Some a' \<and> ga_ok a' \<and> ga_elems a' = take i (ga_elems a) @ drop (Suc i) (ga_elems a)"
proof -
  let ?d = "shift_down (ga_data a) (Suc i) (ga_len a - Suc i)"
  have "take (ga_len a - 1) ?d = take i (ga_elems a) @ drop (Suc i) (ga_elems a)"
    using ok i by (intro nth_equalityI) (auto simp: ga_ok_def ga_elems_def shift_down_nth nth_append)
  then show ?thesis using ok i by (auto simp: ga_remove_at_def ga_ok_def ga_elems_def)
qed

lemma remove_ok:
  assumes ok: "ga_ok a"
  shows "implements (ga_remove a x) (list_apply (ga_elems a) (Remove x))"
proof (cases "find_loop (\<lambda>y. y = x) (ga_data a) 0 (ga_len a)")
  case None
  then have "x \<notin> set (ga_elems a)" using contains_iff [OF ok, of x] by (simp add: ga_contains_def)
  then show ?thesis using None by (simp add: ga_remove_def implements_def)
next
  case (Some k)
  then have k: "k < ga_len a" "ga_elems a ! k = x" "\<forall>m < k. ga_elems a ! m \<noteq> x"
    using find_loop_Some [OF Some] by (auto simp: ga_elems_nth)
  then have "x \<notin> set (take k (ga_elems a))" using ok by (auto simp: in_set_conv_nth)
  then have "remove1 x (take k (ga_elems a) @ x # drop (Suc k) (ga_elems a)) = take k (ga_elems a) @ drop (Suc k) (ga_elems a)"
    by (simp add: remove1_append)
  moreover have "take k (ga_elems a) @ x # drop (Suc k) (ga_elems a) = ga_elems a" using k(1,2) ok id_take_nth_drop [of k "ga_elems a"] by simp
  ultimately have r: "remove1 x (ga_elems a) = take k (ga_elems a) @ drop (Suc k) (ga_elems a)" by simp
  moreover have "x \<in> set (ga_elems a)" using k ok by (metis ga_elems_length nth_mem)
  moreover have "ga_remove a x = ga_remove_at a k" using Some k(1) by (simp add: ga_remove_def ga_remove_at_def)
  ultimately show ?thesis using remove_at_ok [OF ok k(1)] by (auto simp: implements_def)
qed

lemma delete_at_ok:
  assumes ok: "ga_ok a" and i: "i < ga_len a"
  shows "\<exists>a'. ga_delete_at a i = Some a' \<and> ga_ok a' \<and> ga_elems a' = butlast ((ga_elems a)[i := last (ga_elems a)])"
proof -
  have l: "last (ga_elems a) = ga_data a ! (ga_len a - 1)"
    using ok i by (subst last_conv_nth) (auto simp: ga_elems_nth ga_ok_def ga_elems_def)
  have b: "butlast ((ga_elems a)[i := y]) = take (ga_len a - 1) ((ga_data a)[i := y])" for y
    using ok unfolding ga_elems_def take_update_swap [symmetric] by (simp add: butlast_take ga_ok_def)
  show ?thesis
  proof (cases "i < ga_len a - 1")
    case True
    then show ?thesis using ok i unfolding l b by (auto simp: ga_delete_at_def ga_ok_def ga_elems_def Let_def)
  next
    case False
    then have "take (ga_len a - 1) ((ga_data a)[i := y]) = take (ga_len a - 1) (ga_data a)" for y
      using i by simp
    then show ?thesis using False ok i unfolding l b by (auto simp: ga_delete_at_def ga_ok_def ga_elems_def Let_def)
  qed
qed

lemma insert_before_ok:
  assumes ok: "ga_ok a" and len: "ga_len a < 2 ^ 30" and i: "i \<le> ga_len a"
  shows "\<exists>a'. ga_insert_before dflt a i x = Some a' \<and> ga_ok a' \<and> ga_elems a' = insert_before (ga_elems a) i x"
proof -
  obtain a1 where a1: "(if ga_len a = ga_max a then ga_grow dflt a (ga_len a) else Some a) = Some a1"
    "ga_ok a1" "ga_elems a1 = ga_elems a" "ga_len a1 = ga_len a" "ga_len a < length (ga_data a1)"
    using ga_room [OF ok len order_refl, of "ga_len a = ga_max a" dflt] ok by (auto simp: ga_ok_def ga_max_def)
  define a2 where "a2 = a1\<lparr>ga_data := shift_up (ga_data a1) i (ga_len a1), ga_len := ga_len a1 + 1\<rparr>"
  have ok2: "ga_ok a2" "i < length (ga_data a2)" using a1 i by (simp_all add: a2_def ga_ok_def)
  obtain a3 where a3: "ga_store a2 i x = Some a3" "ga_ok a3" "ga_elems a3 = (ga_elems a2)[i := x]"
    using ga_store_ok [OF ok2] by blast
  have e: "ga_elems a ! m = ga_data a1 ! m" if "m < ga_len a" for m using that a1(3,4) by (metis ga_elems_nth)
  have "(ga_elems a2)[i := x] = insert_before (ga_elems a) i x"
  proof (rule nth_equalityI)
    show "length ((ga_elems a2)[i := x]) = length (insert_before (ga_elems a) i x)"
      using ok2(1) ok i a1(4) by (simp add: insert_before_def a2_def)
    fix m assume "m < length ((ga_elems a2)[i := x])"
    then have m: "m < Suc (ga_len a)" using ok2(1) a1(4) by (simp add: a2_def)
    have "ga_elems a2 ! m = shift_up (ga_data a1) i (ga_len a) ! m" using m by (simp add: a2_def ga_elems_def a1(4))
    also have "\<dots> = (if i < m then ga_data a1 ! (m - 1) else ga_data a1 ! m)" using m a1(5) by (subst shift_up_nth) auto
    finally have d: "ga_elems a2 ! m = (if i < m then ga_data a1 ! (m - 1) else ga_data a1 ! m)" .
    consider "m < i" | "m = i" | "i < m" by linarith
    then show "(ga_elems a2)[i := x] ! m = insert_before (ga_elems a) i x ! m"
    proof cases
      case 1
      then show ?thesis using d e [of m] i ok by (simp add: insert_before_def nth_append)
    next
      case 2
      then show ?thesis using i ok ok2(1) m a1(4) by (simp add: insert_before_def nth_append a2_def)
    next
      case 3
      then show ?thesis using d e [of "m - 1"] i ok m by (simp add: insert_before_def nth_append nth_Cons')
    qed
  qed
  then show ?thesis using a1(1) a3 i by (simp add: ga_insert_before_def a2_def)
qed

lemma append_all_ok:
  assumes "ga_ok a" and "ga_len a + length xs \<le> 2 ^ 30"
  shows "\<exists>a'. append_all_loop dflt a xs = Some a' \<and> ga_ok a' \<and> ga_elems a' = ga_elems a @ xs"
  using assms
proof (induction xs arbitrary: a)
  case (Cons x xs)
  obtain a1 where a1: "raw_at_put_grow dflt a (ga_len a) x dflt = Some a1" "ga_ok a1"
    "ga_elems a1 = (pad_to (Suc (ga_len a)) dflt (ga_elems a))[ga_len a := x]"
    using at_put_grow_ok [OF Cons.prems(1), of "ga_len a" dflt x dflt] Cons.prems(2) by auto
  then have e: "ga_elems a1 = ga_elems a @ [x]" using Cons.prems(1) by (simp add: pad_to_def list_update_append Suc_diff_le)
  then have "ga_len a1 = Suc (ga_len a)" using a1(2) Cons.prems(1) by (metis ga_elems_length length_append_singleton)
  then show ?case using Cons.IH [OF a1(2)] Cons.prems(2) a1(1) e by auto
qed simp

section \<open>Sequences of operations\<close>

fun op_ok :: "'a ga_op \<Rightarrow> bool" where
  "op_ok (Append_all b) = ga_ok b"
| "op_ok _ = True"

lemma ga_apply_implements:
  assumes ok: "ga_ok a" and op: "op_ok op" and fit: "ga_len a + op_grows op \<le> 2 ^ 30"
  shows "implements (ga_apply dflt a op) (list_apply (ga_elems a) op)"
proof (cases op)
  case (Append x)
  then show ?thesis using append_ok [OF ok, of dflt x] fit by (auto simp: implements_def)
next
  case (Append_if_missing x)
  then show ?thesis using append_ok [OF ok, of dflt x] fit contains_iff [OF ok, of x] ok
    by (auto simp: implements_def ga_append_if_missing_def Let_def)
next
  case Pop
  have "ga_elems a = [] \<longleftrightarrow> ga_len a = 0" using ga_elems_length [OF ok] by auto
  moreover have "butlast (ga_elems a) = take (ga_len a - 1) (ga_data a)" using ok by (simp add: ga_elems_def ga_ok_def butlast_take)
  ultimately show ?thesis using Pop ok by (auto simp: implements_def ga_pop_def ga_ok_def) (simp add: ga_elems_def)
next
  case (At_put i x)
  then show ?thesis using ga_store_ok [OF ok, of i x] ok by (auto simp: implements_def ga_at_put_def ga_ok_def)
next
  case (At_grow i x)
  then show ?thesis using at_grow_ok [OF ok, of i dflt x] fit by (auto simp: implements_def)
next
  case (At_put_grow i x fill)
  then show ?thesis using at_put_grow_ok [OF ok, of i dflt x fill] fit by (auto simp: implements_def)
next
  case (Remove x)
  then show ?thesis using remove_ok [OF ok] by simp
next
  case (Remove_at i)
  then show ?thesis using remove_at_ok [OF ok, of i] ok by (auto simp: implements_def ga_remove_at_def)
next
  case (Delete_at i)
  then show ?thesis using delete_at_ok [OF ok, of i] ok by (auto simp: implements_def ga_delete_at_def)
next
  case (Insert_before i x)
  then show ?thesis using insert_before_ok [OF ok, of i dflt x] ok fit by (auto simp: implements_def ga_insert_before_def)
next
  case (Append_all b)
  then show ?thesis using append_all_ok [OF ok, of "ga_elems b" dflt] op fit by (auto simp: implements_def ga_append_all_def ga_elems_def [symmetric])
next
  case Clear
  then show ?thesis using ok by (simp add: implements_def ga_clear_def ga_ok_def ga_elems_def)
next
  case (Trunc_to n)
  then show ?thesis using ok by (auto simp: implements_def ga_trunc_to_def ga_ok_def) (simp add: ga_elems_def min_def)
qed

lemma list_apply_length: "op_ok op \<Longrightarrow> list_apply xs op = Some ys \<Longrightarrow> length ys \<le> length xs + op_grows op"
  by (cases op) (auto simp: pad_to_def insert_before_def length_remove1 split: if_split_asm)

fun ga_run :: "'a \<Rightarrow> 'a growable_array \<Rightarrow> 'a ga_op list \<Rightarrow> 'a growable_array option" where
  "ga_run dflt a [] = Some a"
| "ga_run dflt a (op # ops) = do { a1 \<leftarrow> ga_apply dflt a op; ga_run dflt a1 ops }"

fun list_run :: "'a list \<Rightarrow> 'a ga_op list \<Rightarrow> 'a list option" where
  "list_run xs [] = Some xs"
| "list_run xs (op # ops) = do { ys \<leftarrow> list_apply xs op; list_run ys ops }"

lemma ga_run_implements:
  assumes "ga_ok a" and "list_all op_ok ops" and "ga_len a + (\<Sum>op \<leftarrow> ops. op_grows op) \<le> 2 ^ 30"
  shows "implements (ga_run dflt a ops) (list_run (ga_elems a) ops)"
  using assms
proof (induction ops arbitrary: a)
  case Nil
  then show ?case by (simp add: implements_def)
next
  case (Cons op ops)
  have op: "implements (ga_apply dflt a op) (list_apply (ga_elems a) op)"
    using ga_apply_implements [OF Cons.prems(1), of op dflt] Cons.prems(2,3) by simp
  show ?case
  proof (cases "list_apply (ga_elems a) op")
    case None
    then show ?thesis using op by (simp add: implements_def)
  next
    case (Some ys)
    then obtain a1 where a1: "ga_apply dflt a op = Some a1" "ga_ok a1" "ga_elems a1 = ys" using op by (auto simp: implements_def)
    have "ga_len a1 \<le> ga_len a + op_grows op"
      using list_apply_length [OF _ Some] Cons.prems(1,2) a1(2,3) ga_elems_length [OF a1(2)] by simp
    then have "implements (ga_run dflt a1 ops) (list_run (ga_elems a1) ops)" using Cons.IH [OF a1(2)] Cons.prems(2,3) by simp
    then show ?thesis using Some a1(1,3) by simp
  qed
qed

text \<open>
  C15: A growable array is a list.  After any sequence of operations on a new array the elements in use
  are those that the operations on lists give; an operation fails exactly where an assertion of the
  code does not hold (an index out of range, an element to remove that is not there).  The array
  grows when it has to and no bound of the allocated memory is exceeded, as long as the lengths and
  indexes add up to at most two to the 30th, beyond which the doubling of the capacity overflows.
\<close>

theorem growable_array_implements_list:
  assumes "list_all op_ok ops" and "initial_len + (\<Sum>op \<leftarrow> ops. op_grows op) \<le> 2 ^ 30"
    and "initial_len \<le> initial_size" and "initial_size < 2 ^ 31"
  shows "implements (ga_run dflt (new_growable_array initial_size initial_len filler dflt) ops) (list_run (replicate initial_len filler) ops)"
proof -
  let ?a = "new_growable_array initial_size initial_len filler dflt"
  have "ga_ok ?a" "ga_elems ?a = replicate initial_len filler" "ga_len ?a = initial_len"
    using assms(3,4) by (simp_all add: new_growable_array_def ga_ok_def ga_elems_def)
  then show ?thesis using ga_run_implements [of ?a ops dflt] assms(1,2) by simp
qed

theorem growable_array_implements_list_witness:
  "\<exists>a. ga_run 0 (new_growable_array 1 0 0 0) [Append 5, Append 6, Append 7, Remove 5, Insert_before 1 (8 :: nat), At_put_grow 4 9 1, Delete_at 0] = Some a \<and>
    ga_elems a = [9, 8, 7, 1]"
proof -
  let ?ops = "[Append 5, Append 6, Append 7, Remove 5, Insert_before 1 (8 :: nat), At_put_grow 4 9 1, Delete_at 0]"
  have "list_run (replicate 0 0) ?ops = Some [9, 8, 7, 1]" by (simp add: insert_before_def pad_to_def numeral_2_eq_2)
  then show ?thesis using growable_array_implements_list [of ?ops 0 1 0 0] by (auto simp: implements_def simp del: ga_run.simps list_run.simps)
qed

section \<open>Binary search\<close>

lemma set_insert_before: "set (insert_before xs loc x) = insert x (set xs)"
  unfolding insert_before_def using append_take_drop_id [of loc xs] by (metis Un_insert_right list.simps(15) set_append)

text \<open>
  The comparison of a key with an element: \<open>before\<close> is a strict order on the elements, and the sign of
  the comparison says on which side of a valid key an element is.
\<close>

locale sorted_search =
  fixes compare :: "'k \<Rightarrow> 'a \<Rightarrow> int" and before :: "'a \<Rightarrow> 'a \<Rightarrow> bool" and valid :: "'k \<Rightarrow> bool"
  assumes key_after: "valid k \<Longrightarrow> before x y \<Longrightarrow> 0 < compare k y \<Longrightarrow> 0 < compare k x"
    and key_before: "valid k \<Longrightarrow> before x y \<Longrightarrow> compare k x < 0 \<Longrightarrow> compare k y < 0"
begin

definition in_order :: "'a list \<Rightarrow> bool" where
  "in_order xs \<longleftrightarrow> sorted_wrt before xs"

definition splits :: "'k \<Rightarrow> 'a list \<Rightarrow> nat \<Rightarrow> bool" where
  "splits k xs loc \<longleftrightarrow> loc \<le> length xs \<and> (\<forall>i < loc. 0 < compare k (xs ! i)) \<and> (\<forall>i < length xs. loc \<le> i \<longrightarrow> compare k (xs ! i) < 0)"

lemma find_sorted_loop_ok:
  assumes "valid k" and "in_order xs" and "0 \<le> mn" and "mn \<le> mx + 1" and "mx < int (length xs)"
    and "\<forall>i < nat mn. 0 < compare k (xs ! i)" and "\<forall>i < length xs. mx < int i \<longrightarrow> compare k (xs ! i) < 0"
  shows "case find_sorted_loop compare k xs mn mx of
    (loc, found) \<Rightarrow> if found then loc < length xs \<and> compare k (xs ! loc) = 0 else splits k xs loc"
  using assms(2-)
proof (induction "nat (mx + 1 - mn)" arbitrary: mn mx rule: less_induct)
  case less
  define mid where mid: "mid = (mx + mn) div 2"
  have lt: "before (xs ! i) (xs ! j)" if "i < j" "j < length xs" for i j
    using less(2) that by (simp add: in_order_def sorted_wrt_iff_nth_less)
  show ?case
  proof (cases "mn \<le> mx")
    case False
    then have "mn = mx + 1" using less(4) by simp
    then have "splits k xs (nat mn)" using less(3,5-7) by (auto simp: splits_def)
    then show ?thesis using False by (subst find_sorted_loop.simps) simp
  next
    case True
    have m: "mn \<le> mid" "mid \<le> mx" "nat mid < length xs" "0 \<le> mid" using True less(3,5) by (auto simp: mid)
    consider "0 < compare k (xs ! nat mid)" | "compare k (xs ! nat mid) < 0" | "compare k (xs ! nat mid) = 0" by linarith
    then show ?thesis
    proof cases
      case 1
      have "0 < compare k (xs ! i)" if "i < nat (mid + 1)" for i
        using that 1 m key_after [OF assms(1) lt [of i "nat mid"]] by (cases "i = nat mid") auto
      then have "case find_sorted_loop compare k xs (mid + 1) mx of (loc, found) \<Rightarrow>
          if found then loc < length xs \<and> compare k (xs ! loc) = 0 else splits k xs loc"
        using less(1) [of mx "mid + 1"] True m less(2-7) by simp
      then show ?thesis using 1 True by (subst find_sorted_loop.simps) (simp add: Let_def flip: mid)
    next
      case 2
      have "compare k (xs ! i) < 0" if "i < length xs" "mid - 1 < int i" for i
        using that 2 m key_before [OF assms(1) lt [of "nat mid" i]] by (cases "i = nat mid") auto
      then have "case find_sorted_loop compare k xs mn (mid - 1) of (loc, found) \<Rightarrow>
          if found then loc < length xs \<and> compare k (xs ! loc) = 0 else splits k xs loc"
        using less(1) [of "mid - 1" mn] True m less(2-7) by simp
      then show ?thesis using 2 True by (subst find_sorted_loop.simps) (simp add: Let_def flip: mid)
    next
      case 3
      then show ?thesis using True m by (subst find_sorted_loop.simps) (simp add: Let_def flip: mid)
    qed
  qed
qed

lemma find_sorted_ok:
  assumes "valid k" and "in_order xs" and "find_sorted compare k xs = (loc, found)"
  shows "if found then loc < length xs \<and> compare k (xs ! loc) = 0 else splits k xs loc"
  using find_sorted_loop_ok [OF assms(1,2), of 0 "int (length xs) - 1"] assms(3) by (simp add: find_sorted_def)

text \<open>The search finds a key whenever it is there.\<close>

lemma find_sorted_complete:
  assumes "valid k" and "in_order xs" and "x \<in> set xs" and "compare k x = 0"
  shows "snd (find_sorted compare k xs)"
proof (rule ccontr)
  assume "\<not> snd (find_sorted compare k xs)"
  then have "splits k xs (fst (find_sorted compare k xs))"
    using find_sorted_ok [OF assms(1,2), of "fst (find_sorted compare k xs)" False] by (metis (full_types) prod.collapse)
  then show False using assms(3,4) unfolding splits_def in_set_conv_nth by (metis less_irrefl not_less)
qed

lemma insert_in_order:
  assumes xs: "in_order xs" "splits k xs loc" 
    and below: "\<And>y. y \<in> set xs \<Longrightarrow> 0 < compare k y \<Longrightarrow> before y x" and above: "\<And>y. y \<in> set xs \<Longrightarrow> compare k y < 0 \<Longrightarrow> before x y"
  shows "in_order (insert_before xs loc x)"
proof -
  have "sorted_wrt before (take loc xs)" "sorted_wrt before (drop loc xs)" "\<forall>y \<in> set (take loc xs). \<forall>z \<in> set (drop loc xs). before y z"
    using xs(1) append_take_drop_id [of loc xs] unfolding in_order_def by (metis sorted_wrt_append)+
  moreover have "before y x" if y: "y \<in> set (take loc xs)" for y
  proof -
    obtain i where "i < loc" "i < length xs" "xs ! i = y" using y by (auto simp: in_set_conv_nth)
    then show ?thesis using xs(2) below [of y] by (auto simp: splits_def)
  qed
  moreover have "before x y" if y: "y \<in> set (drop loc xs)" for y
  proof -
    obtain i where "loc \<le> i" "i < length xs" "xs ! i = y" using y by (auto simp: in_set_conv_nth) (metis le_add1 less_diff_conv add.commute)
    then show ?thesis using xs(2) above [of y] by (auto simp: splits_def)
  qed
  ultimately show ?thesis by (auto simp: in_order_def insert_before_def sorted_wrt_append)
qed

end

end
