(* ===== verification/ObjectLookup.thy ===== *)
theory ObjectLookup
  imports OopRecorder_Correct GrowableArray_Correct
begin

text \<open>
  \<open>ObjectLookup\<close> (\<open>src/src/share/vm/code/oopRecorder.hpp\<close>, \<open>oopRecorder.cpp\<close>): the deduplication of handles
  by the object they refer to.  The entries are sorted by the address of the object and sorted again
  after a garbage collection, which moves objects.  What the heap does is a parameter: \<open>resolve\<close> is
  \<open>JNIHandles::resolve\<close>, \<open>make_local\<close> is \<open>JNIHandles::make_local\<close> and \<open>total_collections\<close> the number of
  collections so far, each at the time of the call.
\<close>

section \<open>The lookup\<close>

type_synonym address = "64 word"

record object_entry =
  oe_value :: handle
  oe_index :: nat

record object_lookup =
  ol_values :: "object_entry list"
  ol_gc_count :: nat

definition new_object_lookup :: "nat \<Rightarrow> object_lookup" where
  "new_object_lookup total_collections = \<lparr>ol_values = [], ol_gc_count = total_collections\<rparr>"

definition oop_value :: "(handle \<Rightarrow> address) \<Rightarrow> object_entry \<Rightarrow> address" where
  "oop_value resolve e = resolve (oe_value e)"

definition sort_by_address :: "address \<Rightarrow> address \<Rightarrow> int" where
  "sort_by_address a b = (if a < b then 1 else if b < a then - 1 else 0)"

definition sort_oop_by_address :: "(handle \<Rightarrow> address) \<Rightarrow> address \<Rightarrow> object_entry \<Rightarrow> int" where
  "sort_oop_by_address resolve a b = sort_by_address a (oop_value resolve b)"

text \<open>\<open>qsort\<close> with \<open>sort_by_address\<close>, which puts the larger address first.\<close>

definition sort_entries :: "(handle \<Rightarrow> address) \<Rightarrow> object_entry list \<Rightarrow> object_entry list" where
  "sort_entries resolve es = sort_key (\<lambda>e. - uint (oop_value resolve e)) es"

definition maybe_resort :: "nat \<Rightarrow> (handle \<Rightarrow> address) \<Rightarrow> object_lookup \<Rightarrow> object_lookup" where
  "maybe_resort total_collections resolve l =
     (if ol_gc_count l \<noteq> total_collections
      then l\<lparr>ol_gc_count := total_collections, ol_values := sort_entries resolve (ol_values l)\<rparr> else l)"

definition lookup_find_index ::
    "handle \<Rightarrow> nat \<Rightarrow> (handle \<Rightarrow> address) \<Rightarrow> (address \<Rightarrow> handle) \<Rightarrow> object_lookup \<Rightarrow> oop_recorder \<Rightarrow> handle \<Rightarrow> nat \<times> object_lookup \<times> oop_recorder" where
  "lookup_find_index non_oop total_collections resolve make_local l0 r h =
     (if h = 0 then (0, l0, r)
      else
        (let object = resolve h; l = maybe_resort total_collections resolve l0
         in case find_sorted (sort_oop_by_address resolve) object (ol_values l) of (loc, found) \<Rightarrow>
              if \<not> found then
                (let h' = make_local object
                 in case allocate_oop_index non_oop r h' of (index, r') \<Rightarrow>
                      (index, l\<lparr>ol_values := insert_before (ol_values l) loc \<lparr>oe_value = h', oe_index = index\<rparr>\<rparr>, r'))
              else (oe_index (ol_values l ! loc), l, r)))"

text \<open>\<open>OopRecorder::find_index\<close>, with and without deduplication.\<close>

definition recorder_find_index ::
    "handle \<Rightarrow> nat \<Rightarrow> (handle \<Rightarrow> address) \<Rightarrow> (address \<Rightarrow> handle) \<Rightarrow> object_lookup option \<Rightarrow> oop_recorder \<Rightarrow> handle \<Rightarrow>
      (nat \<times> object_lookup option \<times> oop_recorder) option" where
  "recorder_find_index non_oop total_collections resolve make_local lookup r h =
     (case lookup of
        Some l \<Rightarrow> (case lookup_find_index non_oop total_collections resolve make_local l r h of (i, l', r') \<Rightarrow> Some (i, Some l', r'))
      | None \<Rightarrow> map_option (\<lambda>(i, r'). (i, None, r')) (find_oop_index non_oop r h))"

section \<open>Search by address\<close>

definition address_before :: "(handle \<Rightarrow> address) \<Rightarrow> object_entry \<Rightarrow> object_entry \<Rightarrow> bool" where
  "address_before resolve x y \<longleftrightarrow> oop_value resolve y < oop_value resolve x"

interpretation address_search: sorted_search "sort_oop_by_address resolve" "address_before resolve" "\<lambda>a. True" for resolve
  by unfold_locales (auto simp: address_before_def sort_oop_by_address_def sort_by_address_def split: if_split_asm)

lemma sort_entries_set [simp]: "set (sort_entries resolve es) = set es" "length (sort_entries resolve es) = length es"
  by (simp_all add: sort_entries_def)

lemma sort_entries_in_order:
  assumes "distinct (map (oop_value resolve) es)"
  shows "address_search.in_order resolve (sort_entries resolve es)"
proof -
  let ?f = "\<lambda>e. - uint (oop_value resolve e)" and ?es = "sort_entries resolve es"
  have d: "distinct (map (oop_value resolve) ?es)" using assms by (simp add: sort_entries_def distinct_map)
  have s: "sorted (map ?f ?es)" by (simp add: sort_entries_def)
  have "address_before resolve (?es ! i) (?es ! j)" if ij: "i < j" "j < length ?es" for i j
  proof -
    have "?f (?es ! i) \<le> ?f (?es ! j)" using s ij by (auto simp: sorted_iff_nth_mono dest!: spec)
    moreover have "oop_value resolve (?es ! i) \<noteq> oop_value resolve (?es ! j)"
      using nth_eq_iff_index_eq [OF d, of i j] ij by simp
    ultimately show ?thesis by (simp add: address_before_def order.strict_iff_order word_le_def)
  qed
  then show ?thesis by (simp add: address_search.in_order_def sorted_wrt_iff_nth_less)
qed

section \<open>Objects that move\<close>

text \<open>
  One call, and the heap at the time of it: \<open>obj\<close> gives the object that a handle refers to, which does
  not change; \<open>addr\<close> gives the address of an object, which changes only in a collection.
\<close>

record 'o heap_at =
  ha_collections :: nat
  ha_addr :: "'o \<Rightarrow> address"
  ha_make_local :: "address \<Rightarrow> handle"

definition resolve_at :: "(handle \<Rightarrow> 'o) \<Rightarrow> 'o heap_at \<Rightarrow> handle \<Rightarrow> address" where
  "resolve_at obj t h = ha_addr t (obj h)"

text \<open>
  What is relied on: distinct objects have distinct addresses, a local handle for the object at an
  address refers to it and is a real handle, and an address changes only with the number of collections.
\<close>

definition heap_ok :: "handle \<Rightarrow> (handle \<Rightarrow> 'o) \<Rightarrow> 'o heap_at \<Rightarrow> bool" where
  "heap_ok non_oop obj t \<longleftrightarrow> inj (ha_addr t) \<and> (\<forall>x. obj (ha_make_local t (ha_addr t x)) = x \<and> is_real non_oop (ha_make_local t (ha_addr t x)))"

definition heap_moves :: "'o heap_at \<Rightarrow> 'o heap_at \<Rightarrow> bool" where
  "heap_moves s t \<longleftrightarrow> (ha_collections s = ha_collections t \<longrightarrow> ha_addr s = ha_addr t)"

definition call_at :: "handle \<Rightarrow> (handle \<Rightarrow> 'o) \<Rightarrow> 'o heap_at \<Rightarrow> object_lookup \<times> oop_recorder \<Rightarrow> handle \<Rightarrow> nat \<times> object_lookup \<times> oop_recorder" where
  "call_at non_oop obj t s h = lookup_find_index non_oop (ha_collections t) (resolve_at obj t) (ha_make_local t) (fst s) (snd s) h"

fun lookup_run :: "handle \<Rightarrow> (handle \<Rightarrow> 'o) \<Rightarrow> object_lookup \<times> oop_recorder \<Rightarrow> ('o heap_at \<times> handle) list \<Rightarrow> nat list \<times> object_lookup \<times> oop_recorder" where
  "lookup_run non_oop obj s [] = ([], s)"
| "lookup_run non_oop obj s ((t, h) # calls) =
     (case call_at non_oop obj t s h of (i, s1) \<Rightarrow> case lookup_run non_oop obj s1 calls of (is, s2) \<Rightarrow> (i # is, s2))"

section \<open>The invariant\<close>

definition lookup_ok :: "handle \<Rightarrow> (handle \<Rightarrow> 'o) \<Rightarrow> 'o heap_at \<Rightarrow> object_lookup \<times> oop_recorder \<Rightarrow> bool" where
  "lookup_ok non_oop obj t s \<longleftrightarrow> vr_ok non_oop (or_oops (snd s)) \<and> distinct (map (obj \<circ> oe_value) (ol_values (fst s))) \<and>
     (ol_gc_count (fst s) = ha_collections t \<longrightarrow> address_search.in_order (resolve_at obj t) (ol_values (fst s))) \<and>
     (\<forall>e \<in> set (ol_values (fst s)). 0 < oe_index e \<and> recorder_oop_at (snd s) (oe_index e) = Some (oe_value e))"

definition has_entry :: "(handle \<Rightarrow> 'o) \<Rightarrow> object_lookup \<Rightarrow> 'o \<Rightarrow> nat \<Rightarrow> bool" where
  "has_entry obj l x i \<longleftrightarrow> (\<exists>e \<in> set (ol_values l). obj (oe_value e) = x \<and> oe_index e = i)"

lemma has_entry_unique:
  assumes ok: "lookup_ok non_oop obj t s" and e: "has_entry obj (fst s) x i" "has_entry obj (fst s) y j"
  shows "i = j \<longleftrightarrow> x = y"
proof -
  obtain d e where de: "d \<in> set (ol_values (fst s))" "obj (oe_value d) = x" "oe_index d = i" "e \<in> set (ol_values (fst s))" "obj (oe_value e) = y" "oe_index e = j"
    using e by (auto simp: has_entry_def)
  have "inj_on (obj \<circ> oe_value) (set (ol_values (fst s)))" using ok by (simp add: lookup_ok_def distinct_map)
  then have "d = e" if "x = y" using that de by (auto dest!: inj_onD [where x = d and y = e])
  moreover have "x = y" if "i = j" using ok that de unfolding lookup_ok_def by (metis option.inject)
  ultimately show ?thesis using de by auto
qed

lemma has_entry_at:
  "lookup_ok non_oop obj t s \<Longrightarrow> has_entry obj (fst s) x i \<Longrightarrow> 0 < i \<and> (\<exists>g. recorder_oop_at (snd s) i = Some g \<and> obj g = x)"
  by (auto simp: lookup_ok_def has_entry_def)

lemma maybe_resort_ok:
  assumes ok: "lookup_ok non_oop obj s (l, r)" and t: "heap_ok non_oop obj t" "heap_moves s t" "ol_gc_count l = ha_collections s"
  defines "l' \<equiv> maybe_resort (ha_collections t) (resolve_at obj t) l"
  shows "lookup_ok non_oop obj t (l', r)" and "ol_gc_count l' = ha_collections t" and "set (ol_values l') = set (ol_values l)"
proof -
  have inj: "inj (ha_addr t)" using t(1) by (simp add: heap_ok_def)
  have "oop_value (resolve_at obj t) = ha_addr t \<circ> (obj \<circ> oe_value)" by (auto simp: oop_value_def resolve_at_def)
  then have "distinct (map (oop_value (resolve_at obj t)) (ol_values l))"
    using ok inj by (simp add: lookup_ok_def distinct_map comp_inj_on inj_on_subset)
  from sort_entries_in_order [OF this] have sorted: "address_search.in_order (resolve_at obj t) (sort_entries (resolve_at obj t) (ol_values l))" .
  have "address_search.in_order (resolve_at obj t) (ol_values l)" if "ol_gc_count l = ha_collections t"
  proof -
    have "resolve_at obj t = resolve_at obj s" using that t(2,3) by (simp add: heap_moves_def resolve_at_def [abs_def])
    then show ?thesis using ok t(3) by (simp add: lookup_ok_def)
  qed
  then show "lookup_ok non_oop obj t (l', r)" "ol_gc_count l' = ha_collections t" "set (ol_values l') = set (ol_values l)"
    using ok sorted by (auto simp: l'_def maybe_resort_def lookup_ok_def sort_entries_def distinct_map)
qed

lemma distinct_insert_before: "distinct (map f xs) \<Longrightarrow> f x \<notin> f ` set xs \<Longrightarrow> distinct (map f (insert_before xs loc x))"
proof -
  assume d: "distinct (map f xs)" "f x \<notin> f ` set xs"
  have "map f xs = map f (take loc xs) @ map f (drop loc xs)" by (simp flip: map_append)
  moreover have "set xs = set (take loc xs) \<union> set (drop loc xs)" by (metis append_take_drop_id set_append)
  ultimately show ?thesis using d by (auto simp: insert_before_def)
qed

text \<open>One call: the entries stay, and there is one for the object of the handle.\<close>

lemma call_at_ok:
  assumes ok: "lookup_ok non_oop obj s (l, r)" and t: "heap_ok non_oop obj t" "heap_moves s t" "ol_gc_count l = ha_collections s"
    and h: "h \<noteq> 0" and fit: "length (vr_list (or_oops r)) + 1 < 2 ^ 30" and call: "call_at non_oop obj t (l, r) h = (i, l', r')"
  shows "lookup_ok non_oop obj t (l', r')" and "ol_gc_count l' = ha_collections t" and "has_entry obj l' (obj h) i"
    and "has_entry obj l x j \<Longrightarrow> has_entry obj l' x j" and "length (vr_list (or_oops r')) \<le> length (vr_list (or_oops r)) + 1"
proof -
  let ?res = "resolve_at obj t"
  define l1 where "l1 = maybe_resort (ha_collections t) ?res l"
  note l1 = maybe_resort_ok [OF ok t, folded l1_def]
  obtain loc found where f: "find_sorted (sort_oop_by_address ?res) (?res h) (ol_values l1) = (loc, found)" by fastforce
  have order: "address_search.in_order ?res (ol_values l1)" using l1(1,2) by (simp add: lookup_ok_def)
  note find = address_search.find_sorted_ok [OF TrueI order f]
  have inj: "ha_addr t x = ha_addr t y \<longleftrightarrow> x = y" for x y using t(1) by (simp add: heap_ok_def inj_eq)
  have zero: "sort_oop_by_address ?res (?res h) e = 0 \<longleftrightarrow> obj (oe_value e) = obj h" for e
    using inj by (auto simp: sort_oop_by_address_def sort_by_address_def oop_value_def resolve_at_def)
  have "lookup_ok non_oop obj t (l', r') \<and> ol_gc_count l' = ha_collections t \<and> has_entry obj l' (obj h) i \<and>
    (has_entry obj l x j \<longrightarrow> has_entry obj l' x j) \<and> length (vr_list (or_oops r')) \<le> length (vr_list (or_oops r)) + 1"
  proof (cases found)
    case True
    then have "l' = l1" "r' = r" "i = oe_index (ol_values l1 ! loc)"
      using call f h by (auto simp: call_at_def lookup_find_index_def Let_def l1_def [symmetric])
    then show ?thesis using True find zero l1 by (auto simp: has_entry_def)
  next
    case False
    define g where "g = ha_make_local t (?res h)"
    have g: "obj g = obj h" using t(1) by (simp add: g_def heap_ok_def resolve_at_def)
    obtain i0 v where v: "allocate_index non_oop (or_oops r) g = (i0, v)" by fastforce
    let ?e = "\<lparr>oe_value = g, oe_index = i\<rparr>"
    have eq: "i = i0" "r' = r\<lparr>or_oops := v\<rparr>" "l' = l1\<lparr>ol_values := insert_before (ol_values l1) loc ?e\<rparr>"
      using call f h False v by (auto simp: call_at_def lookup_find_index_def Let_def l1_def [symmetric] g_def [symmetric] allocate_oop_index_def)
    note a = allocate_index_ok [OF _ fit v]
    have rok: "vr_ok non_oop (or_oops r)" using ok by (simp add: lookup_ok_def)
    have split: "address_search.splits ?res (?res h) (ol_values l1) loc" using find False by simp
    have "address_search.in_order ?res (ol_values l')" unfolding eq(3)
      by simp (rule address_search.insert_in_order [OF order split];
        simp add: address_before_def sort_oop_by_address_def sort_by_address_def oop_value_def resolve_at_def g split: if_split_asm)
    moreover have "obj (oe_value ?e) \<notin> (obj \<circ> oe_value) ` set (ol_values l1)"
    proof -
      have "sort_oop_by_address ?res (?res h) e \<noteq> 0" if "e \<in> set (ol_values l1)" for e
        using split that unfolding address_search.splits_def in_set_conv_nth by (metis less_irrefl not_less)
      then have "obj (oe_value e) \<noteq> obj h" if "e \<in> set (ol_values l1)" for e using zero that by blast
      then show ?thesis using g by (force simp: image_iff)
    qed
    then have "distinct (map (obj \<circ> oe_value) (ol_values l'))"
      unfolding eq(3) using l1(1) distinct_insert_before [of "obj \<circ> oe_value" "ol_values l1" ?e loc] by (simp add: lookup_ok_def)
    moreover have "recorder_oop_at r' i = Some g" "0 < i" using a(3,4) [OF rok] by (simp_all add: eq recorder_oop_at_def vr_at_list)
    moreover have "recorder_oop_at r k = Some y \<Longrightarrow> recorder_oop_at r' k = Some y" for k y
      using vr_later_at [OF a(2) [OF rok]] by (simp add: eq recorder_oop_at_def)
    ultimately have "lookup_ok non_oop obj t (l', r')"
      using l1(1) a(1) [OF rok] unfolding lookup_ok_def by (auto simp: eq set_insert_before)
    then show ?thesis using l1(2,3) g a(4) [OF rok] by (auto simp: eq has_entry_def set_insert_before)
  qed
  then show "lookup_ok non_oop obj t (l', r')" and "ol_gc_count l' = ha_collections t" and "has_entry obj l' (obj h) i"
    and "has_entry obj l x j \<Longrightarrow> has_entry obj l' x j" and "length (vr_list (or_oops r')) \<le> length (vr_list (or_oops r)) + 1" by auto
qed

section \<open>Sequences of calls\<close>

text \<open>The heaps of consecutive calls, from the one at which the lookup is made.\<close>

fun heaps_ok :: "handle \<Rightarrow> (handle \<Rightarrow> 'o) \<Rightarrow> 'o heap_at \<Rightarrow> ('o heap_at \<times> handle) list \<Rightarrow> bool" where
  "heaps_ok non_oop obj s [] = True"
| "heaps_ok non_oop obj s ((t, h) # calls) = (heap_ok non_oop obj t \<and> heap_moves s t \<and> heaps_ok non_oop obj t calls)"

lemma lookup_null: "call_at non_oop obj t s 0 = (0, s)"
  by (cases s) (simp add: call_at_def lookup_find_index_def)

lemma has_entry_run:
  assumes "lookup_ok non_oop obj s (l, r)" and "ol_gc_count l = ha_collections s" and "heaps_ok non_oop obj s calls" and "\<forall>(t, h) \<in> set calls. h \<noteq> 0"
    and "length (vr_list (or_oops r)) + length calls < 2 ^ 30" and "lookup_run non_oop obj (l, r) calls = (is, l', r')"
  shows "length is = length calls \<and> (\<exists>t. lookup_ok non_oop obj t (l', r')) \<and> (\<forall>x j. has_entry obj l x j \<longrightarrow> has_entry obj l' x j) \<and>
    (\<forall>k < length calls. has_entry obj l' (obj (snd (calls ! k))) (is ! k))"
  using assms
proof (induction calls arbitrary: s l r "is")
  case Nil
  then show ?case by auto
next
  case (Cons c calls)
  obtain t h where c: "c = (t, h)" by fastforce
  obtain i l1 r1 where s1: "call_at non_oop obj t (l, r) h = (i, l1, r1)" by (cases "call_at non_oop obj t (l, r) h") auto
  obtain is1 where run: "lookup_run non_oop obj (l1, r1) calls = (is1, l', r')" "is = i # is1"
    using Cons.prems(6) by (auto simp: c s1 split: prod.split_asm)
  have t: "heap_ok non_oop obj t" "heap_moves s t" "heaps_ok non_oop obj t calls" "h \<noteq> 0"
    "length (vr_list (or_oops r)) + 1 < 2 ^ 30" using Cons.prems(3-5) by (simp_all add: c)
  note one = call_at_ok [OF Cons.prems(1) t(1,2) Cons.prems(2) t(4,5) s1]
  have "length (vr_list (or_oops r1)) + length calls < 2 ^ 30" using one(5) Cons.prems(5) by simp
  then have rest: "length is1 = length calls \<and> (\<exists>t. lookup_ok non_oop obj t (l', r')) \<and> (\<forall>x j. has_entry obj l1 x j \<longrightarrow> has_entry obj l' x j) \<and>
    (\<forall>k < length calls. has_entry obj l' (obj (snd (calls ! k))) (is1 ! k))"
    using Cons.IH [OF one(1,2) t(3) _ _ run(1)] Cons.prems(4) by auto
  moreover have "has_entry obj l' (obj (snd ((c # calls) ! k))) ((i # is1) ! k)" if "k < length (c # calls)" for k
    using rest one(3) that c by (cases k) auto
  ultimately show ?case using run(2) one(4) by auto
qed

text \<open>
  C14: Deduplication survives garbage collections.  For any sequence of \<open>find_index\<close> calls on handles
  that are not null, with the heap of each call given, the calls return the same index exactly when
  their handles refer to the same object, although objects move between the calls and the addresses
  by which the entries are sorted change; and each index leads to a handle for the object.
\<close>

theorem object_lookup_deduplicates:
  assumes "heaps_ok non_oop obj s calls" and "\<forall>(t, h) \<in> set calls. h \<noteq> 0" and "length calls < 2 ^ 30"
    and "lookup_run non_oop obj (new_object_lookup (ha_collections s), new_oop_recorder arena) calls = (is, l', r')"
  shows "length is = length calls \<and>
    (\<forall>j < length calls. \<forall>k < length calls. is ! j = is ! k \<longleftrightarrow> obj (snd (calls ! j)) = obj (snd (calls ! k))) \<and>
    (\<forall>k < length calls. \<exists>g. recorder_oop_at r' (is ! k) = Some g \<and> obj g = obj (snd (calls ! k)))"
proof -
  let ?l = "new_object_lookup (ha_collections s)" and ?r = "new_oop_recorder arena"
  have "lookup_ok non_oop obj s (?l, ?r)" "ol_gc_count ?l = ha_collections s" "length (vr_list (or_oops ?r)) = 0"
    by (simp_all add: lookup_ok_def new_object_lookup_def new_oop_recorder_def vr_ok_new address_search.in_order_def)
      (simp add: new_value_recorder_def vr_list_def)
  from has_entry_run [OF this(1,2) assms(1,2) _ assms(4)] this(3) assms(3) obtain t where
    "length is = length calls" and ok: "lookup_ok non_oop obj t (l', r')"
    and e: "\<And>k. k < length calls \<Longrightarrow> has_entry obj l' (obj (snd (calls ! k))) (is ! k)" by auto
  then show ?thesis using has_entry_unique [OF ok] has_entry_at [OF ok] by simp
qed

text \<open>Two objects, at addresses that a collection between the calls exchanges.\<close>

definition demo_obj :: "handle \<Rightarrow> bool" where
  "demo_obj h = odd h"

definition demo_heap :: "nat \<Rightarrow> bool heap_at" where
  "demo_heap n = \<lparr>ha_collections = n, ha_addr = (\<lambda>x. if x = even n then 16 else 32),
     ha_make_local = (\<lambda>a. if (a = 16) = even n then 101 else 102)\<rparr>"

theorem object_lookup_deduplicates_witness:
  "\<exists>is l' r'. lookup_run 0 demo_obj (new_object_lookup 0, new_oop_recorder False) [(demo_heap 0, 3), (demo_heap 0, 4), (demo_heap 1, 5), (demo_heap 1, 6)] = (is, l', r') \<and>
    is ! 0 = is ! 2 \<and> is ! 1 = is ! 3 \<and> is ! 0 \<noteq> is ! 1"
proof -
  let ?calls = "[(demo_heap 0, 3), (demo_heap 0, 4), (demo_heap 1, 5), (demo_heap 1, 6)]"
  have ok: "heap_ok 0 demo_obj (demo_heap n)" for n
    by (auto simp: heap_ok_def demo_heap_def demo_obj_def is_real_def inj_def)
  have h: "heaps_ok 0 demo_obj (demo_heap 0) ?calls" by (simp add: ok heap_moves_def) (simp add: demo_heap_def)
  obtain "is" l' r' where run: "lookup_run 0 demo_obj (new_object_lookup (ha_collections (demo_heap 0)), new_oop_recorder False) ?calls = (is, l', r')"
    using prod_cases3 by blast
  have "ha_collections (demo_heap 0) = 0" by (simp add: demo_heap_def)
  moreover have "\<forall>j < length ?calls. \<forall>k < length ?calls. is ! j = is ! k \<longleftrightarrow> demo_obj (snd (?calls ! j)) = demo_obj (snd (?calls ! k))"
    using object_lookup_deduplicates [OF h _ _ run] by simp
  then have "is ! 0 = is ! 2" "is ! 1 = is ! 3" "is ! 0 \<noteq> is ! 1"
    by (auto simp: demo_obj_def dest: spec [of _ 0] spec [of _ 1])
  ultimately show ?thesis using run by auto
qed

end
