(* ===== verification/Location.thy ===== *)
theory Location
  imports CompressedStream_Correct
begin

text \<open>
  \<open>Location\<close> (\<open>src/src/share/vm/code/location.hpp\<close>, \<open>location.cpp\<close>): where compiled code keeps a
  variable, packed into 32 bits, and its form in the debugging information.
\<close>

datatype loc_where = On_stack | In_register

datatype loc_type = Loc_invalid | Loc_normal | Loc_oop | Loc_int_in_long | Loc_lng | Loc_float_in_dbl | Loc_dbl
  | Loc_addr | Loc_narrowoop

fun where_code :: "loc_where \<Rightarrow> jint" where
  "where_code On_stack = 0"
| "where_code In_register = 1"

fun type_code :: "loc_type \<Rightarrow> jint" where
  "type_code Loc_invalid = 0"
| "type_code Loc_normal = 1"
| "type_code Loc_oop = 2"
| "type_code Loc_int_in_long = 3"
| "type_code Loc_lng = 4"
| "type_code Loc_float_in_dbl = 5"
| "type_code Loc_dbl = 6"
| "type_code Loc_addr = 7"
| "type_code Loc_narrowoop = 8"

text \<open>The casts from \<open>juint\<close> to the enumerations; \<open>None\<close> is a number that is no enumerator.\<close>

definition to_where :: "jint \<Rightarrow> loc_where option" where
  "to_where v = (if v = 0 then Some On_stack else if v = 1 then Some In_register else None)"

definition to_type :: "jint \<Rightarrow> loc_type option" where
  "to_type v = find (\<lambda>t. type_code t = v)
     [Loc_invalid, Loc_normal, Loc_oop, Loc_int_in_long, Loc_lng, Loc_float_in_dbl, Loc_dbl, Loc_addr, Loc_narrowoop]"

type_synonym location = jint

definition TYPE_MASK :: jint where "TYPE_MASK = 0x0F"

definition WHERE_MASK :: jint where "WHERE_MASK = 0x10"

definition OFFSET_MASK :: jint where "OFFSET_MASK = 0xFFFFFFE0"

definition WHERE_SHIFT :: nat where "WHERE_SHIFT = 4"

definition OFFSET_SHIFT :: nat where "OFFSET_SHIFT = 5"

lemmas location_defs = TYPE_MASK_def WHERE_MASK_def OFFSET_MASK_def WHERE_SHIFT_def OFFSET_SHIFT_def

definition new_location :: "loc_where \<Rightarrow> loc_type \<Rightarrow> jint \<Rightarrow> location" where
  "new_location whr ty offs =
     push_bit WHERE_SHIFT (where_code whr) OR type_code ty OR (push_bit OFFSET_SHIFT offs AND OFFSET_MASK)"

definition new_stk_loc :: "loc_type \<Rightarrow> jint \<Rightarrow> location" where
  "new_stk_loc t offset = new_location On_stack t (signed_drop_bit 2 offset)"

definition new_reg_loc :: "loc_type \<Rightarrow> jint \<Rightarrow> location" where
  "new_reg_loc t reg = new_location In_register t reg"

definition empty_location :: location where
  "empty_location = new_location On_stack Loc_invalid 0"

definition location_where :: "location \<Rightarrow> loc_where option" where
  "location_where l = to_where (drop_bit WHERE_SHIFT (l AND WHERE_MASK))"

definition location_type :: "location \<Rightarrow> loc_type option" where
  "location_type l = to_type (l AND TYPE_MASK)"

definition location_offset :: "location \<Rightarrow> jint" where
  "location_offset l = drop_bit OFFSET_SHIFT (l AND OFFSET_MASK)"

definition is_register :: "location \<Rightarrow> bool" where
  "is_register l = (location_where l = Some In_register)"

definition is_stack :: "location \<Rightarrow> bool" where
  "is_stack l = (location_where l = Some On_stack)"

definition stack_offset :: "location \<Rightarrow> jint" where
  "stack_offset l = push_bit 2 (location_offset l)"

definition register_number :: "location \<Rightarrow> jint" where
  "register_number l = location_offset l"

text \<open>\<open>%\<close> and \<open>/\<close> are those of C: the quotient of a multiple is exact.\<close>

definition legal_offset_in_bytes :: "jint \<Rightarrow> bool" where
  "legal_offset_in_bytes offset_in_bytes =
     (if sint offset_in_bytes mod 4 \<noteq> 0 then False
      else (word_of_int (sint offset_in_bytes div 4) :: jint) < drop_bit OFFSET_SHIFT OFFSET_MASK)"

definition location_write_on :: "write_stream \<Rightarrow> location \<Rightarrow> write_stream option" where
  "location_write_on s l = write_int s l"

definition read_location :: "read_stream \<Rightarrow> (location \<times> read_stream) option" where
  "read_location r = read_int r"

interpretation location_codec: stream_codec location_write_on read_location enc_int
  using int_codec.stream_codec_axioms by (simp add: location_write_on_def [abs_def] read_location_def [abs_def])

section \<open>The fields\<close>

lemma bit_where: "bit (where_code a) n \<longleftrightarrow> n = 0 \<and> a = In_register"
  by (cases a) (auto simp: bit_1_iff)

lemma bit_type: "bit (type_code t) n \<Longrightarrow> n < 4"
proof -
  assume b: "bit (type_code t) n"
  have "type_code t = take_bit 4 (type_code t)" by (cases t) (simp_all add: take_bit_eq_mod)
  then have "bit (take_bit 4 (type_code t)) n" using b by simp
  then show "n < 4" by (simp add: bit_take_bit_iff)
qed

lemma bit_offset_mask: "bit OFFSET_MASK n \<longleftrightarrow> 5 \<le> n \<and> n < 32"
proof -
  have m: "OFFSET_MASK = NOT (mask 5)" by (simp add: OFFSET_MASK_def mask_eq_exp_minus_1)
  show ?thesis unfolding m bit_not_iff bit_mask_iff by auto
qed

lemma bit_new_location:
  "n < 32 \<Longrightarrow> bit (new_location whr ty offs) n =
     (if n < 4 then bit (type_code ty) n else if n = 4 then whr = In_register else bit offs (n - 5))"
  unfolding new_location_def bit_or_iff bit_and_iff bit_push_bit_iff bit_offset_mask bit_where WHERE_SHIFT_def OFFSET_SHIFT_def
  using bit_type [of ty n] by auto

lemma to_where_code: "to_where (where_code whr) = Some whr"
  by (cases whr) (simp_all add: to_where_def)

lemma to_type_code: "to_type (type_code ty) = Some ty"
  by (cases ty) (simp_all add: to_type_def)

lemma location_where_new: "location_where (new_location whr ty offs) = Some whr"
proof -
  have m: "bit WHERE_MASK n \<longleftrightarrow> n = 4" for n
  proof -
    have m: "WHERE_MASK = push_bit 4 1" by (simp add: WHERE_MASK_def)
    show ?thesis unfolding m bit_push_bit_iff bit_1_iff by auto
  qed
  have "drop_bit WHERE_SHIFT (new_location whr ty offs AND WHERE_MASK) = where_code whr"
    by (rule bit_word_eqI) (auto simp: bit_drop_bit_eq bit_and_iff m bit_new_location bit_where WHERE_SHIFT_def)
  then show ?thesis by (simp add: location_where_def to_where_code)
qed

lemma location_type_new: "location_type (new_location whr ty offs) = Some ty"
proof -
  have m: "TYPE_MASK = mask 4" by (simp add: TYPE_MASK_def mask_eq_exp_minus_1)
  have "new_location whr ty offs AND TYPE_MASK = type_code ty"
    by (rule bit_word_eqI) (auto simp: bit_and_iff m bit_mask_iff bit_new_location dest: bit_type)
  then show ?thesis by (simp add: location_type_def to_type_code)
qed

lemma location_offset_new: "unat offs < 2 ^ 27 \<Longrightarrow> location_offset (new_location whr ty offs) = offs"
proof -
  assume "unat offs < 2 ^ 27"
  then have "take_bit 27 offs = offs"
    by (metis take_bit_nat_eq_self unsigned_take_bit_eq word_unat_eq_iff)
  then have high: "\<not> bit offs n" if "27 \<le> n" for n using that bit_take_bit_iff [of 27 offs n] by simp
  show ?thesis
  proof (rule bit_word_eqI)
    fix n assume n: "n < LENGTH(32)"
    show "bit (location_offset (new_location whr ty offs)) n = bit offs n"
    proof (cases "n < 27")
      case True
      then show ?thesis
        by (simp add: location_offset_def bit_drop_bit_eq bit_and_iff bit_offset_mask bit_new_location OFFSET_SHIFT_def)
    next
      case False
      then show ?thesis using high [of n]
        by (simp add: location_offset_def bit_drop_bit_eq bit_and_iff bit_offset_mask OFFSET_SHIFT_def)
    qed
  qed
qed

lemma legal_stack_offset:
  assumes "legal_offset_in_bytes b"
  shows "unat (signed_drop_bit 2 b) < 2 ^ 27" and "push_bit 2 (signed_drop_bit 2 b) = b"
proof -
  define k where "k = sint b div 4"
  have m: "sint b = 4 * k" using assms by (auto simp: legal_offset_in_bytes_def k_def split: if_split_asm)
  have k: "sint (signed_drop_bit 2 b) = k" by (simp add: sint_signed_drop_bit_eq drop_bit_eq_div k_def)
  have "signed_drop_bit 2 b = word_of_int (sint (signed_drop_bit 2 b))" by simp
  then have w: "signed_drop_bit 2 b = word_of_int k" unfolding k .
  have "push_bit 2 (signed_drop_bit 2 b) = word_of_int (4 * k)" unfolding w push_bit_eq_mult by simp
  then show "push_bit 2 (signed_drop_bit 2 b) = b" unfolding m [symmetric] by simp
  have "(word_of_int k :: jint) < 0x07FFFFFF"
    using assms by (simp add: legal_offset_in_bytes_def k_def location_defs split: if_split_asm)
  then have "signed_drop_bit 2 b < 0x07FFFFFF" unfolding w .
  then show "unat (signed_drop_bit 2 b) < 2 ^ 27" by (simp add: word_less_nat_alt)
qed

section \<open>Theorem\<close>

text \<open>
  C40: the fields of a location do not overlap: type, place and an offset below 2^27 are read back
  from the packed value, also after it went through a debugging information stream; and an
  offset in bytes that legal_offset_in_bytes accepts is returned by stack_offset.
\<close>

theorem location_fields:
  assumes "unat offs < 2 ^ 27" and "cw_ok s"
  shows "\<exists>s' l. location_write_on s (new_location whr ty offs) = Some s' \<and>
    read_location \<lparr>cr_buffer = cw_buffer s', cr_position = cw_position s\<rparr> =
      Some (l, \<lparr>cr_buffer = cw_buffer s', cr_position = cw_position s'\<rparr>) \<and>
    location_where l = Some whr \<and> location_type l = Some ty \<and> location_offset l = offs \<and>
    (legal_offset_in_bytes b \<longrightarrow> is_stack (new_stk_loc ty b) \<and> location_type (new_stk_loc ty b) = Some ty \<and>
       stack_offset (new_stk_loc ty b) = b)"
proof -
  let ?l = "new_location whr ty offs"
  obtain s' where s': "location_write_on s ?l = Some s'" using location_codec.write_appends [OF assms(2), of ?l] by blast
  have "is_stack (new_stk_loc ty b) \<and> location_type (new_stk_loc ty b) = Some ty \<and> stack_offset (new_stk_loc ty b) = b"
    if "legal_offset_in_bytes b"
    using legal_stack_offset [OF that] location_offset_new
    by (simp add: is_stack_def new_stk_loc_def location_where_new location_type_new stack_offset_def)
  then show ?thesis
    using s' location_codec.codec_roundtrip [OF assms(2) s'] location_where_new location_type_new location_offset_new [OF assms(1)] by blast
qed

theorem location_fields_witness:
  "\<exists>s' l. location_write_on (new_write_stream 1) (new_location In_register Loc_oop 1000) = Some s' \<and>
    read_location \<lparr>cr_buffer = cw_buffer s', cr_position = cw_position (new_write_stream 1)\<rparr> =
      Some (l, \<lparr>cr_buffer = cw_buffer s', cr_position = cw_position s'\<rparr>) \<and>
    location_where l = Some In_register \<and> location_type l = Some Loc_oop \<and> location_offset l = 1000 \<and>
    (legal_offset_in_bytes 16 \<longrightarrow> is_stack (new_stk_loc Loc_oop 16) \<and> location_type (new_stk_loc Loc_oop 16) = Some Loc_oop \<and>
       stack_offset (new_stk_loc Loc_oop 16) = 16)"
  by (rule location_fields) (simp_all add: cw_ok_def new_write_stream_def)

end
