(* ===== verification/DebugInfo.thy ===== *)
theory DebugInfo
  imports Location OopRecorder
begin

text \<open>
  The debugging information of compiled code (\<open>src/src/share/vm/code/debugInfo.hpp\<close>, \<open>debugInfo.cpp\<close>):
  the values of the variables of a scope, written to and read from a compressed stream.
  An \<open>ObjectValue\<close> describes an object that escape analysis removed; its fields may refer to other
  such objects and to itself.  The objects live in a list, and a pointer to one is its index.
  The virtual calls of \<open>write_on\<close> and \<open>read_from\<close> go through a parameter of the definitions that use
  them; the fuel of \<open>write_on\<close> and \<open>read_from\<close> bounds the nesting of objects.
\<close>

section \<open>Scope values\<close>

type_synonym oop = "64 word"

datatype scope_value =
    LocationValue location
  | MarkerValue
  | ObjectValue nat
  | ConstantIntValue jint
  | ConstantLongValue jlong
  | ConstantDoubleValue jlong
  | ConstantOopWriteValue handle
  | ConstantOopReadValue oop

record object_value =
  ov_id :: jint
  ov_auto_box :: bool
  ov_klass :: "scope_value option"
  ov_base_object :: "scope_value option"
  ov_field_values :: "scope_value list"
  ov_visited :: bool

definition new_object_value :: "jint \<Rightarrow> bool \<Rightarrow> object_value" where
  "new_object_value oid is_auto_box =
     \<lparr>ov_id = oid, ov_auto_box = is_auto_box, ov_klass = None, ov_base_object = None, ov_field_values = [], ov_visited = False\<rparr>"

text \<open>\<open>set_visited\<close> ignores its argument.\<close>

definition set_visited :: "object_value \<Rightarrow> bool \<Rightarrow> object_value" where
  "set_visited ov visited = ov\<lparr>ov_visited := False\<rparr>"

record monitor_value =
  mv_owner :: scope_value
  mv_basic_lock :: location
  mv_eliminated :: bool

section \<open>Codes\<close>

definition LOCATION_CODE :: jint where "LOCATION_CODE = 0"
definition CONSTANT_INT_CODE :: jint where "CONSTANT_INT_CODE = 1"
definition CONSTANT_OOP_CODE :: jint where "CONSTANT_OOP_CODE = 2"
definition CONSTANT_LONG_CODE :: jint where "CONSTANT_LONG_CODE = 3"
definition CONSTANT_DOUBLE_CODE :: jint where "CONSTANT_DOUBLE_CODE = 4"
definition OBJECT_CODE :: jint where "OBJECT_CODE = 5"
definition OBJECT_ID_CODE :: jint where "OBJECT_ID_CODE = 6"
definition AUTO_BOX_OBJECT_CODE :: jint where "AUTO_BOX_OBJECT_CODE = 7"
definition MARKER_CODE :: jint where "MARKER_CODE = 8"

lemmas scope_codes = LOCATION_CODE_def CONSTANT_INT_CODE_def CONSTANT_OOP_CODE_def CONSTANT_LONG_CODE_def
  CONSTANT_DOUBLE_CODE_def OBJECT_CODE_def OBJECT_ID_CODE_def AUTO_BOX_OBJECT_CODE_def MARKER_CODE_def

definition InvocationEntryBci :: jint where "InvocationEntryBci = - 1"

section \<open>Writing\<close>

text \<open>The writer: the stream, the objects and the recorder of the handles.\<close>

record debug_writer =
  dw_stream :: write_stream
  dw_objects :: "object_value list"
  dw_recorder :: oop_recorder

definition new_debug_writer :: "nat \<Rightarrow> object_value list \<Rightarrow> oop_recorder \<Rightarrow> debug_writer" where
  "new_debug_writer initial_size objs rec = \<lparr>dw_stream = new_write_stream initial_size, dw_objects = objs, dw_recorder = rec\<rparr>"

definition put_with :: "(write_stream \<Rightarrow> 'a \<Rightarrow> write_stream option) \<Rightarrow> debug_writer \<Rightarrow> 'a \<Rightarrow> debug_writer option" where
  "put_with wr w x = map_option (\<lambda>s. w\<lparr>dw_stream := s\<rparr>) (wr (dw_stream w) x)"

definition write_handle :: "handle \<Rightarrow> debug_writer \<Rightarrow> handle \<Rightarrow> debug_writer option" where
  "write_handle non_oop w h =
     do { (i, r) \<leftarrow> find_oop_index non_oop (dw_recorder w) h;
          put_with write_int (w\<lparr>dw_recorder := r\<rparr>) (of_nat i) }"

definition write_metadata :: "handle \<Rightarrow> debug_writer \<Rightarrow> handle \<Rightarrow> debug_writer option" where
  "write_metadata non_oop w h =
     do { (i, r) \<leftarrow> find_metadata_index non_oop (dw_recorder w) h;
          put_with write_int (w\<lparr>dw_recorder := r\<rparr>) (of_nat i) }"

definition write_bci :: "debug_writer \<Rightarrow> jint \<Rightarrow> debug_writer option" where
  "write_bci w bci = put_with write_int w (bci - InvocationEntryBci)"

fun write_values :: "(debug_writer \<Rightarrow> scope_value \<Rightarrow> debug_writer option) \<Rightarrow> debug_writer \<Rightarrow> scope_value list \<Rightarrow> debug_writer option" where
  "write_values wr w [] = Some w"
| "write_values wr w (v # vs) = do { w1 \<leftarrow> wr w v; write_values wr w1 vs }"

definition object_write_on :: "(debug_writer \<Rightarrow> scope_value \<Rightarrow> debug_writer option) \<Rightarrow> debug_writer \<Rightarrow> nat \<Rightarrow> debug_writer option" where
  "object_write_on wr w a =
     (if a < length (dw_objects w) then
        (let ov = dw_objects w ! a in
         if ov_visited ov then
           do { w1 \<leftarrow> put_with write_int w OBJECT_ID_CODE; put_with write_int w1 (ov_id ov) }
         else
           do { w1 \<leftarrow> put_with write_int (w\<lparr>dw_objects := (dw_objects w)[a := ov\<lparr>ov_visited := True\<rparr>]\<rparr>)
                       (if ov_auto_box ov then AUTO_BOX_OBJECT_CODE else OBJECT_CODE);
                w2 \<leftarrow> put_with write_int w1 (ov_id ov);
                klass \<leftarrow> ov_klass ov;
                w3 \<leftarrow> wr w2 klass;
                base \<leftarrow> ov_base_object ov;
                w4 \<leftarrow> wr w3 base;
                w5 \<leftarrow> put_with write_int w4 (of_nat (length (ov_field_values ov)));
                write_values wr w5 (ov_field_values ov) })
      else None)"

text \<open>\<open>write_on\<close> of the values that are not objects.\<close>

definition location_value_write_on :: "debug_writer \<Rightarrow> location \<Rightarrow> debug_writer option" where
  "location_value_write_on w l = do { w1 \<leftarrow> put_with write_int w LOCATION_CODE; put_with location_write_on w1 l }"

definition marker_value_write_on :: "debug_writer \<Rightarrow> debug_writer option" where
  "marker_value_write_on w = put_with write_int w MARKER_CODE"

definition constant_int_write_on :: "debug_writer \<Rightarrow> jint \<Rightarrow> debug_writer option" where
  "constant_int_write_on w i = do { w1 \<leftarrow> put_with write_int w CONSTANT_INT_CODE; put_with write_signed_int w1 i }"

definition constant_long_write_on :: "debug_writer \<Rightarrow> jlong \<Rightarrow> debug_writer option" where
  "constant_long_write_on w i = do { w1 \<leftarrow> put_with write_int w CONSTANT_LONG_CODE; put_with write_long w1 i }"

definition constant_double_write_on :: "debug_writer \<Rightarrow> jlong \<Rightarrow> debug_writer option" where
  "constant_double_write_on w d = do { w1 \<leftarrow> put_with write_int w CONSTANT_DOUBLE_CODE; put_with write_double w1 d }"

definition constant_oop_write_on :: "handle \<Rightarrow> debug_writer \<Rightarrow> handle \<Rightarrow> debug_writer option" where
  "constant_oop_write_on non_oop w h = do { w1 \<leftarrow> put_with write_int w CONSTANT_OOP_CODE; write_handle non_oop w1 h }"

lemmas value_write_defs = location_value_write_on_def marker_value_write_on_def constant_int_write_on_def
  constant_long_write_on_def constant_double_write_on_def constant_oop_write_on_def

text \<open>The virtual call \<open>ScopeValue::write_on\<close>; a \<open>ConstantOopReadValue\<close> is never written.\<close>

primrec write_on :: "nat \<Rightarrow> handle \<Rightarrow> debug_writer \<Rightarrow> scope_value \<Rightarrow> debug_writer option" where
  "write_on 0 non_oop w v = None"
| "write_on (Suc fuel) non_oop w v =
     (case v of
        LocationValue l \<Rightarrow> location_value_write_on w l
      | MarkerValue \<Rightarrow> marker_value_write_on w
      | ObjectValue a \<Rightarrow> object_write_on (write_on fuel non_oop) w a
      | ConstantIntValue i \<Rightarrow> constant_int_write_on w i
      | ConstantLongValue i \<Rightarrow> constant_long_write_on w i
      | ConstantDoubleValue d \<Rightarrow> constant_double_write_on w d
      | ConstantOopWriteValue h \<Rightarrow> constant_oop_write_on non_oop w h
      | ConstantOopReadValue x \<Rightarrow> None)"

definition monitor_write_on :: "nat \<Rightarrow> handle \<Rightarrow> debug_writer \<Rightarrow> monitor_value \<Rightarrow> debug_writer option" where
  "monitor_write_on fuel non_oop w m =
     do { w1 \<leftarrow> put_with location_write_on w (mv_basic_lock m);
          w2 \<leftarrow> write_on fuel non_oop w1 (mv_owner m);
          put_with write_bool w2 (if mv_eliminated m then 1 else 0) }"

section \<open>Reading\<close>

text \<open>
  The reader: the stream and the pool of the objects read so far.  The tables of the compiled
  method are those of the recorder with every handle resolved.
\<close>

record debug_reader =
  dr_stream :: read_stream
  dr_pool :: "object_value list"

record nmethod_tables =
  nm_oops :: "oop list"
  nm_metadata :: "handle list"

text \<open>\<open>resolve\<close> is \<open>JNIHandles::resolve_non_null\<close>, whose value depends on the heap.\<close>

definition initialize_immediate_oop :: "handle \<Rightarrow> (handle \<Rightarrow> oop) \<Rightarrow> handle \<Rightarrow> oop" where
  "initialize_immediate_oop non_oop resolve h = (if h = 0 \<or> h = non_oop then h else resolve h)"

text \<open>
  \<open>nmethod::copy_values\<close> for the oops and for the metadata: the contents of the table.  The first also
  patches the instructions (\<open>fix_oop_relocations\<close>), which are not part of the tables.
\<close>

definition copy_oop_values :: "handle \<Rightarrow> (handle \<Rightarrow> oop) \<Rightarrow> handle list \<Rightarrow> oop list" where
  "copy_oop_values non_oop resolve array = map (initialize_immediate_oop non_oop resolve) array"

definition copy_metadata_values :: "handle list \<Rightarrow> handle list" where
  "copy_metadata_values array = map (\<lambda>i. array ! i) [0..<length array]"

definition vr_copy_values_to :: "value_recorder \<Rightarrow> handle list" where
  "vr_copy_values_to r = the (vr_handles (maybe_initialize r))"

definition copy_values_to :: "handle \<Rightarrow> (handle \<Rightarrow> oop) \<Rightarrow> oop_recorder \<Rightarrow> nmethod_tables" where
  "copy_values_to non_oop resolve r =
     \<lparr>nm_oops = (if \<not> vr_is_unused (or_oops r)
                 then copy_oop_values non_oop resolve (vr_copy_values_to (or_oops r)) else []),
      nm_metadata = (if \<not> vr_is_unused (or_metadata r)
                     then copy_metadata_values (vr_copy_values_to (or_metadata r)) else [])\<rparr>"

definition oop_at :: "nmethod_tables \<Rightarrow> jint \<Rightarrow> oop option" where
  "oop_at code index =
     (if index = 0 then Some 0
      else if 0 < sint index \<and> sint index \<le> int (length (nm_oops code)) then Some (nm_oops code ! nat (sint index - 1)) else None)"

definition metadata_at :: "nmethod_tables \<Rightarrow> jint \<Rightarrow> handle option" where
  "metadata_at code index =
     (if index = 0 then Some 0
      else if 0 < sint index \<and> sint index \<le> int (length (nm_metadata code)) then Some (nm_metadata code ! nat (sint index - 1)) else None)"

definition get_with :: "(read_stream \<Rightarrow> ('a \<times> read_stream) option) \<Rightarrow> debug_reader \<Rightarrow> ('a \<times> debug_reader) option" where
  "get_with rd r = map_option (\<lambda>(x, s). (x, r\<lparr>dr_stream := s\<rparr>)) (rd (dr_stream r))"

definition read_oop :: "nmethod_tables \<Rightarrow> debug_reader \<Rightarrow> (oop \<times> debug_reader) option" where
  "read_oop code r = do { (i, r1) \<leftarrow> get_with read_int r; x \<leftarrow> oop_at code i; Some (x, r1) }"

definition read_method :: "nmethod_tables \<Rightarrow> debug_reader \<Rightarrow> (handle \<times> debug_reader) option" where
  "read_method code r = do { (i, r1) \<leftarrow> get_with read_int r; x \<leftarrow> metadata_at code i; Some (x, r1) }"

definition read_bci :: "debug_reader \<Rightarrow> (jint \<times> debug_reader) option" where
  "read_bci r = do { (i, r1) \<leftarrow> get_with read_int r; Some (i + InvocationEntryBci, r1) }"

text \<open>The loop of \<open>read_object\<close> that appends \<open>n\<close> field values to the object at index \<open>a\<close>.\<close>

fun read_fields :: "(debug_reader \<Rightarrow> (scope_value \<times> debug_reader) option) \<Rightarrow> nat \<Rightarrow> nat \<Rightarrow> debug_reader \<Rightarrow> debug_reader option" where
  "read_fields rd a 0 r = Some r"
| "read_fields rd a (Suc n) r =
     do { (v, r1) \<leftarrow> rd r;
          read_fields rd a n
            (r1\<lparr>dr_pool := (dr_pool r1)[a := (dr_pool r1 ! a)\<lparr>ov_field_values := ov_field_values (dr_pool r1 ! a) @ [v]\<rparr>]\<rparr>) }"

definition read_object :: "(debug_reader \<Rightarrow> (scope_value \<times> debug_reader) option) \<Rightarrow> nat \<Rightarrow> debug_reader \<Rightarrow> debug_reader option" where
  "read_object rd a r =
     do { (klass, r1) \<leftarrow> rd r;
          let r1 = r1\<lparr>dr_pool := (dr_pool r1)[a := (dr_pool r1 ! a)\<lparr>ov_klass := Some klass\<rparr>]\<rparr>;
          (base, r2) \<leftarrow> rd r1;
          let r2 = r2\<lparr>dr_pool := (dr_pool r2)[a := (dr_pool r2 ! a)\<lparr>ov_base_object := Some base\<rparr>]\<rparr>;
          (len, r3) \<leftarrow> get_with read_int r2;
          read_fields rd a (nat (sint len)) r3 }"

definition read_object_value :: "(debug_reader \<Rightarrow> (scope_value \<times> debug_reader) option) \<Rightarrow> bool \<Rightarrow> debug_reader \<Rightarrow>
    (scope_value \<times> debug_reader) option" where
  "read_object_value rd is_auto_box r =
     do { (oid, r1) \<leftarrow> get_with read_int r;
          let a = length (dr_pool r1);
          r2 \<leftarrow> read_object rd a (r1\<lparr>dr_pool := dr_pool r1 @ [new_object_value oid is_auto_box]\<rparr>);
          Some (ObjectValue a, r2) }"

fun find_in_pool :: "object_value list \<Rightarrow> jint \<Rightarrow> nat \<Rightarrow> nat option" where
  "find_in_pool pool oid 0 = None"
| "find_in_pool pool oid (Suc i) = (if ov_id (pool ! i) = oid then Some i else find_in_pool pool oid i)"

definition get_cached_object :: "debug_reader \<Rightarrow> (scope_value \<times> debug_reader) option" where
  "get_cached_object r =
     do { (oid, r1) \<leftarrow> get_with read_int r;
          a \<leftarrow> find_in_pool (dr_pool r1) oid (length (dr_pool r1));
          Some (ObjectValue a, r1) }"

text \<open>The constructors of the values that are not objects from a stream.\<close>

definition read_location_value :: "debug_reader \<Rightarrow> (scope_value \<times> debug_reader) option" where
  "read_location_value r = do { (l, r1) \<leftarrow> get_with read_location r; Some (LocationValue l, r1) }"

definition read_constant_int :: "debug_reader \<Rightarrow> (scope_value \<times> debug_reader) option" where
  "read_constant_int r = do { (i, r1) \<leftarrow> get_with read_signed_int r; Some (ConstantIntValue i, r1) }"

definition read_constant_long :: "debug_reader \<Rightarrow> (scope_value \<times> debug_reader) option" where
  "read_constant_long r = do { (i, r1) \<leftarrow> get_with read_long r; Some (ConstantLongValue i, r1) }"

definition read_constant_double :: "debug_reader \<Rightarrow> (scope_value \<times> debug_reader) option" where
  "read_constant_double r = do { (d, r1) \<leftarrow> get_with read_double r; Some (ConstantDoubleValue d, r1) }"

definition read_constant_oop :: "nmethod_tables \<Rightarrow> debug_reader \<Rightarrow> (scope_value \<times> debug_reader) option" where
  "read_constant_oop code r = do { (x, r1) \<leftarrow> read_oop code r; Some (ConstantOopReadValue x, r1) }"

lemmas value_read_defs = read_location_value_def read_constant_int_def read_constant_long_def
  read_constant_double_def read_constant_oop_def

primrec read_from :: "nat \<Rightarrow> nmethod_tables \<Rightarrow> debug_reader \<Rightarrow> (scope_value \<times> debug_reader) option" where
  "read_from 0 code r = None"
| "read_from (Suc fuel) code r =
     do { (c, r1) \<leftarrow> get_with read_int r;
          if c = LOCATION_CODE then read_location_value r1
          else if c = CONSTANT_INT_CODE then read_constant_int r1
          else if c = CONSTANT_OOP_CODE then read_constant_oop code r1
          else if c = CONSTANT_LONG_CODE then read_constant_long r1
          else if c = CONSTANT_DOUBLE_CODE then read_constant_double r1
          else if c = OBJECT_CODE then read_object_value (read_from fuel code) False r1
          else if c = AUTO_BOX_OBJECT_CODE then read_object_value (read_from fuel code) True r1
          else if c = OBJECT_ID_CODE then get_cached_object r1
          else if c = MARKER_CODE then Some (MarkerValue, r1)
          else None }"

definition read_monitor :: "nat \<Rightarrow> nmethod_tables \<Rightarrow> debug_reader \<Rightarrow> (monitor_value \<times> debug_reader) option" where
  "read_monitor fuel code r =
     do { (lock, r1) \<leftarrow> get_with read_location r;
          (owner, r2) \<leftarrow> read_from fuel code r1;
          (b, r3) \<leftarrow> get_with read_bool r2;
          Some (\<lparr>mv_owner = owner, mv_basic_lock = lock, mv_eliminated = (b \<noteq> 0)\<rparr>, r3) }"

text \<open>The loop of \<open>ScopeDesc::decode_scope_values\<close>.\<close>

fun read_values :: "(debug_reader \<Rightarrow> (scope_value \<times> debug_reader) option) \<Rightarrow> nat \<Rightarrow> debug_reader \<Rightarrow>
    (scope_value list \<times> debug_reader) option" where
  "read_values rd 0 r = Some ([], r)"
| "read_values rd (Suc n) r = do { (v, r1) \<leftarrow> rd r; (vs, r2) \<leftarrow> read_values rd n r1; Some (v # vs, r2) }"

end
