(* ===== verification/DebugInfoRec.thy ===== *)
theory DebugInfoRec
  imports DebugInfo GrowableArray
begin

text \<open>
  \<open>DebugInformationRecorder\<close> (\<open>src/src/share/vm/code/debugInfoRec.hpp\<close>, \<open>debugInfoRec.cpp\<close>) and \<open>PcDesc\<close>
  (\<open>pcDesc.hpp\<close>, \<open>pcDesc.cpp\<close>): the compiler describes the scopes of each safepoint, and the recorder
  writes them to one stream, sharing equal pieces, and keeps a table that maps offsets of instructions
  to positions in the stream.  A position in the stream is a \<open>nat\<close>, an offset of an instruction an
  \<open>int\<close>.  The flags of the virtual machine are parameters.
\<close>

section \<open>Descriptors of instructions\<close>

record pc_desc =
  pd_pc_offset :: int
  pd_scope_decode_offset :: nat
  pd_obj_decode_offset :: nat
  pd_flags :: jint

definition PCDESC_reexecute :: jint where "PCDESC_reexecute = push_bit 0 1"
definition PCDESC_is_method_handle_invoke :: jint where "PCDESC_is_method_handle_invoke = push_bit 1 1"
definition PCDESC_return_oop :: jint where "PCDESC_return_oop = push_bit 2 1"
definition PCDESC_rethrow_exception :: jint where "PCDESC_rethrow_exception = push_bit 3 1"

lemmas pcdesc_flags = PCDESC_reexecute_def PCDESC_is_method_handle_invoke_def PCDESC_return_oop_def PCDESC_rethrow_exception_def

definition lower_offset_limit :: int where "lower_offset_limit = - 1"
definition upper_offset_limit :: int where "upper_offset_limit = 2147483647"

definition new_pc_desc :: "int \<Rightarrow> nat \<Rightarrow> nat \<Rightarrow> pc_desc" where
  "new_pc_desc pc_offset scope_decode_offset obj_decode_offset =
     \<lparr>pd_pc_offset = pc_offset, pd_scope_decode_offset = scope_decode_offset, pd_obj_decode_offset = obj_decode_offset, pd_flags = 0\<rparr>"

definition set_flag :: "jint \<Rightarrow> bool \<Rightarrow> pc_desc \<Rightarrow> pc_desc" where
  "set_flag m z pd = pd\<lparr>pd_flags := (if z then pd_flags pd OR m else pd_flags pd AND NOT m)\<rparr>"

definition pd_rethrow_exception :: "pc_desc \<Rightarrow> bool" where
  "pd_rethrow_exception pd \<longleftrightarrow> pd_flags pd AND PCDESC_rethrow_exception \<noteq> 0"

definition pd_should_reexecute :: "pc_desc \<Rightarrow> bool" where
  "pd_should_reexecute pd \<longleftrightarrow> pd_flags pd AND PCDESC_reexecute \<noteq> 0"

definition pd_is_method_handle_invoke :: "pc_desc \<Rightarrow> bool" where
  "pd_is_method_handle_invoke pd \<longleftrightarrow> pd_flags pd AND PCDESC_is_method_handle_invoke \<noteq> 0"

definition pd_return_oop :: "pc_desc \<Rightarrow> bool" where
  "pd_return_oop pd \<longleftrightarrow> pd_flags pd AND PCDESC_return_oop \<noteq> 0"

definition is_same_info :: "pc_desc \<Rightarrow> pc_desc \<Rightarrow> bool" where
  "is_same_info p q \<longleftrightarrow> pd_scope_decode_offset p = pd_scope_decode_offset q \<and>
     pd_obj_decode_offset p = pd_obj_decode_offset q \<and> pd_flags p = pd_flags q"

section \<open>Chunks of the stream\<close>

record dir_chunk =
  ck_offset :: nat
  ck_length :: nat
  ck_hash :: jint

text \<open>The bytes of a chunk in the buffer, and \<open>memcmp\<close>: the difference of the first bytes that differ.\<close>

definition chunk_bytes :: "u_char list \<Rightarrow> dir_chunk \<Rightarrow> u_char list" where
  "chunk_bytes buf c = take (ck_length c) (drop (ck_offset c) buf)"

fun memcmp :: "u_char list \<Rightarrow> u_char list \<Rightarrow> int" where
  "memcmp (x # xs) (y # ys) = (if x = y then memcmp xs ys else int (unat x) - int (unat y))"
| "memcmp _ _ = 0"

fun chunk_hash :: "u_char list \<Rightarrow> jint \<Rightarrow> jint" where
  "chunk_hash [] h = h"
| "chunk_hash (b # bs) h = chunk_hash bs (h * 127 + ucast b)"

definition new_chunk :: "nat \<Rightarrow> nat \<Rightarrow> u_char list \<Rightarrow> dir_chunk" where
  "new_chunk offset len buf =
     \<lparr>ck_offset = offset, ck_length = len, ck_hash = chunk_hash (take 6 (take len (drop offset buf))) 0\<rparr>"

definition chunk_compare :: "u_char list \<Rightarrow> dir_chunk \<Rightarrow> dir_chunk \<Rightarrow> int" where
  "chunk_compare buf a b =
     (if sint (ck_hash b) > sint (ck_hash a) then 1
      else if sint (ck_hash b) < sint (ck_hash a) then - 1
      else if ck_length b > ck_length a then 1
      else if ck_length b < ck_length a then - 1
      else memcmp (chunk_bytes buf b) (chunk_bytes buf a))"

text \<open>The loop of \<open>find_match\<close> over the chunks below index \<open>i\<close>, the last first.\<close>

fun find_match_loop :: "u_char list \<Rightarrow> dir_chunk \<Rightarrow> dir_chunk list \<Rightarrow> nat \<Rightarrow> nat \<Rightarrow> dir_chunk option" where
  "find_match_loop buf ns arr start_index 0 = None"
| "find_match_loop buf ns arr start_index (Suc i) =
     (if start_index \<le> i then
        (let that = arr ! i in
         if ck_hash ns = ck_hash that \<and> ck_length ns = ck_length that \<and> memcmp (chunk_bytes buf ns) (chunk_bytes buf that) = 0
         then Some that else find_match_loop buf ns arr start_index i)
      else None)"

definition find_match :: "u_char list \<Rightarrow> dir_chunk \<Rightarrow> dir_chunk list \<Rightarrow> nat \<Rightarrow> dir_chunk option" where
  "find_match buf ns arr start_index = find_match_loop buf ns arr start_index (length arr)"

section \<open>The recorder\<close>

text \<open>
  \<open>_recording_state\<close> and the statistics exist in debug builds only; the storage of the chunks
  (\<open>_next_chunk\<close>) is a list.  The oop maps are pairs of an offset and a map, whose contents are not read.
\<close>

record debug_recorder =
  di_recording_non_safepoints :: bool
  di_writer :: debug_writer
  di_all_chunks :: "dir_chunk list"
  di_shared_chunks :: "dir_chunk list"
  di_pcs_size :: nat
  di_pcs :: "pc_desc list"
  di_prev_safepoint_pc :: int
  di_oopmaps :: "(int \<times> handle) list"

record share_flags =
  sf_include_jvmci :: bool
  sf_is_default :: bool
  sf_share_debug_info :: bool

definition serialized_null :: nat where "serialized_null = 0"

definition compute_recording_non_safepoints :: "bool \<Rightarrow> bool \<Rightarrow> bool \<Rightarrow> bool" where
  "compute_recording_non_safepoints should_post_load flag_is_default debug_non_safepoints =
     (if should_post_load \<and> flag_is_default then True else debug_non_safepoints)"

definition add_new_pc_offset :: "debug_recorder \<Rightarrow> int \<Rightarrow> debug_recorder" where
  "add_new_pc_offset d pc_offset =
     (let d1 = (if length (di_pcs d) = di_pcs_size d then d\<lparr>di_pcs_size := di_pcs_size d * 2\<rparr> else d)
      in d1\<lparr>di_pcs := di_pcs d1 @ [new_pc_desc pc_offset serialized_null serialized_null]\<rparr>)"

definition new_debug_recorder :: "bool \<Rightarrow> oop_recorder \<Rightarrow> debug_recorder option" where
  "new_debug_recorder non_safepoints rec =
     do { w \<leftarrow> put_with write_byte (new_debug_writer 10240 [] rec) 0xFF;
          Some (add_new_pc_offset
            \<lparr>di_recording_non_safepoints = non_safepoints, di_writer = w, di_all_chunks = [], di_shared_chunks = [],
             di_pcs_size = 100, di_pcs = [], di_prev_safepoint_pc = lower_offset_limit, di_oopmaps = []\<rparr> lower_offset_limit) }"

definition di_position :: "debug_recorder \<Rightarrow> nat" where
  "di_position d = cw_position (dw_stream (di_writer d))"

definition di_buffer :: "debug_recorder \<Rightarrow> u_char list" where
  "di_buffer d = cw_buffer (dw_stream (di_writer d))"

definition set_position :: "debug_recorder \<Rightarrow> nat \<Rightarrow> debug_recorder" where
  "set_position d p = d\<lparr>di_writer := (di_writer d)\<lparr>dw_stream := (dw_stream (di_writer d))\<lparr>cw_position := p\<rparr>\<rparr>\<rparr>"

definition add_oopmap :: "debug_recorder \<Rightarrow> int \<Rightarrow> handle \<Rightarrow> debug_recorder" where
  "add_oopmap d pc_offset m = d\<lparr>di_oopmaps := di_oopmaps d @ [(pc_offset, m)]\<rparr>"

definition add_safepoint :: "debug_recorder \<Rightarrow> int \<Rightarrow> handle \<Rightarrow> debug_recorder" where
  "add_safepoint d pc_offset m = add_new_pc_offset (add_oopmap d pc_offset m) pc_offset"

definition add_non_safepoint :: "debug_recorder \<Rightarrow> int \<Rightarrow> debug_recorder" where
  "add_non_safepoint d pc_offset = add_new_pc_offset d pc_offset"

definition last_pc :: "debug_recorder \<Rightarrow> pc_desc option" where
  "last_pc d = (if di_pcs d = [] then None else Some (last (di_pcs d)))"

definition set_last_pc :: "debug_recorder \<Rightarrow> pc_desc \<Rightarrow> debug_recorder" where
  "set_last_pc d pd = d\<lparr>di_pcs := (di_pcs d)[length (di_pcs d) - 1 := pd]\<rparr>"

subsection \<open>Sharing\<close>

definition MAX_RECENT :: nat where "MAX_RECENT = 50"

definition find_sharable_decode_offset :: "share_flags \<Rightarrow> debug_recorder \<Rightarrow> nat \<Rightarrow> nat \<times> debug_recorder" where
  "find_sharable_decode_offset sf d stream_offset =
     (if (if sf_is_default sf then \<not> sf_share_debug_info sf \<and> \<not> di_recording_non_safepoints d else \<not> sf_share_debug_info sf)
      then (serialized_null, d)
      else
        (let buf = di_buffer d; ns = new_chunk stream_offset (di_position d - stream_offset) buf
         in if sf_include_jvmci sf then
              (case find_sorted (chunk_compare buf) ns (di_all_chunks d) of (loc, found) \<Rightarrow>
                 if found then (ck_offset (di_all_chunks d ! loc), d)
                 else (serialized_null, d\<lparr>di_all_chunks := insert_before (di_all_chunks d) loc ns\<rparr>))
            else
              (case find_match buf ns (di_shared_chunks d) 0 of
                 Some ms \<Rightarrow> (ck_offset ms, d)
               | None \<Rightarrow>
                   (case find_match buf ns (di_all_chunks d) (length (di_all_chunks d) - MAX_RECENT) of
                      Some ms \<Rightarrow> (ck_offset ms, d\<lparr>di_shared_chunks := di_shared_chunks d @ [ms]\<rparr>)
                    | None \<Rightarrow> (serialized_null, d\<lparr>di_all_chunks := di_all_chunks d @ [ns]\<rparr>)))))"

text \<open>The end of each serialisation: the new bytes are dropped when they are found elsewhere.\<close>

definition share_bytes :: "share_flags \<Rightarrow> debug_recorder \<Rightarrow> nat \<Rightarrow> nat \<times> debug_recorder" where
  "share_bytes sf d result =
     (case find_sharable_decode_offset sf d result of (shared_result, d1) \<Rightarrow>
        if shared_result \<noteq> serialized_null then (shared_result, set_position d1 result) else (result, d1))"

subsection \<open>Values and monitors\<close>

definition with_writer :: "(debug_writer \<Rightarrow> debug_writer option) \<Rightarrow> debug_recorder \<Rightarrow> debug_recorder option" where
  "with_writer f d = map_option (\<lambda>w. d\<lparr>di_writer := w\<rparr>) (f (di_writer d))"

definition serialize_scope_values :: "nat \<Rightarrow> handle \<Rightarrow> share_flags \<Rightarrow> debug_recorder \<Rightarrow> scope_value list option \<Rightarrow> (nat \<times> debug_recorder) option" where
  "serialize_scope_values fuel non_oop sf d values =
     (case values of
        None \<Rightarrow> Some (serialized_null, d)
      | Some vs \<Rightarrow>
          if vs = [] then Some (serialized_null, d)
          else do { d1 \<leftarrow> with_writer (\<lambda>w. put_with write_int w (of_nat (length vs))) d;
                    d2 \<leftarrow> with_writer (\<lambda>w. write_values (write_on fuel non_oop) w vs) d1;
                    Some (share_bytes sf d2 (di_position d)) })"

fun write_monitors :: "nat \<Rightarrow> handle \<Rightarrow> debug_writer \<Rightarrow> monitor_value list \<Rightarrow> debug_writer option" where
  "write_monitors fuel non_oop w [] = Some w"
| "write_monitors fuel non_oop w (m # ms) = do { w1 \<leftarrow> monitor_write_on fuel non_oop w m; write_monitors fuel non_oop w1 ms }"

definition serialize_monitor_values :: "nat \<Rightarrow> handle \<Rightarrow> share_flags \<Rightarrow> debug_recorder \<Rightarrow> monitor_value list option \<Rightarrow> (nat \<times> debug_recorder) option" where
  "serialize_monitor_values fuel non_oop sf d monitors =
     (case monitors of
        None \<Rightarrow> Some (serialized_null, d)
      | Some ms \<Rightarrow>
          if ms = [] then Some (serialized_null, d)
          else do { d1 \<leftarrow> with_writer (\<lambda>w. put_with write_int w (of_nat (length ms))) d;
                    d2 \<leftarrow> with_writer (\<lambda>w. write_monitors fuel non_oop w ms) d1;
                    Some (share_bytes sf d2 (di_position d)) })"

definition create_scope_values :: "nat \<Rightarrow> handle \<Rightarrow> share_flags \<Rightarrow> debug_recorder \<Rightarrow> scope_value list option \<Rightarrow> (nat \<times> debug_recorder) option" where
  "create_scope_values fuel non_oop sf d values = serialize_scope_values fuel non_oop sf d values"

definition create_monitor_values :: "nat \<Rightarrow> handle \<Rightarrow> share_flags \<Rightarrow> debug_recorder \<Rightarrow> monitor_value list option \<Rightarrow> (nat \<times> debug_recorder) option" where
  "create_monitor_values fuel non_oop sf d monitors = serialize_monitor_values fuel non_oop sf d monitors"

subsection \<open>Scopes\<close>

text \<open>
  The arguments of \<open>describe_scope\<close>.  \<open>ds_method\<close> is \<open>method->constant_encoding()\<close> when there is a
  \<open>ciMethod\<close>, and \<open>ds_methodH\<close> the method of the handle, 0 when it is null.
\<close>

record scope_args =
  ds_methodH :: handle
  ds_method :: "handle option"
  ds_bci :: jint
  ds_reexecute :: bool
  ds_rethrow_exception :: bool
  ds_is_method_handle_invoke :: bool
  ds_return_oop :: bool
  ds_locals :: nat
  ds_expressions :: nat
  ds_monitors :: nat

definition method_enc :: "scope_args \<Rightarrow> handle" where
  "method_enc x = (case ds_method x of Some m \<Rightarrow> m | None \<Rightarrow> ds_methodH x)"

text \<open>The bytes of a scope: its sender, method, bytecode index, locals, expressions and monitors.\<close>

definition write_scope :: "handle \<Rightarrow> nat \<Rightarrow> scope_args \<Rightarrow> debug_writer \<Rightarrow> debug_writer option" where
  "write_scope non_oop sender x w =
     do { w1 \<leftarrow> put_with write_int w (of_nat sender);
          w2 \<leftarrow> write_metadata non_oop w1 (method_enc x);
          w3 \<leftarrow> write_bci w2 (ds_bci x);
          w4 \<leftarrow> put_with write_int w3 (of_nat (ds_locals x));
          w5 \<leftarrow> put_with write_int w4 (of_nat (ds_expressions x));
          put_with write_int w5 (of_nat (ds_monitors x)) }"

definition describe_scope :: "handle \<Rightarrow> share_flags \<Rightarrow> debug_recorder \<Rightarrow> scope_args \<Rightarrow> debug_recorder option" where
  "describe_scope non_oop sf d x =
     do { last_pd \<leftarrow> last_pc d;
          let stream_offset = di_position d;
          let pd = set_flag PCDESC_return_oop (ds_return_oop x)
                    (set_flag PCDESC_is_method_handle_invoke (ds_is_method_handle_invoke x)
                      (set_flag PCDESC_rethrow_exception (ds_rethrow_exception x)
                        (set_flag PCDESC_reexecute (ds_reexecute x) (last_pd\<lparr>pd_scope_decode_offset := stream_offset\<rparr>))));
          d1 \<leftarrow> with_writer (write_scope non_oop (pd_scope_decode_offset last_pd) x) (set_last_pc d pd);
          let (shared_stream_offset, d2) = find_sharable_decode_offset sf d1 stream_offset;
          Some (if shared_stream_offset \<noteq> serialized_null
                then set_last_pc (set_position d2 stream_offset) (pd\<lparr>pd_scope_decode_offset := shared_stream_offset\<rparr>)
                else d2) }"

text \<open>The loop of \<open>dump_object_pool\<close> that clears the marks, from the last object to the first.\<close>

definition clear_visited :: "nat list \<Rightarrow> object_value list \<Rightarrow> object_value list" where
  "clear_visited objects store = foldr (\<lambda>a s. s[a := set_visited (s ! a) False]) objects store"

definition dump_object_pool :: "nat \<Rightarrow> handle \<Rightarrow> share_flags \<Rightarrow> debug_recorder \<Rightarrow> nat list option \<Rightarrow> debug_recorder option" where
  "dump_object_pool fuel non_oop sf d objects =
     do { last_pd \<leftarrow> last_pc d;
          let d1 = (case objects of None \<Rightarrow> d
                    | Some os \<Rightarrow> d\<lparr>di_writer := (di_writer d)\<lparr>dw_objects := clear_visited os (dw_objects (di_writer d))\<rparr>\<rparr>);
          (offset, d2) \<leftarrow> serialize_scope_values fuel non_oop sf d1 (map_option (map ObjectValue) objects);
          Some (set_last_pc d2 (last_pd\<lparr>pd_obj_decode_offset := offset\<rparr>)) }"

definition end_scopes :: "debug_recorder \<Rightarrow> int \<Rightarrow> bool \<Rightarrow> debug_recorder" where
  "end_scopes d pc_offset is_safepoint =
     (let n = length (di_pcs d);
          d1 = (if 2 \<le> n \<and> di_recording_non_safepoints d then
                  (let lst = di_pcs d ! (n - 1); prev = di_pcs d ! (n - 2)
                   in if di_prev_safepoint_pc d < pd_pc_offset prev \<and> is_same_info prev lst
                      then d\<lparr>di_pcs := take (n - 1) ((di_pcs d)[n - 2 := prev\<lparr>pd_pc_offset := pc_offset\<rparr>])\<rparr>
                      else d)
                else d)
      in if is_safepoint then d1\<lparr>di_prev_safepoint_pc := pc_offset\<rparr> else d1)"

definition data_size :: "debug_recorder \<Rightarrow> nat" where
  "data_size d = di_position d"

definition pcs_size :: "debug_recorder \<Rightarrow> (nat \<times> debug_recorder) option" where
  "pcs_size d =
     do { pd \<leftarrow> last_pc d;
          let d1 = (if pd_pc_offset pd \<noteq> upper_offset_limit then add_new_pc_offset d upper_offset_limit else d);
          Some (length (di_pcs d1) * 16, d1) }"

section \<open>The compiled method\<close>

text \<open>
  The parts of \<open>nmethod\<close> that hold debugging information.  \<open>nm_room\<close> is the number of descriptors there
  is space for and \<open>content_size\<close> the size of the contents, which the final sentinel is adjusted to.
\<close>

record nmethod_debug =
  nm_tables :: nmethod_tables
  nm_method :: handle
  nm_scopes_data :: "u_char list"
  nm_scopes_pcs :: "pc_desc list"
  nm_has_method_handle_invokes :: bool

definition copy_scopes_data :: "u_char list \<Rightarrow> nat \<Rightarrow> nmethod_debug \<Rightarrow> nmethod_debug" where
  "copy_scopes_data buffer n nm = nm\<lparr>nm_scopes_data := take n buffer\<rparr>"

definition copy_scopes_pcs :: "nat \<Rightarrow> int \<Rightarrow> pc_desc list \<Rightarrow> nmethod_debug \<Rightarrow> nmethod_debug" where
  "copy_scopes_pcs room content_size pcs nm =
     (let n = length pcs; lst = (pcs ! (n - 1))\<lparr>pd_pc_offset := content_size + 1\<rparr>
      in nm\<lparr>nm_has_method_handle_invokes := (nm_has_method_handle_invokes nm \<or> list_ex pd_is_method_handle_invoke pcs),
            nm_scopes_pcs := pcs[n - 1 := lst] @ replicate (room - n) lst\<rparr>)"

definition copy_to :: "nat \<Rightarrow> int \<Rightarrow> debug_recorder \<Rightarrow> nmethod_debug \<Rightarrow> nmethod_debug" where
  "copy_to room content_size d nm = copy_scopes_pcs room content_size (di_pcs d) (copy_scopes_data (di_buffer d) (di_position d) nm)"

end
