(* ===== verification/DebugInfo_Correct.thy ===== *)
theory DebugInfo_Correct
  imports DebugInfo OopRecorder_Correct
begin

text \<open>
  Reading debugging information gives back what was written: the values, and for the objects a pool
  with the same shape, cycles included.
\<close>

section \<open>The recorder as a table of handles\<close>

text \<open>
  What the writer relies on: an index obtained for a handle leads back to the handle in every
  later state of the table.
\<close>

locale handle_table =
  fixes find_in :: "'t \<Rightarrow> 'h \<Rightarrow> (nat \<times> 't) option" and at :: "'t \<Rightarrow> nat \<Rightarrow> 'h option"
    and ok :: "'t \<Rightarrow> bool" and later :: "'t \<Rightarrow> 't \<Rightarrow> bool" and used :: "'t \<Rightarrow> nat" and can_find :: "'h \<Rightarrow> bool" and limit :: nat
  assumes find_ok: "ok t \<Longrightarrow> can_find h \<Longrightarrow> used t + 1 < limit \<Longrightarrow>
      \<exists>i t'. find_in t h = Some (i, t') \<and> ok t' \<and> later t t' \<and> used t' \<le> used t + 1 \<and> at t' i = Some h"
    and at_bound: "at t i = Some h \<Longrightarrow> i \<le> used t"
    and later_at: "later t t' \<Longrightarrow> at t i = Some h \<Longrightarrow> at t' i = Some h"
    and later_refl: "later t t"
    and later_trans: "later t t' \<Longrightarrow> later t' t'' \<Longrightarrow> later t t''"
begin

lemma find_reads_back:
  assumes "ok t" and "can_find h" and "used t + 1 < limit"
  shows "\<exists>i t'. find_in t h = Some (i, t') \<and> ok t' \<and> later t t' \<and> used t' \<le> used t + 1 \<and> i < limit \<and>
    (\<forall>t''. later t' t'' \<longrightarrow> at t'' i = Some h)"
proof -
  obtain i t' where f: "find_in t h = Some (i, t')" "ok t'" "later t t'" "used t' \<le> used t + 1" "at t' i = Some h"
    using find_ok [OF assms] by blast
  then have "i < limit" using at_bound [of t' i h] assms(3) by simp
  then show ?thesis using f later_at by blast
qed

end

definition rec_ok :: "handle \<Rightarrow> oop_recorder \<Rightarrow> bool" where
  "rec_ok non_oop r \<longleftrightarrow> vr_ok non_oop (or_oops r) \<and> vr_ok non_oop (or_metadata r)"

definition rec_later :: "handle \<Rightarrow> oop_recorder \<Rightarrow> oop_recorder \<Rightarrow> bool" where
  "rec_later non_oop r r' \<longleftrightarrow> vr_later non_oop (or_oops r) (or_oops r') \<and> vr_later non_oop (or_metadata r) (or_metadata r')"

definition rec_used :: "oop_recorder \<Rightarrow> nat" where
  "rec_used r = length (vr_list (or_oops r)) + length (vr_list (or_metadata r))"

definition handle_ok :: "handle \<Rightarrow> handle \<Rightarrow> bool" where
  "handle_ok non_oop h \<longleftrightarrow> h = 0 \<or> is_real non_oop h"

lemma vr_later_refl: "vr_later non_oop r r"
  by (simp add: vr_later_def)

lemma vr_at_find:
  assumes "if h = 0 then i = 0 else vr_findable non_oop r h i"
  shows "vr_at r i = Some h"
  using assms by (auto simp: vr_findable_def vr_at_list split: if_split_asm)

interpretation oop_table: handle_table "find_oop_index non_oop" recorder_oop_at "rec_ok non_oop" "rec_later non_oop" rec_used "handle_ok non_oop" "2 ^ 30"
  for non_oop
proof
  fix t t' t'' :: oop_recorder and h :: handle and i :: nat
  show "\<exists>i t'. find_oop_index non_oop t h = Some (i, t') \<and> rec_ok non_oop t' \<and> rec_later non_oop t t' \<and> rec_used t' \<le> rec_used t + 1 \<and>
      recorder_oop_at t' i = Some h" if a: "rec_ok non_oop t" "handle_ok non_oop h" "rec_used t + 1 < 2 ^ 30"
  proof -
    obtain i r' where f: "find_index non_oop (or_oops t) h = Some (i, r')" "vr_ok non_oop r'" "vr_later non_oop (or_oops t) r'"
      "length (vr_list r') \<le> length (vr_list (or_oops t)) + 1" "if h = 0 then i = 0 else vr_findable non_oop r' h i"
      using find_index_ok [of non_oop "or_oops t" h] a by (auto simp: rec_ok_def handle_ok_def rec_used_def)
    then show ?thesis using a(1) vr_at_find [OF f(5)]
      by (auto simp: find_oop_index_def rec_ok_def rec_later_def rec_used_def recorder_oop_at_def vr_later_refl)
  qed
  show "recorder_oop_at t i = Some h \<Longrightarrow> i \<le> rec_used t"
    by (auto simp: recorder_oop_at_def vr_at_list rec_used_def split: if_split_asm)
  show "rec_later non_oop t t' \<Longrightarrow> recorder_oop_at t i = Some h \<Longrightarrow> recorder_oop_at t' i = Some h"
    unfolding rec_later_def recorder_oop_at_def using vr_later_at by blast
  show "rec_later non_oop t t" by (simp add: rec_later_def vr_later_refl)
  show "rec_later non_oop t t' \<Longrightarrow> rec_later non_oop t' t'' \<Longrightarrow> rec_later non_oop t t''"
    unfolding rec_later_def using vr_later_trans by blast
qed

interpretation metadata_table: handle_table "find_metadata_index non_oop" recorder_metadata_at "rec_ok non_oop" "rec_later non_oop" rec_used
  "handle_ok non_oop" "2 ^ 30" for non_oop
proof
  fix t t' t'' :: oop_recorder and h :: handle and i :: nat
  show "\<exists>i t'. find_metadata_index non_oop t h = Some (i, t') \<and> rec_ok non_oop t' \<and> rec_later non_oop t t' \<and>
      rec_used t' \<le> rec_used t + 1 \<and> recorder_metadata_at t' i = Some h"
    if a: "rec_ok non_oop t" "handle_ok non_oop h" "rec_used t + 1 < 2 ^ 30"
  proof -
    obtain i r' where f: "find_index non_oop (or_metadata t) h = Some (i, r')" "vr_ok non_oop r'" "vr_later non_oop (or_metadata t) r'"
      "length (vr_list r') \<le> length (vr_list (or_metadata t)) + 1" "if h = 0 then i = 0 else vr_findable non_oop r' h i"
      using find_index_ok [of non_oop "or_metadata t" h] a by (auto simp: rec_ok_def handle_ok_def rec_used_def)
    then show ?thesis using a(1) vr_at_find [OF f(5)]
      by (auto simp: find_metadata_index_def rec_ok_def rec_later_def rec_used_def recorder_metadata_at_def vr_later_refl)
  qed
  show "recorder_metadata_at t i = Some h \<Longrightarrow> i \<le> rec_used t"
    by (auto simp: recorder_metadata_at_def vr_at_list rec_used_def split: if_split_asm)
  show "rec_later non_oop t t' \<Longrightarrow> recorder_metadata_at t i = Some h \<Longrightarrow> recorder_metadata_at t' i = Some h"
    unfolding rec_later_def recorder_metadata_at_def using vr_later_at by blast
  show "rec_later non_oop t t" by (rule oop_table.later_refl)
  show "rec_later non_oop t t' \<Longrightarrow> rec_later non_oop t' t'' \<Longrightarrow> rec_later non_oop t t''" by (rule oop_table.later_trans)
qed

section \<open>Indexes in the compiled method\<close>

lemma copy_values_lists:
  "nm_oops (copy_values_to non_oop resolve r) = map (initialize_immediate_oop non_oop resolve) (vr_list (or_oops r))"
  "nm_metadata (copy_values_to non_oop resolve r) = vr_list (or_metadata r)"
  by (auto simp: copy_values_to_def copy_oop_values_def copy_metadata_values_def map_nth vr_copy_values_to_def vr_is_unused_def vr_list_def)

lemma sint_index: "i < 2 ^ 30 \<Longrightarrow> sint (of_nat i :: jint) = int i"
  by (simp add: sint_uint unsigned_of_nat take_bit_nat_eq_self signed_take_bit_int_eq_self)

lemma index_zero: "i < 2 ^ 30 \<Longrightarrow> (of_nat i :: jint) = 0 \<longleftrightarrow> i = 0"
  using sint_index [of i] by auto

lemma oop_at_copied:
  assumes "recorder_oop_at r i = Some h" and "i < 2 ^ 30"
  shows "oop_at (copy_values_to non_oop resolve r) (of_nat i) = Some (initialize_immediate_oop non_oop resolve h)"
  using assms sint_index [OF assms(2)] index_zero [OF assms(2)]
  by (auto simp: oop_at_def copy_values_lists recorder_oop_at_def vr_at_list initialize_immediate_oop_def nat_diff_distrib split: if_split_asm)

lemma metadata_at_copied:
  assumes "recorder_metadata_at r i = Some h" and "i < 2 ^ 30"
  shows "metadata_at (copy_values_to non_oop resolve r) (of_nat i) = Some h"
  using assms sint_index [OF assms(2)] index_zero [OF assms(2)]
  by (auto simp: metadata_at_def copy_values_lists recorder_metadata_at_def vr_at_list nat_diff_distrib split: if_split_asm)

section \<open>Single items\<close>

definition dr_advance :: "debug_reader \<Rightarrow> nat \<Rightarrow> debug_reader" where
  "dr_advance r n = r\<lparr>dr_stream := advance (dr_stream r) n\<rparr>"

lemma dr_advance_simps [simp]:
  "dr_pool (dr_advance r n) = dr_pool r" "dr_stream (dr_advance r n) = advance (dr_stream r) n"
  "dr_advance (dr_advance r m) n = dr_advance r (m + n)"
  by (simp_all add: dr_advance_def)

text \<open>A writer that has written \<open>bs\<close> more and is otherwise the same.\<close>

definition dw_append :: "debug_writer \<Rightarrow> u_char list \<Rightarrow> debug_writer \<Rightarrow> bool" where
  "dw_append w bs w' \<longleftrightarrow> cw_ok (dw_stream w') \<and> cw_bytes (dw_stream w') = cw_bytes (dw_stream w) @ bs \<and>
     dw_objects w' = dw_objects w \<and> dw_recorder w' = dw_recorder w"

lemma put_with_ok:
  assumes "stream_codec wr rd enc" and "cw_ok (dw_stream w)"
  shows "\<exists>w'. put_with wr w x = Some w' \<and> dw_append w (enc x) w'"
  using stream_codec.write_appends [OF assms, of x] by (auto simp: put_with_def dw_append_def)

lemma get_with_ok:
  assumes "stream_codec wr rd enc" and "bytes_at (dr_stream r) (enc x)"
  shows "get_with rd r = Some (x, dr_advance r (length (enc x)))"
  using stream_codec.read_back [OF assms] by (simp add: get_with_def dr_advance_def)

lemmas put_int = put_with_ok [OF int_codec.stream_codec_axioms]
lemmas get_int = get_with_ok [OF int_codec.stream_codec_axioms]

section \<open>The graph of the objects\<close>

definition unvisit :: "object_value \<Rightarrow> object_value" where
  "unvisit ov = ov\<lparr>ov_visited := False\<rparr>"

definition dw_visited :: "debug_writer \<Rightarrow> nat set" where
  "dw_visited w = {a. a < length (dw_objects w) \<and> ov_visited (dw_objects w ! a)}"

definition val_ok :: "handle \<Rightarrow> nat \<Rightarrow> scope_value \<Rightarrow> bool" where
  "val_ok non_oop n v =
     (case v of ObjectValue a \<Rightarrow> a < n | ConstantOopWriteValue h \<Rightarrow> handle_ok non_oop h | ConstantOopReadValue x \<Rightarrow> False | _ \<Rightarrow> True)"

definition ov_ok :: "handle \<Rightarrow> nat \<Rightarrow> object_value \<Rightarrow> bool" where
  "ov_ok non_oop n ov \<longleftrightarrow> (\<exists>k b. ov_klass ov = Some k \<and> ov_base_object ov = Some b \<and> val_ok non_oop n k \<and> val_ok non_oop n b) \<and>
     list_all (val_ok non_oop n) (ov_field_values ov)"

definition graph_ok :: "handle \<Rightarrow> object_value list \<Rightarrow> bool" where
  "graph_ok non_oop objs \<longleftrightarrow> distinct (map ov_id objs) \<and> list_all (ov_ok non_oop (length objs)) objs"

definition winv :: "handle \<Rightarrow> object_value list \<Rightarrow> debug_writer \<Rightarrow> bool" where
  "winv non_oop objs w \<longleftrightarrow> cw_ok (dw_stream w) \<and> rec_ok non_oop (dw_recorder w) \<and> graph_ok non_oop objs \<and>
     map unvisit (dw_objects w) = map unvisit objs"

definition todo :: "object_value list \<Rightarrow> debug_writer \<Rightarrow> nat set" where
  "todo objs w = {..<length objs} - dw_visited w"

text \<open>
  The number of handles in use and of values still to be written with the objects not yet
  visited; writing a value adds at most one to it.
\<close>

definition load :: "object_value list \<Rightarrow> debug_writer \<Rightarrow> nat" where
  "load objs w = rec_used (dw_recorder w) + (\<Sum>a \<in> todo objs w. 2 + length (ov_field_values (objs ! a)))"

definition wstep :: "handle \<Rightarrow> object_value list \<Rightarrow> debug_writer \<Rightarrow> nat \<Rightarrow> u_char list \<Rightarrow> debug_writer \<Rightarrow> bool" where
  "wstep non_oop objs w k bs w' \<longleftrightarrow> winv non_oop objs w' \<and> dw_visited w \<subseteq> dw_visited w' \<and>
     cw_bytes (dw_stream w') = cw_bytes (dw_stream w) @ bs \<and> rec_later non_oop (dw_recorder w) (dw_recorder w') \<and>
     load objs w' \<le> load objs w + k"

lemma wstep_trans:
  assumes "wstep non_oop objs w j xs w1" and "wstep non_oop objs w1 k ys w2"
  shows "wstep non_oop objs w (j + k) (xs @ ys) w2"
  using assms oop_table.later_trans unfolding wstep_def by fastforce

lemma wstep_mono: "wstep non_oop objs w j bs w' \<Longrightarrow> j \<le> k \<Longrightarrow> wstep non_oop objs w k bs w'"
  by (auto simp: wstep_def)

lemma dw_append_same:
  assumes "dw_append w bs w'"
  shows "dw_visited w' = dw_visited w" and "todo objs w' = todo objs w" and "load objs w' = load objs w"
  using assms by (simp_all add: dw_append_def dw_visited_def todo_def load_def)

lemma dw_append_wstep: "dw_append w bs w' \<Longrightarrow> winv non_oop objs w \<Longrightarrow> wstep non_oop objs w 0 bs w'"
  using dw_append_same by (auto simp: wstep_def winv_def dw_append_def oop_table.later_refl)

lemma winv_put:
  assumes "stream_codec wr rd enc" and "winv non_oop objs w"
  shows "\<exists>w'. put_with wr w x = Some w' \<and> dw_append w (enc x) w' \<and> wstep non_oop objs w 0 (enc x) w' \<and> winv non_oop objs w'"
  using put_with_ok [OF assms(1), of w x] dw_append_wstep [OF _ assms(2)] assms(2) by (auto simp: winv_def wstep_def)

lemma finite_todo [simp]: "finite (todo objs w)"
  by (simp add: todo_def)

lemma card_todo_mono: "dw_visited w \<subseteq> dw_visited w' \<Longrightarrow> card (todo objs w') \<le> card (todo objs w)"
  by (rule card_mono) (auto simp: todo_def)

lemma winv_objects:
  assumes "winv non_oop objs w" and "a < length objs"
  shows "length (dw_objects w) = length objs" and "ov_id (dw_objects w ! a) = ov_id (objs ! a)"
    and "ov_auto_box (dw_objects w ! a) = ov_auto_box (objs ! a)" and "ov_klass (dw_objects w ! a) = ov_klass (objs ! a)"
    and "ov_base_object (dw_objects w ! a) = ov_base_object (objs ! a)"
    and "ov_field_values (dw_objects w ! a) = ov_field_values (objs ! a)"
proof -
  have m: "map unvisit (dw_objects w) = map unvisit objs" using assms(1) by (simp add: winv_def)
  from map_eq_imp_length_eq [OF m] show len: "length (dw_objects w) = length objs" .
  have "unvisit (dw_objects w ! a) = unvisit (objs ! a)" using m assms(2) len by (metis nth_map)
  then show "ov_id (dw_objects w ! a) = ov_id (objs ! a)"
    and "ov_auto_box (dw_objects w ! a) = ov_auto_box (objs ! a)" and "ov_klass (dw_objects w ! a) = ov_klass (objs ! a)"
    and "ov_base_object (dw_objects w ! a) = ov_base_object (objs ! a)"
    and "ov_field_values (dw_objects w ! a) = ov_field_values (objs ! a)"
    by (cases "dw_objects w ! a"; cases "objs ! a"; simp add: unvisit_def)+
qed

text \<open>Marking an object as visited.\<close>

definition visit :: "nat \<Rightarrow> debug_writer \<Rightarrow> debug_writer" where
  "visit a w = w\<lparr>dw_objects := (dw_objects w)[a := (dw_objects w ! a)\<lparr>ov_visited := True\<rparr>]\<rparr>"

lemma visit_ok:
  assumes inv: "winv non_oop objs w" and a: "a < length objs" "a \<notin> dw_visited w"
  shows "winv non_oop objs (visit a w)" and "dw_visited (visit a w) = insert a (dw_visited w)"
    and "card (todo objs w) = card (todo objs (visit a w)) + 1"
    and "load objs w = load objs (visit a w) + 2 + length (ov_field_values (objs ! a))"
proof -
  note len = winv_objects(1) [OF inv a(1)]
  have "map unvisit (dw_objects (visit a w)) = (map unvisit (dw_objects w))[a := unvisit (dw_objects w ! a)]"
    by (simp add: visit_def map_update unvisit_def)
  also have "\<dots> = map unvisit (dw_objects w)" using a(1) len by (simp add: list_update_same_conv)
  finally show "winv non_oop objs (visit a w)" using inv by (simp add: winv_def visit_def)
  show vis: "dw_visited (visit a w) = insert a (dw_visited w)"
    using a(1) len by (auto simp: dw_visited_def visit_def nth_list_update)
  have t: "todo objs w = insert a (todo objs (visit a w))" "a \<notin> todo objs (visit a w)" using a by (auto simp: todo_def vis)
  then show "card (todo objs w) = card (todo objs (visit a w)) + 1" by simp
  show "load objs w = load objs (visit a w) + 2 + length (ov_field_values (objs ! a))"
    unfolding load_def t(1) using t(2) by (simp add: visit_def)
qed

section \<open>The values read\<close>

text \<open>
  \<open>val_rel objs imm ids v v'\<close>: reading gave \<open>v'\<close> for \<open>v\<close>, where \<open>ids\<close> are the ids of the objects of the
  pool and \<open>imm\<close> the object a handle was resolved to.  A reference leads to the object with the same id.
\<close>

definition val_rel :: "object_value list \<Rightarrow> (handle \<Rightarrow> oop) \<Rightarrow> jint list \<Rightarrow> scope_value \<Rightarrow> scope_value \<Rightarrow> bool" where
  "val_rel objs imm ids v v' =
     (case v of
        ObjectValue a \<Rightarrow> (\<exists>i < length ids. v' = ObjectValue i \<and> ids ! i = ov_id (objs ! a))
      | ConstantOopWriteValue h \<Rightarrow> v' = ConstantOopReadValue (imm h)
      | _ \<Rightarrow> v' = v)"

definition obj_rel :: "object_value list \<Rightarrow> (handle \<Rightarrow> oop) \<Rightarrow> jint list \<Rightarrow> object_value \<Rightarrow> object_value \<Rightarrow> bool" where
  "obj_rel objs imm ids ov ov' \<longleftrightarrow> ov_id ov' = ov_id ov \<and> ov_auto_box ov' = ov_auto_box ov \<and>
     rel_option (val_rel objs imm ids) (ov_klass ov) (ov_klass ov') \<and>
     rel_option (val_rel objs imm ids) (ov_base_object ov) (ov_base_object ov') \<and>
     list_all2 (val_rel objs imm ids) (ov_field_values ov) (ov_field_values ov')"

lemma val_rel_mono: "val_rel objs imm ids v v' \<Longrightarrow> val_rel objs imm (ids @ more_ids) v v'"
  by (auto simp: val_rel_def nth_append split: scope_value.splits intro: trans_less_add1)

lemma obj_rel_mono: "obj_rel objs imm ids ov ov' \<Longrightarrow> obj_rel objs imm (ids @ more_ids) ov ov'"
  unfolding obj_rel_def
  using val_rel_mono by (auto elim!: list_all2_mono option.rel_mono_strong)

definition pool_for :: "object_value list \<Rightarrow> debug_writer \<Rightarrow> object_value list \<Rightarrow> bool" where
  "pool_for objs w pool \<longleftrightarrow> distinct (map ov_id pool) \<and> set (map ov_id pool) = (\<lambda>a. ov_id (objs ! a)) ` dw_visited w"

text \<open>The objects a read has added describe the objects the write has visited.\<close>

definition added :: "object_value list \<Rightarrow> (handle \<Rightarrow> oop) \<Rightarrow> debug_writer \<Rightarrow> debug_writer \<Rightarrow> jint list \<Rightarrow> object_value list \<Rightarrow> bool" where
  "added objs imm w w' ids new \<longleftrightarrow> (\<forall>ov' \<in> set new. \<exists>a \<in> dw_visited w' - dw_visited w. obj_rel objs imm ids (objs ! a) ov')"

lemma added_mono: "added objs imm w w' ids new \<Longrightarrow> added objs imm w w' (ids @ more_ids) new"
  unfolding added_def using obj_rel_mono by blast

lemma added_trans:
  assumes "added objs imm w w1 ids new1" and "added objs imm w1 w2 ids new2" and "dw_visited w \<subseteq> dw_visited w1" and "dw_visited w1 \<subseteq> dw_visited w2"
  shows "added objs imm w w2 ids (new1 @ new2)"
  using assms unfolding added_def by (auto, blast+)

definition rstep :: "object_value list \<Rightarrow> (handle \<Rightarrow> oop) \<Rightarrow> debug_writer \<Rightarrow> debug_writer \<Rightarrow> u_char list \<Rightarrow> debug_reader \<Rightarrow>
    debug_reader \<Rightarrow> object_value list \<Rightarrow> object_value list \<Rightarrow> bool" where
  "rstep objs imm w w' bs r r' pool new \<longleftrightarrow> dr_stream r' = advance (dr_stream r) (length bs) \<and> dr_pool r' = pool @ new \<and>
     pool_for objs w' (dr_pool r') \<and> added objs imm w w' (map ov_id (dr_pool r')) new"

definition readable :: "handle \<Rightarrow> object_value list \<Rightarrow> debug_writer \<Rightarrow> debug_writer \<Rightarrow> u_char list \<Rightarrow> debug_reader \<Rightarrow> oop_recorder \<Rightarrow> bool" where
  "readable non_oop objs w w' bs r fin \<longleftrightarrow> bytes_at (dr_stream r) bs \<and> pool_for objs w (dr_pool r) \<and> rec_later non_oop (dw_recorder w') fin"

text \<open>
  What \<open>wr\<close> writes for a value \<open>rd\<close> reads, as long as at most \<open>c\<close> objects are not visited.
\<close>

definition reads_value :: "handle \<Rightarrow> (handle \<Rightarrow> oop) \<Rightarrow> object_value list \<Rightarrow> (nmethod_tables \<Rightarrow> debug_reader \<Rightarrow> (scope_value \<times> debug_reader) option) \<Rightarrow>
    debug_writer \<Rightarrow> debug_writer \<Rightarrow> u_char list \<Rightarrow> scope_value \<Rightarrow> bool" where
  "reads_value non_oop resolve objs rd w w' bs v \<longleftrightarrow>
     (\<forall>r fin. readable non_oop objs w w' bs r fin \<longrightarrow>
        (\<exists>v' r' new. rd (copy_values_to non_oop resolve fin) r = Some (v', r') \<and>
           rstep objs (initialize_immediate_oop non_oop resolve) w w' bs r r' (dr_pool r) new \<and>
           val_rel objs (initialize_immediate_oop non_oop resolve) (map ov_id (dr_pool r')) v v'))"

definition item_codec :: "handle \<Rightarrow> (handle \<Rightarrow> oop) \<Rightarrow> object_value list \<Rightarrow> nat \<Rightarrow> (debug_writer \<Rightarrow> scope_value \<Rightarrow> debug_writer option) \<Rightarrow>
    (nmethod_tables \<Rightarrow> debug_reader \<Rightarrow> (scope_value \<times> debug_reader) option) \<Rightarrow> bool" where
  "item_codec non_oop resolve objs c wr rd \<longleftrightarrow>
     (\<forall>w v. winv non_oop objs w \<and> val_ok non_oop (length objs) v \<and> card (todo objs w) \<le> c \<and> load objs w + 1 < 2 ^ 30 \<longrightarrow>
        (\<exists>w' bs. wr w v = Some w' \<and> wstep non_oop objs w 1 bs w' \<and> reads_value non_oop resolve objs rd w w' bs v))"

section \<open>Lists of values\<close>

text \<open>The loops that read values, with a change \<open>g\<close> of the object at \<open>a\<close> after each of them.\<close>

fun read_loop :: "(debug_reader \<Rightarrow> (scope_value \<times> debug_reader) option) \<Rightarrow> (scope_value \<Rightarrow> object_value \<Rightarrow> object_value) \<Rightarrow> nat \<Rightarrow> nat \<Rightarrow>
    debug_reader \<Rightarrow> (scope_value list \<times> debug_reader) option" where
  "read_loop rd g a 0 r = Some ([], r)"
| "read_loop rd g a (Suc n) r =
     do { (v, r1) \<leftarrow> rd r;
          (vs, r2) \<leftarrow> read_loop rd g a n (r1\<lparr>dr_pool := (dr_pool r1)[a := g v (dr_pool r1 ! a)]\<rparr>);
          Some (v # vs, r2) }"

lemma read_fields_loop:
  "read_fields rd a n r = map_option snd (read_loop rd (\<lambda>v x. x\<lparr>ov_field_values := ov_field_values x @ [v]\<rparr>) a n r)"
  by (induction n arbitrary: r) (auto split: Option.bind_split)

lemma map_id_update: "ov_id y = ov_id (xs ! a) \<Longrightarrow> map ov_id (xs[a := y]) = map ov_id xs"
  by (metis list_update_id map_update)

definition reads_values :: "handle \<Rightarrow> (handle \<Rightarrow> oop) \<Rightarrow> object_value list \<Rightarrow> (nmethod_tables \<Rightarrow> debug_reader \<Rightarrow> (scope_value \<times> debug_reader) option) \<Rightarrow>
    debug_writer \<Rightarrow> debug_writer \<Rightarrow> u_char list \<Rightarrow> scope_value list \<Rightarrow> bool" where
  "reads_values non_oop resolve objs rd w w' bs vs \<longleftrightarrow>
     (\<forall>r fin g a. readable non_oop objs w w' bs r fin \<longrightarrow> (\<forall>v x. ov_id (g v x) = ov_id x) \<longrightarrow>
        a < length (dr_pool r) \<or> (\<forall>v x. g v x = x) \<longrightarrow>
        (\<exists>vs' r' new. read_loop (rd (copy_values_to non_oop resolve fin)) g a (length vs) r = Some (vs', r') \<and>
           rstep objs (initialize_immediate_oop non_oop resolve) w w' bs r r' ((dr_pool r)[a := fold g vs' (dr_pool r ! a)]) new \<and>
           list_all2 (val_rel objs (initialize_immediate_oop non_oop resolve) (map ov_id (dr_pool r'))) vs vs'))"

lemma readable_split:
  assumes "readable non_oop objs w w2 (bs1 @ bs2) r fin" and "wstep non_oop objs w1 k bs2 w2"
  shows "readable non_oop objs w w1 bs1 r fin"
  using assms oop_table.later_trans unfolding readable_def wstep_def bytes_at_append by blast

lemma reads_values_Cons:
  assumes s1: "wstep non_oop objs w j bs1 w1" and v: "reads_value non_oop resolve objs rd w w1 bs1 v"
    and s2: "wstep non_oop objs w1 k bs2 w2" and vs: "reads_values non_oop resolve objs rd w1 w2 bs2 vs"
  shows "reads_values non_oop resolve objs rd w w2 (bs1 @ bs2) (v # vs)"
  unfolding reads_values_def
proof (intro allI impI)
  fix r fin a and g :: "scope_value \<Rightarrow> object_value \<Rightarrow> object_value"
  let ?imm = "initialize_immediate_oop non_oop resolve" and ?rd = "rd (copy_values_to non_oop resolve fin)"
  assume r: "readable non_oop objs w w2 (bs1 @ bs2) r fin" and g: "\<forall>v x. ov_id (g v x) = ov_id x"
    and a: "a < length (dr_pool r) \<or> (\<forall>v x. g v x = x)"
  obtain v' r1 new1 where r1: "?rd r = Some (v', r1)" "rstep objs ?imm w w1 bs1 r r1 (dr_pool r) new1"
    and v': "val_rel objs ?imm (map ov_id (dr_pool r1)) v v'"
    using v readable_split [OF r s2] unfolding reads_value_def by blast
  define r1' where "r1' = r1\<lparr>dr_pool := (dr_pool r1)[a := g v' (dr_pool r1 ! a)]\<rparr>"
  have pool1: "dr_pool r1 = dr_pool r @ new1" using r1(2) by (simp add: rstep_def)
  have ids: "map ov_id (dr_pool r1') = map ov_id (dr_pool r1)" using g by (simp add: r1'_def map_id_update)
  have pool1': "dr_pool r1' = (dr_pool r)[a := g v' (dr_pool r ! a)] @ new1"
    using a by (auto simp: r1'_def pool1 list_update_append nth_append)
  have "pool_for objs w1 (dr_pool r1)" using r1(2) unfolding rstep_def by blast
  then have pf: "pool_for objs w1 (dr_pool r1')" unfolding pool_for_def ids .
  have "dr_stream r1' = advance (dr_stream r) (length bs1)" using r1(2) by (simp add: r1'_def rstep_def)
  then have "readable non_oop objs w1 w2 bs2 r1' fin" using r pf by (simp add: readable_def bytes_at_append)
  moreover have "a < length (dr_pool r1') \<or> (\<forall>v x. g v x = x)" using a pool1' by auto
  ultimately obtain vs' r2 new2 where r2: "read_loop ?rd g a (length vs) r1' = Some (vs', r2)"
    "rstep objs ?imm w1 w2 bs2 r1' r2 ((dr_pool r1')[a := fold g vs' (dr_pool r1' ! a)]) new2"
    and vs': "list_all2 (val_rel objs ?imm (map ov_id (dr_pool r2))) vs vs'"
    using vs g unfolding reads_values_def by blast
  have same: "fold g ys x = x" if "\<forall>v x. g v x = x" for ys x using that by (induction ys arbitrary: x) auto
  have fid: "ov_id (fold g ys x) = ov_id x" for ys x using g by (induction ys arbitrary: x) auto
  have pool2: "dr_pool r2 = (dr_pool r)[a := fold g (v' # vs') (dr_pool r ! a)] @ new1 @ new2"
    using r2(2) a same by (auto simp: rstep_def pool1' list_update_append nth_append)
  have ids2: "map ov_id (dr_pool r2) = map ov_id (dr_pool r1) @ map ov_id new2"
    unfolding pool2 pool1 map_append map_id_update [OF fid] by simp
  have "added objs ?imm w w1 (map ov_id (dr_pool r1)) new1" "added objs ?imm w1 w2 (map ov_id (dr_pool r2)) new2"
    "pool_for objs w2 (dr_pool r2)" "dr_stream r2 = advance (dr_stream r) (length (bs1 @ bs2))"
    using r1(2) r2(2) unfolding rstep_def by (blast, blast, blast, simp add: r1'_def)
  moreover have "dw_visited w \<subseteq> dw_visited w1" "dw_visited w1 \<subseteq> dw_visited w2" using s1 s2 by (simp_all add: wstep_def)
  ultimately have "added objs ?imm w w2 (map ov_id (dr_pool r2)) (new1 @ new2)"
    and rest: "pool_for objs w2 (dr_pool r2)" "dr_stream r2 = advance (dr_stream r) (length (bs1 @ bs2))"
    using added_trans added_mono ids2 by metis+
  then have "rstep objs ?imm w w2 (bs1 @ bs2) r r2 ((dr_pool r)[a := fold g (v' # vs') (dr_pool r ! a)]) (new1 @ new2)"
    unfolding rstep_def using pool2 by simp
  moreover have "list_all2 (val_rel objs ?imm (map ov_id (dr_pool r2))) (v # vs) (v' # vs')"
    using v' vs' val_rel_mono unfolding ids2 by simp
  moreover have "read_loop ?rd g a (length (v # vs)) r = Some (v' # vs', r2)" using r1(1) r2(1) by (simp add: r1'_def)
  ultimately show "\<exists>vs' r' new. read_loop ?rd g a (length (v # vs)) r = Some (vs', r') \<and>
      rstep objs ?imm w w2 (bs1 @ bs2) r r' ((dr_pool r)[a := fold g vs' (dr_pool r ! a)]) new \<and>
      list_all2 (val_rel objs ?imm (map ov_id (dr_pool r'))) (v # vs) vs'" by blast
qed

lemma values_codec:
  assumes codec: "item_codec non_oop resolve objs c wr rd" and "winv non_oop objs w" and "list_all (val_ok non_oop (length objs)) vs"
    and "card (todo objs w) \<le> c" and "load objs w + length vs < 2 ^ 30"
  shows "\<exists>w' bs. write_values wr w vs = Some w' \<and> wstep non_oop objs w (length vs) bs w' \<and> reads_values non_oop resolve objs rd w w' bs vs"
  using assms(2-)
proof (induction vs arbitrary: w)
  case Nil
  then show ?case
    by (intro exI [of _ w] exI [of _ "[]"]) (auto simp: reads_values_def wstep_def oop_table.later_refl rstep_def readable_def added_def)
next
  case (Cons v vs)
  obtain w1 bs1 where w1: "wr w v = Some w1" "wstep non_oop objs w 1 bs1 w1" "reads_value non_oop resolve objs rd w w1 bs1 v"
    using codec Cons.prems unfolding item_codec_def by fastforce
  have "winv non_oop objs w1" "card (todo objs w1) \<le> c" "load objs w1 + length vs < 2 ^ 30"
    using w1(2) Cons.prems(3,4) card_todo_mono [of w w1 objs] by (auto simp: wstep_def)
  moreover have "list_all (val_ok non_oop (length objs)) vs" using Cons.prems(2) by simp
  ultimately obtain w2 bs2 where w2: "write_values wr w1 vs = Some w2" "wstep non_oop objs w1 (length vs) bs2 w2"
    "reads_values non_oop resolve objs rd w1 w2 bs2 vs"
    using Cons.IH by blast
  show ?case using w1(1) w2(1) wstep_trans [OF w1(2) w2(2)] reads_values_Cons [OF w1(2,3) w2(2,3)]
    by (intro exI [of _ w2] exI [of _ "bs1 @ bs2"]) simp
qed

section \<open>Values that are not objects\<close>

lemma rstep_none:
  assumes "dw_visited w' = dw_visited w" and "pool_for objs w (dr_pool r)"
  shows "rstep objs imm w w' bs r (dr_advance r (length bs)) (dr_pool r) []"
  using assms by (simp add: rstep_def pool_for_def added_def)

lemma plain_item:
  assumes c: "stream_codec wr rd enc" and inv: "winv non_oop objs w"
  shows "\<exists>w'. do { w1 \<leftarrow> put_with write_int w k; put_with wr w1 x } = Some w' \<and> wstep non_oop objs w 0 (enc_int k @ enc x) w' \<and>
    dw_visited w' = dw_visited w \<and>
    (\<forall>r. bytes_at (dr_stream r) (enc_int k @ enc x) \<longrightarrow> get_with read_int r = Some (k, dr_advance r (length (enc_int k))) \<and>
       get_with rd (dr_advance r (length (enc_int k))) = Some (x, dr_advance r (length (enc_int k @ enc x))))"
proof -
  obtain w1 where w1: "put_with write_int w k = Some w1" "dw_append w (enc_int k) w1" "wstep non_oop objs w 0 (enc_int k) w1" "winv non_oop objs w1"
    using winv_put [OF int_codec.stream_codec_axioms inv] by blast
  obtain w2 where w2: "put_with wr w1 x = Some w2" "dw_append w1 (enc x) w2" "wstep non_oop objs w1 0 (enc x) w2"
    using winv_put [OF c w1(4)] by blast
  have "wstep non_oop objs w 0 (enc_int k @ enc x) w2" using wstep_trans [OF w1(3) w2(3)] by simp
  moreover have "dw_visited w2 = dw_visited w" using dw_append_same(1) w1(2) w2(2) by blast
  ultimately show ?thesis using w1(1) w2(1) get_int get_with_ok [OF c] by (auto simp: bytes_at_append)
qed

lemma plain_value:
  assumes c: "stream_codec wr rd enc" and inv: "winv non_oop objs w"
    and wr_eq: "write_on (Suc n) non_oop w v = do { w1 \<leftarrow> put_with write_int w k; put_with wr w1 x }"
    and rd_eq: "\<And>code r r1 r2. get_with read_int r = Some (k, r1) \<Longrightarrow> get_with rd r1 = Some (x, r2) \<Longrightarrow> read_from (Suc n) code r = Some (v, r2)"
    and v: "\<And>ids. val_rel objs (initialize_immediate_oop non_oop resolve) ids v v"
  shows "\<exists>w' bs. write_on (Suc n) non_oop w v = Some w' \<and> wstep non_oop objs w 1 bs w' \<and>
    reads_value non_oop resolve objs (read_from (Suc n)) w w' bs v"
proof -
  obtain w' where w': "do { w1 \<leftarrow> put_with write_int w k; put_with wr w1 x } = Some w'"
    "wstep non_oop objs w 0 (enc_int k @ enc x) w'" "dw_visited w' = dw_visited w"
    and rd: "\<And>r. bytes_at (dr_stream r) (enc_int k @ enc x) \<Longrightarrow> get_with read_int r = Some (k, dr_advance r (length (enc_int k))) \<and>
       get_with rd (dr_advance r (length (enc_int k))) = Some (x, dr_advance r (length (enc_int k @ enc x)))"
    using plain_item [OF c inv] by blast
  have "reads_value non_oop resolve objs (read_from (Suc n)) w w' (enc_int k @ enc x) v"
    unfolding reads_value_def readable_def
  proof (intro allI impI, elim conjE)
    fix r :: debug_reader and fin :: oop_recorder
    assume b: "bytes_at (dr_stream r) (enc_int k @ enc x)" and p: "pool_for objs w (dr_pool r)"
    then show "\<exists>v' r' new. read_from (Suc n) (copy_values_to non_oop resolve fin) r = Some (v', r') \<and>
        rstep objs (initialize_immediate_oop non_oop resolve) w w' (enc_int k @ enc x) r r' (dr_pool r) new \<and>
        val_rel objs (initialize_immediate_oop non_oop resolve) (map ov_id (dr_pool r')) v v'"
      using rd [OF b] rd_eq v rstep_none [OF w'(3) p] by blast
  qed
  then show ?thesis using wr_eq w'(1) wstep_mono [OF w'(2)] by auto
qed

lemma oop_value:
  assumes inv: "winv non_oop objs w" and h: "handle_ok non_oop h" and fit: "load objs w + 1 < 2 ^ 30"
  shows "\<exists>w' bs. write_on (Suc n) non_oop w (ConstantOopWriteValue h) = Some w' \<and> wstep non_oop objs w 1 bs w' \<and>
    reads_value non_oop resolve objs (read_from (Suc n)) w w' bs (ConstantOopWriteValue h)"
proof -
  let ?k = CONSTANT_OOP_CODE
  obtain w1 where w1: "put_with write_int w ?k = Some w1" "dw_append w (enc_int ?k) w1" "winv non_oop objs w1" "wstep non_oop objs w 0 (enc_int ?k) w1"
    using winv_put [OF int_codec.stream_codec_axioms inv] by blast
  have "rec_ok non_oop (dw_recorder w1)" "rec_used (dw_recorder w1) + 1 < 2 ^ 30"
    using w1(2,3) fit by (auto simp: winv_def dw_append_def load_def)
  then obtain i rec where f: "find_oop_index non_oop (dw_recorder w1) h = Some (i, rec)" "rec_ok non_oop rec"
    "rec_later non_oop (dw_recorder w1) rec" "rec_used rec \<le> rec_used (dw_recorder w1) + 1" "i < 2 ^ 30"
    and at: "\<And>t. rec_later non_oop rec t \<Longrightarrow> recorder_oop_at t i = Some h"
    using oop_table.find_reads_back [of non_oop "dw_recorder w1" h] h by blast
  define w2 where "w2 = w1\<lparr>dw_recorder := rec\<rparr>"
  have w2: "winv non_oop objs w2" "dw_visited w2 = dw_visited w1" "wstep non_oop objs w1 1 [] w2"
    using w1(3) f(2-4) by (auto simp: w2_def winv_def dw_visited_def wstep_def load_def todo_def)
  obtain w3 where w3: "put_with write_int w2 (of_nat i) = Some w3" "dw_append w2 (enc_int (of_nat i)) w3" "wstep non_oop objs w2 0 (enc_int (of_nat i)) w3"
    using winv_put [OF int_codec.stream_codec_axioms w2(1)] by blast
  let ?bs = "enc_int ?k @ enc_int (of_nat i)"
  have step: "wstep non_oop objs w 1 ?bs w3" using wstep_trans [OF w1(4) wstep_trans [OF w2(3) w3(3)]] by simp
  have vis: "dw_visited w3 = dw_visited w" using dw_append_same(1) [OF w1(2)] dw_append_same(1) [OF w3(2)] w2(2) by simp
  have "reads_value non_oop resolve objs (read_from (Suc n)) w w3 ?bs (ConstantOopWriteValue h)"
    unfolding reads_value_def readable_def
  proof (intro allI impI, elim conjE)
    fix r :: debug_reader and fin :: oop_recorder
    let ?code = "copy_values_to non_oop resolve fin" and ?x = "initialize_immediate_oop non_oop resolve h"
    assume b: "bytes_at (dr_stream r) ?bs" and p: "pool_for objs w (dr_pool r)" and l: "rec_later non_oop (dw_recorder w3) fin"
    have "rec_later non_oop rec fin" using l w3(2) by (simp add: dw_append_def w2_def)
    then have o: "oop_at ?code (of_nat i) = Some ?x" using oop_at_copied [OF at f(5)] by blast
    have "get_with read_int r = Some (?k, dr_advance r (length (enc_int ?k)))" using b get_int by (simp add: bytes_at_append)
    moreover have "get_with read_int (dr_advance r (length (enc_int ?k))) = Some (of_nat i, dr_advance r (length ?bs))"
      using b get_int [of "dr_advance r (length (enc_int ?k))" "of_nat i"] by (simp add: bytes_at_append)
    ultimately have "read_from (Suc n) ?code r = Some (ConstantOopReadValue ?x, dr_advance r (length ?bs))"
      using o by (simp add: read_oop_def read_constant_oop_def scope_codes)
    moreover have "val_rel objs (initialize_immediate_oop non_oop resolve) ids (ConstantOopWriteValue h) (ConstantOopReadValue ?x)" for ids
      by (simp add: val_rel_def)
    ultimately show "\<exists>v' r' new. read_from (Suc n) ?code r = Some (v', r') \<and>
        rstep objs (initialize_immediate_oop non_oop resolve) w w3 ?bs r r' (dr_pool r) new \<and>
        val_rel objs (initialize_immediate_oop non_oop resolve) (map ov_id (dr_pool r')) (ConstantOopWriteValue h) v'"
      using rstep_none [OF vis p] by blast
  qed
  then show ?thesis using w1(1) f(1) w3(1) step by (auto simp: write_handle_def constant_oop_write_on_def w2_def)
qed

section \<open>Objects\<close>

lemma rstep_trans:
  assumes r1: "rstep objs imm w w1 bs1 r r1 (pool[a := x]) new1" and r2: "rstep objs imm w1 w2 bs2 r1 r2 ((dr_pool r1)[a := y]) new2"
    and a: "a < length pool" and y: "ov_id y = ov_id x" and vis: "dw_visited w \<subseteq> dw_visited w1" "dw_visited w1 \<subseteq> dw_visited w2"
  shows "rstep objs imm w w2 (bs1 @ bs2) r r2 (pool[a := y]) (new1 @ new2)"
proof -
  have p1: "dr_pool r1 = pool[a := x] @ new1" and p2: "dr_pool r2 = (dr_pool r1)[a := y] @ new2" using r1 r2 by (simp_all add: rstep_def)
  have "map ov_id (dr_pool r2) = map ov_id (dr_pool r1) @ map ov_id new2"
    unfolding p2 map_append using y a by (simp add: map_id_update p1 nth_append)
  moreover have "added objs imm w w1 (map ov_id (dr_pool r1)) new1" "added objs imm w1 w2 (map ov_id (dr_pool r2)) new2"
    using r1 r2 unfolding rstep_def by blast+
  ultimately have "added objs imm w w2 (map ov_id (dr_pool r2)) (new1 @ new2)" using added_trans added_mono vis by metis
  moreover have "dr_pool r2 = pool[a := y] @ new1 @ new2" using a by (simp add: p1 p2 list_update_append)
  moreover have "pool_for objs w2 (dr_pool r2)" "dr_stream r2 = advance (dr_stream r) (length (bs1 @ bs2))"
    using r1 r2 unfolding rstep_def by auto
  ultimately show ?thesis unfolding rstep_def by blast
qed

lemma reads_single:
  assumes v: "reads_value non_oop resolve objs rd w w1 bs v" and r: "readable non_oop objs w w1 bs r fin"
    and a: "a < length (dr_pool r)" and h: "\<And>v x. ov_id (h v x) = ov_id x"
  shows "\<exists>v' r1 r2 new. rd (copy_values_to non_oop resolve fin) r = Some (v', r1) \<and>
    r2 = r1\<lparr>dr_pool := (dr_pool r1)[a := h v' (dr_pool r1 ! a)]\<rparr> \<and>
    rstep objs (initialize_immediate_oop non_oop resolve) w w1 bs r r2 ((dr_pool r)[a := h v' (dr_pool r ! a)]) new \<and>
    val_rel objs (initialize_immediate_oop non_oop resolve) (map ov_id (dr_pool r2)) v v'"
proof -
  let ?imm = "initialize_immediate_oop non_oop resolve"
  obtain v' r1 new where r1: "rd (copy_values_to non_oop resolve fin) r = Some (v', r1)" "rstep objs ?imm w w1 bs r r1 (dr_pool r) new"
    "val_rel objs ?imm (map ov_id (dr_pool r1)) v v'" using v r unfolding reads_value_def by blast
  define r2 where "r2 = r1\<lparr>dr_pool := (dr_pool r1)[a := h v' (dr_pool r1 ! a)]\<rparr>"
  have p: "dr_pool r1 = dr_pool r @ new" using r1(2) by (simp add: rstep_def)
  have ids: "map ov_id (dr_pool r2) = map ov_id (dr_pool r1)" using h by (simp add: r2_def map_id_update)
  have "dr_pool r2 = (dr_pool r)[a := h v' (dr_pool r ! a)] @ new" using a by (simp add: r2_def p list_update_append nth_append)
  moreover have st: "dr_stream r2 = dr_stream r1" by (simp add: r2_def)
  ultimately have "rstep objs ?imm w w1 bs r r2 ((dr_pool r)[a := h v' (dr_pool r ! a)]) new"
    using r1(2) unfolding rstep_def pool_for_def ids st by blast
  then show ?thesis using r1(1,3) r2_def ids by metis
qed

lemma fold_fields: "fold (\<lambda>v x. x\<lparr>ov_field_values := ov_field_values x @ [v]\<rparr>) vs x = x\<lparr>ov_field_values := ov_field_values x @ vs\<rparr>"
  by (induction vs arbitrary: x) simp_all

text \<open>\<open>read_object\<close> on what the second half of \<open>ObjectValue::write_on\<close> has written.\<close>

lemma read_object_ok:
  fixes wA w1 w2 w3 w4 :: debug_writer and objs resolve non_oop
  defines "imm \<equiv> initialize_immediate_oop non_oop resolve"
  assumes k: "reads_value non_oop resolve objs rd wA w1 bk k" "wstep non_oop objs wA i1 bk w1"
    and b: "reads_value non_oop resolve objs rd w1 w2 bb b" "wstep non_oop objs w1 i2 bb w2"
    and len: "dw_append w2 (enc_int (of_nat (length vs))) w3" "length vs < 2 ^ 30"
    and f: "reads_values non_oop resolve objs rd w3 w4 bf vs" "wstep non_oop objs w3 i3 bf w4"
    and r: "bytes_at (dr_stream r) (bk @ bb @ enc_int (of_nat (length vs)) @ bf)" "pool_for objs wA (dr_pool r)"
      "rec_later non_oop (dw_recorder w4) fin" and a: "a < length (dr_pool r)"
  shows "\<exists>k' b' vs' r' new. read_object (rd (copy_values_to non_oop resolve fin)) a r = Some r' \<and>
    rstep objs imm wA w4 (bk @ bb @ enc_int (of_nat (length vs)) @ bf) r r'
      ((dr_pool r)[a := (dr_pool r ! a)\<lparr>ov_klass := Some k', ov_base_object := Some b',
         ov_field_values := ov_field_values (dr_pool r ! a) @ vs'\<rparr>]) new \<and>
    val_rel objs imm (map ov_id (dr_pool r')) k k' \<and> val_rel objs imm (map ov_id (dr_pool r')) b b' \<and>
    list_all2 (val_rel objs imm (map ov_id (dr_pool r'))) vs vs'"
proof -
  let ?rd = "rd (copy_values_to non_oop resolve fin)" and ?n = "of_nat (length vs) :: jint"
  have l2: "rec_later non_oop (dw_recorder w2) fin" and l1: "rec_later non_oop (dw_recorder w1) fin"
    using r(3) f(2) len(1) b(2) oop_table.later_trans unfolding wstep_def dw_append_def by metis+
  obtain k' r0 r1 new1 where r1: "?rd r = Some (k', r0)" "r1 = r0\<lparr>dr_pool := (dr_pool r0)[a := (dr_pool r0 ! a)\<lparr>ov_klass := Some k'\<rparr>]\<rparr>"
    "rstep objs imm wA w1 bk r r1 ((dr_pool r)[a := (dr_pool r ! a)\<lparr>ov_klass := Some k'\<rparr>]) new1"
    "val_rel objs imm (map ov_id (dr_pool r1)) k k'"
    using reads_single [OF k(1), of r fin a "\<lambda>v x. x\<lparr>ov_klass := Some v\<rparr>"] r l1 a
    unfolding readable_def bytes_at_append imm_def by auto
  have st1: "dr_stream r1 = advance (dr_stream r) (length bk)" "pool_for objs w1 (dr_pool r1)" and a1: "a < length (dr_pool r1)"
    using r1(3) a unfolding rstep_def by auto
  obtain b' r0' r2 new2 where r2: "?rd r1 = Some (b', r0')" "r2 = r0'\<lparr>dr_pool := (dr_pool r0')[a := (dr_pool r0' ! a)\<lparr>ov_base_object := Some b'\<rparr>]\<rparr>"
    "rstep objs imm w1 w2 bb r1 r2 ((dr_pool r1)[a := (dr_pool r1 ! a)\<lparr>ov_base_object := Some b'\<rparr>]) new2"
    "val_rel objs imm (map ov_id (dr_pool r2)) b b'"
    using reads_single [OF b(1), of r1 fin a "\<lambda>v x. x\<lparr>ov_base_object := Some v\<rparr>"] r l2 a1 st1
    unfolding readable_def bytes_at_append imm_def by auto
  let ?x1 = "(dr_pool r ! a)\<lparr>ov_klass := Some k'\<rparr>" and ?x2 = "(dr_pool r ! a)\<lparr>ov_klass := Some k', ov_base_object := Some b'\<rparr>"
  have vis: "dw_visited wA \<subseteq> dw_visited w1" "dw_visited w1 \<subseteq> dw_visited w2" "dw_visited w3 = dw_visited w2" "dw_visited w3 \<subseteq> dw_visited w4"
    using k(2) b(2) f(2) dw_append_same(1) [OF len(1)] by (simp_all add: wstep_def)
  have e1: "dr_pool r1 ! a = ?x1" using r1(3) a by (simp add: rstep_def nth_append)
  have s2: "rstep objs imm wA w2 (bk @ bb) r r2 ((dr_pool r)[a := ?x2]) (new1 @ new2)"
    using rstep_trans [OF r1(3) r2(3) a] vis by (simp add: e1)
  have st2: "dr_stream r2 = advance (dr_stream r) (length bk + length bb)" "pool_for objs w2 (dr_pool r2)" and a2: "a < length (dr_pool r2)"
    and e2: "dr_pool r2 ! a = ?x2" using s2 a unfolding rstep_def by (auto simp: nth_append)
  define r3 where "r3 = dr_advance r2 (length (enc_int ?n))"
  have g3: "get_with read_int r2 = Some (?n, r3)" using get_int r(1) st2(1) by (simp add: r3_def bytes_at_append add.assoc)
  have "rstep objs imm w2 w3 (enc_int ?n) r2 r3 ((dr_pool r2)[a := ?x2]) []"
    using rstep_none [OF vis(3) st2(2)] e2 unfolding r3_def by (metis list_update_id)
  from rstep_trans [OF s2 this a] have s3: "rstep objs imm wA w3 ((bk @ bb) @ enc_int ?n) r r3 ((dr_pool r)[a := ?x2]) (new1 @ new2)"
    using vis by simp
  let ?g = "\<lambda>v x. x\<lparr>ov_field_values := ov_field_values x @ [v]\<rparr> :: object_value"
  have "pool_for objs w3 (dr_pool r3)" using s3 unfolding rstep_def by blast
  moreover have "dr_stream r3 = advance (dr_stream r) (length bk + length bb + length (enc_int ?n))" using s3 by (simp add: rstep_def add.assoc)
  ultimately have "readable non_oop objs w3 w4 bf r3 fin"
    using r(1,3) by (simp add: readable_def bytes_at_append add.assoc)
  moreover have a3: "a < length (dr_pool r3) \<or> (\<forall>v x. ?g v x = x)" using a2 by (simp add: r3_def)
  moreover have gid: "ov_id (?g v x) = ov_id x" for v x by simp
  ultimately obtain vs' r4 new3 where r4: "read_loop ?rd ?g a (length vs) r3 = Some (vs', r4)"
    "rstep objs imm w3 w4 bf r3 r4 ((dr_pool r3)[a := fold ?g vs' (dr_pool r3 ! a)]) new3"
    "list_all2 (val_rel objs imm (map ov_id (dr_pool r4))) vs vs'"
    using f(1) [unfolded reads_values_def, rule_format, of r3 fin ?g a, OF _ gid] a3 unfolding imm_def by blast
  have e3: "dr_pool r3 ! a = ?x2" by (simp add: r3_def e2)
  let ?x4 = "(dr_pool r ! a)\<lparr>ov_klass := Some k', ov_base_object := Some b', ov_field_values := ov_field_values (dr_pool r ! a) @ vs'\<rparr>"
  have s4: "rstep objs imm wA w4 (bk @ bb @ enc_int ?n @ bf) r r4 ((dr_pool r)[a := ?x4]) (new1 @ new2 @ new3)"
    using rstep_trans [OF s3 r4(2) a] vis by (simp add: e3 fold_fields)
  have ids: "\<exists>m. map ov_id (dr_pool r4) = map ov_id (dr_pool r1) @ m" "\<exists>m. map ov_id (dr_pool r4) = map ov_id (dr_pool r2) @ m"
    using s4 s2 r1(3) a unfolding rstep_def by (auto simp: map_id_update)
  have "val_rel objs imm (map ov_id (dr_pool r4)) k k'" "val_rel objs imm (map ov_id (dr_pool r4)) b b'"
    using ids r1(4) r2(4) val_rel_mono by metis+
  moreover have "read_object ?rd a r = Some r4"
    using r1(1,2) r2(1,2) g3 r4(1) sint_index [OF len(2)] by (simp add: read_object_def read_fields_loop)
  ultimately show ?thesis using s4 r4(3) by blast
qed

end
