(* ===== verification/DebugInfo_Size.thy ===== *)
theory DebugInfo_Size
  imports DebugInfo_Correct
begin

text \<open>
  The size of what \<open>ScopeValue::write_on\<close> writes: at most twenty bytes per value, and a buffer of at
  most twice as many. An object that has not been written yet counts in advance, because it is
  written with the first value that refers to it.
\<close>

definition to_come :: "object_value \<Rightarrow> nat" where
  "to_come ov = (if ov_visited ov then 0 else 20 * (2 + length (ov_field_values ov)))"

definition pot :: "debug_writer \<Rightarrow> nat" where
  "pot w = (\<Sum>ov \<leftarrow> dw_objects w. to_come ov)"

definition pos :: "debug_writer \<Rightarrow> nat" where
  "pos w = cw_position (dw_stream w)"

definition grows :: "nat \<Rightarrow> debug_writer \<Rightarrow> debug_writer \<Rightarrow> bool" where
  "grows c w w' \<longleftrightarrow> cw_ok (dw_stream w') \<and> pos w \<le> pos w' \<and> pot w' \<le> pot w \<and> pos w' + pot w' \<le> pos w + pot w + c \<and>
     cw_size (dw_stream w') \<le> max (cw_size (dw_stream w)) (2 * (pos w + pot w + c))"

lemma grows_ok: "grows c w w' \<Longrightarrow> cw_ok (dw_stream w')"
  by (simp add: grows_def)

lemma grows_trans: "grows b w w1 \<Longrightarrow> grows c w1 w2 \<Longrightarrow> grows (b + c) w w2"
  by (auto simp: grows_def max_def split: if_splits)

lemma grows_mono: "grows b w w' \<Longrightarrow> b \<le> c \<Longrightarrow> grows c w w'"
  by (auto simp: grows_def max_def split: if_splits)

lemma grows_put:
  assumes "stream_codec wr rd enc" and ok: "cw_ok (dw_stream w)" and p: "put_with wr w x = Some w'" and c: "length (enc x) \<le> c"
  shows "grows c w w'"
proof -
  have a: "dw_append w (enc x) w'" using put_with_ok [OF assms(1) ok, of x] p by auto
  then have "length (cw_bytes (dw_stream w')) = length (cw_bytes (dw_stream w)) + length (enc x)" by (simp add: dw_append_def)
  moreover have len: "length (cw_bytes (dw_stream v)) = pos v" if "cw_ok (dw_stream v)" for v using that by (simp add: cw_bytes_def cw_ok_def pos_def)
  moreover have ok': "cw_ok (dw_stream w')" "dw_objects w' = dw_objects w" using a by (simp_all add: dw_append_def)
  ultimately have "pos w' = pos w + length (enc x)" using len [OF ok] len [OF ok'(1)] by simp
  moreover have "grew (dw_stream w) (dw_stream w')"
    using p stream_codec.write_grew [OF assms(1)] by (auto simp: put_with_def)
  ultimately show ?thesis using ok' c by (auto simp: grows_def grew_def pot_def pos_def max_def split: if_splits)
qed

lemma grows_int: "cw_ok (dw_stream w) \<Longrightarrow> put_with write_int w x = Some w' \<Longrightarrow> grows 5 w w'"
  by (rule grows_put [OF int_codec.stream_codec_axioms]) (simp_all add: enc_int_length)

lemma grows_recorder: "grows c (w\<lparr>dw_recorder := r\<rparr>) w' = grows c w w'"
  by (simp add: grows_def pos_def pot_def)

lemma grows_table:
  assumes "cw_ok (dw_stream w)" and "write_handle non_oop w h = Some w' \<or> write_metadata non_oop w h = Some w'"
  shows "grows 5 w w'"
proof -
  from assms(2) obtain i r where p: "put_with write_int (w\<lparr>dw_recorder := r\<rparr>) (of_nat i) = Some w'"
    by (auto simp: write_handle_def write_metadata_def split: Option.bind_split_asm)
  then show ?thesis using grows_int [OF _ p] assms(1) unfolding grows_recorder by simp
qed

text \<open>A tag and what follows it.\<close>

lemma grows_tagged:
  assumes ok: "cw_ok (dw_stream w)" and w: "do { w1 \<leftarrow> put_with write_int w k; f w1 } = Some w'"
    and f: "\<And>w1. cw_ok (dw_stream w1) \<Longrightarrow> f w1 = Some w' \<Longrightarrow> grows 10 w1 w'"
  shows "grows 20 w w'"
proof -
  from w obtain w1 where w1: "put_with write_int w k = Some w1" "f w1 = Some w'" by (auto split: Option.bind_split_asm)
  have g: "grows 5 w w1" by (rule grows_int [OF ok w1(1)])
  from grows_trans [OF g f [OF grows_ok [OF g] w1(2)]] show ?thesis by (rule grows_mono) simp
qed

lemma grows_values:
  assumes wr: "\<And>w v w'. cw_ok (dw_stream w) \<Longrightarrow> wr w v = Some w' \<Longrightarrow> grows 20 w w'"
  shows "cw_ok (dw_stream w) \<Longrightarrow> write_values wr w vs = Some w' \<Longrightarrow> grows (20 * length vs) w w'"
proof (induction vs arbitrary: w)
  case Nil
  then show ?case by (simp add: grows_def)
next
  case (Cons v vs)
  then obtain w1 where w1: "wr w v = Some w1" "write_values wr w1 vs = Some w'" by (auto split: Option.bind_split_asm)
  have g: "grows 20 w w1" by (rule wr [OF Cons.prems(1) w1(1)])
  from grows_trans [OF g Cons.IH [OF grows_ok [OF g] w1(2)]] show ?case by simp
qed

lemma pot_visit:
  assumes a: "a < length (dw_objects w)" and v: "\<not> ov_visited (dw_objects w ! a)"
  shows "pot (visit a w) + 20 * (2 + length (ov_field_values (dw_objects w ! a))) = pot w" and "pos (visit a w) = pos w" and "dw_stream (visit a w) = dw_stream w"
proof -
  let ?f = "to_come"
  have z: "to_come (ov\<lparr>ov_visited := True\<rparr>) = 0" for ov by (simp add: to_come_def)
  have "pot (visit a w) = sum_list ((map ?f (dw_objects w))[a := 0])" by (simp add: pot_def visit_def map_update z)
  also have "\<dots> = pot w - ?f (dw_objects w ! a)" using a by (simp add: sum_list_update pot_def)
  finally have "pot (visit a w) = pot w - ?f (dw_objects w ! a)" .
  moreover have "?f (dw_objects w ! a) \<le> pot w" using a unfolding pot_def by (intro member_le_sum_list) simp_all
  ultimately show "pot (visit a w) + 20 * (2 + length (ov_field_values (dw_objects w ! a))) = pot w" using v by (simp add: to_come_def)
  show "pos (visit a w) = pos w" "dw_stream (visit a w) = dw_stream w" by (simp_all add: pos_def visit_def)
qed

lemma grows_object:
  assumes wr: "\<And>w v w'. cw_ok (dw_stream w) \<Longrightarrow> wr w v = Some w' \<Longrightarrow> grows 20 w w'" and ok: "cw_ok (dw_stream w)" and o: "object_write_on wr w a = Some w'"
  shows "grows 20 w w'"
proof (cases "ov_visited (dw_objects w ! a)")
  case True
  then have "do { w1 \<leftarrow> put_with write_int w OBJECT_ID_CODE; put_with write_int w1 (ov_id (dw_objects w ! a)) } = Some w'"
    using o by (auto simp: object_write_on_def split: if_split_asm)
  then show ?thesis by (rule grows_tagged [OF ok]) (rule grows_mono [OF grows_int], simp_all)
next
  case False
  let ?ov = "dw_objects w ! a"
  have a: "a < length (dw_objects w)" using o by (simp add: object_write_on_def split: if_split_asm)
  obtain c w1 w2 k w3 b w4 w5 where s: "put_with write_int (visit a w) c = Some w1" "put_with write_int w1 (ov_id ?ov) = Some w2" "wr w2 k = Some w3" "wr w3 b = Some w4"
    "put_with write_int w4 (of_nat (length (ov_field_values ?ov))) = Some w5" "write_values wr w5 (ov_field_values ?ov) = Some w'"
    using o a False by (auto simp: object_write_on_def visit_def [symmetric] Let_def split: Option.bind_split_asm)
  note p = pot_visit [OF a False]
  have g1: "grows 5 (visit a w) w1" using grows_int [OF _ s(1)] ok p(3) by simp
  have g2: "grows 5 w1 w2" by (rule grows_int [OF grows_ok [OF g1] s(2)])
  have g3: "grows 20 w2 w3" by (rule wr [OF grows_ok [OF g2] s(3)])
  have g4: "grows 20 w3 w4" by (rule wr [OF grows_ok [OF g3] s(4)])
  have g5: "grows 5 w4 w5" by (rule grows_int [OF grows_ok [OF g4] s(5)])
  have g6: "grows (20 * length (ov_field_values ?ov)) w5 w'" by (rule grows_values [OF wr grows_ok [OF g5] s(6)])
  have "grows (5 + (5 + (20 + (20 + (5 + 20 * length (ov_field_values ?ov)))))) (visit a w) w'"
    by (rule grows_trans [OF g1 grows_trans [OF g2 grows_trans [OF g3 grows_trans [OF g4 grows_trans [OF g5 g6]]]]])
  then show ?thesis using p by (auto simp: grows_def max_def split: if_splits)
qed

lemma grows_write_on: "cw_ok (dw_stream w) \<Longrightarrow> write_on fuel non_oop w v = Some w' \<Longrightarrow> grows 20 w w'"
proof (induction fuel arbitrary: w v w')
  case (Suc fuel)
  note ok = Suc.prems(1)
  note tag = grows_tagged [OF ok, where w' = w']
  have five: "grows 10 w1 w'" if "grows 5 w1 w'" for w1 using grows_mono [OF that] by simp
  show ?case
  proof (cases v)
    case (LocationValue l)
    with Suc.prems(2) show ?thesis
      by (auto simp: location_value_write_on_def intro!: tag five grows_put [OF location_codec.stream_codec_axioms] simp: enc_int_length)
  next
    case MarkerValue
    with Suc.prems(2) show ?thesis using grows_mono [OF grows_int [OF ok]] by (simp add: marker_value_write_on_def)
  next
    case (ObjectValue a)
    with Suc show ?thesis using grows_object [of "write_on fuel non_oop"] by simp
  next
    case (ConstantIntValue i)
    with Suc.prems(2) show ?thesis
      by (auto simp: constant_int_write_on_def intro!: tag five grows_put [OF signed_codec.stream_codec_axioms] simp: enc_int_length)
  next
    case (ConstantLongValue i)
    have "length (enc_int x) + length (enc_int y) \<le> 10" for x y using enc_int_length(2) [of x] enc_int_length(2) [of y] by simp
    with ConstantLongValue Suc.prems(2) show ?thesis
      by (auto simp: constant_long_write_on_def intro!: tag grows_put [OF long_codec.stream_codec_axioms])
  next
    case (ConstantDoubleValue d)
    have "length (enc_int x) + length (enc_int y) \<le> 10" for x y using enc_int_length(2) [of x] enc_int_length(2) [of y] by simp
    with ConstantDoubleValue Suc.prems(2) show ?thesis
      by (auto simp: constant_double_write_on_def intro!: tag grows_put [OF double_codec.stream_codec_axioms])
  next
    case (ConstantOopWriteValue h)
    with Suc.prems(2) show ?thesis by (auto simp: constant_oop_write_on_def intro!: tag five grows_table)
  qed (use Suc.prems(2) in simp)
qed simp

end
