(* ===== verification/DebugInfo_RoundTrip.thy ===== *)
theory DebugInfo_RoundTrip
  imports DebugInfo_Size
begin

text \<open>
  Objects: a reference to an object written before is found in the pool, and an object written for
  the first time is added to it.  By induction on the number of objects not yet written, every value
  is read back, and so are lists of values and monitors.
\<close>

section \<open>An object written before\<close>

lemma find_in_pool_ok:
  "distinct (map ov_id pool) \<Longrightarrow> i < n \<Longrightarrow> n \<le> length pool \<Longrightarrow> find_in_pool pool (ov_id (pool ! i)) n = Some i"
proof (induction n)
  case (Suc n)
  then have "ov_id (pool ! n) = ov_id (pool ! i) \<longleftrightarrow> n = i"
    using nth_eq_iff_index_eq [of "map ov_id pool" n i] by simp
  then show ?case using Suc by auto
qed simp

lemma visited_object:
  assumes inv: "winv non_oop objs w" and a: "a < length objs" "a \<in> dw_visited w"
  shows "\<exists>w' bs. write_on (Suc n) non_oop w (ObjectValue a) = Some w' \<and> wstep non_oop objs w 1 bs w' \<and>
    reads_value non_oop resolve objs (read_from (Suc n)) w w' bs (ObjectValue a)"
proof -
  let ?k = OBJECT_ID_CODE and ?x = "ov_id (objs ! a)"
  obtain w' where w': "do { w1 \<leftarrow> put_with write_int w ?k; put_with write_int w1 ?x } = Some w'"
    "wstep non_oop objs w 0 (enc_int ?k @ enc_int ?x) w'" "dw_visited w' = dw_visited w"
    and rd: "\<And>r. bytes_at (dr_stream r) (enc_int ?k @ enc_int ?x) \<Longrightarrow> get_with read_int r = Some (?k, dr_advance r (length (enc_int ?k))) \<and>
       get_with read_int (dr_advance r (length (enc_int ?k))) = Some (?x, dr_advance r (length (enc_int ?k @ enc_int ?x)))"
    using plain_item [OF int_codec.stream_codec_axioms inv] by blast
  have "reads_value non_oop resolve objs (read_from (Suc n)) w w' (enc_int ?k @ enc_int ?x) (ObjectValue a)"
    unfolding reads_value_def readable_def
  proof (intro allI impI, elim conjE)
    fix r :: debug_reader and fin :: oop_recorder
    let ?r' = "dr_advance r (length (enc_int ?k @ enc_int ?x))"
    assume b: "bytes_at (dr_stream r) (enc_int ?k @ enc_int ?x)" and p: "pool_for objs w (dr_pool r)"
    have "?x \<in> set (map ov_id (dr_pool r))" using p a(2) by (auto simp: pool_for_def)
    then obtain i where i: "i < length (dr_pool r)" "ov_id (dr_pool r ! i) = ?x" by (auto simp: in_set_conv_nth)
    have "find_in_pool (dr_pool r) ?x (length (dr_pool r)) = Some i"
      using find_in_pool_ok [of "dr_pool r" i "length (dr_pool r)"] p i by (simp add: pool_for_def)
    then have "read_from (Suc n) (copy_values_to non_oop resolve fin) r = Some (ObjectValue i, ?r')"
      using rd [OF b] by (simp add: get_cached_object_def scope_codes)
    moreover have "val_rel objs (initialize_immediate_oop non_oop resolve) (map ov_id (dr_pool ?r')) (ObjectValue a) (ObjectValue i)"
      using i by (simp add: val_rel_def)
    ultimately show "\<exists>v' r' new. read_from (Suc n) (copy_values_to non_oop resolve fin) r = Some (v', r') \<and>
        rstep objs (initialize_immediate_oop non_oop resolve) w w' (enc_int ?k @ enc_int ?x) r r' (dr_pool r) new \<and>
        val_rel objs (initialize_immediate_oop non_oop resolve) (map ov_id (dr_pool r')) (ObjectValue a) v'"
      using rstep_none [OF w'(3) p] by blast
  qed
  moreover have "write_on (Suc n) non_oop w (ObjectValue a) = Some w'"
    using a w'(1) winv_objects [OF inv a(1)] by (simp add: object_write_on_def dw_visited_def Let_def)
  ultimately show ?thesis using wstep_mono [OF w'(2)] by auto
qed

section \<open>An object written for the first time\<close>

lemma pool_for_push:
  assumes p: "pool_for objs w pool" and inv: "winv non_oop objs w" and a: "a < length objs" "a \<notin> dw_visited w"
    and vis: "dw_visited w' = insert a (dw_visited w)" and x: "ov_id x = ov_id (objs ! a)"
  shows "pool_for objs w' (pool @ [x])"
proof -
  have "distinct (map ov_id objs)" using inv by (simp add: winv_def graph_ok_def)
  then have inj: "ov_id (objs ! b) = ov_id (objs ! a) \<longleftrightarrow> b = a" if "b < length objs" for b
    using nth_eq_iff_index_eq [of "map ov_id objs" b a] that a(1) by simp
  have "dw_visited w \<subseteq> {..<length objs}" using winv_objects(1) [OF inv a(1)] by (auto simp: dw_visited_def)
  then have "ov_id (objs ! a) \<notin> (\<lambda>b. ov_id (objs ! b)) ` dw_visited w" using inj a(2) by (metis imageE lessThan_iff subsetD)
  then show ?thesis using p unfolding pool_for_def by (simp add: vis x)
qed

text \<open>What \<open>ObjectValue::write_on\<close> writes for an object not visited, and the states on the way.\<close>

definition object_written :: "handle \<Rightarrow> (handle \<Rightarrow> oop) \<Rightarrow> object_value list \<Rightarrow>
    (nmethod_tables \<Rightarrow> debug_reader \<Rightarrow> (scope_value \<times> debug_reader) option) \<Rightarrow> debug_writer \<Rightarrow> nat \<Rightarrow> debug_writer \<Rightarrow> u_char list \<Rightarrow> u_char list \<Rightarrow> debug_writer \<Rightarrow> bool" where
  "object_written non_oop resolve objs rd w a wA head body w' \<longleftrightarrow>
     (\<exists>k b w1 w2 w3 bk bb bf.
        ov_klass (objs ! a) = Some k \<and> ov_base_object (objs ! a) = Some b \<and>
        head = enc_int (if ov_auto_box (objs ! a) then AUTO_BOX_OBJECT_CODE else OBJECT_CODE) @ enc_int (ov_id (objs ! a)) \<and>
        dw_visited wA = insert a (dw_visited w) \<and>
        body = bk @ bb @ enc_int (of_nat (length (ov_field_values (objs ! a)))) @ bf \<and>
        reads_value non_oop resolve objs rd wA w1 bk k \<and> wstep non_oop objs wA 1 bk w1 \<and>
        reads_value non_oop resolve objs rd w1 w2 bb b \<and> wstep non_oop objs w1 1 bb w2 \<and>
        dw_append w2 (enc_int (of_nat (length (ov_field_values (objs ! a))))) w3 \<and>
        reads_values non_oop resolve objs rd w3 w' bf (ov_field_values (objs ! a)) \<and>
        wstep non_oop objs w3 (length (ov_field_values (objs ! a))) bf w')"

lemma wstep_winv: "wstep non_oop objs w k bs w' \<Longrightarrow> winv non_oop objs w'"
  by (simp add: wstep_def)

lemma item_codecD:
  assumes "item_codec non_oop resolve objs c wr rd" and "winv non_oop objs w" and "val_ok non_oop (length objs) v"
    and "card (todo objs w) \<le> c" and "load objs w + 1 < 2 ^ 30"
  shows "\<exists>w' bs. wr w v = Some w' \<and> wstep non_oop objs w 1 bs w' \<and> reads_value non_oop resolve objs rd w w' bs v"
  using assms unfolding item_codec_def by blast

lemma object_write_ok:
  assumes codec: "item_codec non_oop resolve objs c wr rd" and inv: "winv non_oop objs w" and a: "a < length objs" "a \<notin> dw_visited w"
    and c: "card (todo objs w) \<le> Suc c" and fit: "load objs w + 1 < 2 ^ 30"
  shows "\<exists>wA head body w'. object_write_on wr w a = Some w' \<and> wstep non_oop objs w 1 (head @ body) w' \<and>
    object_written non_oop resolve objs rd w a wA head body w'"
proof -
  let ?ov = "objs ! a" and ?fs = "ov_field_values (objs ! a)"
  let ?code = "if ov_auto_box ?ov then AUTO_BOX_OBJECT_CODE else OBJECT_CODE"
  note ob = winv_objects [OF inv a(1)] and vis = visit_ok [OF inv a]
  have nv: "\<not> ov_visited (dw_objects w ! a)" using a ob(1) by (simp add: dw_visited_def)
  have "ov_ok non_oop (length objs) ?ov" using inv a(1) by (simp add: winv_def graph_ok_def list_all_length)
  then obtain k b where kb: "ov_klass ?ov = Some k" "ov_base_object ?ov = Some b" "val_ok non_oop (length objs) k"
    "val_ok non_oop (length objs) b" "list_all (val_ok non_oop (length objs)) ?fs" by (auto simp: ov_ok_def)
  obtain u1 where u1: "put_with write_int (visit a w) ?code = Some u1" "dw_append (visit a w) (enc_int ?code) u1" "winv non_oop objs u1"
    using winv_put [OF int_codec.stream_codec_axioms vis(1)] by blast
  obtain wA where wA: "put_with write_int u1 (ov_id ?ov) = Some wA" "dw_append u1 (enc_int (ov_id ?ov)) wA" "winv non_oop objs wA"
    using winv_put [OF int_codec.stream_codec_axioms u1(3)] by blast
  have A: "dw_visited wA = insert a (dw_visited w)" "card (todo objs wA) \<le> c" "load objs wA + 2 + length ?fs = load objs w"
    using dw_append_same [OF u1(2)] dw_append_same [OF wA(2)] vis(2-4) c by simp_all
  obtain w1 bk where w1: "wr wA k = Some w1" "wstep non_oop objs wA 1 bk w1" "reads_value non_oop resolve objs rd wA w1 bk k"
    using item_codecD [OF codec wA(3) kb(3) A(2)] A(3) fit by auto
  have c1: "winv non_oop objs w1" "card (todo objs w1) \<le> c" "load objs w1 + 1 < 2 ^ 30"
    using w1(2) A fit card_todo_mono [of wA w1 objs] by (auto simp: wstep_def)
  obtain w2 bb where w2: "wr w1 b = Some w2" "wstep non_oop objs w1 1 bb w2" "reads_value non_oop resolve objs rd w1 w2 bb b"
    using item_codecD [OF codec c1(1) kb(4) c1(2,3)] by blast
  obtain w3 where w3: "put_with write_int w2 (of_nat (length ?fs)) = Some w3" "dw_append w2 (enc_int (of_nat (length ?fs))) w3"
    "wstep non_oop objs w2 0 (enc_int (of_nat (length ?fs))) w3" "winv non_oop objs w3"
    using winv_put [OF int_codec.stream_codec_axioms wstep_winv [OF w2(2)]] by blast
  have s3: "wstep non_oop objs wA 2 (bk @ bb @ enc_int (of_nat (length ?fs))) w3" using wstep_trans [OF w1(2) wstep_trans [OF w2(2) w3(3)]] by (simp add: numeral_2_eq_2)
  have c3: "card (todo objs w3) \<le> c" "load objs w3 + length ?fs < 2 ^ 30"
    using s3 A fit card_todo_mono [of wA w3 objs] by (auto simp: wstep_def)
  obtain w' bf where w': "write_values wr w3 ?fs = Some w'" "wstep non_oop objs w3 (length ?fs) bf w'"
    "reads_values non_oop resolve objs rd w3 w' bf ?fs" using values_codec [OF codec w3(4) kb(5) c3] by blast
  have s: "wstep non_oop objs wA (2 + length ?fs) (bk @ bb @ enc_int (of_nat (length ?fs)) @ bf) w'" using wstep_trans [OF s3 w'(2)] by simp
  have "wstep non_oop objs w 1 ((enc_int ?code @ enc_int (ov_id ?ov)) @ bk @ bb @ enc_int (of_nat (length ?fs)) @ bf) w'"
    using s A u1(2) wA(2) unfolding wstep_def dw_append_def by (auto simp: visit_def)
  moreover have "object_write_on wr w a = Some w'"
    using a(1) ob nv kb(1,2) u1(1) wA(1) w1(1) w2(1) w3(1) w'(1) by (simp add: object_write_on_def Let_def visit_def)
  ultimately show ?thesis unfolding object_written_def
    using kb(1,2) A(1) w1(2,3) w2(2,3) w3(2) w'(2,3) by blast
qed

lemma object_read_ok:
  fixes objs :: "object_value list" and resolve :: "handle \<Rightarrow> oop"
  assumes wr: "object_written non_oop resolve objs (read_from n) w a wA head body w'" and inv: "winv non_oop objs w"
    and a: "a < length objs" "a \<notin> dw_visited w" and fit: "length (ov_field_values (objs ! a)) < 2 ^ 30"
  shows "reads_value non_oop resolve objs (read_from (Suc n)) w w' (head @ body) (ObjectValue a)"
  unfolding reads_value_def readable_def
proof (intro allI impI, elim conjE)
  fix r :: debug_reader and fin :: oop_recorder
  let ?code = "if ov_auto_box (objs ! a) then AUTO_BOX_OBJECT_CODE else OBJECT_CODE" and ?oid = "ov_id (objs ! a)"
  let ?nm = "copy_values_to non_oop resolve fin" and ?imm = "initialize_immediate_oop non_oop resolve"
  let ?x = "new_object_value ?oid (ov_auto_box (objs ! a))" and ?p = "length (dr_pool r)"
  assume bt: "bytes_at (dr_stream r) (head @ body)" and p: "pool_for objs w (dr_pool r)" and l: "rec_later non_oop (dw_recorder w') fin"
  obtain k b w1 w2 w3 bk bb bf where ov: "ov_klass (objs ! a) = Some k" "ov_base_object (objs ! a) = Some b"
    and head: "head = enc_int ?code @ enc_int ?oid" and vis: "dw_visited wA = insert a (dw_visited w)"
    and body: "body = bk @ bb @ enc_int (of_nat (length (ov_field_values (objs ! a)))) @ bf"
    and k: "reads_value non_oop resolve objs (read_from n) wA w1 bk k" "wstep non_oop objs wA 1 bk w1"
    and b: "reads_value non_oop resolve objs (read_from n) w1 w2 bb b" "wstep non_oop objs w1 1 bb w2"
    and len: "dw_append w2 (enc_int (of_nat (length (ov_field_values (objs ! a))))) w3"
    and f: "reads_values non_oop resolve objs (read_from n) w3 w' bf (ov_field_values (objs ! a))"
      "wstep non_oop objs w3 (length (ov_field_values (objs ! a))) bf w'"
    using wr unfolding object_written_def by blast
  define r1 where "r1 = dr_advance r (length (enc_int ?code))"
  define r2 where "r2 = (dr_advance r (length head))\<lparr>dr_pool := dr_pool r @ [?x]\<rparr>"
  have g1: "get_with read_int r = Some (?code, r1)" using bt get_int unfolding r1_def head append_assoc bytes_at_append by blast
  have g2: "get_with read_int r1 = Some (?oid, dr_advance r (length head))"
    using bt get_int [of r1 ?oid] unfolding head append_assoc bytes_at_append by (simp add: r1_def)
  have b2: "bytes_at (dr_stream r2) body" using bt by (simp add: r2_def bytes_at_append)
  have p2: "pool_for objs wA (dr_pool r2)" using pool_for_push [OF p inv a vis] by (simp add: r2_def new_object_value_def)
  obtain k' b' vs' r3 new where r3: "read_object (read_from n ?nm) ?p r2 = Some r3"
    "rstep objs ?imm wA w' body r2 r3 ((dr_pool r2)[?p := (dr_pool r2 ! ?p)\<lparr>ov_klass := Some k', ov_base_object := Some b',
       ov_field_values := ov_field_values (dr_pool r2 ! ?p) @ vs'\<rparr>]) new"
    "val_rel objs ?imm (map ov_id (dr_pool r3)) k k'" "val_rel objs ?imm (map ov_id (dr_pool r3)) b b'"
    "list_all2 (val_rel objs ?imm (map ov_id (dr_pool r3))) (ov_field_values (objs ! a)) vs'"
    using read_object_ok [OF k b len fit f b2 [unfolded body] p2 l, of ?p, folded body] by (auto simp: r2_def)
  define y where "y = ?x\<lparr>ov_klass := Some k', ov_base_object := Some b', ov_field_values := vs'\<rparr>"
  have pool: "dr_pool r3 = dr_pool r @ y # new" using r3(2) by (simp add: rstep_def r2_def y_def new_object_value_def)
  have y: "obj_rel objs ?imm (map ov_id (dr_pool r3)) (objs ! a) y"
    using r3(3-5) ov by (simp add: obj_rel_def y_def new_object_value_def)
  have sub: "dw_visited wA \<subseteq> dw_visited w'"
    using k(2) b(2) f(2) dw_append_same(1) [OF len] by (auto simp: wstep_def)
  have st: "added objs ?imm wA w' (map ov_id (dr_pool r3)) new" "pool_for objs w' (dr_pool r3)"
    "dr_stream r3 = advance (dr_stream r2) (length body)" using r3(2) unfolding rstep_def by blast+
  have "added objs ?imm w w' (map ov_id (dr_pool r3)) (y # new)"
    using st(1) y a(2) sub unfolding added_def vis by auto
  then have "rstep objs ?imm w w' (head @ body) r r3 (dr_pool r) (y # new)"
    using st(2,3) pool unfolding rstep_def by (simp add: r2_def)
  moreover have "val_rel objs ?imm (map ov_id (dr_pool r3)) (ObjectValue a) (ObjectValue ?p)"
    unfolding pool by (simp add: val_rel_def nth_append y_def new_object_value_def)
  moreover have "read_from (Suc n) ?nm r = Some (ObjectValue ?p, r3)"
    using g1 g2 r3(1) by (auto simp: read_object_value_def r2_def scope_codes Let_def split: if_splits)
  ultimately show "\<exists>v' r' new. read_from (Suc n) ?nm r = Some (v', r') \<and> rstep objs ?imm w w' (head @ body) r r' (dr_pool r) new \<and>
      val_rel objs ?imm (map ov_id (dr_pool r')) (ObjectValue a) v'" by blast
qed

section \<open>Every value\<close>

lemma new_object:
  assumes codec: "item_codec non_oop resolve objs c (write_on n non_oop) (read_from n)" and inv: "winv non_oop objs w"
    and a: "a < length objs" "a \<notin> dw_visited w" and c: "card (todo objs w) \<le> Suc c" and fit: "load objs w + 1 < 2 ^ 30"
  shows "\<exists>w' bs. write_on (Suc n) non_oop w (ObjectValue a) = Some w' \<and> wstep non_oop objs w 1 bs w' \<and>
    reads_value non_oop resolve objs (read_from (Suc n)) w w' bs (ObjectValue a)"
proof -
  have "length (ov_field_values (objs ! a)) < 2 ^ 30" using visit_ok(4) [OF inv a] fit by simp
  then show ?thesis using object_write_ok [OF codec inv a c fit] object_read_ok [OF _ inv a] by fastforce
qed

lemma marker_value:
  assumes inv: "winv non_oop objs w"
  shows "\<exists>w' bs. write_on (Suc n) non_oop w MarkerValue = Some w' \<and> wstep non_oop objs w 1 bs w' \<and>
    reads_value non_oop resolve objs (read_from (Suc n)) w w' bs MarkerValue"
proof -
  obtain w' where w': "put_with write_int w MARKER_CODE = Some w'" "dw_append w (enc_int MARKER_CODE) w'" "wstep non_oop objs w 0 (enc_int MARKER_CODE) w'"
    using winv_put [OF int_codec.stream_codec_axioms inv] by blast
  have "reads_value non_oop resolve objs (read_from (Suc n)) w w' (enc_int MARKER_CODE) MarkerValue"
    unfolding reads_value_def readable_def
  proof (intro allI impI, elim conjE)
    fix r :: debug_reader and fin :: oop_recorder
    let ?r' = "dr_advance r (length (enc_int MARKER_CODE))"
    assume b: "bytes_at (dr_stream r) (enc_int MARKER_CODE)" and p: "pool_for objs w (dr_pool r)"
    have "read_from (Suc n) (copy_values_to non_oop resolve fin) r = Some (MarkerValue, ?r')" using get_int [OF b] by (simp add: scope_codes)
    moreover have "val_rel objs (initialize_immediate_oop non_oop resolve) ids MarkerValue MarkerValue" for ids by (simp add: val_rel_def)
    ultimately show "\<exists>v' r' new. read_from (Suc n) (copy_values_to non_oop resolve fin) r = Some (v', r') \<and>
        rstep objs (initialize_immediate_oop non_oop resolve) w w' (enc_int MARKER_CODE) r r' (dr_pool r) new \<and>
        val_rel objs (initialize_immediate_oop non_oop resolve) (map ov_id (dr_pool r')) MarkerValue v'"
      using rstep_none [OF dw_append_same(1) [OF w'(2)] p] by blast
  qed
  then show ?thesis using w'(1) wstep_mono [OF w'(3)] by (auto simp: marker_value_write_on_def)
qed

lemma value_codec:
  assumes inv: "winv non_oop objs w" and v: "val_ok non_oop (length objs) v" and fit: "load objs w + 1 < 2 ^ 30"
    and obj: "\<And>a. v = ObjectValue a \<Longrightarrow> a < length objs \<Longrightarrow> a \<notin> dw_visited w \<Longrightarrow>
      \<exists>w' bs. write_on (Suc n) non_oop w v = Some w' \<and> wstep non_oop objs w 1 bs w' \<and>
        reads_value non_oop resolve objs (read_from (Suc n)) w w' bs v"
  shows "\<exists>w' bs. write_on (Suc n) non_oop w v = Some w' \<and> wstep non_oop objs w 1 bs w' \<and>
    reads_value non_oop resolve objs (read_from (Suc n)) w w' bs v"
proof (cases v)
  case (LocationValue l)
  then show ?thesis
    by (intro plain_value [OF location_codec.stream_codec_axioms inv, where x = l and k = LOCATION_CODE])
      (simp_all add: value_write_defs value_read_defs scope_codes val_rel_def)
next
  case (ConstantIntValue i)
  then show ?thesis
    by (intro plain_value [OF signed_codec.stream_codec_axioms inv, where x = i and k = CONSTANT_INT_CODE])
      (simp_all add: value_write_defs value_read_defs scope_codes val_rel_def)
next
  case (ConstantLongValue i)
  then show ?thesis
    by (intro plain_value [OF long_codec.stream_codec_axioms inv, where x = i and k = CONSTANT_LONG_CODE])
      (simp_all add: value_write_defs value_read_defs scope_codes val_rel_def)
next
  case (ConstantDoubleValue d)
  then show ?thesis
    by (intro plain_value [OF double_codec.stream_codec_axioms inv, where x = d and k = CONSTANT_DOUBLE_CODE])
      (simp_all add: value_write_defs value_read_defs scope_codes val_rel_def)
next
  case MarkerValue
  then show ?thesis using marker_value [OF inv] by simp
next
  case (ConstantOopWriteValue h)
  then show ?thesis using oop_value [OF inv _ fit] v by (simp add: val_ok_def)
next
  case (ConstantOopReadValue x)
  then show ?thesis using v by (simp add: val_ok_def)
next
  case (ObjectValue a)
  then show ?thesis using visited_object [OF inv] obj v by (cases "a \<in> dw_visited w") (auto simp: val_ok_def)
qed

text \<open>One more unit of fuel than there are objects is enough.\<close>

lemma write_on_codec: "item_codec non_oop resolve objs n (write_on (Suc n) non_oop) (read_from (Suc n))"
proof (induction n)
  case 0
  have "a \<in> dw_visited w" if "card (todo objs w) \<le> 0" "a < length objs" for a w
    using that by (auto simp: todo_def)
  then show ?case unfolding item_codec_def using value_codec by blast
next
  case (Suc n)
  show ?case unfolding item_codec_def using value_codec new_object [OF Suc] by blast
qed

section \<open>The round trip\<close>

lemma read_values_loop: "read_values rd n r = read_loop rd (\<lambda>v x. x) a n r"
  by (induction n arbitrary: r) (auto simp: split: Option.bind_split)

lemma write_values_ok:
  assumes "winv non_oop objs w" and "list_all (val_ok non_oop (length objs)) vs" and "length objs < fuel"
    and "load objs w + length vs < 2 ^ 30"
  shows "\<exists>w' bs. write_values (write_on fuel non_oop) w vs = Some w' \<and> wstep non_oop objs w (length vs) bs w' \<and>
    reads_values non_oop resolve objs (read_from fuel) w w' bs vs"
proof -
  obtain n where n: "fuel = Suc n" "length objs \<le> n" using assms(3) by (cases fuel) auto
  have "card (todo objs w) \<le> card {..<length objs}" by (rule card_mono) (auto simp: todo_def)
  then show ?thesis using values_codec [OF write_on_codec assms(1,2) _ assms(4)] n by auto
qed

lemma reads_valuesD:
  assumes "reads_values non_oop resolve objs rd w w' bs vs" and "readable non_oop objs w w' bs r fin"
  shows "\<exists>vs' r' new. read_values (rd (copy_values_to non_oop resolve fin)) (length vs) r = Some (vs', r') \<and>
    rstep objs (initialize_immediate_oop non_oop resolve) w w' bs r r' (dr_pool r) new \<and>
    list_all2 (val_rel objs (initialize_immediate_oop non_oop resolve) (map ov_id (dr_pool r'))) vs vs'"
proof -
  have f: "fold (\<lambda>v x. x) xs y = y" for xs :: "scope_value list" and y :: object_value by (induction xs) auto
  show ?thesis using assms(1) [unfolded reads_values_def, rule_format, OF assms(2), of "\<lambda>v x. x" 0]
    unfolding read_values_loop [where a = 0] f list_update_id by blast
qed

lemma cw_bytes_at:
  assumes "cw_ok s" and "cw_ok s'" and "cw_bytes s' = cw_bytes s @ bs"
  shows "bytes_at \<lparr>cr_buffer = cw_buffer s', cr_position = cw_position s\<rparr> bs"
proof -
  have "length (cw_bytes s) = cw_position s" using assms(1) by (simp add: cw_bytes_def cw_ok_def)
  moreover have "cw_buffer s' = (cw_bytes s @ bs) @ drop (cw_position s') (cw_buffer s')"
    unfolding assms(3) [symmetric] by (simp add: cw_bytes_def)
  ultimately have "drop (cw_position s) (cw_buffer s') = bs @ drop (cw_position s') (cw_buffer s')"
    by (metis append_assoc append_eq_conv_conj)
  then show ?thesis by (auto simp: bytes_at_def)
qed

lemma rec_later_freeze: "rec_later non_oop r (or_freeze r)"
  by (simp add: rec_later_def or_freeze_def vr_later_def vr_size_def vr_list_def vr_findable_def [abs_def] vr_hidden_def split: option.split)

lemma rec_new: "rec_ok non_oop (new_oop_recorder arena)" "rec_used (new_oop_recorder arena) = 0"
  by (simp_all add: rec_ok_def new_oop_recorder_def vr_ok_new rec_used_def) (simp add: new_value_recorder_def vr_list_def)

lemma load_new:
  assumes "\<forall>ov \<in> set objs. \<not> ov_visited ov"
  shows "load objs (new_debug_writer n objs (new_oop_recorder arena)) = (\<Sum>ov \<leftarrow> objs. 2 + length (ov_field_values ov))"
    and "dw_visited (new_debug_writer n objs (new_oop_recorder arena)) = {}"
proof -
  show vis: "dw_visited (new_debug_writer n objs (new_oop_recorder arena)) = {}"
    using assms nth_mem by (fastforce simp: dw_visited_def new_debug_writer_def)
  then have "todo objs (new_debug_writer n objs (new_oop_recorder arena)) = {0..<length objs}" by (auto simp: todo_def)
  then show "load objs (new_debug_writer n objs (new_oop_recorder arena)) = (\<Sum>ov \<leftarrow> objs. 2 + length (ov_field_values ov))"
    by (simp add: load_def new_debug_writer_def rec_new sum_list_sum_nth del: sum.op_ivl_Suc)
qed

lemma write_values_bound:
  assumes new: "\<forall>ov \<in> set objs. \<not> ov_visited ov" and size: "0 < n" "n < 2 ^ 31"
    and fit: "length vs + (\<Sum>ov \<leftarrow> objs. 2 + length (ov_field_values ov)) < 2 ^ 25"
    and w: "write_values (write_on fuel non_oop) (new_debug_writer n objs rec) vs = Some w'"
  shows "cw_position (dw_stream w') \<le> 20 * (length vs + (\<Sum>ov \<leftarrow> objs. 2 + length (ov_field_values ov)))"
    and "cw_size (dw_stream w') < 2 ^ 31"
proof -
  let ?w = "new_debug_writer n objs rec" and ?k = "\<Sum>ov \<leftarrow> objs. 2 + length (ov_field_values ov)"
  have ok: "cw_ok (dw_stream ?w)" and z: "pos ?w = 0" "cw_size (dw_stream ?w) = n"
    using size(1) by (simp_all add: new_debug_writer_def cw_ok_def new_write_stream_def pos_def)
  have "map to_come objs = map (\<lambda>ov. 20 * (2 + length (ov_field_values ov))) objs"
    using new by (simp add: to_come_def)
  then have "pot ?w = (\<Sum>ov \<leftarrow> objs. 20 * (2 + length (ov_field_values ov)))"
    by (simp only: pot_def new_debug_writer_def debug_writer.simps)
  then have p: "pot ?w = 20 * ?k" by (simp only: sum_list_const_mult)
  have "grows (20 * length vs) ?w w'" by (rule grows_values [OF grows_write_on ok w])
  then have g: "pos w' + pot w' \<le> 20 * ?k + 20 * length vs" "cw_size (dw_stream w') \<le> max n (2 * (20 * ?k + 20 * length vs))"
    by (simp_all add: grows_def z p)
  then show "cw_position (dw_stream w') \<le> 20 * (length vs + ?k)" by (simp add: pos_def)
  have "2 * (20 * ?k + 20 * length vs) < 2 ^ 31" using fit by simp
  then show "cw_size (dw_stream w') < 2 ^ 31" using g(2) size(2) by linarith
qed

text \<open>
  C12: Debugging information is read back.  Let \<open>objs\<close> be objects removed by escape analysis, with
  distinct ids and with fields that may refer to any of them, cycles and sharing included, and
  \<open>vs\<close> values that may refer to them.  Writing \<open>vs\<close> to a new stream succeeds, and reading as many values
  from its bytes, with the tables of the compiled method that the recorder of handles fills, gives
  the values back: constants, locations and markers as they were, a handle as the object it was
  resolved to, a reference as a reference to the object of the pool with the same id.  The ids of the
  pool are distinct, and every object of the pool has the id, the kind, the class, the base object
  and the field values of one that was written.  Fuel beyond the number of objects is enough.  The
  bound on the number of values and fields keeps the indexes of handles within the range of the cache,
  the bytes written to at most twenty per value, and the size of the buffer below \<open>2^31\<close>, so that no
  \<open>int\<close> of the stream overflows.
\<close>

theorem debug_info_roundtrip:
  fixes resolve :: "handle \<Rightarrow> oop" and non_oop :: handle
  defines "imm \<equiv> initialize_immediate_oop non_oop resolve"
  assumes graph: "graph_ok non_oop objs" "\<forall>ov \<in> set objs. \<not> ov_visited ov" and vs: "list_all (val_ok non_oop (length objs)) vs"
    and fit: "length vs + (\<Sum>ov \<leftarrow> objs. 2 + length (ov_field_values ov)) < 2 ^ 25" and fuel: "length objs < fuel"
    and size: "0 < initial_size" "initial_size < 2 ^ 31"
  shows "\<exists>w' vs' r'. write_values (write_on fuel non_oop) (new_debug_writer initial_size objs (new_oop_recorder arena)) vs = Some w' \<and>
    read_values (read_from fuel (copy_values_to non_oop resolve (or_freeze (dw_recorder w')))) (length vs)
      \<lparr>dr_stream = \<lparr>cr_buffer = cw_buffer (dw_stream w'), cr_position = 0\<rparr>, dr_pool = []\<rparr> = Some (vs', r') \<and>
    cr_position (dr_stream r') = cw_position (dw_stream w') \<and>
    cw_position (dw_stream w') \<le> 20 * (length vs + (\<Sum>ov \<leftarrow> objs. 2 + length (ov_field_values ov))) \<and>
    cw_size (dw_stream w') < 2 ^ 31 \<and>
    list_all2 (val_rel objs imm (map ov_id (dr_pool r'))) vs vs' \<and> distinct (map ov_id (dr_pool r')) \<and>
    (\<forall>ov' \<in> set (dr_pool r'). \<exists>ov \<in> set objs. obj_rel objs imm (map ov_id (dr_pool r')) ov ov')"
proof -
  define w where "w = new_debug_writer initial_size objs (new_oop_recorder arena)"
  have inv: "winv non_oop objs w" and ok: "cw_ok (dw_stream w)" and pos: "cw_position (dw_stream w) = 0" "cw_bytes (dw_stream w) = []"
    using graph(1) size(1) by (simp_all add: w_def winv_def new_debug_writer_def rec_new cw_ok_def new_write_stream_def cw_bytes_def)
  have "load objs w + length vs < 2 ^ 30" using fit load_new(1) [OF graph(2)] by (simp add: w_def)
  then obtain w' bs where w': "write_values (write_on fuel non_oop) w vs = Some w'" "wstep non_oop objs w (length vs) bs w'"
    "reads_values non_oop resolve objs (read_from fuel) w w' bs vs"
    using write_values_ok [OF inv vs fuel] by blast
  let ?r = "\<lparr>dr_stream = \<lparr>cr_buffer = cw_buffer (dw_stream w'), cr_position = 0\<rparr>, dr_pool = []\<rparr>"
  have ok': "cw_ok (dw_stream w')" "cw_bytes (dw_stream w') = bs" using w'(2) pos by (simp_all add: wstep_def winv_def)
  then have "bytes_at (dr_stream ?r) bs" using cw_bytes_at [OF ok, of "dw_stream w'" bs] pos by simp
  moreover have "pool_for objs w []" using load_new(2) [OF graph(2)] by (simp add: pool_for_def w_def)
  ultimately have "readable non_oop objs w w' bs ?r (or_freeze (dw_recorder w'))"
    by (simp add: readable_def rec_later_freeze)
  from reads_valuesD [OF w'(3) this] obtain vs' r' new where r':
    "read_values (read_from fuel (copy_values_to non_oop resolve (or_freeze (dw_recorder w')))) (length vs) ?r = Some (vs', r')"
    and step: "rstep objs imm w w' bs ?r r' [] new" and vs': "list_all2 (val_rel objs imm (map ov_id (dr_pool r'))) vs vs'"
    by (auto simp: imm_def)
  note bound = write_values_bound [OF graph(2) size fit w'(1) [unfolded w_def]]
  have "length bs = cw_position (dw_stream w')" using ok' by (auto simp: cw_bytes_def cw_ok_def)
  then have "cr_position (dr_stream r') = cw_position (dw_stream w')" using step by (simp add: rstep_def advance_def)
  moreover have "distinct (map ov_id (dr_pool r'))" using step unfolding rstep_def pool_for_def by blast
  moreover have "\<exists>ov \<in> set objs. obj_rel objs imm (map ov_id (dr_pool r')) ov ov'" if m: "ov' \<in> set (dr_pool r')" for ov'
  proof -
    have "map unvisit (dw_objects w') = map unvisit objs" using w'(2) by (simp add: wstep_def winv_def)
    from map_eq_imp_length_eq [OF this] have sub: "dw_visited w' \<subseteq> {..<length objs}" by (auto simp: dw_visited_def)
    have "added objs imm w w' (map ov_id (dr_pool r')) (dr_pool r')" using step unfolding rstep_def append_Nil by metis
    then obtain a where a: "a \<in> dw_visited w'" "obj_rel objs imm (map ov_id (dr_pool r')) (objs ! a) ov'"
      using m unfolding added_def by blast
    then have "objs ! a \<in> set objs" using sub by auto
    then show ?thesis using a(2) by (rule bexI [rotated])
  qed
  ultimately show ?thesis using w'(1) r' vs' bound unfolding w_def by blast
qed

theorem debug_info_roundtrip_witness:
  "\<exists>w' i r'. write_values (write_on 2 1) (new_debug_writer 4
      [\<lparr>ov_id = 7, ov_auto_box = False, ov_klass = Some (ConstantOopWriteValue 16), ov_base_object = Some MarkerValue,
        ov_field_values = [ObjectValue 0, ConstantIntValue 3], ov_visited = False\<rparr>] (new_oop_recorder True)) [ObjectValue 0, ObjectValue 0] = Some w' \<and>
    read_values (read_from 2 (copy_values_to 1 (\<lambda>h. h + 1) (or_freeze (dw_recorder w')))) 2
      \<lparr>dr_stream = \<lparr>cr_buffer = cw_buffer (dw_stream w'), cr_position = 0\<rparr>, dr_pool = []\<rparr> = Some ([ObjectValue i, ObjectValue i], r') \<and>
    i < length (dr_pool r') \<and> ov_klass (dr_pool r' ! i) = Some (ConstantOopReadValue 17) \<and>
    ov_field_values (dr_pool r' ! i) = [ObjectValue i, ConstantIntValue 3]"
proof -
  let ?ov = "\<lparr>ov_id = 7, ov_auto_box = False, ov_klass = Some (ConstantOopWriteValue 16), ov_base_object = Some MarkerValue,
        ov_field_values = [ObjectValue 0, ConstantIntValue 3], ov_visited = False\<rparr>" and ?vs = "[ObjectValue 0, ObjectValue 0]"
  let ?imm = "initialize_immediate_oop 1 (\<lambda>h. h + 1)"
  have g: "graph_ok 1 [?ov]" "\<forall>ov \<in> set [?ov]. \<not> ov_visited ov" "list_all (val_ok 1 (length [?ov])) ?vs"
    "length ?vs + (\<Sum>ov \<leftarrow> [?ov]. 2 + length (ov_field_values ov)) < 2 ^ 25" "length [?ov] < 2" "0 < (4 :: nat)" "4 < (2 :: nat) ^ 31"
    by (simp_all add: graph_ok_def ov_ok_def val_ok_def handle_ok_def is_real_def)
  obtain w' vs' r' where w': "write_values (write_on 2 1) (new_debug_writer 4 [?ov] (new_oop_recorder True)) ?vs = Some w'"
    and r': "read_values (read_from 2 (copy_values_to 1 (\<lambda>h. h + 1) (or_freeze (dw_recorder w')))) (length ?vs)
      \<lparr>dr_stream = \<lparr>cr_buffer = cw_buffer (dw_stream w'), cr_position = 0\<rparr>, dr_pool = []\<rparr> = Some (vs', r')"
    and rel: "list_all2 (val_rel [?ov] ?imm (map ov_id (dr_pool r'))) ?vs vs'" "distinct (map ov_id (dr_pool r'))"
    and pool: "\<forall>ov' \<in> set (dr_pool r'). \<exists>ov \<in> set [?ov]. obj_rel [?ov] ?imm (map ov_id (dr_pool r')) ov ov'"
    using debug_info_roundtrip [OF g, of True "\<lambda>h. h + 1"] by blast
  obtain i j where ij: "vs' = [ObjectValue i, ObjectValue j]" "i < length (dr_pool r')" "j < length (dr_pool r')"
    "ov_id (dr_pool r' ! i) = 7" "ov_id (dr_pool r' ! j) = 7" using rel(1) by (auto simp: val_rel_def list_all2_Cons1)
  have same: "k = i" if "k < length (dr_pool r')" "ov_id (dr_pool r' ! k) = 7" for k
    using nth_eq_iff_index_eq [OF rel(2), of k i] that ij(2,4) by simp
  have "obj_rel [?ov] ?imm (map ov_id (dr_pool r')) ?ov (dr_pool r' ! i)" using pool ij(2) by auto
  then have "ov_klass (dr_pool r' ! i) = Some (ConstantOopReadValue 17)" "ov_field_values (dr_pool r' ! i) = [ObjectValue i, ConstantIntValue 3]"
    using same by (auto simp: obj_rel_def val_rel_def list_all2_Cons1 option_rel_Some1 initialize_immediate_oop_def)
  then show ?thesis using w' r' ij(1,2) same [OF ij(3,5)] by (auto simp: numeral_2_eq_2)
qed

end
