(* ===== verification/DebugInfoRec_Share.thy ===== *)
theory DebugInfoRec_Share
  imports DebugInfoRec DebugInfo_RoundTrip GrowableArray_Correct
begin

text \<open>
  Sharing in the recorder: the order on the chunks of the stream is a strict order, and the offset
  that is returned for shared bytes has the same bytes.
\<close>

section \<open>The order on chunks\<close>

lemma memcmp_zero: "length xs = length ys \<Longrightarrow> memcmp xs ys = 0 \<longleftrightarrow> xs = ys"
  by (induction xs ys rule: list_induct2) (auto dest: unsigned_word_eqI)

lemma memcmp_swap: "length xs = length ys \<Longrightarrow> 0 < memcmp xs ys \<longleftrightarrow> memcmp ys xs < 0"
  by (induction xs ys rule: list_induct2) auto

lemma memcmp_trans: "length xs = length ys \<Longrightarrow> length ys = length zs \<Longrightarrow> memcmp xs ys < 0 \<Longrightarrow> memcmp ys zs < 0 \<Longrightarrow> memcmp xs zs < 0"
  by (induction xs ys zs rule: list_induct3) (auto split: if_split_asm)

definition chunk_in :: "u_char list \<Rightarrow> dir_chunk \<Rightarrow> bool" where
  "chunk_in buf c \<longleftrightarrow> ck_offset c + ck_length c \<le> length buf"

lemma chunk_bytes_length [simp]: "chunk_in buf c \<Longrightarrow> length (chunk_bytes buf c) = ck_length c"
  by (simp add: chunk_in_def chunk_bytes_def)

lemma chunk_compare_swap:
  assumes "chunk_in buf a" and "chunk_in buf b"
  shows "0 < chunk_compare buf a b \<longleftrightarrow> chunk_compare buf b a < 0"
  using assms memcmp_swap [of "chunk_bytes buf b" "chunk_bytes buf a"] by (auto simp: chunk_compare_def)

lemma chunk_compare_trans:
  assumes "chunk_in buf a" and "chunk_in buf b" and "chunk_in buf c" and "chunk_compare buf a b < 0" and "chunk_compare buf b c < 0"
  shows "chunk_compare buf a c < 0"
  using assms memcmp_trans [of "chunk_bytes buf c" "chunk_bytes buf b" "chunk_bytes buf a"]
  by (auto simp: chunk_compare_def split: if_split_asm)

lemma chunk_compare_zero:
  assumes "chunk_in buf a" and "chunk_in buf b" and "chunk_compare buf a b = 0"
  shows "ck_length a = ck_length b \<and> chunk_bytes buf a = chunk_bytes buf b"
  using assms memcmp_zero [of "chunk_bytes buf b" "chunk_bytes buf a"] by (auto simp: chunk_compare_def split: if_split_asm)

definition chunk_before :: "u_char list \<Rightarrow> dir_chunk \<Rightarrow> dir_chunk \<Rightarrow> bool" where
  "chunk_before buf a b \<longleftrightarrow> chunk_in buf a \<and> chunk_in buf b \<and> chunk_compare buf a b < 0"

interpretation chunk_search: sorted_search "chunk_compare buf" "chunk_before buf" "chunk_in buf" for buf
proof
  fix x y k :: dir_chunk
  assume k: "chunk_in buf k" and b: "chunk_before buf x y"
  show "0 < chunk_compare buf k y \<Longrightarrow> 0 < chunk_compare buf k x"
    using k b chunk_compare_trans [of buf x y k] chunk_compare_swap [of buf k] by (simp add: chunk_before_def)
  show "chunk_compare buf k x < 0 \<Longrightarrow> chunk_compare buf k y < 0"
    using k b chunk_compare_trans [of buf k x y] by (simp add: chunk_before_def)
qed

section \<open>The chunks of a recorder\<close>

definition di_bytes :: "debug_recorder \<Rightarrow> u_char list" where
  "di_bytes d = cw_bytes (dw_stream (di_writer d))"

definition chunk_ok :: "u_char list \<Rightarrow> dir_chunk \<Rightarrow> bool" where
  "chunk_ok bytes c \<longleftrightarrow> 0 < ck_offset c \<and> chunk_in bytes c \<and> ck_hash c = chunk_hash (take 6 (chunk_bytes bytes c)) 0"

text \<open>
  Every chunk lies in the bytes written so far and is found by its hash; with JVMCI the chunks are sorted.
\<close>

definition dir_ok :: "share_flags \<Rightarrow> debug_recorder \<Rightarrow> bool" where
  "dir_ok sf d \<longleftrightarrow> cw_ok (dw_stream (di_writer d)) \<and> 0 < di_position d \<and>
     (\<forall>c \<in> set (di_all_chunks d) \<union> set (di_shared_chunks d). chunk_ok (di_bytes d) c) \<and>
     (sf_include_jvmci sf \<longrightarrow> chunk_search.in_order (di_bytes d) (di_all_chunks d))"

lemma di_bytes_length: "cw_ok (dw_stream (di_writer d)) \<Longrightarrow> length (di_bytes d) = di_position d"
  by (simp add: di_bytes_def di_position_def cw_bytes_def cw_ok_def)

lemma di_bytes_prefix: "cw_ok (dw_stream (di_writer d)) \<Longrightarrow> di_buffer d = di_bytes d @ drop (di_position d) (di_buffer d)"
  by (simp add: di_bytes_def di_position_def di_buffer_def cw_bytes_def)

lemma chunk_bytes_prefix [simp]: "chunk_in xs c \<Longrightarrow> chunk_bytes (xs @ ys) c = chunk_bytes xs c" "chunk_in xs c \<Longrightarrow> chunk_in (xs @ ys) c"
  by (simp_all add: chunk_in_def chunk_bytes_def)

lemma chunk_ok_prefix: "chunk_ok xs c \<Longrightarrow> chunk_ok (xs @ ys) c"
  by (simp add: chunk_ok_def)

lemma chunk_compare_prefix: "chunk_in xs a \<Longrightarrow> chunk_in xs b \<Longrightarrow> chunk_compare (xs @ ys) a b = chunk_compare xs a b"
  by (simp add: chunk_compare_def)

lemma in_order_prefix:
  assumes "\<forall>c \<in> set cs. chunk_ok xs c" and "chunk_search.in_order xs cs"
  shows "chunk_search.in_order (xs @ ys) cs"
  using assms(2) unfolding chunk_search.in_order_def
  by (rule sorted_wrt_mono_rel [rotated]) (auto simp: chunk_before_def chunk_compare_prefix)

lemma in_order_unprefix:
  assumes "\<forall>c \<in> set cs. chunk_in xs c" and "chunk_search.in_order (xs @ ys) cs"
  shows "chunk_search.in_order xs cs"
  using assms(2) unfolding chunk_search.in_order_def
  by (rule sorted_wrt_mono_rel [rotated]) (use assms(1) in \<open>auto simp: chunk_before_def chunk_compare_prefix\<close>)

lemma find_match_loop_ok:
  "find_match_loop buf ns arr st n = Some ms \<Longrightarrow> n \<le> length arr \<Longrightarrow>
     ms \<in> set arr \<and> ck_length ns = ck_length ms \<and> memcmp (chunk_bytes buf ns) (chunk_bytes buf ms) = 0"
  by (induction n) (auto simp: Let_def split: if_split_asm)

text \<open>
  \<open>d\<close> has been written to since \<open>d0\<close>: the bytes \<open>bs\<close> are new, the chunks are the same.
\<close>

definition extends :: "debug_recorder \<Rightarrow> u_char list \<Rightarrow> debug_recorder \<Rightarrow> bool" where
  "extends d0 bs d \<longleftrightarrow> cw_ok (dw_stream (di_writer d)) \<and> di_bytes d = di_bytes d0 @ bs \<and>
     di_all_chunks d = di_all_chunks d0 \<and> di_shared_chunks d = di_shared_chunks d0 \<and>
     di_recording_non_safepoints d = di_recording_non_safepoints d0"

definition sharing :: "share_flags \<Rightarrow> debug_recorder \<Rightarrow> bool" where
  "sharing sf d \<longleftrightarrow> (if sf_is_default sf then sf_share_debug_info sf \<or> di_recording_non_safepoints d else sf_share_debug_info sf)"

lemma extends_chunk:
  assumes d0: "dir_ok sf d0" and ext: "extends d0 bs d"
  defines "ns \<equiv> new_chunk (di_position d0) (di_position d - di_position d0) (di_buffer d)"
  shows "ck_length ns = length bs" and "ck_offset ns = di_position d0" and "chunk_bytes (di_bytes d) ns = bs" and "chunk_ok (di_bytes d) ns"
    and "chunk_in (di_buffer d) ns" and "\<And>c. chunk_ok (di_bytes d) c \<Longrightarrow> chunk_bytes (di_buffer d) c = chunk_bytes (di_bytes d) c \<and> chunk_in (di_buffer d) c"
proof -
  have ok: "cw_ok (dw_stream (di_writer d0))" "cw_ok (dw_stream (di_writer d))" "0 < di_position d0"
    using d0 ext by (simp_all add: dir_ok_def extends_def)
  have len: "length (di_bytes d0) = di_position d0" "di_position d = di_position d0 + length bs" "di_bytes d = di_bytes d0 @ bs"
    using di_bytes_length [OF ok(1)] di_bytes_length [OF ok(2)] ext by (simp_all add: extends_def)
  obtain rest where buf: "di_buffer d = di_bytes d0 @ bs @ rest" using di_bytes_prefix [OF ok(2)] len(3) by (metis append_assoc)
  show "ck_length ns = length bs" "ck_offset ns = di_position d0" by (simp_all add: ns_def new_chunk_def len(2))
  then show cb: "chunk_bytes (di_bytes d) ns = bs" "chunk_ok (di_bytes d) ns" "chunk_in (di_buffer d) ns"
    using ok(3) len by (simp_all add: chunk_bytes_def chunk_ok_def chunk_in_def buf) (simp add: ns_def new_chunk_def buf len(1,2))
  show "chunk_bytes (di_buffer d) c = chunk_bytes (di_bytes d) c \<and> chunk_in (di_buffer d) c" if "chunk_ok (di_bytes d) c" for c
    using that di_bytes_prefix [OF ok(2)] chunk_bytes_prefix [of "di_bytes d" c] by (metis chunk_ok_def)
qed

section \<open>Searching for the same bytes\<close>

definition same_but_chunks :: "debug_recorder \<Rightarrow> debug_recorder \<Rightarrow> bool" where
  "same_but_chunks d d' \<longleftrightarrow> (\<exists>cs ms. d' = d\<lparr>di_all_chunks := cs, di_shared_chunks := ms\<rparr>)"

definition shared_at :: "debug_recorder \<Rightarrow> u_char list \<Rightarrow> nat \<Rightarrow> bool" where
  "shared_at d bs s \<longleftrightarrow> (\<exists>c \<in> set (di_all_chunks d) \<union> set (di_shared_chunks d). ck_offset c = s \<and> chunk_bytes (di_bytes d) c = bs \<and> chunk_ok (di_bytes d) c)"

definition fresh_chunk :: "debug_recorder \<Rightarrow> u_char list \<Rightarrow> debug_recorder \<Rightarrow> bool" where
  "fresh_chunk d0 bs d' \<longleftrightarrow> (\<exists>c. set (di_all_chunks d') = insert c (set (di_all_chunks d0)) \<and> ck_offset c = di_position d0 \<and> chunk_bytes (di_bytes d') c = bs)"

definition found_same :: "debug_recorder \<Rightarrow> u_char list \<Rightarrow> nat \<Rightarrow> debug_recorder \<Rightarrow> bool" where
  "found_same d0 bs s d' \<longleftrightarrow> shared_at d0 bs s \<and> di_all_chunks d' = di_all_chunks d0 \<and>
     set (di_shared_chunks d') \<subseteq> set (di_all_chunks d0) \<union> set (di_shared_chunks d0)"

lemma old_chunk:
  assumes "dir_ok sf d0" and "extends d0 bs d" and "c \<in> set (di_all_chunks d) \<union> set (di_shared_chunks d)"
  shows "chunk_ok (di_bytes d) c" and "chunk_bytes (di_bytes d) c = chunk_bytes (di_bytes d0) c" and "chunk_ok (di_bytes d0) c"
  using assms chunk_ok_prefix by (auto simp: dir_ok_def extends_def chunk_ok_def)

lemma match_same:
  assumes d0: "dir_ok sf d0" and ext: "extends d0 bs d" and c: "c \<in> set (di_all_chunks d) \<union> set (di_shared_chunks d)"
    and eq: "ck_length c = length bs" "chunk_bytes (di_buffer d) c = bs"
  shows "shared_at d0 bs (ck_offset c)"
proof -
  have "chunk_bytes (di_bytes d0) c = bs" using eq(2) extends_chunk(6) [OF d0 ext old_chunk(1) [OF d0 ext c]] old_chunk(2) [OF d0 ext c] by simp
  then show ?thesis using c ext old_chunk(3) [OF d0 ext c] by (auto simp: shared_at_def extends_def)
qed

lemma jvmci_search:
  assumes d0: "dir_ok sf d0" and ext: "extends d0 bs d" and jvmci: "sf_include_jvmci sf"
  defines "ns \<equiv> new_chunk (di_position d0) (di_position d - di_position d0) (di_buffer d)"
  assumes f: "find_sorted (chunk_compare (di_buffer d)) ns (di_all_chunks d) = (loc, found)"
  shows "found \<Longrightarrow> shared_at d0 bs (ck_offset (di_all_chunks d ! loc))"
    and "\<not> found \<Longrightarrow> chunk_search.in_order (di_bytes d) (insert_before (di_all_chunks d) loc ns)"
    and "\<not> found \<Longrightarrow> c \<in> set (di_all_chunks d0) \<Longrightarrow> chunk_bytes (di_bytes d0) c \<noteq> bs"
proof -
  note ns = extends_chunk [OF d0 ext, folded ns_def]
  have buf: "di_buffer d = di_bytes d @ drop (di_position d) (di_buffer d)"
    by (rule di_bytes_prefix) (use ext in \<open>simp add: extends_def\<close>)
  have old: "chunk_ok (di_bytes d) c" "chunk_in (di_buffer d) c" "chunk_bytes (di_buffer d) c = chunk_bytes (di_bytes d) c" if "c \<in> set (di_all_chunks d)" for c
    using old_chunk(1) [OF d0 ext, of c] ns(6) that by auto
  have "chunk_search.in_order (di_bytes d0) (di_all_chunks d)" "\<forall>c \<in> set (di_all_chunks d). chunk_ok (di_bytes d0) c"
    using d0 ext jvmci by (simp_all add: dir_ok_def extends_def)
  then have "chunk_search.in_order (di_bytes d) (di_all_chunks d)" using in_order_prefix ext by (auto simp: extends_def)
  then have order: "chunk_search.in_order (di_buffer d) (di_all_chunks d)" using in_order_prefix old(1) buf by metis
  note find = chunk_search.find_sorted_ok [OF ns(5) order f]
  show "shared_at d0 bs (ck_offset (di_all_chunks d ! loc))" if "found"
  proof -
    let ?c = "di_all_chunks d ! loc"
    have c: "?c \<in> set (di_all_chunks d)" "chunk_compare (di_buffer d) ns ?c = 0" using find that by auto
    have "ck_length ns = ck_length ?c \<and> chunk_bytes (di_buffer d) ns = chunk_bytes (di_buffer d) ?c"
      using chunk_compare_zero [OF ns(5) old(2) [OF c(1)] c(2)] .
    moreover have "chunk_bytes (di_buffer d) ns = bs" using ns(3) conjunct1 [OF ns(6) [OF ns(4)]] by (rule trans [rotated])
    ultimately have "ck_length ?c = length bs" "chunk_bytes (di_buffer d) ?c = bs" using ns(1) by metis+
    then show ?thesis using match_same [OF d0 ext, of ?c] c(1) by blast
  qed
  assume "\<not> found"
  then have split: "chunk_search.splits (di_buffer d) ns (di_all_chunks d) loc" using find by simp
  show "chunk_search.in_order (di_bytes d) (insert_before (di_all_chunks d) loc ns)"
  proof (rule in_order_unprefix [of _ "di_bytes d" "drop (di_position d) (di_buffer d)"])
    show "\<forall>c \<in> set (insert_before (di_all_chunks d) loc ns). chunk_in (di_bytes d) c"
      using ns(4) old(1) by (auto simp: set_insert_before chunk_ok_def)
    have "chunk_search.in_order (di_buffer d) (insert_before (di_all_chunks d) loc ns)"
    proof (rule chunk_search.insert_in_order [OF order split])
      fix y assume y: "y \<in> set (di_all_chunks d)"
      show "0 < chunk_compare (di_buffer d) ns y \<Longrightarrow> chunk_before (di_buffer d) y ns" "chunk_compare (di_buffer d) ns y < 0 \<Longrightarrow> chunk_before (di_buffer d) ns y"
        using chunk_compare_swap [OF ns(5) old(2) [OF y]] ns(5) old(2) [OF y] by (simp_all add: chunk_before_def)
    qed
    then show "chunk_search.in_order (di_bytes d @ drop (di_position d) (di_buffer d)) (insert_before (di_all_chunks d) loc ns)"
      unfolding buf [symmetric] .
  qed
  show "chunk_bytes (di_bytes d0) c \<noteq> bs" if "c \<in> set (di_all_chunks d0)"
  proof
    assume eq: "chunk_bytes (di_bytes d0) c = bs"
    have c: "c \<in> set (di_all_chunks d)" using that ext by (simp add: extends_def)
    then have b: "chunk_bytes (di_buffer d) c = chunk_bytes (di_buffer d) ns" "chunk_bytes (di_bytes d) c = bs"
      using eq old(3) [OF c] old_chunk(2) [OF d0 ext, of c] ns(3) ns(6) [OF ns(4)] by simp_all
    then have "ck_length c = ck_length ns" "ck_hash c = ck_hash ns"
      using old(1) [OF c] ns(3,4) chunk_bytes_length [of "di_bytes d" c] ns(1) by (auto simp: chunk_ok_def)
    then have "chunk_compare (di_buffer d) ns c = 0" using b(1) memcmp_zero [of "chunk_bytes (di_buffer d) ns"] by (simp add: chunk_compare_def)
    from chunk_search.find_sorted_complete [OF ns(5) order c this] show False using f \<open>\<not> found\<close> by simp
  qed
qed

text \<open>The outcome of the search: the same bytes elsewhere, or a new chunk, or no sharing at all.\<close>

definition share_outcome :: "share_flags \<Rightarrow> debug_recorder \<Rightarrow> u_char list \<Rightarrow> debug_recorder \<Rightarrow> nat \<Rightarrow> debug_recorder \<Rightarrow> bool" where
  "share_outcome sf d0 bs d s d' \<longleftrightarrow> same_but_chunks d d' \<and>
     (if s \<noteq> serialized_null then found_same d0 bs s d'
      else dir_ok sf d' \<and> (sharing sf d \<longrightarrow> fresh_chunk d0 bs d' \<and>
        (sf_include_jvmci sf \<longrightarrow> (\<forall>c \<in> set (di_all_chunks d0). chunk_bytes (di_bytes d0) c \<noteq> bs))))"

lemma extends_same:
  assumes "extends d0 bs d"
  shows "same_but_chunks d d" and "same_but_chunks d (d\<lparr>di_all_chunks := cs\<rparr>)" and "same_but_chunks d (d\<lparr>di_shared_chunks := ms\<rparr>)"
    and "di_all_chunks d = di_all_chunks d0" and "di_shared_chunks d = di_shared_chunks d0"
  using assms by (cases d, simp add: same_but_chunks_def extends_def)+

lemma extends_dir_ok:
  assumes d0: "dir_ok sf d0" and ext: "extends d0 bs d"
  shows "dir_ok sf d" and "c \<in> set (di_all_chunks d) \<union> set (di_shared_chunks d) \<Longrightarrow> ck_offset c \<noteq> serialized_null"
proof -
  have old: "\<forall>c \<in> set (di_all_chunks d) \<union> set (di_shared_chunks d). chunk_ok (di_bytes d) c" using old_chunk(1) [OF d0 ext] by blast
  then show "c \<in> set (di_all_chunks d) \<union> set (di_shared_chunks d) \<Longrightarrow> ck_offset c \<noteq> serialized_null" by (auto simp: chunk_ok_def serialized_null_def)
  have "0 < di_position d" using d0 ext di_bytes_length [of d] di_bytes_length [of d0] by (auto simp: extends_def dir_ok_def)
  then show "dir_ok sf d" using d0 ext old in_order_prefix [of "di_all_chunks d0" "di_bytes d0"] by (auto simp: dir_ok_def extends_def)
qed

lemma insert_chunk:
  assumes d0: "dir_ok sf d0" and ext: "extends d0 bs d"
  defines "ns \<equiv> new_chunk (di_position d0) (di_position d - di_position d0) (di_buffer d)"
  assumes cs: "set cs = insert ns (set (di_all_chunks d))" and order: "sf_include_jvmci sf \<longrightarrow> chunk_search.in_order (di_bytes d) cs"
  shows "dir_ok sf (d\<lparr>di_all_chunks := cs\<rparr>)" and "fresh_chunk d0 bs (d\<lparr>di_all_chunks := cs\<rparr>)"
proof -
  note ns = extends_chunk [OF d0 ext, folded ns_def]
  show "dir_ok sf (d\<lparr>di_all_chunks := cs\<rparr>)"
    using extends_dir_ok(1) [OF d0 ext] cs order ns(4) by (auto simp: dir_ok_def di_bytes_def di_position_def)
  show "fresh_chunk d0 bs (d\<lparr>di_all_chunks := cs\<rparr>)"
    unfolding fresh_chunk_def using cs ns(2,3) extends_same(4) [OF ext] by (intro exI [of _ ns]) (simp add: di_bytes_def)
qed

lemma matched_chunk:
  assumes d0: "dir_ok sf d0" and ext: "extends d0 bs d"
  defines "ns \<equiv> new_chunk (di_position d0) (di_position d - di_position d0) (di_buffer d)"
  assumes f: "find_match (di_buffer d) ns arr st = Some ms" and arr: "set arr \<subseteq> set (di_all_chunks d) \<union> set (di_shared_chunks d)"
  shows "shared_at d0 bs (ck_offset ms)" and "ms \<in> set arr" and "ck_offset ms \<noteq> serialized_null"
proof -
  note ns = extends_chunk [OF d0 ext, folded ns_def] and m = find_match_loop_ok [OF f [unfolded find_match_def] order_refl]
  show "ms \<in> set arr" using m by blast
  then have ms: "ms \<in> set (di_all_chunks d) \<union> set (di_shared_chunks d)" using arr by blast
  have n: "chunk_bytes (di_buffer d) ns = bs" using ns(3) conjunct1 [OF ns(6) [OF ns(4)]] by (rule trans [rotated])
  have "length (chunk_bytes (di_buffer d) ms) = ck_length ms"
    using conjunct2 [OF ns(6) [OF old_chunk(1) [OF d0 ext ms]]] by (rule chunk_bytes_length)
  then have "chunk_bytes (di_buffer d) ms = bs" using m n ns(1) memcmp_zero [of bs "chunk_bytes (di_buffer d) ms"] by simp
  then show "shared_at d0 bs (ck_offset ms)" using match_same [OF d0 ext ms] m ns(1) by simp
  show "ck_offset ms \<noteq> serialized_null" by (rule extends_dir_ok(2) [OF d0 ext ms])
qed

lemma share_jvmci:
  assumes d0: "dir_ok sf d0" and ext: "extends d0 bs d" and on: "sharing sf d" "sf_include_jvmci sf"
    and f: "find_sharable_decode_offset sf d (di_position d0) = (s, d')"
  shows "share_outcome sf d0 bs d s d'"
proof -
  define ns where "ns = new_chunk (di_position d0) (di_position d - di_position d0) (di_buffer d)"
  obtain loc found where l: "find_sorted (chunk_compare (di_buffer d)) ns (di_all_chunks d) = (loc, found)" by fastforce
  note j = jvmci_search [OF d0 ext on(2) l [unfolded ns_def], folded ns_def] and same = extends_same [OF ext]
  have f': "(s, d') = (if found then (ck_offset (di_all_chunks d ! loc), d)
      else (serialized_null, d\<lparr>di_all_chunks := insert_before (di_all_chunks d) loc ns\<rparr>))"
    using on l f by (auto simp: find_sharable_decode_offset_def sharing_def Let_def ns_def split: if_split_asm)
  show ?thesis
  proof (cases found)
    case True
    have "shared_at d0 bs s" using j(1) True f' by simp
    moreover from this have "s \<noteq> serialized_null" by (auto simp: shared_at_def chunk_ok_def serialized_null_def)
    ultimately show ?thesis using True f' same by (auto simp: share_outcome_def found_same_def)
  next
    case False
    note i = insert_chunk [OF d0 ext, folded ns_def, of "insert_before (di_all_chunks d) loc ns", OF set_insert_before]
    show ?thesis using False f' i j(2,3) same(2) on unfolding share_outcome_def by (auto simp: serialized_null_def)
  qed
qed

lemma share_recent:
  assumes d0: "dir_ok sf d0" and ext: "extends d0 bs d" and on: "sharing sf d" "\<not> sf_include_jvmci sf"
    and f: "find_sharable_decode_offset sf d (di_position d0) = (s, d')"
  shows "share_outcome sf d0 bs d s d'"
proof -
  define ns where "ns = new_chunk (di_position d0) (di_position d - di_position d0) (di_buffer d)"
  let ?shared = "find_match (di_buffer d) ns (di_shared_chunks d) 0"
    and ?recent = "find_match (di_buffer d) ns (di_all_chunks d) (length (di_all_chunks d) - MAX_RECENT)"
  note m = matched_chunk [OF d0 ext, folded ns_def] and same = extends_same [OF ext]
  have f': "(s, d') = (case ?shared of Some ms \<Rightarrow> (ck_offset ms, d) | None \<Rightarrow>
      (case ?recent of Some ms \<Rightarrow> (ck_offset ms, d\<lparr>di_shared_chunks := di_shared_chunks d @ [ms]\<rparr>)
       | None \<Rightarrow> (serialized_null, d\<lparr>di_all_chunks := di_all_chunks d @ [ns]\<rparr>)))"
    unfolding ns_def using on f by (auto simp: find_sharable_decode_offset_def sharing_def Let_def split: if_split_asm)
  show ?thesis
  proof (cases ?shared)
    case (Some ms)
    then show ?thesis using f' m [OF Some] same by (auto simp: share_outcome_def found_same_def)
  next
    case None
    show ?thesis
    proof (cases ?recent)
      case (Some ms)
      then show ?thesis using None f' m [OF Some] same by (auto simp: share_outcome_def found_same_def)
    next
      case None': None
      have "set (di_all_chunks d @ [ns]) = insert ns (set (di_all_chunks d))" by simp
      note i = insert_chunk [OF d0 ext, folded ns_def, OF this]
      then show ?thesis using None None' f' same(2) on by (auto simp: share_outcome_def serialized_null_def)
    qed
  qed
qed

lemma find_sharable_ok:
  assumes d0: "dir_ok sf d0" and ext: "extends d0 bs d" and f: "find_sharable_decode_offset sf d (di_position d0) = (s, d')"
  shows "share_outcome sf d0 bs d s d'"
proof (cases "sharing sf d")
  case True
  then show ?thesis using share_jvmci [OF d0 ext True _ f] share_recent [OF d0 ext True _ f] by blast
next
  case False
  then have "s = serialized_null" "d' = d" using f by (auto simp: find_sharable_decode_offset_def sharing_def split: if_split_asm)
  then show ?thesis using False extends_dir_ok(1) [OF d0 ext] extends_same(1) [OF ext] by (simp add: share_outcome_def)
qed

section \<open>Reusing the bytes\<close>

definition keeps_rest :: "debug_recorder \<Rightarrow> debug_recorder \<Rightarrow> bool" where
  "keeps_rest d d' \<longleftrightarrow> di_pcs d' = di_pcs d \<and> di_prev_safepoint_pc d' = di_prev_safepoint_pc d \<and>
     di_recording_non_safepoints d' = di_recording_non_safepoints d \<and> dw_objects (di_writer d') = dw_objects (di_writer d) \<and>
     dw_recorder (di_writer d') = dw_recorder (di_writer d)"

lemma truncated:
  assumes d0: "dir_ok sf d0" and ext: "extends d0 bs d" and same: "same_but_chunks d d'"
  shows "cw_ok (dw_stream (di_writer (set_position d' (di_position d0))))" and "di_bytes (set_position d' (di_position d0)) = di_bytes d0"
    and "di_position (set_position d' p) = p" and "keeps_rest d (set_position d' p)" and "keeps_rest d d'" and "di_bytes d' = di_bytes d0 @ bs"
    and "di_position d' = di_position d0 + length bs"
proof -
  have ok: "cw_ok (dw_stream (di_writer d))" "di_bytes d = di_bytes d0 @ bs" "cw_ok (dw_stream (di_writer d0))" "0 < di_position d0"
    using d0 ext by (simp_all add: extends_def dir_ok_def)
  have w: "di_writer d' = di_writer d" using same by (auto simp: same_but_chunks_def)
  have len: "length (di_bytes d0) = di_position d0" "length (di_bytes d) = di_position d" using di_bytes_length ok(1,3) by blast+
  then have le: "di_position d = di_position d0 + length bs" using ok(2) by simp
  then show "cw_ok (dw_stream (di_writer (set_position d' (di_position d0))))"
    using ok(1) w by (simp add: set_position_def cw_ok_def di_position_def)
  have "take (di_position d0) (di_bytes d) = di_bytes d0" using ok(2) len(1) by simp
  then show "di_bytes (set_position d' (di_position d0)) = di_bytes d0"
    using le w by (simp add: set_position_def di_bytes_def cw_bytes_def di_position_def min_def)
  show "di_position (set_position d' p) = p" by (simp add: set_position_def di_position_def)
  show "di_bytes d' = di_bytes d0 @ bs" "di_position d' = di_position d0 + length bs" using ok(2) le w by (simp_all add: di_bytes_def di_position_def)
  show "keeps_rest d (set_position d' p)" "keeps_rest d d'" using same by (auto simp: keeps_rest_def set_position_def same_but_chunks_def)
qed

lemma shared_at_bytes:
  assumes "shared_at d bs s"
  shows "0 < s" and "take (length bs) (drop s (di_bytes d)) = bs" and "s + length bs \<le> length (di_bytes d)"
  using assms by (auto simp: shared_at_def chunk_ok_def chunk_in_def) (auto simp: chunk_bytes_def)

lemma share_bytes_ok:
  assumes d0: "dir_ok sf d0" and ext: "extends d0 bs d" and f: "share_bytes sf d (di_position d0) = (off, d')"
  shows "dir_ok sf d'" and "off \<noteq> serialized_null" and "off + length bs \<le> di_position d'" and "take (length bs) (drop off (di_bytes d')) = bs"
    and "di_bytes d' = di_bytes d0 \<or> di_bytes d' = di_bytes d0 @ bs" and "keeps_rest d d'"
    and "off = di_position d0 \<Longrightarrow> bs \<noteq> [] \<Longrightarrow> sharing sf d \<Longrightarrow> sf_include_jvmci sf \<Longrightarrow> c \<in> set (di_all_chunks d0) \<Longrightarrow> chunk_bytes (di_bytes d0) c \<noteq> bs"
proof -
  obtain s d1 where s: "find_sharable_decode_offset sf d (di_position d0) = (s, d1)" by fastforce
  have out: "share_outcome sf d0 bs d s d1" by (rule find_sharable_ok [OF d0 ext s])
  then have same: "same_but_chunks d d1" by (simp add: share_outcome_def)
  note t = truncated [OF d0 ext same]
  have ok0: "cw_ok (dw_stream (di_writer d0))" "0 < di_position d0" using d0 by (simp_all add: dir_ok_def)
  have len: "length (di_bytes d0) = di_position d0" by (rule di_bytes_length [OF ok0(1)])
  have "dir_ok sf d' \<and> off \<noteq> serialized_null \<and> off + length bs \<le> di_position d' \<and> take (length bs) (drop off (di_bytes d')) = bs \<and>
    (di_bytes d' = di_bytes d0 \<or> di_bytes d' = di_bytes d0 @ bs) \<and> keeps_rest d d' \<and>
    (off = di_position d0 \<longrightarrow> bs \<noteq> [] \<longrightarrow> sharing sf d \<longrightarrow> sf_include_jvmci sf \<longrightarrow> c \<in> set (di_all_chunks d0) \<longrightarrow> chunk_bytes (di_bytes d0) c \<noteq> bs)"
  proof (cases "s = serialized_null")
    case True
    then have "off = di_position d0" "d' = d1" using f s by (simp_all add: share_bytes_def)
    then show ?thesis using True out ok0(2) len t(5-7) by (auto simp: share_outcome_def serialized_null_def)
  next
    case False
    then have d': "off = s" "d' = set_position d1 (di_position d0)" using f s by (simp_all add: share_bytes_def)
    have fs: "found_same d0 bs s d1" using out False by (simp add: share_outcome_def)
    have sh: "shared_at d0 bs s" using fs by (simp add: found_same_def)
    note b = shared_at_bytes [OF sh]
    have ch: "di_all_chunks d' = di_all_chunks d0" "set (di_shared_chunks d') \<subseteq> set (di_all_chunks d0) \<union> set (di_shared_chunks d0)"
      using fs by (simp_all add: found_same_def d' set_position_def)
    have "dir_ok sf d'" using d0 ch t(1-3) ok0 unfolding dir_ok_def d' by auto
    moreover have "s \<noteq> di_position d0" if "bs \<noteq> []" using b(3) that len by (cases bs) auto
    ultimately show ?thesis using False b t(2-4) len unfolding d' by auto
  qed
  then show "dir_ok sf d'" and "off \<noteq> serialized_null" and "off + length bs \<le> di_position d'" and "take (length bs) (drop off (di_bytes d')) = bs"
    and "di_bytes d' = di_bytes d0 \<or> di_bytes d' = di_bytes d0 @ bs" and "keeps_rest d d'"
    and "off = di_position d0 \<Longrightarrow> bs \<noteq> [] \<Longrightarrow> sharing sf d \<Longrightarrow> sf_include_jvmci sf \<Longrightarrow> c \<in> set (di_all_chunks d0) \<Longrightarrow> chunk_bytes (di_bytes d0) c \<noteq> bs" by blast+
qed

lemma new_debug_recorder_ok:
  "\<exists>d. new_debug_recorder non_safepoints rec = Some d \<and> dir_ok sf d \<and> di_pcs d = [new_pc_desc lower_offset_limit 0 0] \<and> di_prev_safepoint_pc d = lower_offset_limit \<and>
     di_recording_non_safepoints d = non_safepoints \<and> dw_recorder (di_writer d) = rec \<and> dw_objects (di_writer d) = [] \<and> di_bytes d = [0xFF]"
proof -
  have "cw_ok (dw_stream (new_debug_writer 10240 [] rec))" by (simp add: new_debug_writer_def cw_ok_def new_write_stream_def)
  from put_with_ok [OF byte_codec.stream_codec_axioms this, of "0xFF"] obtain w where w: "put_with write_byte (new_debug_writer 10240 [] rec) 0xFF = Some w"
    "dw_append (new_debug_writer 10240 [] rec) [0xFF] w" by blast
  have b: "cw_ok (dw_stream w)" "cw_bytes (dw_stream w) = [0xFF]"
    using w(2) by (simp_all add: dw_append_def new_debug_writer_def new_write_stream_def cw_bytes_def)
  have "cw_position (dw_stream w) = length (cw_bytes (dw_stream w))" using b(1) by (simp add: cw_bytes_def cw_ok_def)
  then show ?thesis using w b
    by (simp add: new_debug_recorder_def add_new_pc_offset_def Let_def dir_ok_def di_position_def di_bytes_def dw_append_def new_debug_writer_def
      chunk_search.in_order_def serialized_null_def)
qed

text \<open>Bytes that are found elsewhere are dropped.\<close>

lemma shared_bytes_dropped:
  assumes d0: "dir_ok sf d0" and ext: "extends d0 bs d" and f: "share_bytes sf d (di_position d0) = (off, d')" and off: "off \<noteq> di_position d0"
  shows "di_bytes d' = di_bytes d0"
proof -
  obtain s d1 where s: "find_sharable_decode_offset sf d (di_position d0) = (s, d1)" by fastforce
  have same: "same_but_chunks d d1" using find_sharable_ok [OF d0 ext s] by (simp add: share_outcome_def)
  have "d' = set_position d1 (di_position d0)" using f s off by (auto simp: share_bytes_def split: if_split_asm)
  then show ?thesis using truncated(2) [OF d0 ext same] by simp
qed

text \<open>
  C16: Equal byte runs are shared soundly, and with JVMCI completely.  After the bytes \<open>bs\<close> have been appended, the offset that
  is returned is not null and the stream holds \<open>bs\<close> there; what was written before is untouched and the
  invariant of the chunks holds again.  The new bytes are dropped whenever an earlier offset is returned.  With
  JVMCI and sharing switched on, an earlier offset is returned whenever any chunk has the same bytes, because the
  binary search over the sorted chunks finds it.
\<close>

theorem sharing_sound_and_complete:
  assumes "dir_ok sf d0" and "extends d0 bs d" and "bs \<noteq> []" and "share_bytes sf d (di_position d0) = (off, d')"
  shows "dir_ok sf d' \<and> off \<noteq> serialized_null \<and> off + length bs \<le> di_position d' \<and> take (length bs) (drop off (di_bytes d')) = bs \<and>
    di_bytes d' = (if off = di_position d0 then di_bytes d0 @ bs else di_bytes d0) \<and>
    (sharing sf d \<and> sf_include_jvmci sf \<and> bs \<in> chunk_bytes (di_bytes d0) ` set (di_all_chunks d0) \<longrightarrow> off \<noteq> di_position d0)"
proof -
  note s = share_bytes_ok [OF assms(1,2,4)]
  have len: "length (di_bytes d0) = di_position d0" "length (di_bytes d') = di_position d'"
    using di_bytes_length assms(1) s(1) by (auto simp: dir_ok_def)
  have "di_bytes d' \<noteq> di_bytes d0" if "off = di_position d0" using s(3) that assms(3) len by auto
  then have "di_bytes d' = (if off = di_position d0 then di_bytes d0 @ bs else di_bytes d0)"
    using s(5) shared_bytes_dropped [OF assms(1,2,4)] by auto
  then show ?thesis using s(1-4) s(7) [OF _ assms(3)] by blast
qed

theorem sharing_sound_and_complete_witness:
  "\<exists>d0 w off d'. new_debug_recorder False (new_oop_recorder True) = Some d0 \<and> put_with write_byte (di_writer d0) 5 = Some w \<and>
     share_bytes \<lparr>sf_include_jvmci = True, sf_is_default = True, sf_share_debug_info = True\<rparr> (d0\<lparr>di_writer := w\<rparr>) (di_position d0) = (off, d') \<and>
     off \<noteq> serialized_null \<and> take 1 (drop off (di_bytes d')) = [5]"
proof -
  let ?sf = "\<lparr>sf_include_jvmci = True, sf_is_default = True, sf_share_debug_info = True\<rparr>"
  obtain d0 where d0: "new_debug_recorder False (new_oop_recorder True) = Some d0" "dir_ok ?sf d0"
    using new_debug_recorder_ok [of False "new_oop_recorder True" ?sf] by blast
  have "cw_ok (dw_stream (di_writer d0))" using d0(2) by (simp add: dir_ok_def)
  from put_with_ok [OF byte_codec.stream_codec_axioms this, of 5] obtain w where w: "put_with write_byte (di_writer d0) 5 = Some w" "dw_append (di_writer d0) [5] w" by blast
  have ext: "extends d0 [5] (d0\<lparr>di_writer := w\<rparr>)" using w(2) by (simp add: extends_def dw_append_def di_bytes_def)
  obtain off d' where s: "share_bytes ?sf (d0\<lparr>di_writer := w\<rparr>) (di_position d0) = (off, d')" by fastforce
  show ?thesis using sharing_sound_and_complete [OF d0(2) ext _ s] d0(1) w(1) s by auto
qed

end
