(* ===== verification/ScopeDesc.thy ===== *)
theory ScopeDesc
  imports DebugInfoRec
begin

text \<open>
  \<open>ScopeDesc\<close> (\<open>src/src/share/vm/code/scopeDesc.hpp\<close>, \<open>scopeDesc.cpp\<close>): the scopes of an instruction,
  decoded from the debugging information of a compiled method.  \<open>None\<close> is a read outside the data or
  of data that is no debugging information; a null pointer to an array is \<open>None\<close> in the result.
\<close>

record scope_desc =
  sd_method :: handle
  sd_bci :: jint
  sd_reexecute :: bool
  sd_rethrow_exception :: bool
  sd_return_oop :: bool
  sd_decode_offset :: nat
  sd_sender_decode_offset :: nat
  sd_locals_decode_offset :: nat
  sd_expressions_decode_offset :: nat
  sd_monitors_decode_offset :: nat
  sd_objects :: "object_value list option"

definition reader_at :: "nmethod_debug \<Rightarrow> nat \<Rightarrow> object_value list \<Rightarrow> debug_reader" where
  "reader_at nm offset pool = \<lparr>dr_stream = \<lparr>cr_buffer = nm_scopes_data nm, cr_position = offset\<rparr>, dr_pool = pool\<rparr>"

text \<open>
  \<open>stream_at\<close>: the pool of the new stream is the one of the scope.  Without one (\<open>NULL\<close>) it is empty here,
  and a read that adds an object to it fails (\<open>pool_kept\<close>).  With one, every object has been read into it
  before, and the reads of the values find it there.
\<close>

definition stream_at :: "nmethod_debug \<Rightarrow> object_value list option \<Rightarrow> nat \<Rightarrow> debug_reader" where
  "stream_at nm objects offset = reader_at nm offset (case objects of None \<Rightarrow> [] | Some pool \<Rightarrow> pool)"

definition pool_kept :: "object_value list option \<Rightarrow> debug_reader \<Rightarrow> bool" where
  "pool_kept objects r \<longleftrightarrow> (case objects of None \<Rightarrow> dr_pool r = [] | Some pool \<Rightarrow> True)"

definition decode_scope_values :: "nat \<Rightarrow> nmethod_debug \<Rightarrow> object_value list option \<Rightarrow> nat \<Rightarrow> (scope_value list option) option" where
  "decode_scope_values fuel nm objects offset =
     (if offset = serialized_null then Some None
      else do { (n, r1) \<leftarrow> get_with read_int (stream_at nm objects offset);
                (vs, r2) \<leftarrow> read_values (read_from fuel (nm_tables nm)) (nat (sint n)) r1;
                if pool_kept objects r2 then Some (Some vs) else None })"

definition decode_object_values :: "nat \<Rightarrow> nmethod_debug \<Rightarrow> nat \<Rightarrow> (object_value list option) option" where
  "decode_object_values fuel nm offset =
     (if offset = serialized_null then Some None
      else do { (n, r1) \<leftarrow> get_with read_int (reader_at nm offset []);
                (vs, r2) \<leftarrow> read_values (read_from fuel (nm_tables nm)) (nat (sint n)) r1;
                Some (Some (dr_pool r2)) })"

fun read_monitors :: "nat \<Rightarrow> nmethod_tables \<Rightarrow> nat \<Rightarrow> debug_reader \<Rightarrow> (monitor_value list \<times> debug_reader) option" where
  "read_monitors fuel code 0 r = Some ([], r)"
| "read_monitors fuel code (Suc n) r =
     do { (m, r1) \<leftarrow> read_monitor fuel code r; (ms, r2) \<leftarrow> read_monitors fuel code n r1; Some (m # ms, r2) }"

definition decode_monitor_values :: "nat \<Rightarrow> nmethod_debug \<Rightarrow> object_value list option \<Rightarrow> nat \<Rightarrow> (monitor_value list option) option" where
  "decode_monitor_values fuel nm objects offset =
     (if offset = serialized_null then Some None
      else do { (n, r1) \<leftarrow> get_with read_int (stream_at nm objects offset);
                (ms, r2) \<leftarrow> read_monitors fuel (nm_tables nm) (nat (sint n)) r1;
                if pool_kept objects r2 then Some (Some ms) else None })"

definition decode_body :: "nmethod_debug \<Rightarrow> scope_desc \<Rightarrow> scope_desc option" where
  "decode_body nm sd =
     (if sd_decode_offset sd = serialized_null then
        Some (sd\<lparr>sd_sender_decode_offset := serialized_null, sd_method := nm_method nm, sd_bci := InvocationEntryBci,
                 sd_locals_decode_offset := serialized_null, sd_expressions_decode_offset := serialized_null,
                 sd_monitors_decode_offset := serialized_null\<rparr>)
      else
        do { (sender, r1) \<leftarrow> get_with read_int (stream_at nm (sd_objects sd) (sd_decode_offset sd));
             (m, r2) \<leftarrow> read_method (nm_tables nm) r1;
             (bci, r3) \<leftarrow> read_bci r2;
             (locs, r4) \<leftarrow> get_with read_int r3;
             (exps, r5) \<leftarrow> get_with read_int r4;
             (mons, r6) \<leftarrow> get_with read_int r5;
             Some (sd\<lparr>sd_sender_decode_offset := unat sender, sd_method := m, sd_bci := bci,
                      sd_locals_decode_offset := unat locs, sd_expressions_decode_offset := unat exps,
                      sd_monitors_decode_offset := unat mons\<rparr>) })"

definition new_scope_desc :: "nat \<Rightarrow> nmethod_debug \<Rightarrow> nat \<Rightarrow> nat \<Rightarrow> bool \<Rightarrow> bool \<Rightarrow> bool \<Rightarrow> scope_desc option" where
  "new_scope_desc fuel nm offset obj_offset reexecute rethrow_exception return_oop =
     do { objects \<leftarrow> decode_object_values fuel nm obj_offset;
          decode_body nm
            \<lparr>sd_method = 0, sd_bci = 0, sd_reexecute = reexecute, sd_rethrow_exception = rethrow_exception, sd_return_oop = return_oop,
             sd_decode_offset = offset, sd_sender_decode_offset = 0, sd_locals_decode_offset = 0,
             sd_expressions_decode_offset = 0, sd_monitors_decode_offset = 0, sd_objects = objects\<rparr> }"

definition scope_desc_initialize :: "nmethod_debug \<Rightarrow> scope_desc \<Rightarrow> nat \<Rightarrow> scope_desc option" where
  "scope_desc_initialize nm parent offset =
     decode_body nm (parent\<lparr>sd_decode_offset := offset, sd_reexecute := False, sd_rethrow_exception := False, sd_return_oop := False\<rparr>)"

definition sd_locals :: "nat \<Rightarrow> nmethod_debug \<Rightarrow> scope_desc \<Rightarrow> (scope_value list option) option" where
  "sd_locals fuel nm sd = decode_scope_values fuel nm (sd_objects sd) (sd_locals_decode_offset sd)"

definition sd_expressions :: "nat \<Rightarrow> nmethod_debug \<Rightarrow> scope_desc \<Rightarrow> (scope_value list option) option" where
  "sd_expressions fuel nm sd = decode_scope_values fuel nm (sd_objects sd) (sd_expressions_decode_offset sd)"

definition sd_monitors :: "nat \<Rightarrow> nmethod_debug \<Rightarrow> scope_desc \<Rightarrow> (monitor_value list option) option" where
  "sd_monitors fuel nm sd = decode_monitor_values fuel nm (sd_objects sd) (sd_monitors_decode_offset sd)"

definition is_top :: "scope_desc \<Rightarrow> bool" where
  "is_top sd \<longleftrightarrow> sd_sender_decode_offset sd = serialized_null"

definition sd_sender :: "nmethod_debug \<Rightarrow> scope_desc \<Rightarrow> (scope_desc option) option" where
  "sd_sender nm sd = (if is_top sd then Some None else map_option Some (scope_desc_initialize nm sd (sd_sender_decode_offset sd)))"

text \<open>\<open>nmethod::scope_desc_at\<close>, for the descriptor \<open>pd\<close> that \<open>pc_desc_at\<close> has found.\<close>

definition scope_desc_for :: "nat \<Rightarrow> nmethod_debug \<Rightarrow> pc_desc \<Rightarrow> scope_desc option" where
  "scope_desc_for fuel nm pd =
     new_scope_desc fuel nm (pd_scope_decode_offset pd) (pd_obj_decode_offset pd) (pd_should_reexecute pd) (pd_rethrow_exception pd) (pd_return_oop pd)"

end
