(* ===== verification/DebugInfoRec_Correct.thy ===== *)
theory DebugInfoRec_Correct
  imports DebugInfoRec_Share ScopeDesc
begin

text \<open>
  What the recorder has serialised is decoded from every compiled method made later, whether the
  bytes were shared or not: lists of values and of monitors, and the scopes.
\<close>

section \<open>Later states and compiled methods\<close>

definition later_dir :: "handle \<Rightarrow> debug_recorder \<Rightarrow> debug_recorder \<Rightarrow> bool" where
  "later_dir non_oop d d' \<longleftrightarrow> (\<exists>bs. di_bytes d' = di_bytes d @ bs) \<and> rec_later non_oop (dw_recorder (di_writer d)) (dw_recorder (di_writer d'))"

text \<open>The compiled method holds at least what \<open>d\<close> has recorded.\<close>

definition holds :: "handle \<Rightarrow> (handle \<Rightarrow> oop) \<Rightarrow> debug_recorder \<Rightarrow> nmethod_debug \<Rightarrow> bool" where
  "holds non_oop resolve d nm \<longleftrightarrow> (\<exists>rest. nm_scopes_data nm = di_bytes d @ rest) \<and>
     (\<exists>fin. rec_later non_oop (dw_recorder (di_writer d)) fin \<and> nm_tables nm = copy_values_to non_oop resolve fin)"

lemma later_dir_refl: "later_dir non_oop d d"
  by (simp add: later_dir_def oop_table.later_refl)

lemma later_dir_trans: "later_dir non_oop a b \<Longrightarrow> later_dir non_oop b c \<Longrightarrow> later_dir non_oop a c"
  unfolding later_dir_def using oop_table.later_trans by fastforce

lemma holds_later: "later_dir non_oop d d' \<Longrightarrow> holds non_oop resolve d' nm \<Longrightarrow> holds non_oop resolve d nm"
  unfolding later_dir_def holds_def using oop_table.later_trans by fastforce

section \<open>Serialised bytes\<close>

definition same_table :: "debug_recorder \<Rightarrow> debug_recorder \<Rightarrow> bool" where
  "same_table d d' \<longleftrightarrow> di_pcs d' = di_pcs d \<and> di_prev_safepoint_pc d' = di_prev_safepoint_pc d \<and>
     di_recording_non_safepoints d' = di_recording_non_safepoints d"

lemma same_table_trans: "same_table a b \<Longrightarrow> same_table b c \<Longrightarrow> same_table a c"
  by (simp add: same_table_def)

definition rec_inv :: "handle \<Rightarrow> share_flags \<Rightarrow> object_value list \<Rightarrow> debug_recorder \<Rightarrow> bool" where
  "rec_inv non_oop sf objs d \<longleftrightarrow> dir_ok sf d \<and> winv non_oop objs (di_writer d)"

text \<open>One step of the recorder: the invariant, the objects visited, the load and what was recorded before.\<close>

definition rec_step :: "handle \<Rightarrow> share_flags \<Rightarrow> object_value list \<Rightarrow> debug_recorder \<Rightarrow> nat \<Rightarrow> debug_recorder \<Rightarrow> bool" where
  "rec_step non_oop sf objs d k d' \<longleftrightarrow> rec_inv non_oop sf objs d' \<and> dw_visited (di_writer d) \<subseteq> dw_visited (di_writer d') \<and>
     load objs (di_writer d') \<le> load objs (di_writer d) + k \<and> later_dir non_oop d d'"

lemma rec_step_refl: "rec_inv non_oop sf objs d \<Longrightarrow> rec_step non_oop sf objs d 0 d"
  by (simp add: rec_step_def later_dir_refl)

lemma rec_step_trans: "rec_step non_oop sf objs a j b \<Longrightarrow> rec_step non_oop sf objs b k c \<Longrightarrow> rec_step non_oop sf objs a (j + k) c"
  unfolding rec_step_def using later_dir_trans by fastforce

lemma di_bytes_writer [simp]: "di_bytes (d\<lparr>di_writer := w\<rparr>) = cw_bytes (dw_stream w)"
  by (simp add: di_bytes_def)

lemma serialized:
  assumes inv: "rec_inv non_oop sf objs d" and w2: "wstep non_oop objs (di_writer d) k bs w2"
    and sh: "share_bytes sf (d\<lparr>di_writer := w2\<rparr>) (di_position d) = (off, d')"
  shows "rec_step non_oop sf objs d k d'" and "same_table d d'" and "dw_visited (di_writer d') = dw_visited w2"
    and "dw_recorder (di_writer d') = dw_recorder w2" and "off \<noteq> serialized_null" and "off + length bs \<le> di_position d'"
    and "\<And>nm pool. holds non_oop resolve d' nm \<Longrightarrow> bytes_at (dr_stream (reader_at nm off pool)) bs"
proof -
  let ?d2 = "d\<lparr>di_writer := w2\<rparr>"
  have d0: "dir_ok sf d" using inv by (simp add: rec_inv_def)
  have ext: "extends d bs ?d2" using w2 by (simp add: extends_def wstep_def winv_def di_bytes_def)
  note s = share_bytes_ok [OF d0 ext sh]
  have k: "dw_objects (di_writer d') = dw_objects w2" "dw_recorder (di_writer d') = dw_recorder w2" "same_table d d'"
    using s(6) by (simp_all add: keeps_rest_def same_table_def)
  then show "dw_recorder (di_writer d') = dw_recorder w2" "same_table d d'" by simp_all
  have "winv non_oop objs w2" using w2 by (simp add: wstep_def)
  then have inv': "rec_inv non_oop sf objs d'" using s(1) k(1,2) by (simp add: rec_inv_def winv_def dir_ok_def)
  show vis: "dw_visited (di_writer d') = dw_visited w2" using k(1) by (simp add: dw_visited_def)
  then have "load objs (di_writer d') = load objs w2" using k(2) by (simp add: load_def todo_def)
  moreover have "later_dir non_oop d d'" using s(5) w2 k(2) by (auto simp: later_dir_def wstep_def)
  ultimately show "rec_step non_oop sf objs d k d'" using inv' vis w2 by (simp add: rec_step_def wstep_def)
  show "off \<noteq> serialized_null" "off + length bs \<le> di_position d'" by (fact s(2), fact s(3))
  fix nm pool
  assume "holds non_oop resolve d' nm"
  then obtain rest where r: "nm_scopes_data nm = di_bytes d' @ rest" by (auto simp: holds_def)
  have "length (di_bytes d') = di_position d'" using di_bytes_length inv' by (simp add: rec_inv_def dir_ok_def)
  then have "drop off (nm_scopes_data nm) = drop off (di_bytes d') @ rest" using s(3) r by simp
  also have "drop off (di_bytes d') = bs @ drop (length bs) (drop off (di_bytes d'))" using s(4) append_take_drop_id by metis
  finally show "bytes_at (dr_stream (reader_at nm off pool)) bs" by (simp add: bytes_at_def reader_at_def)
qed

text \<open>A reader at the serialised bytes, and the tables it reads with.\<close>

lemma holds_readable:
  assumes "holds non_oop resolve d' nm" and "dw_recorder (di_writer d') = dw_recorder w'" and "bytes_at (dr_stream r) bs" and "pool_for objs w (dr_pool r)"
  shows "\<exists>fin. nm_tables nm = copy_values_to non_oop resolve fin \<and> readable non_oop objs w w' bs r fin"
  using assms by (auto simp: holds_def readable_def)

section \<open>Values\<close>

definition values_decoded :: "handle \<Rightarrow> (handle \<Rightarrow> oop) \<Rightarrow> object_value list \<Rightarrow> nat \<Rightarrow> debug_writer \<Rightarrow> debug_writer \<Rightarrow> nat \<Rightarrow> scope_value list \<Rightarrow>
    nmethod_debug \<Rightarrow> object_value list \<Rightarrow> bool" where
  "values_decoded non_oop resolve objs fuel w w' off vs nm pool \<longleftrightarrow>
     (\<exists>r1 vs' r2 new. get_with read_int (reader_at nm off pool) = Some (of_nat (length vs), r1) \<and>
        read_values (read_from fuel (nm_tables nm)) (length vs) r1 = Some (vs', r2) \<and> dr_pool r2 = pool @ new \<and> pool_for objs w' (dr_pool r2) \<and>
        added objs (initialize_immediate_oop non_oop resolve) w w' (map ov_id (dr_pool r2)) new \<and>
        list_all2 (val_rel objs (initialize_immediate_oop non_oop resolve) (map ov_id (dr_pool r2))) vs vs')"

lemma pool_for_visited: "dw_visited w' = dw_visited w \<Longrightarrow> pool_for objs w' pool = pool_for objs w pool"
  by (simp add: pool_for_def)

lemma added_visited: "dw_visited w1 = dw_visited w \<Longrightarrow> dw_visited w3 = dw_visited w2 \<Longrightarrow> added objs imm w1 w2 ids new = added objs imm w w3 ids new"
  by (simp add: added_def)

lemma reader_at_simps [simp]: "dr_pool (reader_at nm off pool) = pool" "cr_position (dr_stream (reader_at nm off pool)) = off"
  by (simp_all add: reader_at_def)

text \<open>The length in front of a list, and a reader behind it.\<close>

lemma length_prefix:
  assumes inv: "winv non_oop objs w"
  shows "\<exists>w1. put_with write_int w (of_nat n) = Some w1 \<and> dw_append w (enc_int (of_nat n)) w1 \<and> wstep non_oop objs w 0 (enc_int (of_nat n)) w1 \<and> winv non_oop objs w1"
  using winv_put [OF int_codec.stream_codec_axioms inv] by blast

lemma serialize_scope_values_ok:
  assumes inv: "rec_inv non_oop sf objs d" and vs: "list_all (val_ok non_oop (length objs)) vs" "vs \<noteq> []" and fuel: "length objs < fuel"
    and fit: "load objs (di_writer d) + length vs < 2 ^ 30"
  shows "\<exists>off d'. serialize_scope_values fuel non_oop sf d (Some vs) = Some (off, d') \<and> rec_step non_oop sf objs d (length vs) d' \<and> same_table d d' \<and>
    off \<noteq> serialized_null \<and> off < di_position d' \<and>
    (\<forall>nm pool. holds non_oop resolve d' nm \<longrightarrow> pool_for objs (di_writer d) pool \<longrightarrow> values_decoded non_oop resolve objs fuel (di_writer d) (di_writer d') off vs nm pool)"
proof -
  let ?n = "of_nat (length vs) :: jint"
  have winv: "winv non_oop objs (di_writer d)" using inv by (simp add: rec_inv_def)
  obtain w1 where w1: "put_with write_int (di_writer d) ?n = Some w1" "dw_append (di_writer d) (enc_int ?n) w1"
    "wstep non_oop objs (di_writer d) 0 (enc_int ?n) w1" "winv non_oop objs w1" using length_prefix [OF winv] by blast
  have "load objs w1 + length vs < 2 ^ 30" using fit dw_append_same(3) [OF w1(2)] by simp
  then obtain w2 bs where w2: "write_values (write_on fuel non_oop) w1 vs = Some w2" "wstep non_oop objs w1 (length vs) bs w2"
    "reads_values non_oop resolve objs (read_from fuel) w1 w2 bs vs" using write_values_ok [OF w1(4) vs(1) fuel] by blast
  have step: "wstep non_oop objs (di_writer d) (length vs) (enc_int ?n @ bs) w2" using wstep_trans [OF w1(3) w2(2)] by simp
  obtain off d' where sh: "share_bytes sf (d\<lparr>di_writer := w2\<rparr>) (di_position d) = (off, d')" by fastforce
  note s = serialized [OF inv step sh]
  have vis: "dw_visited w1 = dw_visited (di_writer d)" by (rule dw_append_same(1) [OF w1(2)])
  have "values_decoded non_oop resolve objs fuel (di_writer d) (di_writer d') off vs nm pool"
    if h: "holds non_oop resolve d' nm" and p: "pool_for objs (di_writer d) pool" for nm pool
  proof -
    let ?r = "reader_at nm off pool" and ?imm = "initialize_immediate_oop non_oop resolve"
    have b: "bytes_at (dr_stream ?r) (enc_int ?n)" "bytes_at (advance (dr_stream ?r) (length (enc_int ?n))) bs"
      using s(7) [OF h] unfolding bytes_at_append by blast+
    define r1 where "r1 = dr_advance ?r (length (enc_int ?n))"
    have "pool_for objs w1 (dr_pool r1)" using p vis by (simp add: r1_def pool_for_def)
    then obtain fin where fin: "nm_tables nm = copy_values_to non_oop resolve fin" "readable non_oop objs w1 w2 bs r1 fin"
      using holds_readable [OF h s(4), of r1 bs objs w1] b(2) by (auto simp: r1_def)
    obtain vs' r2 new where r2: "read_values (read_from fuel (nm_tables nm)) (length vs) r1 = Some (vs', r2)"
      "rstep objs ?imm w1 w2 bs r1 r2 (dr_pool r1) new" "list_all2 (val_rel objs ?imm (map ov_id (dr_pool r2))) vs vs'"
      using reads_valuesD [OF w2(3) fin(2)] fin(1) by auto
    have "get_with read_int ?r = Some (?n, r1)" using get_int [OF b(1)] by (simp add: r1_def)
    moreover have rs: "dr_pool r2 = dr_pool r1 @ new" "pool_for objs w2 (dr_pool r2)" "added objs ?imm w1 w2 (map ov_id (dr_pool r2)) new"
      using r2(2) unfolding rstep_def by blast+
    then have "dr_pool r2 = pool @ new" "pool_for objs (di_writer d') (dr_pool r2)"
      "added objs ?imm (di_writer d) (di_writer d') (map ov_id (dr_pool r2)) new"
      by (simp add: r1_def, use pool_for_visited [OF s(3)] rs(2) in blast, use added_visited [OF vis s(3)] rs(3) in blast)
    ultimately show ?thesis using r2(1,3) unfolding values_decoded_def by blast
  qed
  moreover have "off < di_position d'" using s(6) enc_int_length(1) [of ?n] by simp
  moreover have "serialize_scope_values fuel non_oop sf d (Some vs) = Some (off, d')"
    using vs(2) w1(1) w2(1) sh by (simp add: serialize_scope_values_def with_writer_def)
  ultimately show ?thesis using s(1,2,5) by blast
qed

end
