(* ===== verification/DebugInfo_Monitors.thy ===== *)
theory DebugInfo_Monitors
  imports DebugInfoRec_Correct
begin

text \<open>Lists of monitors are read back like lists of values.\<close>

definition mon_rel :: "object_value list \<Rightarrow> (handle \<Rightarrow> oop) \<Rightarrow> jint list \<Rightarrow> monitor_value \<Rightarrow> monitor_value \<Rightarrow> bool" where
  "mon_rel objs imm ids m m' \<longleftrightarrow> mv_basic_lock m' = mv_basic_lock m \<and> mv_eliminated m' = mv_eliminated m \<and>
     val_rel objs imm ids (mv_owner m) (mv_owner m')"

definition mon_ok :: "handle \<Rightarrow> nat \<Rightarrow> monitor_value \<Rightarrow> bool" where
  "mon_ok non_oop n m \<longleftrightarrow> val_ok non_oop n (mv_owner m)"

lemma mon_rel_mono: "mon_rel objs imm ids m m' \<Longrightarrow> mon_rel objs imm (ids @ more_ids) m m'"
  using val_rel_mono by (auto simp: mon_rel_def)

lemma rstep_append:
  assumes r1: "rstep objs imm w w1 bs1 r r1 (dr_pool r) new1" and r2: "rstep objs imm w1 w2 bs2 r1 r2 (dr_pool r1) new2"
    and vis: "dw_visited w \<subseteq> dw_visited w1" "dw_visited w1 \<subseteq> dw_visited w2"
  shows "rstep objs imm w w2 (bs1 @ bs2) r r2 (dr_pool r) (new1 @ new2)" and "\<exists>m. map ov_id (dr_pool r2) = map ov_id (dr_pool r1) @ m"
proof -
  have p1: "dr_pool r1 = dr_pool r @ new1" and p2: "dr_pool r2 = dr_pool r1 @ new2" using r1 r2 by (simp_all add: rstep_def)
  have ids: "map ov_id (dr_pool r2) = map ov_id (dr_pool r1) @ map ov_id new2" unfolding p2 by simp
  then show "\<exists>m. map ov_id (dr_pool r2) = map ov_id (dr_pool r1) @ m" ..
  have "added objs imm w w1 (map ov_id (dr_pool r1)) new1" "added objs imm w1 w2 (map ov_id (dr_pool r2)) new2"
    using r1 r2 unfolding rstep_def by blast+
  then have "added objs imm w w2 (map ov_id (dr_pool r2)) (new1 @ new2)" using added_trans added_mono vis ids by metis
  moreover have "pool_for objs w2 (dr_pool r2)" "dr_stream r2 = advance (dr_stream r) (length (bs1 @ bs2))"
    using r1 r2 unfolding rstep_def by auto
  ultimately show "rstep objs imm w w2 (bs1 @ bs2) r r2 (dr_pool r) (new1 @ new2)" unfolding rstep_def using p1 p2 by simp
qed

section \<open>One monitor\<close>

definition reads_monitor :: "handle \<Rightarrow> (handle \<Rightarrow> oop) \<Rightarrow> object_value list \<Rightarrow> nat \<Rightarrow> debug_writer \<Rightarrow> debug_writer \<Rightarrow> u_char list \<Rightarrow> monitor_value \<Rightarrow> bool" where
  "reads_monitor non_oop resolve objs fuel w w' bs m \<longleftrightarrow>
     (\<forall>r fin. readable non_oop objs w w' bs r fin \<longrightarrow>
        (\<exists>m' r' new. read_monitor fuel (copy_values_to non_oop resolve fin) r = Some (m', r') \<and>
           rstep objs (initialize_immediate_oop non_oop resolve) w w' bs r r' (dr_pool r) new \<and>
           mon_rel objs (initialize_immediate_oop non_oop resolve) (map ov_id (dr_pool r')) m m'))"

lemma monitor_codec:
  assumes inv: "winv non_oop objs w" and m: "mon_ok non_oop (length objs) m" and fuel: "length objs < fuel" and fit: "load objs w + 1 < 2 ^ 30"
  shows "\<exists>w' bs. monitor_write_on fuel non_oop w m = Some w' \<and> wstep non_oop objs w 1 bs w' \<and> reads_monitor non_oop resolve objs fuel w w' bs m"
proof -
  let ?l = "enc_int (mv_basic_lock m)" and ?e = "[if mv_eliminated m then 1 else 0 :: u_char]" and ?imm = "initialize_immediate_oop non_oop resolve"
  obtain w1 where w1: "put_with location_write_on w (mv_basic_lock m) = Some w1" "dw_append w ?l w1" "wstep non_oop objs w 0 ?l w1" "winv non_oop objs w1"
    using winv_put [OF location_codec.stream_codec_axioms inv] by blast
  have "list_all (val_ok non_oop (length objs)) [mv_owner m]" "load objs w1 + length [mv_owner m] < 2 ^ 30"
    using m fit dw_append_same(3) [OF w1(2)] by (simp_all add: mon_ok_def)
  then obtain w2 bo where w2: "write_values (write_on fuel non_oop) w1 [mv_owner m] = Some w2" "wstep non_oop objs w1 1 bo w2"
    "reads_values non_oop resolve objs (read_from fuel) w1 w2 bo [mv_owner m]" using write_values_ok [OF w1(4) _ fuel] by fastforce
  have wr: "write_on fuel non_oop w1 (mv_owner m) = Some w2" using w2(1) by (auto split: Option.bind_split_asm)
  obtain w3 where w3: "put_with write_bool w2 (if mv_eliminated m then 1 else 0) = Some w3" "dw_append w2 ?e w3" "wstep non_oop objs w2 0 ?e w3"
    using winv_put [OF bool_codec.stream_codec_axioms wstep_winv [OF w2(2)]] by blast
  have step: "wstep non_oop objs w 1 (?l @ bo @ ?e) w3" using wstep_trans [OF w1(3) wstep_trans [OF w2(2) w3(3)]] by simp
  have "reads_monitor non_oop resolve objs fuel w w3 (?l @ bo @ ?e) m"
    unfolding reads_monitor_def
  proof (intro allI impI)
    fix r :: debug_reader and fin :: oop_recorder
    assume rd: "readable non_oop objs w w3 (?l @ bo @ ?e) r fin"
    define r1 where "r1 = dr_advance r (length ?l)"
    have b: "bytes_at (dr_stream r) ?l" "bytes_at (dr_stream r1) bo" "bytes_at (advance (dr_stream r1) (length bo)) ?e"
      using rd unfolding readable_def bytes_at_append by (simp_all add: r1_def)
    have g1: "get_with read_location r = Some (mv_basic_lock m, r1)" using get_with_ok [OF location_codec.stream_codec_axioms b(1)] by (simp add: r1_def)
    have p: "pool_for objs w1 (dr_pool r1)" using rd dw_append_same(1) [OF w1(2)] by (simp add: readable_def pool_for_def r1_def)
    have "rec_later non_oop (dw_recorder w2) fin" using rd w3(2) by (simp add: readable_def dw_append_def)
    then have "readable non_oop objs w1 w2 bo r1 fin" using b(2) p by (simp add: readable_def)
    from reads_valuesD [OF w2(3) this] obtain v' r2 new where r2:
      "read_from fuel (copy_values_to non_oop resolve fin) r1 = Some (v', r2)" "rstep objs ?imm w1 w2 bo r1 r2 (dr_pool r1) new"
      "val_rel objs ?imm (map ov_id (dr_pool r2)) (mv_owner m) v'" by (auto simp: list_all2_Cons1 split: Option.bind_split_asm)
    define r3 where "r3 = dr_advance r2 1"
    have "dr_stream r2 = advance (dr_stream r1) (length bo)" using r2(2) by (simp add: rstep_def)
    then have g3: "get_with read_bool r2 = Some (if mv_eliminated m then 1 else 0, r3)"
      using get_with_ok [OF bool_codec.stream_codec_axioms, of r2 "if mv_eliminated m then 1 else 0"] b(3) by (simp add: r3_def)
    have s1: "rstep objs ?imm w w1 ?l r r1 (dr_pool r) []"
      unfolding r1_def by (rule rstep_none [OF dw_append_same(1) [OF w1(2)]]) (use rd in \<open>simp add: readable_def\<close>)
    have "pool_for objs w2 (dr_pool r2)" using r2(2) unfolding rstep_def by blast
    then have s3: "rstep objs ?imm w2 w3 ?e r2 r3 (dr_pool r2) []" using rstep_none [OF dw_append_same(1) [OF w3(2)], of objs r2 ?imm ?e] by (simp add: r3_def)
    have vis: "dw_visited w \<subseteq> dw_visited w1" "dw_visited w1 \<subseteq> dw_visited w2" "dw_visited w2 \<subseteq> dw_visited w3"
      using w1(3) w2(2) w3(3) by (simp_all add: wstep_def)
    note s23 = rstep_append(1) [OF r2(2) s3 vis(2,3)]
    have "rstep objs ?imm w w3 (?l @ bo @ ?e) r r3 (dr_pool r) new" using rstep_append(1) [OF s1 s23 vis(1)] vis by simp
    moreover have "dr_pool r3 = dr_pool r2" by (simp add: r3_def)
    ultimately show "\<exists>m' r' new. read_monitor fuel (copy_values_to non_oop resolve fin) r = Some (m', r') \<and>
        rstep objs ?imm w w3 (?l @ bo @ ?e) r r' (dr_pool r) new \<and> mon_rel objs ?imm (map ov_id (dr_pool r')) m m'"
      using g1 r2(1,3) g3 by (auto simp: read_monitor_def mon_rel_def)
  qed
  then show ?thesis using w1(1) wr w3(1) step by (auto simp: monitor_write_on_def)
qed

section \<open>Lists of monitors\<close>

definition reads_monitors :: "handle \<Rightarrow> (handle \<Rightarrow> oop) \<Rightarrow> object_value list \<Rightarrow> nat \<Rightarrow> debug_writer \<Rightarrow> debug_writer \<Rightarrow> u_char list \<Rightarrow> monitor_value list \<Rightarrow> bool" where
  "reads_monitors non_oop resolve objs fuel w w' bs ms \<longleftrightarrow>
     (\<forall>r fin. readable non_oop objs w w' bs r fin \<longrightarrow>
        (\<exists>ms' r' new. read_monitors fuel (copy_values_to non_oop resolve fin) (length ms) r = Some (ms', r') \<and>
           rstep objs (initialize_immediate_oop non_oop resolve) w w' bs r r' (dr_pool r) new \<and>
           list_all2 (mon_rel objs (initialize_immediate_oop non_oop resolve) (map ov_id (dr_pool r'))) ms ms'))"

lemma reads_monitors_Cons:
  assumes s1: "wstep non_oop objs w j bs1 w1" and m: "reads_monitor non_oop resolve objs fuel w w1 bs1 m"
    and s2: "wstep non_oop objs w1 k bs2 w2" and ms: "reads_monitors non_oop resolve objs fuel w1 w2 bs2 ms"
  shows "reads_monitors non_oop resolve objs fuel w w2 (bs1 @ bs2) (m # ms)"
  unfolding reads_monitors_def
proof (intro allI impI)
  fix r fin
  let ?imm = "initialize_immediate_oop non_oop resolve" and ?code = "copy_values_to non_oop resolve fin"
  assume r: "readable non_oop objs w w2 (bs1 @ bs2) r fin"
  obtain m' r1 new1 where r1: "read_monitor fuel ?code r = Some (m', r1)" "rstep objs ?imm w w1 bs1 r r1 (dr_pool r) new1"
    and m': "mon_rel objs ?imm (map ov_id (dr_pool r1)) m m'" using m readable_split [OF r s2] unfolding reads_monitor_def by blast
  have "pool_for objs w1 (dr_pool r1)" "dr_stream r1 = advance (dr_stream r) (length bs1)" using r1(2) unfolding rstep_def by blast+
  then have "readable non_oop objs w1 w2 bs2 r1 fin" using r by (simp add: readable_def bytes_at_append)
  then obtain ms' r2 new2 where r2: "read_monitors fuel ?code (length ms) r1 = Some (ms', r2)" "rstep objs ?imm w1 w2 bs2 r1 r2 (dr_pool r1) new2"
    and ms': "list_all2 (mon_rel objs ?imm (map ov_id (dr_pool r2))) ms ms'" using ms unfolding reads_monitors_def by blast
  have vis: "dw_visited w \<subseteq> dw_visited w1" "dw_visited w1 \<subseteq> dw_visited w2" using s1 s2 by (simp_all add: wstep_def)
  have "mon_rel objs ?imm (map ov_id (dr_pool r2)) m m'" using rstep_append(2) [OF r1(2) r2(2) vis] m' mon_rel_mono by metis
  moreover have "read_monitors fuel ?code (length (m # ms)) r = Some (m' # ms', r2)" using r1(1) r2(1) by simp
  ultimately show "\<exists>ms' r' new. read_monitors fuel ?code (length (m # ms)) r = Some (ms', r') \<and>
      rstep objs ?imm w w2 (bs1 @ bs2) r r' (dr_pool r) new \<and> list_all2 (mon_rel objs ?imm (map ov_id (dr_pool r'))) (m # ms) ms'"
    using rstep_append(1) [OF r1(2) r2(2) vis] ms' by (metis list_all2_Cons)
qed

lemma write_monitors_ok:
  assumes "winv non_oop objs w" and "list_all (mon_ok non_oop (length objs)) ms" and fuel: "length objs < fuel" and "load objs w + length ms < 2 ^ 30"
  shows "\<exists>w' bs. write_monitors fuel non_oop w ms = Some w' \<and> wstep non_oop objs w (length ms) bs w' \<and> reads_monitors non_oop resolve objs fuel w w' bs ms"
  using assms(1,2,4)
proof (induction ms arbitrary: w)
  case Nil
  then show ?case
    by (intro exI [of _ w] exI [of _ "[]"]) (auto simp: reads_monitors_def wstep_def oop_table.later_refl rstep_def readable_def added_def)
next
  case (Cons m ms)
  obtain w1 bs1 where w1: "monitor_write_on fuel non_oop w m = Some w1" "wstep non_oop objs w 1 bs1 w1" "reads_monitor non_oop resolve objs fuel w w1 bs1 m"
    using monitor_codec [OF Cons.prems(1) _ fuel, of m resolve] Cons.prems(2,3) by auto
  have "winv non_oop objs w1" "load objs w1 + length ms < 2 ^ 30" using w1(2) Cons.prems(3) by (auto simp: wstep_def)
  then obtain w2 bs2 where w2: "write_monitors fuel non_oop w1 ms = Some w2" "wstep non_oop objs w1 (length ms) bs2 w2"
    "reads_monitors non_oop resolve objs fuel w1 w2 bs2 ms" using Cons.IH Cons.prems(2) unfolding list.pred_inject by blast
  show ?case using w1(1) w2(1) wstep_trans [OF w1(2) w2(2)] reads_monitors_Cons [OF w1(2,3) w2(2,3)]
    by (intro exI [of _ w2] exI [of _ "bs1 @ bs2"]) simp
qed

definition monitors_decoded :: "handle \<Rightarrow> (handle \<Rightarrow> oop) \<Rightarrow> object_value list \<Rightarrow> nat \<Rightarrow> debug_writer \<Rightarrow> debug_writer \<Rightarrow> nat \<Rightarrow> monitor_value list \<Rightarrow>
    nmethod_debug \<Rightarrow> object_value list \<Rightarrow> bool" where
  "monitors_decoded non_oop resolve objs fuel w w' off ms nm pool \<longleftrightarrow>
     (\<exists>r1 ms' r2 new. get_with read_int (reader_at nm off pool) = Some (of_nat (length ms), r1) \<and>
        read_monitors fuel (nm_tables nm) (length ms) r1 = Some (ms', r2) \<and> dr_pool r2 = pool @ new \<and>
        added objs (initialize_immediate_oop non_oop resolve) w w' (map ov_id (dr_pool r2)) new \<and>
        list_all2 (mon_rel objs (initialize_immediate_oop non_oop resolve) (map ov_id (dr_pool r2))) ms ms')"

lemma serialize_monitor_values_ok:
  assumes inv: "rec_inv non_oop sf objs d" and ms: "list_all (mon_ok non_oop (length objs)) ms" "ms \<noteq> []" and fuel: "length objs < fuel"
    and fit: "load objs (di_writer d) + length ms < 2 ^ 30"
  shows "\<exists>off d'. serialize_monitor_values fuel non_oop sf d (Some ms) = Some (off, d') \<and> rec_step non_oop sf objs d (length ms) d' \<and> same_table d d' \<and>
    off \<noteq> serialized_null \<and> off < di_position d' \<and>
    (\<forall>nm pool. holds non_oop resolve d' nm \<longrightarrow> pool_for objs (di_writer d) pool \<longrightarrow> monitors_decoded non_oop resolve objs fuel (di_writer d) (di_writer d') off ms nm pool)"
proof -
  let ?n = "of_nat (length ms) :: jint"
  have winv: "winv non_oop objs (di_writer d)" using inv by (simp add: rec_inv_def)
  obtain w1 where w1: "put_with write_int (di_writer d) ?n = Some w1" "dw_append (di_writer d) (enc_int ?n) w1"
    "wstep non_oop objs (di_writer d) 0 (enc_int ?n) w1" "winv non_oop objs w1" using length_prefix [OF winv] by blast
  have "load objs w1 + length ms < 2 ^ 30" using fit dw_append_same(3) [OF w1(2)] by simp
  then obtain w2 bs where w2: "write_monitors fuel non_oop w1 ms = Some w2" "wstep non_oop objs w1 (length ms) bs w2"
    "reads_monitors non_oop resolve objs fuel w1 w2 bs ms" using write_monitors_ok [OF w1(4) ms(1) fuel] by blast
  have step: "wstep non_oop objs (di_writer d) (length ms) (enc_int ?n @ bs) w2" using wstep_trans [OF w1(3) w2(2)] by simp
  obtain off d' where sh: "share_bytes sf (d\<lparr>di_writer := w2\<rparr>) (di_position d) = (off, d')" by fastforce
  note s = serialized [OF inv step sh]
  have vis: "dw_visited w1 = dw_visited (di_writer d)" by (rule dw_append_same(1) [OF w1(2)])
  have "monitors_decoded non_oop resolve objs fuel (di_writer d) (di_writer d') off ms nm pool"
    if h: "holds non_oop resolve d' nm" and p: "pool_for objs (di_writer d) pool" for nm pool
  proof -
    let ?r = "reader_at nm off pool" and ?imm = "initialize_immediate_oop non_oop resolve"
    have b: "bytes_at (dr_stream ?r) (enc_int ?n)" "bytes_at (advance (dr_stream ?r) (length (enc_int ?n))) bs"
      using s(7) [OF h] unfolding bytes_at_append by blast+
    define r1 where "r1 = dr_advance ?r (length (enc_int ?n))"
    have "pool_for objs w1 (dr_pool r1)" using p vis by (simp add: r1_def pool_for_def)
    then obtain fin where fin: "nm_tables nm = copy_values_to non_oop resolve fin" "readable non_oop objs w1 w2 bs r1 fin"
      using holds_readable [OF h s(4), of r1 bs objs w1] b(2) by (auto simp: r1_def)
    obtain ms' r2 new where r2: "read_monitors fuel (nm_tables nm) (length ms) r1 = Some (ms', r2)"
      "rstep objs ?imm w1 w2 bs r1 r2 (dr_pool r1) new" "list_all2 (mon_rel objs ?imm (map ov_id (dr_pool r2))) ms ms'"
      using w2(3) fin unfolding reads_monitors_def by metis
    have "get_with read_int ?r = Some (?n, r1)" using get_int [OF b(1)] by (simp add: r1_def)
    moreover have rs: "dr_pool r2 = dr_pool r1 @ new" "added objs ?imm w1 w2 (map ov_id (dr_pool r2)) new" using r2(2) unfolding rstep_def by blast+
    then have "dr_pool r2 = pool @ new" "added objs ?imm (di_writer d) (di_writer d') (map ov_id (dr_pool r2)) new"
      by (simp add: r1_def, use added_visited [OF vis s(3)] rs(2) in blast)
    ultimately show ?thesis using r2(1,3) unfolding monitors_decoded_def by blast
  qed
  moreover have "off < di_position d'" using s(6) enc_int_length(1) [of ?n] by simp
  moreover have "serialize_monitor_values fuel non_oop sf d (Some ms) = Some (off, d')"
    using ms(2) w1(1) w2(1) sh by (simp add: serialize_monitor_values_def with_writer_def)
  ultimately show ?thesis using s(1,2,5) by blast
qed

end
