(* ===== verification/DebugInfoRec_Scopes.thy ===== *)
theory DebugInfoRec_Scopes
  imports DebugInfo_Monitors
begin

text \<open>
  Scopes: the values, expressions and monitors of a scope are decoded through its tokens, and its
  header through its offset; the chain of the senders leads from the innermost scope outwards.
\<close>

section \<open>Decoding lists when every object is in the pool\<close>

definition opool :: "object_value list option \<Rightarrow> object_value list" where
  "opool objects = (case objects of None \<Rightarrow> [] | Some pool \<Rightarrow> pool)"

definition all_visited :: "object_value list \<Rightarrow> debug_writer \<Rightarrow> bool" where
  "all_visited objs w \<longleftrightarrow> dw_visited w = {..<length objs}"

lemma winv_visited: "winv non_oop objs w \<Longrightarrow> dw_visited w \<subseteq> {..<length objs}"
  using map_eq_imp_length_eq [of unvisit "dw_objects w" unvisit objs] by (auto simp: winv_def dw_visited_def)

lemma all_visited_step: "all_visited objs (di_writer d) \<Longrightarrow> rec_step non_oop sf objs d k d' \<Longrightarrow> all_visited objs (di_writer d')"
  using winv_visited [of non_oop objs "di_writer d'"] by (auto simp: all_visited_def rec_step_def rec_inv_def)

lemma none_added:
  assumes "all_visited objs w" and "winv non_oop objs w'" and "added objs imm w w' ids new"
  shows "new = []"
proof -
  have "dw_visited w' - dw_visited w = {}" using assms(1) winv_visited [OF assms(2)] by (auto simp: all_visited_def)
  then show ?thesis using assms(3) unfolding added_def by (cases new) auto
qed

lemma stream_at_opool: "stream_at nm objects off = reader_at nm off (opool objects)"
  by (simp add: stream_at_def opool_def)

definition list_rel :: "('a \<Rightarrow> 'b \<Rightarrow> bool) \<Rightarrow> 'a list option \<Rightarrow> 'b list option \<Rightarrow> bool" where
  "list_rel R vs res = (if vs = None \<or> vs = Some [] then res = None else rel_option (list_all2 R) vs res)"

definition olen :: "'a list option \<Rightarrow> nat" where
  "olen vs = (case vs of None \<Rightarrow> 0 | Some xs \<Rightarrow> length xs)"

lemma decode_scope_values_ok:
  assumes dec: "values_decoded non_oop resolve objs fuel w w' off vs nm (opool objects)" and all: "all_visited objs w" "winv non_oop objs w'"
    and off: "off \<noteq> serialized_null" "length vs < 2 ^ 30"
  shows "\<exists>vs'. decode_scope_values fuel nm objects off = Some (Some vs') \<and>
    list_all2 (val_rel objs (initialize_immediate_oop non_oop resolve) (map ov_id (opool objects))) vs vs'"
proof -
  let ?imm = "initialize_immediate_oop non_oop resolve"
  obtain r1 vs' r2 new where r: "get_with read_int (reader_at nm off (opool objects)) = Some (of_nat (length vs), r1)"
    "read_values (read_from fuel (nm_tables nm)) (length vs) r1 = Some (vs', r2)" "dr_pool r2 = opool objects @ new"
    "added objs ?imm w w' (map ov_id (dr_pool r2)) new" "list_all2 (val_rel objs ?imm (map ov_id (dr_pool r2))) vs vs'"
    using dec unfolding values_decoded_def by blast
  have "new = []" by (rule none_added [OF all r(4)])
  then have "dr_pool r2 = opool objects" using r(3) by simp
  then show ?thesis using r(1,2,5) off sint_index [OF off(2)]
    by (auto simp: decode_scope_values_def stream_at_opool pool_kept_def opool_def split: option.split)
qed

lemma decode_monitor_values_ok:
  assumes dec: "monitors_decoded non_oop resolve objs fuel w w' off ms nm (opool objects)" and all: "all_visited objs w" "winv non_oop objs w'"
    and off: "off \<noteq> serialized_null" "length ms < 2 ^ 30"
  shows "\<exists>ms'. decode_monitor_values fuel nm objects off = Some (Some ms') \<and>
    list_all2 (mon_rel objs (initialize_immediate_oop non_oop resolve) (map ov_id (opool objects))) ms ms'"
proof -
  let ?imm = "initialize_immediate_oop non_oop resolve"
  obtain r1 ms' r2 new where r: "get_with read_int (reader_at nm off (opool objects)) = Some (of_nat (length ms), r1)"
    "read_monitors fuel (nm_tables nm) (length ms) r1 = Some (ms', r2)" "dr_pool r2 = opool objects @ new"
    "added objs ?imm w w' (map ov_id (dr_pool r2)) new" "list_all2 (mon_rel objs ?imm (map ov_id (dr_pool r2))) ms ms'"
    using dec unfolding monitors_decoded_def by blast
  have "new = []" by (rule none_added [OF all r(4)])
  then have "dr_pool r2 = opool objects" using r(3) by simp
  then show ?thesis using r(1,2,5) off sint_index [OF off(2)]
    by (auto simp: decode_monitor_values_def stream_at_opool pool_kept_def opool_def split: option.split)
qed

text \<open>Tokens: what \<open>create_scope_values\<close> and \<open>create_monitor_values\<close> return is decoded later.\<close>

lemma create_scope_values_ok:
  assumes inv: "rec_inv non_oop sf objs d" and vs: "pred_option (list_all (val_ok non_oop (length objs))) vs" and fuel: "length objs < fuel"
    and fit: "load objs (di_writer d) + olen vs < 2 ^ 30" and all: "all_visited objs (di_writer d)"
  shows "\<exists>off d'. create_scope_values fuel non_oop sf d vs = Some (off, d') \<and> rec_step non_oop sf objs d (olen vs) d' \<and> same_table d d' \<and> off < di_position d' \<and>
    (\<forall>nm objects. holds non_oop resolve d' nm \<longrightarrow> pool_for objs (di_writer d) (opool objects) \<longrightarrow>
       (\<exists>res. decode_scope_values fuel nm objects off = Some res \<and>
          list_rel (val_rel objs (initialize_immediate_oop non_oop resolve) (map ov_id (opool objects))) vs res))"
proof (cases "vs = None \<or> vs = Some []")
  case True
  then have "create_scope_values fuel non_oop sf d vs = Some (serialized_null, d)" by (auto simp: create_scope_values_def serialize_scope_values_def)
  moreover have "serialized_null < di_position d" using inv by (simp add: rec_inv_def dir_ok_def serialized_null_def)
  moreover have "rec_step non_oop sf objs d (olen vs) d" using rec_step_refl [OF inv] True by (auto simp: olen_def)
  ultimately show ?thesis using True by (auto simp: decode_scope_values_def list_rel_def same_table_def)
next
  case False
  then obtain xs where xs: "vs = Some xs" "xs \<noteq> []" by auto
  then obtain off d' where s: "serialize_scope_values fuel non_oop sf d (Some xs) = Some (off, d')" "rec_step non_oop sf objs d (length xs) d'" "same_table d d'"
    "off \<noteq> serialized_null" "off < di_position d'"
    and dec: "\<And>nm pool. holds non_oop resolve d' nm \<Longrightarrow> pool_for objs (di_writer d) pool \<Longrightarrow> values_decoded non_oop resolve objs fuel (di_writer d) (di_writer d') off xs nm pool"
    using serialize_scope_values_ok [OF inv _ xs(2) fuel, of resolve] vs fit by (auto simp: olen_def)
  have "winv non_oop objs (di_writer d')" using s(2) by (simp add: rec_step_def rec_inv_def)
  then have "\<exists>res. decode_scope_values fuel nm objects off = Some res \<and>
      list_rel (val_rel objs (initialize_immediate_oop non_oop resolve) (map ov_id (opool objects))) vs res"
    if "holds non_oop resolve d' nm" "pool_for objs (di_writer d) (opool objects)" for nm objects
    using decode_scope_values_ok [OF dec [OF that] all _ s(4)] fit xs by (auto simp: list_rel_def olen_def)
  then show ?thesis using s xs by (auto simp: create_scope_values_def olen_def)
qed

lemma create_monitor_values_ok:
  assumes inv: "rec_inv non_oop sf objs d" and ms: "pred_option (list_all (mon_ok non_oop (length objs))) ms" and fuel: "length objs < fuel"
    and fit: "load objs (di_writer d) + olen ms < 2 ^ 30" and all: "all_visited objs (di_writer d)"
  shows "\<exists>off d'. create_monitor_values fuel non_oop sf d ms = Some (off, d') \<and> rec_step non_oop sf objs d (olen ms) d' \<and> same_table d d' \<and> off < di_position d' \<and>
    (\<forall>nm objects. holds non_oop resolve d' nm \<longrightarrow> pool_for objs (di_writer d) (opool objects) \<longrightarrow>
       (\<exists>res. decode_monitor_values fuel nm objects off = Some res \<and>
          list_rel (mon_rel objs (initialize_immediate_oop non_oop resolve) (map ov_id (opool objects))) ms res))"
proof (cases "ms = None \<or> ms = Some []")
  case True
  then have "create_monitor_values fuel non_oop sf d ms = Some (serialized_null, d)" by (auto simp: create_monitor_values_def serialize_monitor_values_def)
  moreover have "serialized_null < di_position d" using inv by (simp add: rec_inv_def dir_ok_def serialized_null_def)
  moreover have "rec_step non_oop sf objs d (olen ms) d" using rec_step_refl [OF inv] True by (auto simp: olen_def)
  ultimately show ?thesis using True by (auto simp: decode_monitor_values_def list_rel_def same_table_def)
next
  case False
  then obtain xs where xs: "ms = Some xs" "xs \<noteq> []" by auto
  then obtain off d' where s: "serialize_monitor_values fuel non_oop sf d (Some xs) = Some (off, d')" "rec_step non_oop sf objs d (length xs) d'" "same_table d d'"
    "off \<noteq> serialized_null" "off < di_position d'"
    and dec: "\<And>nm pool. holds non_oop resolve d' nm \<Longrightarrow> pool_for objs (di_writer d) pool \<Longrightarrow> monitors_decoded non_oop resolve objs fuel (di_writer d) (di_writer d') off xs nm pool"
    using serialize_monitor_values_ok [OF inv _ xs(2) fuel, of resolve] ms fit by (auto simp: olen_def)
  have "winv non_oop objs (di_writer d')" using s(2) by (simp add: rec_step_def rec_inv_def)
  then have "\<exists>res. decode_monitor_values fuel nm objects off = Some res \<and>
      list_rel (mon_rel objs (initialize_immediate_oop non_oop resolve) (map ov_id (opool objects))) ms res"
    if "holds non_oop resolve d' nm" "pool_for objs (di_writer d) (opool objects)" for nm objects
    using decode_monitor_values_ok [OF dec [OF that] all _ s(4)] fit xs by (auto simp: list_rel_def olen_def)
  then show ?thesis using s xs by (auto simp: create_monitor_values_def olen_def)
qed

section \<open>The header of a scope\<close>

lemma get_int_at:
  assumes "bytes_at (dr_stream r) (enc_int x @ bs)"
  shows "get_with read_int r = Some (x, dr_advance r (length (enc_int x)))" and "bytes_at (dr_stream (dr_advance r (length (enc_int x)))) bs"
  using assms get_int [of r x] by (simp_all add: bytes_at_append)

text \<open>A method of the metadata table.\<close>

lemma metadata_written:
  assumes inv: "winv non_oop objs w" and h: "handle_ok non_oop m" and fit: "load objs w + 1 < 2 ^ 30"
  shows "\<exists>w' i. write_metadata non_oop w m = Some w' \<and> wstep non_oop objs w 1 (enc_int (of_nat i)) w' \<and> dw_visited w' = dw_visited w \<and>
    (\<forall>fin. rec_later non_oop (dw_recorder w') fin \<longrightarrow> metadata_at (copy_values_to non_oop resolve fin) (of_nat i) = Some m)"
proof -
  have "rec_ok non_oop (dw_recorder w)" "rec_used (dw_recorder w) + 1 < 2 ^ 30" using inv fit by (auto simp: winv_def load_def)
  then obtain i rec where f: "find_metadata_index non_oop (dw_recorder w) m = Some (i, rec)" "rec_ok non_oop rec"
    "rec_later non_oop (dw_recorder w) rec" "rec_used rec \<le> rec_used (dw_recorder w) + 1" "i < 2 ^ 30"
    and at: "\<And>t. rec_later non_oop rec t \<Longrightarrow> recorder_metadata_at t i = Some m"
    using metadata_table.find_reads_back [of non_oop "dw_recorder w" m] h by blast
  define w2 where "w2 = w\<lparr>dw_recorder := rec\<rparr>"
  have w2: "winv non_oop objs w2" "dw_visited w2 = dw_visited w" "wstep non_oop objs w 1 [] w2"
    using inv f(2-4) by (auto simp: w2_def winv_def dw_visited_def wstep_def load_def todo_def)
  obtain w3 where w3: "put_with write_int w2 (of_nat i) = Some w3" "dw_append w2 (enc_int (of_nat i)) w3" "wstep non_oop objs w2 0 (enc_int (of_nat i)) w3"
    using winv_put [OF int_codec.stream_codec_axioms w2(1)] by blast
  have "dw_recorder w3 = rec" using w3(2) by (simp add: dw_append_def w2_def)
  then have "metadata_at (copy_values_to non_oop resolve fin) (of_nat i) = Some m" if "rec_later non_oop (dw_recorder w3) fin" for fin
    using metadata_at_copied [OF at f(5)] that by simp
  then show ?thesis using f(1) w3(1) wstep_trans [OF w2(3) w3(3)] w2(2) dw_append_same(1) [OF w3(2)]
    by (auto simp: write_metadata_def w2_def intro!: exI [of _ w3] exI [of _ i])
qed

definition scope_fields :: "nat \<Rightarrow> scope_args \<Rightarrow> scope_desc \<Rightarrow> scope_desc" where
  "scope_fields sender x sd = sd\<lparr>sd_sender_decode_offset := sender, sd_method := method_enc x, sd_bci := ds_bci x,
     sd_locals_decode_offset := ds_locals x, sd_expressions_decode_offset := ds_expressions x, sd_monitors_decode_offset := ds_monitors x\<rparr>"

definition small :: "nat \<Rightarrow> bool" where
  "small n \<longleftrightarrow> n < 2 ^ 32"

lemma small_word: "small n \<Longrightarrow> unat (of_nat n :: jint) = n"
  by (simp add: small_def unsigned_of_nat take_bit_nat_eq_self)

lemma write_scope_ok:
  assumes inv: "winv non_oop objs w" and h: "handle_ok non_oop (method_enc x)" and fit: "load objs w + 1 < 2 ^ 30"
  shows "\<exists>w' bs. write_scope non_oop sender x w = Some w' \<and> wstep non_oop objs w 1 bs w' \<and> bs \<noteq> [] \<and>
    (\<forall>nm sd. bytes_at (dr_stream (stream_at nm (sd_objects sd) (sd_decode_offset sd))) bs \<longrightarrow> sd_decode_offset sd \<noteq> serialized_null \<longrightarrow>
       (\<exists>fin. rec_later non_oop (dw_recorder w') fin \<and> nm_tables nm = copy_values_to non_oop resolve fin) \<longrightarrow>
       small sender \<and> small (ds_locals x) \<and> small (ds_expressions x) \<and> small (ds_monitors x) \<longrightarrow>
       decode_body nm sd = Some (scope_fields sender x sd))"
proof -
  note put = winv_put [OF int_codec.stream_codec_axioms]
  let ?b = "ds_bci x - InvocationEntryBci"
  obtain w1 where w1: "put_with write_int w (of_nat sender) = Some w1" "dw_append w (enc_int (of_nat sender)) w1"
    "wstep non_oop objs w 0 (enc_int (of_nat sender)) w1" "winv non_oop objs w1" using put [OF inv] by blast
  have fit1: "load objs w1 + 1 < 2 ^ 30" using fit dw_append_same(3) [OF w1(2)] by simp
  obtain w2 i where w2: "write_metadata non_oop w1 (method_enc x) = Some w2" "wstep non_oop objs w1 1 (enc_int (of_nat i)) w2"
    and at: "\<And>fin. rec_later non_oop (dw_recorder w2) fin \<Longrightarrow> metadata_at (copy_values_to non_oop resolve fin) (of_nat i) = Some (method_enc x)"
    using metadata_written [OF w1(4) h fit1] by blast
  obtain w3 where w3: "put_with write_int w2 ?b = Some w3" "dw_append w2 (enc_int ?b) w3" "wstep non_oop objs w2 0 (enc_int ?b) w3" "winv non_oop objs w3"
    using put [OF wstep_winv [OF w2(2)]] by blast
  obtain w4 where w4: "put_with write_int w3 (of_nat (ds_locals x)) = Some w4" "dw_append w3 (enc_int (of_nat (ds_locals x))) w4"
    "wstep non_oop objs w3 0 (enc_int (of_nat (ds_locals x))) w4" "winv non_oop objs w4" using put [OF w3(4)] by blast
  obtain w5 where w5: "put_with write_int w4 (of_nat (ds_expressions x)) = Some w5" "dw_append w4 (enc_int (of_nat (ds_expressions x))) w5"
    "wstep non_oop objs w4 0 (enc_int (of_nat (ds_expressions x))) w5" "winv non_oop objs w5" using put [OF w4(4)] by blast
  obtain w6 where w6: "put_with write_int w5 (of_nat (ds_monitors x)) = Some w6" "dw_append w5 (enc_int (of_nat (ds_monitors x))) w6"
    "wstep non_oop objs w5 0 (enc_int (of_nat (ds_monitors x))) w6" using put [OF w5(4)] by blast
  let ?bs = "enc_int (of_nat sender) @ enc_int (of_nat i) @ enc_int ?b @ enc_int (of_nat (ds_locals x)) @ enc_int (of_nat (ds_expressions x)) @
    enc_int (of_nat (ds_monitors x))"
  have step: "wstep non_oop objs w 1 ?bs w6"
    using wstep_trans [OF w1(3) wstep_trans [OF w2(2) wstep_trans [OF w3(3) wstep_trans [OF w4(3) wstep_trans [OF w5(3) w6(3)]]]]] by simp
  have rec: "dw_recorder w6 = dw_recorder w2" using w3(2) w4(2) w5(2) w6(2) by (simp add: dw_append_def)
  have "decode_body nm sd = Some (scope_fields sender x sd)"
    if b: "bytes_at (dr_stream (stream_at nm (sd_objects sd) (sd_decode_offset sd))) ?bs" and off: "sd_decode_offset sd \<noteq> serialized_null"
      and fin: "rec_later non_oop (dw_recorder w6) fin" "nm_tables nm = copy_values_to non_oop resolve fin"
      and sm: "small sender" "small (ds_locals x)" "small (ds_expressions x)" "small (ds_monitors x)" for nm sd fin
  proof -
    note g1 = get_int_at [OF b]
    note g2 = get_int_at [OF g1(2)]
    note g3 = get_int_at [OF g2(2)]
    note g4 = get_int_at [OF g3(2)]
    note g5 = get_int_at [OF g4(2)]
    have g6: "get_with read_int r = Some (of_nat (ds_monitors x), dr_advance r (length (enc_int (of_nat (ds_monitors x)))))"
      if "bytes_at (dr_stream r) (enc_int (of_nat (ds_monitors x)))" for r using get_int [OF that] .
    show ?thesis using g1(1) g2(1) g3(1) g4(1) g5(1) g6 [OF g5(2)] at [of fin] fin rec off small_word [OF sm(1)] small_word [OF sm(2)]
        small_word [OF sm(3)] small_word [OF sm(4)]
      by (simp add: decode_body_def read_method_def read_bci_def scope_fields_def)
  qed
  moreover have "?bs \<noteq> []" using enc_int_length(1) [of "of_nat sender"] by auto
  moreover have "write_scope non_oop sender x w = Some w6" using w1(1) w2(1) w3(1) w4(1) w5(1) w6(1) by (simp add: write_scope_def write_bci_def)
  ultimately show ?thesis using step by blast
qed

section \<open>Describing a scope\<close>

text \<open>The descriptor of the instruction after \<open>describe_scope\<close> has found the offset \<open>off\<close>.\<close>

definition scope_pc :: "scope_args \<Rightarrow> nat \<Rightarrow> pc_desc \<Rightarrow> pc_desc" where
  "scope_pc x off pd = set_flag PCDESC_return_oop (ds_return_oop x)
     (set_flag PCDESC_is_method_handle_invoke (ds_is_method_handle_invoke x)
       (set_flag PCDESC_rethrow_exception (ds_rethrow_exception x)
         (set_flag PCDESC_reexecute (ds_reexecute x) (pd\<lparr>pd_scope_decode_offset := off\<rparr>))))"

lemma scope_pc_simps [simp]:
  "(scope_pc x off pd)\<lparr>pd_scope_decode_offset := off'\<rparr> = scope_pc x off' pd" "pd_scope_decode_offset (scope_pc x off pd) = off"
  "pd_pc_offset (scope_pc x off pd) = pd_pc_offset pd" "pd_obj_decode_offset (scope_pc x off pd) = pd_obj_decode_offset pd"
  by (simp_all add: scope_pc_def set_flag_def)

lemma set_last_pc_same:
  "di_writer (set_last_pc d pd) = di_writer d" "di_position (set_last_pc d pd) = di_position d" "di_bytes (set_last_pc d pd) = di_bytes d"
  "rec_inv non_oop sf objs (set_last_pc d pd) = rec_inv non_oop sf objs d" "rec_step non_oop sf objs (set_last_pc a pd) k d = rec_step non_oop sf objs a k d"
  "rec_step non_oop sf objs a k (set_last_pc d pd) = rec_step non_oop sf objs a k d" "holds non_oop resolve (set_last_pc d pd) nm = holds non_oop resolve d nm"
  "di_prev_safepoint_pc (set_last_pc d pd) = di_prev_safepoint_pc d" "di_recording_non_safepoints (set_last_pc d pd) = di_recording_non_safepoints d"
  by (simp_all add: set_last_pc_def rec_inv_def dir_ok_def di_bytes_def di_position_def rec_step_def later_dir_def holds_def)

lemma set_last_pc_pcs: "di_pcs d \<noteq> [] \<Longrightarrow> di_pcs (set_last_pc d pd) = butlast (di_pcs d) @ [pd]"
proof -
  assume "di_pcs d \<noteq> []"
  then have "di_pcs d = butlast (di_pcs d) @ [last (di_pcs d)]" by simp
  then have "(di_pcs d)[length (butlast (di_pcs d)) := pd] = butlast (di_pcs d) @ [pd]" by (metis list_update_length)
  then show ?thesis by (simp add: set_last_pc_def)
qed

lemma describe_scope_share:
  assumes pcs: "di_pcs d \<noteq> []" and w: "write_scope non_oop (pd_scope_decode_offset (last (di_pcs d))) x (di_writer d) = Some w"
    and sh: "share_bytes sf ((set_last_pc d (scope_pc x (di_position d) (last (di_pcs d))))\<lparr>di_writer := w\<rparr>) (di_position d) = (off, d2)"
    and same: "di_pcs d2 = di_pcs (set_last_pc d (scope_pc x (di_position d) (last (di_pcs d))))"
  shows "describe_scope non_oop sf d x = Some (set_last_pc d2 (scope_pc x off (last (di_pcs d))))"
proof -
  let ?pd = "last (di_pcs d)" and ?d1 = "(set_last_pc d (scope_pc x (di_position d) (last (di_pcs d))))\<lparr>di_writer := w\<rparr>"
  obtain s d3 where s: "find_sharable_decode_offset sf ?d1 (di_position d) = (s, d3)" by fastforce
  have pcs2: "di_pcs d2 = butlast (di_pcs d) @ [scope_pc x (di_position d) ?pd]" using same set_last_pc_pcs [OF pcs] by simp
  have one: "describe_scope non_oop sf d x = Some (if s \<noteq> serialized_null
      then set_last_pc (set_position d3 (di_position d)) (scope_pc x s ?pd) else d3)"
    using pcs w s by (simp add: describe_scope_def last_pc_def Let_def scope_pc_def [symmetric] with_writer_def set_last_pc_same)
  have "di_pcs (set_last_pc d2 (scope_pc x (di_position d) ?pd)) = di_pcs d2" using set_last_pc_pcs [of d2] pcs2 by simp
  moreover have "set_last_pc d2 y = d2\<lparr>di_pcs := di_pcs (set_last_pc d2 y)\<rparr>" for y by (simp add: set_last_pc_def)
  moreover have "d2\<lparr>di_pcs := di_pcs d2\<rparr> = d2" by simp
  ultimately have "set_last_pc d2 (scope_pc x (di_position d) ?pd) = d2" by metis
  then show ?thesis using one sh s by (auto simp: share_bytes_def split: if_split_asm)
qed

lemma describe_scope_ok:
  assumes inv: "rec_inv non_oop sf objs d" and pcs: "di_pcs d \<noteq> []" and h: "handle_ok non_oop (method_enc x)" and fit: "load objs (di_writer d) + 1 < 2 ^ 30"
  shows "\<exists>off d'. describe_scope non_oop sf d x = Some d' \<and> rec_step non_oop sf objs d 1 d' \<and> di_pcs d' = butlast (di_pcs d) @ [scope_pc x off (last (di_pcs d))] \<and>
    di_prev_safepoint_pc d' = di_prev_safepoint_pc d \<and> di_recording_non_safepoints d' = di_recording_non_safepoints d \<and> off \<noteq> serialized_null \<and> off < di_position d' \<and>
    (\<forall>nm sd. holds non_oop resolve d' nm \<longrightarrow> sd_decode_offset sd = off \<longrightarrow>
       small (pd_scope_decode_offset (last (di_pcs d))) \<and> small (ds_locals x) \<and> small (ds_expressions x) \<and> small (ds_monitors x) \<longrightarrow>
       decode_body nm sd = Some (scope_fields (pd_scope_decode_offset (last (di_pcs d))) x sd))"
proof -
  let ?pd = "last (di_pcs d)"
  define d1 where "d1 = set_last_pc d (scope_pc x (di_position d) ?pd)"
  have winv: "winv non_oop objs (di_writer d)" using inv by (simp add: rec_inv_def)
  have inv1: "rec_inv non_oop sf objs d1" and p1: "di_writer d1 = di_writer d" "di_position d1 = di_position d"
    using inv by (simp_all add: d1_def set_last_pc_same)
  obtain w bs where w: "write_scope non_oop (pd_scope_decode_offset ?pd) x (di_writer d) = Some w" "wstep non_oop objs (di_writer d) 1 bs w" "bs \<noteq> []"
    and dec: "\<And>nm sd. bytes_at (dr_stream (stream_at nm (sd_objects sd) (sd_decode_offset sd))) bs \<Longrightarrow> sd_decode_offset sd \<noteq> serialized_null \<Longrightarrow>
       (\<exists>fin. rec_later non_oop (dw_recorder w) fin \<and> nm_tables nm = copy_values_to non_oop resolve fin) \<Longrightarrow>
       small (pd_scope_decode_offset ?pd) \<and> small (ds_locals x) \<and> small (ds_expressions x) \<and> small (ds_monitors x) \<Longrightarrow>
       decode_body nm sd = Some (scope_fields (pd_scope_decode_offset ?pd) x sd)"
    using write_scope_ok [OF winv h fit, of "pd_scope_decode_offset ?pd" resolve] by blast
  obtain off d2 where sh: "share_bytes sf (d1\<lparr>di_writer := w\<rparr>) (di_position d1) = (off, d2)" by fastforce
  note s = serialized [OF inv1 w(2) [folded p1(1)] sh]
  define d' where "d' = set_last_pc d2 (scope_pc x off ?pd)"
  have pcs2: "di_pcs d2 = di_pcs d1" using s(2) by (simp add: same_table_def)
  have "describe_scope non_oop sf d x = Some d'"
    using describe_scope_share [OF pcs w(1) sh [unfolded p1(2), unfolded d1_def]] pcs2 by (simp add: d1_def d'_def)
  moreover have "rec_step non_oop sf objs d 1 d'" using s(1) by (simp add: d'_def d1_def set_last_pc_same)
  moreover have "di_pcs d2 = butlast (di_pcs d) @ [scope_pc x (di_position d) ?pd]" using pcs2 set_last_pc_pcs [OF pcs] by (simp add: d1_def)
  then have "di_pcs d' = butlast (di_pcs d) @ [scope_pc x off ?pd]" using set_last_pc_pcs [of d2] by (simp add: d'_def)
  moreover have "decode_body nm sd = Some (scope_fields (pd_scope_decode_offset ?pd) x sd)"
    if "holds non_oop resolve d' nm" "sd_decode_offset sd = off"
      "small (pd_scope_decode_offset ?pd) \<and> small (ds_locals x) \<and> small (ds_expressions x) \<and> small (ds_monitors x)" for nm sd
    by (rule dec) (use that s(4,5) s(7) [of resolve nm "opool (sd_objects sd)"] in \<open>auto simp: d'_def set_last_pc_same stream_at_opool holds_def\<close>)
  moreover have "off < di_position d'" using s(6) w(3) by (cases bs) (simp_all add: d'_def set_last_pc_same)
  moreover have "di_prev_safepoint_pc d' = di_prev_safepoint_pc d" "di_recording_non_safepoints d' = di_recording_non_safepoints d"
    using s(2) by (simp_all add: d'_def d1_def set_last_pc_same same_table_def)
  ultimately show ?thesis using s(5) by blast
qed

end
