(* ===== verification/DebugInfoRec_Frames.thy ===== *)
theory DebugInfoRec_Frames
  imports DebugInfoRec_Scopes
begin

text \<open>
  The scopes of an instruction, described outermost first as \<open>debugInfoRec.hpp\<close> prescribes, and decoded
  innermost first through their senders.
\<close>

section \<open>Flags of a descriptor\<close>

definition pd_flags_are :: "scope_args \<Rightarrow> pc_desc \<Rightarrow> bool" where
  "pd_flags_are x pd \<longleftrightarrow> pd_should_reexecute pd = ds_reexecute x \<and> pd_rethrow_exception pd = ds_rethrow_exception x \<and>
     pd_is_method_handle_invoke pd = ds_is_method_handle_invoke x \<and> pd_return_oop pd = ds_return_oop x"

lemma flag_bit: "(v :: jint) AND push_bit k 1 \<noteq> 0 \<longleftrightarrow> bit v k" if "k < 32"
proof -
  have "bit v k" if "v AND push_bit k 1 \<noteq> 0"
  proof -
    from that obtain n where "bit (v AND push_bit k 1) n" by (metis bit_eqI bit_0_eq bot_apply bot_bool_def)
    then show ?thesis by (auto simp: bit_and_iff bit_push_bit_iff bit_1_iff simp del: push_bit_of_1)
  qed
  moreover have "v AND push_bit k 1 \<noteq> 0" if "bit v k"
  proof
    assume "v AND push_bit k 1 = 0"
    then have "\<not> bit (v AND push_bit k 1) k" by simp
    then show False using that \<open>k < 32\<close> by (simp add: bit_and_iff bit_push_bit_iff del: push_bit_of_1)
  qed
  ultimately show ?thesis by blast
qed

lemma set_flag_bit:
  assumes "k < 32" and "n < 32"
  shows "bit (pd_flags (set_flag (push_bit k 1) z pd)) n = (if n = k then z else bit (pd_flags pd) n)"
  using assms by (auto simp: set_flag_def bit_or_iff bit_and_iff bit_not_iff bit_push_bit_iff bit_1_iff simp del: push_bit_of_1)

lemma scope_pc_flags: "pd_flags_are x (scope_pc x off pd)"
proof -
  have n: "(0 :: nat) < 32" "(1 :: nat) < 32" "(2 :: nat) < 32" "(3 :: nat) < 32" by simp_all
  show ?thesis
    unfolding pd_flags_are_def pd_should_reexecute_def pd_rethrow_exception_def pd_is_method_handle_invoke_def pd_return_oop_def pcdesc_flags scope_pc_def
      flag_bit [OF n(1)] flag_bit [OF n(2)] flag_bit [OF n(3)] flag_bit [OF n(4)]
    by (simp only: set_flag_bit n) simp
qed

section \<open>One frame\<close>

record frame =
  fr_locals :: "scope_value list option"
  fr_expressions :: "scope_value list option"
  fr_monitors :: "monitor_value list option"
  fr_scope :: scope_args

definition with_tokens :: "scope_args \<Rightarrow> nat \<Rightarrow> nat \<Rightarrow> nat \<Rightarrow> scope_args" where
  "with_tokens x l e m = x\<lparr>ds_locals := l, ds_expressions := e, ds_monitors := m\<rparr>"

definition describe_frame :: "nat \<Rightarrow> handle \<Rightarrow> share_flags \<Rightarrow> debug_recorder \<Rightarrow> frame \<Rightarrow> debug_recorder option" where
  "describe_frame fuel non_oop sf d f =
     do { (l, d1) \<leftarrow> create_scope_values fuel non_oop sf d (fr_locals f);
          (e, d2) \<leftarrow> create_scope_values fuel non_oop sf d1 (fr_expressions f);
          (m, d3) \<leftarrow> create_monitor_values fuel non_oop sf d2 (fr_monitors f);
          describe_scope non_oop sf d3 (with_tokens (fr_scope f) l e m) }"

definition frame_ok :: "handle \<Rightarrow> nat \<Rightarrow> frame \<Rightarrow> bool" where
  "frame_ok non_oop n f \<longleftrightarrow> pred_option (list_all (val_ok non_oop n)) (fr_locals f) \<and> pred_option (list_all (val_ok non_oop n)) (fr_expressions f) \<and>
     pred_option (list_all (mon_ok non_oop n)) (fr_monitors f) \<and> handle_ok non_oop (method_enc (fr_scope f))"

definition frame_cost :: "frame \<Rightarrow> nat" where
  "frame_cost f = olen (fr_locals f) + olen (fr_expressions f) + olen (fr_monitors f) + 1"

text \<open>The scope at offset \<open>off\<close> is the frame \<open>f\<close>, and its sender is at offset \<open>sender\<close>.\<close>

definition frame_at :: "object_value list \<Rightarrow> (handle \<Rightarrow> oop) \<Rightarrow> nat \<Rightarrow> nmethod_debug \<Rightarrow> object_value list option \<Rightarrow> nat \<Rightarrow> nat \<Rightarrow> frame \<Rightarrow> bool" where
  "frame_at objs imm fuel nm objects off sender f \<longleftrightarrow> off \<noteq> serialized_null \<and>
     (\<exists>x ls es ms. (\<forall>sd. sd_objects sd = objects \<longrightarrow> sd_decode_offset sd = off \<longrightarrow> decode_body nm sd = Some (scope_fields sender x sd)) \<and>
        method_enc x = method_enc (fr_scope f) \<and> ds_bci x = ds_bci (fr_scope f) \<and>
        decode_scope_values fuel nm objects (ds_locals x) = Some ls \<and> list_rel (val_rel objs imm (map ov_id (opool objects))) (fr_locals f) ls \<and>
        decode_scope_values fuel nm objects (ds_expressions x) = Some es \<and> list_rel (val_rel objs imm (map ov_id (opool objects))) (fr_expressions f) es \<and>
        decode_monitor_values fuel nm objects (ds_monitors x) = Some ms \<and> list_rel (mon_rel objs imm (map ov_id (opool objects))) (fr_monitors f) ms)"

lemma with_tokens_simps [simp]:
  "scope_pc (with_tokens x l e m) off pd = scope_pc x off pd" "method_enc (with_tokens x l e m) = method_enc x" "ds_bci (with_tokens x l e m) = ds_bci x"
  "ds_locals (with_tokens x l e m) = l" "ds_expressions (with_tokens x l e m) = e" "ds_monitors (with_tokens x l e m) = m"
  by (simp_all add: with_tokens_def scope_pc_def method_enc_def split: option.split)

lemma pool_for_all: "all_visited objs w \<Longrightarrow> all_visited objs w' \<Longrightarrow> pool_for objs w' pool = pool_for objs w pool"
  by (simp add: all_visited_def pool_for_def)

lemma holds_small:
  assumes "holds non_oop resolve d nm" and "length (nm_scopes_data nm) < 2 ^ 32" and "rec_inv non_oop sf objs d" and "n < di_position d"
  shows "small n"
  using assms di_bytes_length [of d] by (auto simp: holds_def rec_inv_def dir_ok_def small_def)

lemma later_position: "rec_inv non_oop sf objs d \<Longrightarrow> rec_step non_oop sf objs d k d' \<Longrightarrow> di_position d \<le> di_position d'"
  using di_bytes_length [of d] di_bytes_length [of d'] by (auto simp: rec_step_def later_dir_def rec_inv_def dir_ok_def)

definition frame_described :: "handle \<Rightarrow> (handle \<Rightarrow> oop) \<Rightarrow> object_value list \<Rightarrow> nat \<Rightarrow> debug_recorder \<Rightarrow> nat \<Rightarrow> frame \<Rightarrow> debug_recorder \<Rightarrow> bool" where
  "frame_described non_oop resolve objs fuel d off f d' \<longleftrightarrow>
     (\<forall>nm objects. holds non_oop resolve d' nm \<longrightarrow> length (nm_scopes_data nm) < 2 ^ 32 \<longrightarrow> pool_for objs (di_writer d) (opool objects) \<longrightarrow>
        frame_at objs (initialize_immediate_oop non_oop resolve) fuel nm objects off (pd_scope_decode_offset (last (di_pcs d))) f)"

lemma describe_frame_ok:
  assumes inv: "rec_inv non_oop sf objs d" and pcs: "di_pcs d \<noteq> []" and f: "frame_ok non_oop (length objs) f" and fuel: "length objs < fuel"
    and fit: "load objs (di_writer d) + frame_cost f < 2 ^ 30" and all: "all_visited objs (di_writer d)" and pd: "pd_scope_decode_offset (last (di_pcs d)) < di_position d"
  shows "\<exists>off d'. describe_frame fuel non_oop sf d f = Some d' \<and> rec_step non_oop sf objs d (frame_cost f) d' \<and>
    di_pcs d' = butlast (di_pcs d) @ [scope_pc (fr_scope f) off (last (di_pcs d))] \<and> di_prev_safepoint_pc d' = di_prev_safepoint_pc d \<and>
    di_recording_non_safepoints d' = di_recording_non_safepoints d \<and> off < di_position d' \<and> frame_described non_oop resolve objs fuel d off f d'"
proof -
  let ?imm = "initialize_immediate_oop non_oop resolve" and ?pd = "last (di_pcs d)"
  obtain l d1 where l: "create_scope_values fuel non_oop sf d (fr_locals f) = Some (l, d1)" "rec_step non_oop sf objs d (olen (fr_locals f)) d1" "same_table d d1" "l < di_position d1"
    and ldec: "\<And>nm objects. holds non_oop resolve d1 nm \<Longrightarrow> pool_for objs (di_writer d) (opool objects) \<Longrightarrow>
       \<exists>res. decode_scope_values fuel nm objects l = Some res \<and> list_rel (val_rel objs ?imm (map ov_id (opool objects))) (fr_locals f) res"
    using create_scope_values_ok [OF inv _ fuel _ all, of "fr_locals f" resolve] f fit by (auto simp: frame_ok_def frame_cost_def)
  have i1: "rec_inv non_oop sf objs d1" "all_visited objs (di_writer d1)" "load objs (di_writer d1) \<le> load objs (di_writer d) + olen (fr_locals f)"
    using l(2) all_visited_step [OF all l(2)] by (simp_all add: rec_step_def)
  obtain e d2 where e: "create_scope_values fuel non_oop sf d1 (fr_expressions f) = Some (e, d2)" "rec_step non_oop sf objs d1 (olen (fr_expressions f)) d2" "same_table d1 d2" "e < di_position d2"
    and edec: "\<And>nm objects. holds non_oop resolve d2 nm \<Longrightarrow> pool_for objs (di_writer d1) (opool objects) \<Longrightarrow>
       \<exists>res. decode_scope_values fuel nm objects e = Some res \<and> list_rel (val_rel objs ?imm (map ov_id (opool objects))) (fr_expressions f) res"
    using create_scope_values_ok [OF i1(1) _ fuel _ i1(2), of "fr_expressions f" resolve] f fit i1(3) by (auto simp: frame_ok_def frame_cost_def)
  have i2: "rec_inv non_oop sf objs d2" "all_visited objs (di_writer d2)" "load objs (di_writer d2) \<le> load objs (di_writer d1) + olen (fr_expressions f)"
    using e(2) all_visited_step [OF i1(2) e(2)] by (simp_all add: rec_step_def)
  obtain m d3 where m: "create_monitor_values fuel non_oop sf d2 (fr_monitors f) = Some (m, d3)" "rec_step non_oop sf objs d2 (olen (fr_monitors f)) d3" "same_table d2 d3" "m < di_position d3"
    and mdec: "\<And>nm objects. holds non_oop resolve d3 nm \<Longrightarrow> pool_for objs (di_writer d2) (opool objects) \<Longrightarrow>
       \<exists>res. decode_monitor_values fuel nm objects m = Some res \<and> list_rel (mon_rel objs ?imm (map ov_id (opool objects))) (fr_monitors f) res"
    using create_monitor_values_ok [OF i2(1) _ fuel _ i2(2), of "fr_monitors f" resolve] f fit i1(3) i2(3) by (auto simp: frame_ok_def frame_cost_def)
  have i3: "rec_inv non_oop sf objs d3" "load objs (di_writer d3) \<le> load objs (di_writer d2) + olen (fr_monitors f)" using m(2) by (simp_all add: rec_step_def)
  have p3: "di_pcs d3 = di_pcs d" "di_prev_safepoint_pc d3 = di_prev_safepoint_pc d" "di_recording_non_safepoints d3 = di_recording_non_safepoints d"
    using l(3) e(3) m(3) by (simp_all add: same_table_def)
  let ?x = "with_tokens (fr_scope f) l e m"
  obtain off d' where d': "describe_scope non_oop sf d3 ?x = Some d'" "rec_step non_oop sf objs d3 1 d'" "di_pcs d' = butlast (di_pcs d) @ [scope_pc (fr_scope f) off ?pd]"
    "di_prev_safepoint_pc d' = di_prev_safepoint_pc d" "di_recording_non_safepoints d' = di_recording_non_safepoints d" "off \<noteq> serialized_null" "off < di_position d'"
    and xdec: "\<And>nm sd. holds non_oop resolve d' nm \<Longrightarrow> sd_decode_offset sd = off \<Longrightarrow> small (pd_scope_decode_offset ?pd) \<and> small l \<and> small e \<and> small m \<Longrightarrow>
       decode_body nm sd = Some (scope_fields (pd_scope_decode_offset ?pd) ?x sd)"
    using describe_scope_ok [OF i3(1), of ?x resolve] pcs f fit i1(3) i2(3) i3(2) by (auto simp: frame_ok_def frame_cost_def p3)
  have "frame_described non_oop resolve objs fuel d off f d'"
    unfolding frame_described_def
  proof (intro allI impI)
    fix nm objects
    assume h: "holds non_oop resolve d' nm" and len: "length (nm_scopes_data nm) < 2 ^ 32" and p: "pool_for objs (di_writer d) (opool objects)"
    have h3: "holds non_oop resolve d3 nm" using holds_later h d'(2) by (auto simp: rec_step_def)
    have h2: "holds non_oop resolve d2 nm" using holds_later h3 m(2) by (auto simp: rec_step_def)
    have h1: "holds non_oop resolve d1 nm" using holds_later h2 e(2) by (auto simp: rec_step_def)
    have h0: "holds non_oop resolve d nm" using holds_later h1 l(2) by (auto simp: rec_step_def)
    have sm: "small (pd_scope_decode_offset ?pd) \<and> small l \<and> small e \<and> small m"
      using holds_small [OF h0 len inv pd] holds_small [OF h1 len i1(1) l(4)] holds_small [OF h2 len i2(1) e(4)] holds_small [OF h3 len i3(1) m(4)] by blast
    have p1: "pool_for objs (di_writer d1) (opool objects)" and p2: "pool_for objs (di_writer d2) (opool objects)"
      using pool_for_all [OF all i1(2)] pool_for_all [OF all i2(2)] p by blast+
    show "frame_at objs ?imm fuel nm objects off (pd_scope_decode_offset ?pd) f"
      unfolding frame_at_def using d'(6) xdec [OF h _ sm] ldec [OF h1 p] edec [OF h2 p1] mdec [OF h3 p2]
      by (auto intro!: exI [of _ ?x])
  qed
  moreover have "describe_frame fuel non_oop sf d f = Some d'" using l(1) e(1) m(1) d'(1) by (simp add: describe_frame_def)
  moreover have "rec_step non_oop sf objs d (frame_cost f) d'"
    using rec_step_trans [OF rec_step_trans [OF rec_step_trans [OF l(2) e(2)] m(2)] d'(2)] by (simp add: frame_cost_def)
  ultimately show ?thesis using d'(3-5,7) by blast
qed

section \<open>The frames of an instruction\<close>

fun describe_frames :: "nat \<Rightarrow> handle \<Rightarrow> share_flags \<Rightarrow> debug_recorder \<Rightarrow> frame list \<Rightarrow> debug_recorder option" where
  "describe_frames fuel non_oop sf d [] = Some d"
| "describe_frames fuel non_oop sf d (f # fs) = do { d1 \<leftarrow> describe_frame fuel non_oop sf d f; describe_frames fuel non_oop sf d1 fs }"

text \<open>The frames from the scope at \<open>off\<close> outwards.\<close>

fun chain :: "object_value list \<Rightarrow> (handle \<Rightarrow> oop) \<Rightarrow> nat \<Rightarrow> nmethod_debug \<Rightarrow> object_value list option \<Rightarrow> nat \<Rightarrow> frame list \<Rightarrow> bool" where
  "chain objs imm fuel nm objects off [] \<longleftrightarrow> off = serialized_null"
| "chain objs imm fuel nm objects off (f # fs) \<longleftrightarrow> (\<exists>sender. frame_at objs imm fuel nm objects off sender f \<and> chain objs imm fuel nm objects sender fs)"

definition frames_described :: "handle \<Rightarrow> (handle \<Rightarrow> oop) \<Rightarrow> object_value list \<Rightarrow> nat \<Rightarrow> debug_recorder \<Rightarrow> frame list \<Rightarrow> debug_recorder \<Rightarrow> bool" where
  "frames_described non_oop resolve objs fuel d fs d' \<longleftrightarrow>
     (\<forall>nm objects prior. holds non_oop resolve d' nm \<longrightarrow> length (nm_scopes_data nm) < 2 ^ 32 \<longrightarrow> pool_for objs (di_writer d) (opool objects) \<longrightarrow>
        chain objs (initialize_immediate_oop non_oop resolve) fuel nm objects (pd_scope_decode_offset (last (di_pcs d))) prior \<longrightarrow>
        chain objs (initialize_immediate_oop non_oop resolve) fuel nm objects (pd_scope_decode_offset (last (di_pcs d'))) (rev fs @ prior))"

lemma describe_frames_ok:
  assumes "rec_inv non_oop sf objs d" and "di_pcs d \<noteq> []" and "list_all (frame_ok non_oop (length objs)) fs" and fuel: "length objs < fuel"
    and "load objs (di_writer d) + (\<Sum>f \<leftarrow> fs. frame_cost f) < 2 ^ 30" and "all_visited objs (di_writer d)" and "pd_scope_decode_offset (last (di_pcs d)) < di_position d"
  shows "\<exists>d' pd. describe_frames fuel non_oop sf d fs = Some d' \<and> rec_step non_oop sf objs d (\<Sum>f \<leftarrow> fs. frame_cost f) d' \<and>
    di_pcs d' = butlast (di_pcs d) @ [pd] \<and> pd_pc_offset pd = pd_pc_offset (last (di_pcs d)) \<and> pd_obj_decode_offset pd = pd_obj_decode_offset (last (di_pcs d)) \<and>
    (fs \<noteq> [] \<longrightarrow> pd_flags_are (fr_scope (last fs)) pd) \<and>
    di_prev_safepoint_pc d' = di_prev_safepoint_pc d \<and> di_recording_non_safepoints d' = di_recording_non_safepoints d \<and> frames_described non_oop resolve objs fuel d fs d'"
  using assms(1,2,3,5-)
proof (induction fs arbitrary: d)
  case Nil
  then show ?case using rec_step_refl [OF Nil(1)] by (intro exI [of _ d] exI [of _ "last (di_pcs d)"]) (simp add: frames_described_def)
next
  case (Cons f fs)
  let ?imm = "initialize_immediate_oop non_oop resolve"
  have f: "frame_ok non_oop (length objs) f" "list_all (frame_ok non_oop (length objs)) fs" using Cons.prems(3) by simp_all
  have fit: "load objs (di_writer d) + frame_cost f < 2 ^ 30" using Cons.prems(4) by simp
  obtain off d1 where d1: "describe_frame fuel non_oop sf d f = Some d1" "rec_step non_oop sf objs d (frame_cost f) d1"
    "di_pcs d1 = butlast (di_pcs d) @ [scope_pc (fr_scope f) off (last (di_pcs d))]" "di_prev_safepoint_pc d1 = di_prev_safepoint_pc d"
    "di_recording_non_safepoints d1 = di_recording_non_safepoints d" "off < di_position d1" "frame_described non_oop resolve objs fuel d off f d1"
    using describe_frame_ok [OF Cons.prems(1,2) f(1) fuel fit Cons.prems(5,6), of resolve] by blast
  have i1: "rec_inv non_oop sf objs d1" "all_visited objs (di_writer d1)" "load objs (di_writer d1) + (\<Sum>f \<leftarrow> fs. frame_cost f) < 2 ^ 30" "di_pcs d1 \<noteq> []"
    "pd_scope_decode_offset (last (di_pcs d1)) < di_position d1"
    using d1(2,3,6) all_visited_step [OF Cons.prems(5) d1(2)] Cons.prems(4) by (auto simp: rec_step_def)
  obtain d' pd where d': "describe_frames fuel non_oop sf d1 fs = Some d'" "rec_step non_oop sf objs d1 (\<Sum>f \<leftarrow> fs. frame_cost f) d'"
    "di_pcs d' = butlast (di_pcs d1) @ [pd]" "pd_pc_offset pd = pd_pc_offset (last (di_pcs d1))" "pd_obj_decode_offset pd = pd_obj_decode_offset (last (di_pcs d1))"
    "fs \<noteq> [] \<Longrightarrow> pd_flags_are (fr_scope (last fs)) pd" "di_prev_safepoint_pc d' = di_prev_safepoint_pc d1"
    "di_recording_non_safepoints d' = di_recording_non_safepoints d1" "frames_described non_oop resolve objs fuel d1 fs d'"
    using Cons.IH [OF i1(1,4) f(2) i1(3,2,5)] by blast
  have "frames_described non_oop resolve objs fuel d (f # fs) d'"
    unfolding frames_described_def
  proof (intro allI impI)
    fix nm objects prior
    assume h: "holds non_oop resolve d' nm" and len: "length (nm_scopes_data nm) < 2 ^ 32" and p: "pool_for objs (di_writer d) (opool objects)"
      and c: "chain objs ?imm fuel nm objects (pd_scope_decode_offset (last (di_pcs d))) prior"
    have h1: "holds non_oop resolve d1 nm" using holds_later h d'(2) by (auto simp: rec_step_def)
    have "frame_at objs ?imm fuel nm objects off (pd_scope_decode_offset (last (di_pcs d))) f" using d1(7) h1 len p unfolding frame_described_def by blast
    then have "chain objs ?imm fuel nm objects (pd_scope_decode_offset (last (di_pcs d1))) (f # prior)" using c d1(3) by auto
    then have "chain objs ?imm fuel nm objects (pd_scope_decode_offset (last (di_pcs d'))) (rev fs @ f # prior)"
      using d'(9) h len p pool_for_all [OF Cons.prems(5) i1(2)] unfolding frames_described_def by blast
    then show "chain objs ?imm fuel nm objects (pd_scope_decode_offset (last (di_pcs d'))) (rev (f # fs) @ prior)" by simp
  qed
  moreover have "pd_flags_are (fr_scope (last (f # fs))) pd"
  proof (cases "fs = []")
    case True
    then have "pd = scope_pc (fr_scope f) off (last (di_pcs d))" using d'(1,3) d1(3) by simp
    then show ?thesis using True scope_pc_flags by simp
  next
    case False
    then show ?thesis using d'(6) by simp
  qed
  moreover have "describe_frames fuel non_oop sf d (f # fs) = Some d'" using d1(1) d'(1) by simp
  moreover have "rec_step non_oop sf objs d (\<Sum>f \<leftarrow> f # fs. frame_cost f) d'" using rec_step_trans [OF d1(2) d'(2)] by simp
  moreover have "di_pcs d' = butlast (di_pcs d) @ [pd]" "pd_pc_offset pd = pd_pc_offset (last (di_pcs d))" "pd_obj_decode_offset pd = pd_obj_decode_offset (last (di_pcs d))"
    using d'(3-5) d1(3) by simp_all
  ultimately show ?case using d'(7,8) d1(4,5) by (intro exI [of _ d'] exI [of _ pd]) simp
qed

end
