(* ===== verification/DebugInfoRec_Pool.thy ===== *)
theory DebugInfoRec_Pool
  imports DebugInfoRec_Frames
begin

text \<open>
  The object pool of a safepoint: \<open>dump_object_pool\<close> writes every object once, and decoding at the
  offset it has stored gives a pool of objects of the same shape.
\<close>

section \<open>Clearing the marks\<close>

lemma clear_visited_length: "length (clear_visited as store) = length store"
  unfolding clear_visited_def by (induction as) simp_all

lemma clear_visited_nth:
  "i < length store \<Longrightarrow> clear_visited as store ! i = (if i \<in> set as then set_visited (store ! i) False else store ! i)"
proof (induction as)
  case (Cons a as)
  have "clear_visited (a # as) store = (clear_visited as store)[a := set_visited (clear_visited as store ! a) False]" by (simp add: clear_visited_def)
  then show ?case using Cons clear_visited_length [of as store] by (cases "a = i") (auto simp: set_visited_def)
qed (simp add: clear_visited_def)

lemma clear_all: "clear_visited [0..<length objs] objs = map unvisit objs"
  by (rule nth_equalityI) (simp_all add: clear_visited_length clear_visited_nth set_visited_def unvisit_def)

definition cleared :: "debug_recorder \<Rightarrow> object_value list \<Rightarrow> debug_recorder" where
  "cleared d objs = d\<lparr>di_writer := (di_writer d)\<lparr>dw_objects := map unvisit objs\<rparr>\<rparr>"

definition objects_cost :: "object_value list \<Rightarrow> nat" where
  "objects_cost objs = (\<Sum>a < length objs. 2 + length (ov_field_values (objs ! a)))"

lemma cleared_ok:
  assumes "dir_ok sf d" and "rec_ok non_oop (dw_recorder (di_writer d))" and "graph_ok non_oop objs"
  shows "rec_inv non_oop sf objs (cleared d objs)" and "dw_visited (di_writer (cleared d objs)) = {}"
    and "load objs (di_writer (cleared d objs)) = rec_used (dw_recorder (di_writer d)) + objects_cost objs" and "same_table d (cleared d objs)"
    and "later_dir non_oop d (cleared d objs)"
proof -
  have u: "unvisit (unvisit ov) = unvisit ov" "\<not> ov_visited (unvisit ov)" for ov by (simp_all add: unvisit_def)
  show vis: "dw_visited (di_writer (cleared d objs)) = {}" by (auto simp: dw_visited_def cleared_def u)
  have "dir_ok sf (cleared d objs)" using assms(1) by (simp add: dir_ok_def cleared_def di_bytes_def di_position_def)
  then show "rec_inv non_oop sf objs (cleared d objs)" using assms by (simp add: rec_inv_def winv_def cleared_def dir_ok_def u)
  show "load objs (di_writer (cleared d objs)) = rec_used (dw_recorder (di_writer d)) + objects_cost objs"
    unfolding load_def todo_def vis by (simp add: cleared_def objects_cost_def lessThan_def)
  show "same_table d (cleared d objs)" by (simp add: same_table_def cleared_def)
  show "later_dir non_oop d (cleared d objs)" by (simp add: later_dir_def cleared_def di_bytes_def oop_table.later_refl)
qed

section \<open>The pool\<close>

definition pool_ok :: "object_value list \<Rightarrow> (handle \<Rightarrow> oop) \<Rightarrow> nat \<Rightarrow> nmethod_debug \<Rightarrow> nat \<Rightarrow> object_value list option \<Rightarrow> bool" where
  "pool_ok objs imm fuel nm off objects \<longleftrightarrow> decode_object_values fuel nm off = Some objects \<and> distinct (map ov_id (opool objects)) \<and>
     set (map ov_id (opool objects)) = set (map ov_id objs) \<and>
     (\<forall>ov' \<in> set (opool objects). \<exists>ov \<in> set objs. obj_rel objs imm (map ov_id (opool objects)) ov ov')"

lemma ids_nth: "(\<lambda>a. ov_id (objs ! a)) ` {..<length objs} = set (map ov_id objs)"
  unfolding set_conv_nth by (auto intro: nth_map [symmetric])

lemma pool_ok_pool_for: "all_visited objs w \<Longrightarrow> pool_ok objs imm fuel nm off objects \<Longrightarrow> pool_for objs w (opool objects)"
  unfolding pool_ok_def pool_for_def all_visited_def by (simp only: ids_nth)

lemma all_values_visited:
  assumes g: "graph_ok non_oop objs" and w: "winv non_oop objs w'" and p: "pool_for objs w' pool"
    and l: "list_all2 (val_rel objs imm (map ov_id pool)) (map ObjectValue [0..<length objs]) vs'"
  shows "all_visited objs w'"
proof -
  have "a \<in> dw_visited w'" if a: "a < length objs" for a
  proof -
    have "val_rel objs imm (map ov_id pool) (ObjectValue a) (vs' ! a)"
      using list_all2_nthD [OF l, of a] a by simp
    then have "ov_id (objs ! a) \<in> set (map ov_id pool)" by (auto simp: val_rel_def) (metis image_eqI nth_mem)
    then obtain b where b: "b \<in> dw_visited w'" "ov_id (objs ! a) = ov_id (objs ! b)" using p by (auto simp: pool_for_def)
    then have "b < length objs" using winv_visited [OF w] by auto
    then show ?thesis using b g a by (auto simp: graph_ok_def distinct_conv_nth)
  qed
  then show ?thesis using winv_visited [OF w] by (auto simp: all_visited_def)
qed

lemma pool_decoded:
  assumes g: "graph_ok non_oop objs" and w: "winv non_oop objs w'" and v: "dw_visited w = {}" and off: "off \<noteq> serialized_null" "length objs < 2 ^ 30"
    and dec: "values_decoded non_oop resolve objs fuel w w' off (map ObjectValue [0..<length objs]) nm []"
  shows "all_visited objs w' \<and> (\<exists>objects. pool_ok objs (initialize_immediate_oop non_oop resolve) fuel nm off objects)"
proof -
  let ?imm = "initialize_immediate_oop non_oop resolve" and ?vs = "map ObjectValue [0..<length objs]"
  obtain r1 vs' r2 new where r: "get_with read_int (reader_at nm off []) = Some (of_nat (length objs), r1)"
    "read_values (read_from fuel (nm_tables nm)) (length objs) r1 = Some (vs', r2)" "dr_pool r2 = new" "pool_for objs w' (dr_pool r2)"
    "added objs ?imm w w' (map ov_id (dr_pool r2)) new" "list_all2 (val_rel objs ?imm (map ov_id (dr_pool r2))) ?vs vs'"
    using dec unfolding values_decoded_def by auto
  have all: "all_visited objs w'" by (rule all_values_visited [OF g w r(4,6)])
  have "decode_object_values fuel nm off = Some (Some (dr_pool r2))"
    using r(1,2) off sint_index [OF off(2)] by (simp add: decode_object_values_def)
  moreover have "set (map ov_id (dr_pool r2)) = set (map ov_id objs)" "distinct (map ov_id (dr_pool r2))"
    using r(4) all unfolding pool_for_def all_visited_def by (simp_all only: ids_nth)
  moreover have "\<forall>ov' \<in> set (dr_pool r2). \<exists>ov \<in> set objs. obj_rel objs ?imm (map ov_id (dr_pool r2)) ov ov'"
    using r(3,5) all unfolding added_def all_visited_def by (metis DiffD1 lessThan_iff nth_mem)
  ultimately show ?thesis using all by (auto simp: pool_ok_def opool_def intro!: exI [of _ "Some (dr_pool r2)"])
qed

lemma holds_exists: "\<exists>nm. holds non_oop resolve d nm"
proof -
  define nm where "nm = \<lparr>nm_tables = copy_values_to non_oop resolve (dw_recorder (di_writer d)), nm_method = 0, nm_scopes_data = di_bytes d,
    nm_scopes_pcs = [], nm_has_method_handle_invokes = False\<rparr>"
  have "holds non_oop resolve d nm" unfolding holds_def nm_def using oop_table.later_refl by auto
  then show ?thesis by blast
qed

lemma dump_object_pool_ok:
  assumes ok: "dir_ok sf d" "rec_ok non_oop (dw_recorder (di_writer d))" "graph_ok non_oop objs" and objs: "dw_objects (di_writer d) = objs"
    and pcs: "di_pcs d \<noteq> []" and fuel: "length objs < fuel"
    and fit: "rec_used (dw_recorder (di_writer d)) + objects_cost objs + length objs < 2 ^ 30"
  shows "\<exists>off d'. dump_object_pool fuel non_oop sf d (Some [0..<length objs]) = Some d' \<and> rec_inv non_oop sf objs d' \<and> later_dir non_oop d d' \<and>
    load objs (di_writer d') \<le> rec_used (dw_recorder (di_writer d)) + objects_cost objs + length objs \<and> all_visited objs (di_writer d') \<and>
    di_pcs d' = butlast (di_pcs d) @ [(last (di_pcs d))\<lparr>pd_obj_decode_offset := off\<rparr>] \<and> di_prev_safepoint_pc d' = di_prev_safepoint_pc d \<and>
    di_recording_non_safepoints d' = di_recording_non_safepoints d \<and>
    (\<forall>nm. holds non_oop resolve d' nm \<longrightarrow> (\<exists>objects. pool_ok objs (initialize_immediate_oop non_oop resolve) fuel nm off objects))"
proof -
  let ?vs = "map ObjectValue [0..<length objs]" and ?d1 = "cleared d objs"
  note c = cleared_ok [OF ok]
  have "\<exists>off d2. serialize_scope_values fuel non_oop sf ?d1 (Some ?vs) = Some (off, d2) \<and> rec_step non_oop sf objs ?d1 (length objs) d2 \<and> same_table ?d1 d2 \<and>
    all_visited objs (di_writer d2) \<and> (\<forall>nm. holds non_oop resolve d2 nm \<longrightarrow> (\<exists>objects. pool_ok objs (initialize_immediate_oop non_oop resolve) fuel nm off objects))"
  proof (cases "objs = []")
    case True
    then show ?thesis using rec_step_refl [OF c(1)] c(2)
      by (auto simp: serialize_scope_values_def same_table_def all_visited_def pool_ok_def decode_object_values_def opool_def)
  next
    case False
    have "list_all (val_ok non_oop (length objs)) ?vs" by (simp add: list_all_iff val_ok_def)
    then obtain off d2 where s: "serialize_scope_values fuel non_oop sf ?d1 (Some ?vs) = Some (off, d2)" "rec_step non_oop sf objs ?d1 (length objs) d2"
      "same_table ?d1 d2" "off \<noteq> serialized_null"
      and dec: "\<And>nm pool. holds non_oop resolve d2 nm \<Longrightarrow> pool_for objs (di_writer ?d1) pool \<Longrightarrow>
        values_decoded non_oop resolve objs fuel (di_writer ?d1) (di_writer d2) off ?vs nm pool"
      using serialize_scope_values_ok [OF c(1) _ _ fuel, of ?vs resolve] False fit c(3) by auto
    have w: "winv non_oop objs (di_writer d2)" using s(2) by (simp add: rec_step_def rec_inv_def)
    have p: "pool_for objs (di_writer ?d1) []" using c(2) by (simp add: pool_for_def)
    have len: "length objs < 2 ^ 30" using fit by simp
    note pd = pool_decoded [OF ok(3) w c(2) s(4) len dec [OF _ p]]
    then show ?thesis using s holds_exists [of non_oop resolve d2] by blast
  qed
  then obtain off d2 where d2: "serialize_scope_values fuel non_oop sf ?d1 (Some ?vs) = Some (off, d2)" "rec_step non_oop sf objs ?d1 (length objs) d2"
    "same_table ?d1 d2" "all_visited objs (di_writer d2)"
    "\<And>nm. holds non_oop resolve d2 nm \<Longrightarrow> \<exists>objects. pool_ok objs (initialize_immediate_oop non_oop resolve) fuel nm off objects" by blast
  let ?pd = "(last (di_pcs d))\<lparr>pd_obj_decode_offset := off\<rparr>"
  have t: "di_pcs d2 = di_pcs d" "di_prev_safepoint_pc d2 = di_prev_safepoint_pc d" "di_recording_non_safepoints d2 = di_recording_non_safepoints d"
    using c(4) d2(3) by (simp_all add: same_table_def)
  have "dump_object_pool fuel non_oop sf d (Some [0..<length objs]) = Some (set_last_pc d2 ?pd)"
    using d2(1) pcs by (simp add: dump_object_pool_def last_pc_def objs clear_all cleared_def)
  moreover have "rec_inv non_oop sf objs d2" "later_dir non_oop ?d1 d2" "load objs (di_writer d2) \<le> load objs (di_writer ?d1) + length objs"
    using d2(2) by (simp_all add: rec_step_def)
  moreover have "later_dir non_oop d d2" using later_dir_trans [OF c(5)] calculation(3) by blast
  then have "later_dir non_oop d (set_last_pc d2 ?pd)" by (simp add: later_dir_def set_last_pc_same)
  ultimately show ?thesis using d2(4,5) t pcs set_last_pc_pcs [of d2 ?pd] c(3)
    by (intro exI [of _ off] exI [of _ "set_last_pc d2 ?pd"]) (simp add: set_last_pc_same)
qed

end
