(* ===== verification/PcDescSearch.thy ===== *)
theory PcDescSearch
  imports DebugInfoRec
begin

text \<open>
  The search for the descriptor of an instruction (\<open>src/src/share/vm/code/nmethod.cpp\<close>, class \<open>PcDescCache\<close> and
  \<open>nmethod::find_pc_desc\<close>).  A \<open>PcDesc*\<close> is its index in the table \<open>scopes_pcs\<close>.  Several threads read and
  change the cache without a lock, so the values loaded from it are arguments of the search:
  \<open>cs\<close> are the entries one pass over the cache has loaded, \<open>mid\<close> the entry loaded as a split point.
  A step of the search that leaves the table is \<open>None\<close>.
\<close>

section \<open>Definitions\<close>

text \<open>
  \<open>match_desc\<close> reads the descriptor in front of the one it is called for; \<open>before\<close> is the word it finds in
  front of the first descriptor.
\<close>

definition match_desc :: "int \<Rightarrow> pc_desc list \<Rightarrow> nat \<Rightarrow> int \<Rightarrow> bool \<Rightarrow> bool" where
  "match_desc before pcs i pc_offset approximate =
     (if \<not> approximate then pd_pc_offset (pcs ! i) = pc_offset
      else (if i = 0 then before else pd_pc_offset (pcs ! (i - 1))) < pc_offset \<and> pc_offset \<le> pd_pc_offset (pcs ! i))"

text \<open>The cache: \<open>None\<close> for a native method, whose first entry is \<open>NULL\<close>.\<close>

type_synonym pc_cache = "nat list option"

definition pc_cache_size :: nat where "pc_cache_size = 4"

definition reset_to :: "nat option \<Rightarrow> pc_cache" where
  "reset_to initial_pc_desc = map_option (replicate pc_cache_size) initial_pc_desc"

fun cache_loop :: "int \<Rightarrow> pc_desc list \<Rightarrow> int \<Rightarrow> bool \<Rightarrow> nat list \<Rightarrow> nat option" where
  "cache_loop before pcs pc_offset approximate [] = None"
| "cache_loop before pcs pc_offset approximate (res # cs) =
     (if pd_pc_offset (pcs ! res) < 0 then None
      else if match_desc before pcs res pc_offset approximate then Some res
      else cache_loop before pcs pc_offset approximate cs)"

definition cache_find :: "int \<Rightarrow> pc_desc list \<Rightarrow> pc_cache \<Rightarrow> int \<Rightarrow> bool \<Rightarrow> nat option" where
  "cache_find before pcs cs pc_offset approximate =
     (case cs of None \<Rightarrow> None
      | Some c \<Rightarrow> if match_desc before pcs (hd c) pc_offset approximate then Some (hd c)
                 else cache_loop before pcs pc_offset approximate (tl c))"

fun add_loop :: "nat list \<Rightarrow> nat \<Rightarrow> nat list" where
  "add_loop [] pc_desc = []"
| "add_loop (nxt # cs) pc_desc = pc_desc # add_loop cs nxt"

definition add_pc_desc :: "pc_cache \<Rightarrow> nat \<Rightarrow> pc_cache" where
  "add_pc_desc cache pc_desc = map_option (\<lambda>c. add_loop c pc_desc) cache"

text \<open>The \<open>while\<close> loop of one step width, the loop over the widths, and the final linear search.  The radix is
  that of the product build; debug builds use smaller steps.\<close>

function step_loop :: "pc_desc list \<Rightarrow> int \<Rightarrow> nat \<Rightarrow> nat \<Rightarrow> nat \<Rightarrow> nat \<times> nat" where
  "step_loop pcs pc_offset step lower upper =
     (if 0 < step \<and> lower + step < upper then
        (if pd_pc_offset (pcs ! (lower + step)) < pc_offset then step_loop pcs pc_offset step (lower + step) upper
         else (lower, lower + step))
      else (lower, upper))"
  by pat_completeness auto
termination
  by (relation "measure (\<lambda>(pcs, pc_offset, step, lower, upper). upper - lower)") auto

declare step_loop.simps [simp del]

definition LOG2_RADIX :: nat where "LOG2_RADIX = 4"

function radix_loop :: "pc_desc list \<Rightarrow> int \<Rightarrow> nat \<Rightarrow> nat \<Rightarrow> nat \<Rightarrow> nat \<times> nat" where
  "radix_loop pcs pc_offset step lower upper =
     (if 1 < step then (let (l, u) = step_loop pcs pc_offset step lower upper in radix_loop pcs pc_offset (drop_bit LOG2_RADIX step) l u)
      else (lower, upper))"
  by pat_completeness auto
termination
  by (relation "measure (\<lambda>(pcs, pc_offset, step, lower, upper). step)") (auto simp: LOG2_RADIX_def drop_bit_eq_div)

declare radix_loop.simps [simp del]

function sneak_loop :: "pc_desc list \<Rightarrow> int \<Rightarrow> nat \<Rightarrow> nat option" where
  "sneak_loop pcs pc_offset lower =
     (if lower + 1 < length pcs then
        (if pd_pc_offset (pcs ! (lower + 1)) < pc_offset then sneak_loop pcs pc_offset (lower + 1) else Some (lower + 1))
      else None)"
  by pat_completeness auto
termination
  by (relation "measure (\<lambda>(pcs, pc_offset, lower). length pcs - lower)") auto

declare sneak_loop.simps [simp del]

text \<open>The result, and whether it is added to the cache.  \<open>pc_offset\<close> is the distance of the pc from \<open>code_begin()\<close>.\<close>

definition find_pc_desc_internal :: "int \<Rightarrow> pc_desc list \<Rightarrow> pc_cache \<Rightarrow> nat \<Rightarrow> int \<Rightarrow> bool \<Rightarrow> (nat option \<times> bool) option" where
  "find_pc_desc_internal before pcs cs mid pc_offset approximate =
     (if pc_offset < 0 \<or> upper_offset_limit \<le> pc_offset then Some (None, False)
      else case cache_find before pcs cs pc_offset approximate of
        Some res \<Rightarrow> Some (Some res, False)
      | None \<Rightarrow>
          if length pcs - 1 \<le> 0 then Some (None, False)
          else do {
            let (lower, upper) = (if pd_pc_offset (pcs ! mid) < pc_offset then (mid, length pcs - 1) else (0, mid));
            let (l, u) = radix_loop pcs pc_offset (push_bit (LOG2_RADIX * 3) 1) lower upper;
            upper' \<leftarrow> sneak_loop pcs pc_offset l;
            Some (if match_desc before pcs upper' pc_offset approximate then (Some upper', True) else (None, False)) })"

text \<open>
  \<open>find_pc_desc\<close> with the entry \<open>desc\<close> it has loaded first, and the version for one thread, in which all
  loads see the same cache.
\<close>

definition find_pc_desc_loads :: "int \<Rightarrow> pc_desc list \<Rightarrow> nat option \<Rightarrow> pc_cache \<Rightarrow> nat \<Rightarrow> int \<Rightarrow> bool \<Rightarrow> (nat option \<times> bool) option" where
  "find_pc_desc_loads before pcs desc cs mid pc_offset approximate =
     (if desc \<noteq> None \<and> pd_pc_offset (pcs ! the desc) = pc_offset then Some (desc, False)
      else find_pc_desc_internal before pcs cs mid pc_offset approximate)"

definition last_pc_desc :: "pc_cache \<Rightarrow> nat option" where
  "last_pc_desc cache = map_option hd cache"

definition find_pc_desc :: "int \<Rightarrow> pc_desc list \<Rightarrow> pc_cache \<Rightarrow> int \<Rightarrow> bool \<Rightarrow> (nat option \<times> pc_cache) option" where
  "find_pc_desc before pcs cache pc_offset approximate =
     do { (res, add) \<leftarrow> find_pc_desc_loads before pcs (last_pc_desc cache) cache (case last_pc_desc cache of None \<Rightarrow> 0 | Some m \<Rightarrow> m) pc_offset approximate;
          Some (res, if add then add_pc_desc cache (the res) else cache) }"

definition pc_desc_at :: "int \<Rightarrow> pc_desc list \<Rightarrow> pc_cache \<Rightarrow> int \<Rightarrow> (nat option \<times> pc_cache) option" where
  "pc_desc_at before pcs cache pc_offset = find_pc_desc before pcs cache pc_offset False"

definition pc_desc_near :: "int \<Rightarrow> pc_desc list \<Rightarrow> pc_cache \<Rightarrow> int \<Rightarrow> (nat option \<times> pc_cache) option" where
  "pc_desc_near before pcs cache pc_offset = find_pc_desc before pcs cache pc_offset True"

text \<open>The search that the assertions compare the result with; a second match gives \<open>badAddress\<close>.\<close>

datatype search_result = Null | Found nat | BadAddress

fun linear_loop :: "int \<Rightarrow> pc_desc list \<Rightarrow> int \<Rightarrow> bool \<Rightarrow> nat list \<Rightarrow> search_result \<Rightarrow> search_result" where
  "linear_loop before pcs pc_offset approximate [] res = res"
| "linear_loop before pcs pc_offset approximate (p # ps) res =
     linear_loop before pcs pc_offset approximate ps
       (if match_desc before pcs p pc_offset approximate then (if res = Null then Found p else BadAddress) else res)"

definition linear_search :: "int \<Rightarrow> pc_desc list \<Rightarrow> int \<Rightarrow> bool \<Rightarrow> search_result" where
  "linear_search before pcs pc_offset approximate = linear_loop before pcs pc_offset approximate [1..<length pcs] Null"

definition as_result :: "nat option \<Rightarrow> search_result" where
  "as_result r = (case r of None \<Rightarrow> Null | Some i \<Rightarrow> Found i)"

section \<open>The table\<close>

text \<open>
  Descriptors in order, a sentinel in front, and at the end a sentinel that may be repeated.
\<close>

definition pc_table :: "pc_desc list \<Rightarrow> bool" where
  "pc_table pcs \<longleftrightarrow> 2 \<le> length pcs \<and> pd_pc_offset (pcs ! 0) = lower_offset_limit \<and>
     sorted_wrt (\<lambda>a b. pd_pc_offset a < pd_pc_offset b \<or> (pd_pc_offset a = pd_pc_offset b \<and> pd_pc_offset a = pd_pc_offset (last pcs))) pcs"

text \<open>An offset inside of the method, and the first descriptor at or after it.\<close>

definition pc_in :: "pc_desc list \<Rightarrow> int \<Rightarrow> bool" where
  "pc_in pcs pc_offset \<longleftrightarrow> 0 \<le> pc_offset \<and> pc_offset < pd_pc_offset (last pcs) \<and> pc_offset < upper_offset_limit"

definition first_at :: "pc_desc list \<Rightarrow> int \<Rightarrow> nat \<Rightarrow> bool" where
  "first_at pcs pc_offset i \<longleftrightarrow> 0 < i \<and> i < length pcs \<and> pd_pc_offset (pcs ! (i - 1)) < pc_offset \<and> pc_offset \<le> pd_pc_offset (pcs ! i)"

definition cache_ok :: "pc_desc list \<Rightarrow> pc_cache \<Rightarrow> bool" where
  "cache_ok pcs cache \<longleftrightarrow> (\<exists>c. cache = Some c \<and> length c = pc_cache_size \<and> list_all (\<lambda>i. i < length pcs) c)"

lemma pc_tableD:
  assumes "pc_table pcs" and "i < j" and "j < length pcs"
  shows "pd_pc_offset (pcs ! i) < pd_pc_offset (pcs ! j) \<or> (pd_pc_offset (pcs ! i) = pd_pc_offset (pcs ! j) \<and> pd_pc_offset (pcs ! i) = pd_pc_offset (last pcs))"
  using assms unfolding pc_table_def by (blast dest: sorted_wrt_nth_less)

lemma pc_table_mono:
  assumes "pc_table pcs" and "i \<le> j" and "j < length pcs"
  shows "pd_pc_offset (pcs ! i) \<le> pd_pc_offset (pcs ! j)"
  using pc_tableD [OF assms(1), of i j] assms(2,3) by (cases "i = j") auto

lemma first_at_unique:
  assumes t: "pc_table pcs" and "first_at pcs x i" and "first_at pcs x j"
  shows "i = j"
proof -
  have "\<not> i < j" if "first_at pcs x i" "first_at pcs x j" for i j
  proof
    assume "i < j"
    then have "i \<le> j - 1" "j - 1 < length pcs" using that(2) by (auto simp: first_at_def)
    from pc_table_mono [OF t this] show False using that by (simp add: first_at_def)
  qed
  then show ?thesis using assms(2,3) by (meson linorder_neqE_nat)
qed

lemma match_approximate:
  assumes "pc_table pcs" and "pc_in pcs x" and "i < length pcs"
  shows "match_desc before pcs i x True \<longleftrightarrow> first_at pcs x i"
proof -
  have "pd_pc_offset (pcs ! 0) = - 1" using assms(1) by (simp add: pc_table_def lower_offset_limit_def)
  then show ?thesis using assms(2,3) by (cases i) (simp_all add: match_desc_def first_at_def pc_in_def)
qed

text \<open>A descriptor with the offset itself is the first one at or after it.\<close>

lemma exact_first_at:
  assumes t: "pc_table pcs" and x: "pc_in pcs x" and i: "i < length pcs" and e: "pd_pc_offset (pcs ! i) = x"
  shows "first_at pcs x i"
proof -
  have "pd_pc_offset (pcs ! 0) = - 1" using t by (simp add: pc_table_def lower_offset_limit_def)
  then have "i \<noteq> 0" using x e by (cases i) (simp_all add: pc_in_def)
  then have "pd_pc_offset (pcs ! (i - 1)) < x" using pc_tableD [OF t, of "i - 1" i] i e x by (auto simp: pc_in_def)
  then show ?thesis using \<open>i \<noteq> 0\<close> i e by (simp add: first_at_def)
qed

lemma match_exact:
  assumes t: "pc_table pcs" and x: "pc_in pcs x" and i: "i < length pcs"
  shows "match_desc before pcs i x False \<longleftrightarrow> first_at pcs x i \<and> pd_pc_offset (pcs ! i) = x"
  using exact_first_at [OF t x i] by (auto simp: match_desc_def)

text \<open>What the search has to return.\<close>

definition wanted :: "pc_desc list \<Rightarrow> int \<Rightarrow> bool \<Rightarrow> nat \<Rightarrow> bool" where
  "wanted pcs x approximate i \<longleftrightarrow> first_at pcs x i \<and> (approximate \<or> pd_pc_offset (pcs ! i) = x)"

lemma match_wanted:
  assumes "pc_table pcs" and "pc_in pcs x" and "i < length pcs"
  shows "match_desc before pcs i x approximate \<longleftrightarrow> wanted pcs x approximate i"
  using match_approximate [OF assms] match_exact [OF assms] by (cases approximate) (auto simp: wanted_def)

lemma wanted_unique: "pc_table pcs \<Longrightarrow> wanted pcs x a i \<Longrightarrow> wanted pcs x a j \<Longrightarrow> i = j"
  unfolding wanted_def using first_at_unique by blast

section \<open>The search\<close>

lemma cache_loop_some:
  assumes "pc_table pcs" and "pc_in pcs x" and "list_all (\<lambda>i. i < length pcs) cs" and "cache_loop before pcs x a cs = Some r"
  shows "wanted pcs x a r"
  using assms(3,4) by (induction cs) (auto simp: match_wanted [OF assms(1,2)] split: if_split_asm)

lemma cache_find_some:
  assumes t: "pc_table pcs" and x: "pc_in pcs x" and c: "cache_ok pcs cs" and f: "cache_find before pcs cs x a = Some r"
  shows "wanted pcs x a r"
proof -
  obtain c where cs: "cs = Some c" "length c = pc_cache_size" "list_all (\<lambda>i. i < length pcs) c" using c by (auto simp: cache_ok_def)
  then obtain i rest where "c = i # rest" by (cases c) (auto simp: pc_cache_size_def)
  then show ?thesis using cs f match_wanted [OF t x] cache_loop_some [OF t x, of rest] by (auto simp: cache_find_def split: if_split_asm)
qed

text \<open>The invariant of the loops (\<open>assert_LU_OK\<close>).\<close>

definition lu_ok :: "pc_desc list \<Rightarrow> int \<Rightarrow> nat \<Rightarrow> nat \<Rightarrow> bool" where
  "lu_ok pcs x lower upper \<longleftrightarrow> lower < length pcs \<and> upper < length pcs \<and> pd_pc_offset (pcs ! lower) < x \<and> x \<le> pd_pc_offset (pcs ! upper)"

lemma step_loop_ok: "lu_ok pcs x l u \<Longrightarrow> step_loop pcs x step l u = (l', u') \<Longrightarrow> lu_ok pcs x l' u'"
proof (induction pcs x step l u rule: step_loop.induct)
  case (1 pcs x step l u)
  show ?case using 1(3) 1(1) 1(2) by (subst (asm) step_loop.simps) (auto simp: lu_ok_def split: if_split_asm)
qed

lemma radix_loop_ok: "lu_ok pcs x l u \<Longrightarrow> radix_loop pcs x step l u = (l', u') \<Longrightarrow> lu_ok pcs x l' u'"
proof (induction pcs x step l u rule: radix_loop.induct)
  case (1 pcs x step l u)
  obtain a b where ab: "step_loop pcs x step l u = (a, b)" by fastforce
  show ?case using 1(3) 1(1) [OF _ ab [symmetric]] step_loop_ok [OF 1(2) ab] 1(2) ab
    by (subst (asm) radix_loop.simps) (auto split: if_split_asm)
qed

lemma sneak_loop_ok: "pc_table pcs \<Longrightarrow> lu_ok pcs x l u \<Longrightarrow> \<exists>i. sneak_loop pcs x l = Some i \<and> first_at pcs x i"
proof (induction pcs x l rule: sneak_loop.induct)
  case (1 pcs x l)
  have "\<not> u \<le> l" using pc_table_mono [OF 1(2), of u l] 1(3) by (auto simp: lu_ok_def)
  then have l: "l + 1 < length pcs" using 1(3) by (simp add: lu_ok_def)
  show ?case
  proof (cases "pd_pc_offset (pcs ! (l + 1)) < x")
    case True
    then have "lu_ok pcs x (l + 1) u" using 1(3) l by (simp add: lu_ok_def)
    then show ?thesis using 1(1) [OF l True 1(2)] l True by (subst sneak_loop.simps) simp
  next
    case False
    then show ?thesis using l 1(3) by (subst sneak_loop.simps) (simp add: first_at_def lu_ok_def)
  qed
qed

lemma search_ok:
  assumes t: "pc_table pcs" and x: "pc_in pcs x" and m: "mid < length pcs"
    and lu: "(if pd_pc_offset (pcs ! mid) < x then (mid, length pcs - 1) else (0, mid)) = (l, u)"
    and r: "radix_loop pcs x step l u = (l', u')"
  shows "\<exists>i. sneak_loop pcs x l' = Some i \<and> first_at pcs x i"
proof -
  have "pcs \<noteq> []" using m by auto
  then have "pd_pc_offset (pcs ! 0) = - 1" "pd_pc_offset (pcs ! (length pcs - 1)) = pd_pc_offset (last pcs)"
    using t by (simp_all add: pc_table_def lower_offset_limit_def last_conv_nth)
  then have "lu_ok pcs x l u" using x m lu by (auto simp: lu_ok_def pc_in_def split: if_split_asm)
  then show ?thesis using sneak_loop_ok [OF t] radix_loop_ok r by blast
qed

text \<open>Whatever valid entries the loads have seen, the search finds the descriptor.\<close>

definition search_right :: "pc_desc list \<Rightarrow> int \<Rightarrow> bool \<Rightarrow> nat option \<Rightarrow> bool" where
  "search_right pcs x approximate res \<longleftrightarrow> (case res of Some i \<Rightarrow> wanted pcs x approximate i | None \<Rightarrow> \<not> approximate \<and> (\<forall>i < length pcs. pd_pc_offset (pcs ! i) \<noteq> x))"

lemma not_exact:
  assumes t: "pc_table pcs" and x: "pc_in pcs x" and f: "first_at pcs x i" and n: "\<not> wanted pcs x a i"
  shows "search_right pcs x a None"
proof -
  have "pd_pc_offset (pcs ! j) \<noteq> x" if j: "j < length pcs" for j
  proof
    assume e: "pd_pc_offset (pcs ! j) = x"
    have "i = j" by (rule first_at_unique [OF t f exact_first_at [OF t x j e]])
    then show False using e f n by (simp add: wanted_def)
  qed
  moreover have "\<not> a" using f n by (simp add: wanted_def)
  ultimately show ?thesis by (simp add: search_right_def)
qed

lemma find_internal_ok:
  assumes t: "pc_table pcs" and x: "pc_in pcs x" and c: "cache_ok pcs cs" and m: "mid < length pcs"
  shows "\<exists>res add. find_pc_desc_internal before pcs cs mid x a = Some (res, add) \<and> search_right pcs x a res \<and> (add \<longrightarrow> res \<noteq> None)"
proof (cases "cache_find before pcs cs x a")
  case None
  obtain l u where lu: "(if pd_pc_offset (pcs ! mid) < x then (mid, length pcs - 1) else (0, mid)) = (l, u)" by fastforce
  obtain l' u' where r: "radix_loop pcs x (push_bit (LOG2_RADIX * 3) 1) l u = (l', u')" by fastforce
  from search_ok [OF t x m lu r] obtain i where i: "sneak_loop pcs x l' = Some i" "first_at pcs x i" by blast
  have ilen: "i < length pcs" using i(2) by (simp add: first_at_def)
  have n: "0 < length pcs - 1" "\<not> (x < 0 \<or> upper_offset_limit \<le> x)" using t x by (auto simp: pc_table_def pc_in_def)
  have e: "find_pc_desc_internal before pcs cs mid x a = Some (if wanted pcs x a i then (Some i, True) else (None, False))"
    unfolding find_pc_desc_internal_def if_not_P [OF n(2)] None lu using n(1) r i(1) match_wanted [OF t x ilen] by simp
  show ?thesis
  proof (cases "wanted pcs x a i")
    case True
    then show ?thesis using e by (intro exI [of _ "Some i"] exI [of _ True]) (simp add: search_right_def)
  next
    case False
    then show ?thesis using e not_exact [OF t x i(2) False] by (intro exI [of _ None] exI [of _ False]) simp
  qed
next
  case (Some r)
  then show ?thesis using cache_find_some [OF t x c Some] x
    by (intro exI [of _ "Some r"] exI [of _ False]) (simp add: find_pc_desc_internal_def search_right_def pc_in_def)
qed

lemma find_loads_ok:
  assumes t: "pc_table pcs" and x: "pc_in pcs x" and c: "cache_ok pcs cs" and m: "mid < length pcs" and d: "desc = Some i" "i < length pcs"
  shows "\<exists>res add. find_pc_desc_loads before pcs desc cs mid x a = Some (res, add) \<and> search_right pcs x a res \<and> (add \<longrightarrow> res \<noteq> None)"
proof (cases "pd_pc_offset (pcs ! i) = x")
  case True
  then show ?thesis using exact_first_at [OF t x d(2)] d(1)
    by (intro exI [of _ desc] exI [of _ False]) (simp add: find_pc_desc_loads_def search_right_def wanted_def)
next
  case False
  then show ?thesis using find_internal_ok [OF t x c m] d(1) by (simp add: find_pc_desc_loads_def)
qed

section \<open>The cache and the linear search\<close>

lemma add_loop_ok: "list_all P c \<Longrightarrow> P i \<Longrightarrow> list_all P (add_loop c i) \<and> length (add_loop c i) = length c"
  by (induction c arbitrary: i) auto

lemma add_pc_desc_ok: "cache_ok pcs cache \<Longrightarrow> i < length pcs \<Longrightarrow> cache_ok pcs (add_pc_desc cache i)"
  using add_loop_ok [of "\<lambda>i. i < length pcs"] by (auto simp: cache_ok_def add_pc_desc_def)

lemma reset_to_ok: "i < length pcs \<Longrightarrow> cache_ok pcs (reset_to (Some i))"
  by (simp add: cache_ok_def reset_to_def list_all_iff)

lemma linear_loop_none: "\<forall>p \<in> set ps. \<not> match_desc before pcs p x a \<Longrightarrow> linear_loop before pcs x a ps res = res"
  by (induction ps) auto

lemma linear_loop_one:
  assumes "distinct ps" and "i \<in> set ps" and "\<forall>p \<in> set ps. match_desc before pcs p x a \<longleftrightarrow> p = i"
  shows "linear_loop before pcs x a ps Null = Found i"
  using assms
proof (induction ps)
  case (Cons p ps)
  show ?case
  proof (cases "p = i")
    case True
    then have "\<forall>q \<in> set ps. \<not> match_desc before pcs q x a" using Cons.prems by auto
    then show ?thesis using True Cons.prems(3) linear_loop_none by simp
  next
    case False
    then show ?thesis using Cons by simp
  qed
qed simp

lemma linear_search_ok:
  assumes t: "pc_table pcs" and x: "pc_in pcs x" and s: "search_right pcs x a res"
  shows "linear_search before pcs x a = as_result res"
proof (cases res)
  case None
  then have "\<not> wanted pcs x a i" if "i < length pcs" for i using s that by (simp add: search_right_def wanted_def)
  then have "\<forall>p \<in> set [1..<length pcs]. \<not> match_desc before pcs p x a" using match_wanted [OF t x] by auto
  then show ?thesis using None by (simp only: linear_search_def linear_loop_none as_result_def option.case)
next
  case (Some i)
  then have w: "wanted pcs x a i" using s by (simp add: search_right_def)
  have "i \<in> set [1..<length pcs]" using w by (auto simp: wanted_def first_at_def)
  moreover have "match_desc before pcs p x a \<longleftrightarrow> p = i" if "p \<in> set [1..<length pcs]" for p
    using match_wanted [OF t x, of p before a] that w wanted_unique [OF t _ w, of p] by auto
  ultimately have "linear_loop before pcs x a [1..<length pcs] Null = Found i" by (intro linear_loop_one) simp_all
  then show ?thesis using Some by (simp only: linear_search_def as_result_def option.case)
qed

lemma exact_right:
  assumes "search_right pcs x False res"
  shows "case res of Some i \<Rightarrow> i < length pcs \<and> pd_pc_offset (pcs ! i) = x | None \<Rightarrow> \<forall>pd \<in> set pcs. pd_pc_offset pd \<noteq> x"
  using assms by (cases res) (auto simp: search_right_def wanted_def first_at_def in_set_conv_nth)

lemma find_pc_desc_ok:
  assumes t: "pc_table pcs" and x: "pc_in pcs x" and c: "cache_ok pcs cache"
  shows "\<exists>res cache'. find_pc_desc before pcs cache x a = Some (res, cache') \<and> search_right pcs x a res \<and> cache_ok pcs cache'"
proof -
  obtain cs where cs: "cache = Some cs" "hd cs < length pcs" using c by (cases "the cache") (auto simp: cache_ok_def pc_cache_size_def)
  obtain res add where r: "find_pc_desc_loads before pcs (Some (hd cs)) cache (hd cs) x a = Some (res, add)" "search_right pcs x a res" "add \<longrightarrow> res \<noteq> None"
    using find_loads_ok [OF t x c cs(2) refl cs(2)] by blast
  have "cache_ok pcs (if add then add_pc_desc cache (the res) else cache)"
    using c r(2,3) add_pc_desc_ok [OF c] by (auto simp: search_right_def wanted_def first_at_def)
  then show ?thesis using r(1,2) cs(1) by (cases add) (simp_all add: find_pc_desc_def last_pc_desc_def)
qed

text \<open>
  C7: The search for the descriptor of an instruction returns what the linear search over the whole table returns,
  for every offset inside of the method.  The answer does not depend on the word in front of the first descriptor
  (\<open>b\<close>), which \<open>match_desc\<close> reads when it is asked about that descriptor, the sentinel.  The search gives that answer
  whatever entries its loads from the cache have seen, as long as they are descriptors of the method, so that threads that
  change the cache at the same time cannot make it fail.  \<open>pc_desc_near\<close> finds the first descriptor at or after the
  offset, \<open>pc_desc_at\<close> the descriptor with the offset itself; the cache keeps descriptors of the method only.
\<close>

theorem pc_desc_search_correct:
  assumes "pc_table pcs" and "pc_in pcs x" and "cache_ok pcs cs" and "desc < length pcs" and "mid < length pcs" and "cache_ok pcs cache"
  shows "(\<forall>b. \<exists>res add. find_pc_desc_loads b pcs (Some desc) cs mid x a = Some (res, add) \<and> as_result res = linear_search before pcs x a) \<and>
    (\<forall>b. \<exists>res cache'. find_pc_desc b pcs cache x a = Some (res, cache') \<and> as_result res = linear_search before pcs x a \<and> cache_ok pcs cache') \<and>
    (\<forall>b. \<exists>i cache'. pc_desc_near b pcs cache x = Some (Some i, cache') \<and> first_at pcs x i) \<and>
    (\<forall>b. \<exists>res cache'. pc_desc_at b pcs cache x = Some (res, cache') \<and>
       (case res of Some i \<Rightarrow> i < length pcs \<and> pd_pc_offset (pcs ! i) = x | None \<Rightarrow> \<forall>pd \<in> set pcs. pd_pc_offset pd \<noteq> x))"
proof -
  note lin = linear_search_ok [OF assms(1,2), of a _ before]
  note f = find_pc_desc_ok [OF assms(1,2,6)]
  have "\<exists>i cache'. pc_desc_near b pcs cache x = Some (Some i, cache') \<and> first_at pcs x i" for b
    using f [of b True] by (auto simp: pc_desc_near_def search_right_def wanted_def split: option.split_asm)
  moreover have "\<exists>res cache'. pc_desc_at b pcs cache x = Some (res, cache') \<and>
       (case res of Some i \<Rightarrow> i < length pcs \<and> pd_pc_offset (pcs ! i) = x | None \<Rightarrow> \<forall>pd \<in> set pcs. pd_pc_offset pd \<noteq> x)" for b
    unfolding pc_desc_at_def using f [of b False] exact_right by blast
  moreover have "\<exists>res add. find_pc_desc_loads b pcs (Some desc) cs mid x a = Some (res, add) \<and> as_result res = linear_search before pcs x a" for b
    using lin find_loads_ok [OF assms(1-3,5) refl assms(4), of b a] by fastforce
  moreover have "\<exists>res cache'. find_pc_desc b pcs cache x a = Some (res, cache') \<and> as_result res = linear_search before pcs x a \<and> cache_ok pcs cache'" for b
    using lin f [of b a] by fastforce
  ultimately show ?thesis by blast
qed

theorem pc_desc_search_correct_witness:
  "let pcs = [new_pc_desc (- 1) 0 0, new_pc_desc 4 1 0, new_pc_desc 9 7 0, new_pc_desc 21 0 0, new_pc_desc 21 0 0]
   in pc_table pcs \<and> pc_in pcs 5 \<and> cache_ok pcs (reset_to (Some 0)) \<and>
      (\<exists>i cache'. pc_desc_near 77 pcs (reset_to (Some 0)) 5 = Some (Some i, cache') \<and> first_at pcs 5 i)"
proof -
  let ?pcs = "[new_pc_desc (- 1) 0 0, new_pc_desc 4 1 0, new_pc_desc 9 7 0, new_pc_desc 21 0 0, new_pc_desc 21 0 0]"
  have t: "pc_table ?pcs" by (simp add: pc_table_def lower_offset_limit_def new_pc_desc_def)
  have x: "pc_in ?pcs 5" by (simp add: pc_in_def upper_offset_limit_def new_pc_desc_def)
  have c: "cache_ok ?pcs (reset_to (Some 0))" by (rule reset_to_ok) simp
  show ?thesis using pc_desc_search_correct [OF t x c _ _ c, of 0 0 True 77] t x c by (simp add: Let_def)
qed

end
