(* ===== verification/DebugInfoRec_Table.thy ===== *)
theory DebugInfoRec_Table
  imports DebugInfoRec_Pool PcDescSearch
begin

text \<open>
  The instructions of a method, recorded in the order \<open>debugInfoRec.hpp\<close> prescribes, and the table of
  their descriptors, in which \<open>end_scopes\<close> coalesces neighbours with the same information.
\<close>

section \<open>Recording an instruction\<close>

record pc_info =
  rp_pc :: int
  rp_safepoint :: bool
  rp_map :: handle
  rp_objects :: "object_value list"
  rp_frames :: "frame list"

definition with_objects :: "debug_recorder \<Rightarrow> object_value list \<Rightarrow> debug_recorder" where
  "with_objects d objs = d\<lparr>di_writer := (di_writer d)\<lparr>dw_objects := objs\<rparr>\<rparr>"

definition begin_pc :: "debug_recorder \<Rightarrow> pc_info \<Rightarrow> debug_recorder" where
  "begin_pc d p = with_objects (if rp_safepoint p then add_safepoint d (rp_pc p) (rp_map p) else add_non_safepoint d (rp_pc p)) (rp_objects p)"

definition record_pc :: "nat \<Rightarrow> handle \<Rightarrow> share_flags \<Rightarrow> debug_recorder \<Rightarrow> pc_info \<Rightarrow> debug_recorder option" where
  "record_pc fuel non_oop sf d p =
     do { let d1 = begin_pc d p;
          d2 \<leftarrow> (if rp_safepoint p then dump_object_pool fuel non_oop sf d1 (Some [0..<length (rp_objects p)]) else Some d1);
          d3 \<leftarrow> describe_frames fuel non_oop sf d2 (rp_frames p);
          Some (end_scopes d3 (rp_pc p) (rp_safepoint p)) }"

fun record_all :: "nat \<Rightarrow> handle \<Rightarrow> share_flags \<Rightarrow> debug_recorder \<Rightarrow> pc_info list \<Rightarrow> debug_recorder option" where
  "record_all fuel non_oop sf d [] = Some d"
| "record_all fuel non_oop sf d (p # ps) = do { d1 \<leftarrow> record_pc fuel non_oop sf d p; record_all fuel non_oop sf d1 ps }"

definition pc_ok :: "handle \<Rightarrow> nat \<Rightarrow> pc_info \<Rightarrow> bool" where
  "pc_ok non_oop fuel p \<longleftrightarrow> graph_ok non_oop (rp_objects p) \<and> list_all (frame_ok non_oop (length (rp_objects p))) (rp_frames p) \<and> rp_frames p \<noteq> [] \<and>
     length (rp_objects p) < fuel \<and> (rp_safepoint p \<or> rp_objects p = [])"

definition pc_cost :: "pc_info \<Rightarrow> nat" where
  "pc_cost p = objects_cost (rp_objects p) + length (rp_objects p) + (\<Sum>f \<leftarrow> rp_frames p. frame_cost f)"

text \<open>The information of a descriptor is that of the instruction.\<close>

definition pc_decoded :: "(handle \<Rightarrow> oop) \<Rightarrow> nat \<Rightarrow> nmethod_debug \<Rightarrow> pc_info \<Rightarrow> pc_desc \<Rightarrow> bool" where
  "pc_decoded imm fuel nm p pd \<longleftrightarrow> pd_flags_are (fr_scope (last (rp_frames p))) pd \<and>
     (\<exists>objects. pool_ok (rp_objects p) imm fuel nm (pd_obj_decode_offset pd) objects \<and>
        chain (rp_objects p) imm fuel nm objects (pd_scope_decode_offset pd) (rev (rp_frames p)))"

definition decoded_later :: "handle \<Rightarrow> (handle \<Rightarrow> oop) \<Rightarrow> nat \<Rightarrow> debug_recorder \<Rightarrow> pc_info \<Rightarrow> pc_desc \<Rightarrow> bool" where
  "decoded_later non_oop resolve fuel d p pd \<longleftrightarrow>
     (\<forall>nm. holds non_oop resolve d nm \<longrightarrow> length (nm_scopes_data nm) < 2 ^ 32 \<longrightarrow> pc_decoded (initialize_immediate_oop non_oop resolve) fuel nm p pd)"

lemma decoded_later_mono: "later_dir non_oop d d' \<Longrightarrow> decoded_later non_oop resolve fuel d p pd \<Longrightarrow> decoded_later non_oop resolve fuel d' p pd"
  unfolding decoded_later_def using holds_later by blast

lemma pc_decoded_same: "is_same_info a b \<Longrightarrow> pc_decoded imm fuel nm p b \<Longrightarrow> pc_decoded imm fuel nm p a"
  by (simp add: pc_decoded_def is_same_info_def pd_flags_are_def pd_should_reexecute_def pd_rethrow_exception_def pd_is_method_handle_invoke_def pd_return_oop_def)

lemma decoded_later_same: "is_same_info a b \<Longrightarrow> decoded_later non_oop resolve fuel d p b \<Longrightarrow> decoded_later non_oop resolve fuel d p a"
  unfolding decoded_later_def using pc_decoded_same by blast

section \<open>The frames and the objects of one instruction\<close>

lemma begin_pc_ok:
  assumes "dir_ok sf d"
  shows "dir_ok sf (begin_pc d p)" and "dw_recorder (di_writer (begin_pc d p)) = dw_recorder (di_writer d)" and "dw_objects (di_writer (begin_pc d p)) = rp_objects p"
    and "di_pcs (begin_pc d p) = di_pcs d @ [new_pc_desc (rp_pc p) serialized_null serialized_null]" and "later_dir non_oop d (begin_pc d p)"
    and "di_prev_safepoint_pc (begin_pc d p) = di_prev_safepoint_pc d" and "di_recording_non_safepoints (begin_pc d p) = di_recording_non_safepoints d"
  using assms by (simp_all add: begin_pc_def with_objects_def add_safepoint_def add_non_safepoint_def add_oopmap_def add_new_pc_offset_def dir_ok_def
      di_bytes_def di_position_def later_dir_def oop_table.later_refl serialized_null_def Let_def)

text \<open>After the pool has been dumped, or for an instruction without one.\<close>

lemma pool_dumped:
  assumes ok: "dir_ok sf d" "rec_ok non_oop (dw_recorder (di_writer d))" and p: "pc_ok non_oop fuel p"
    and fit: "rec_used (dw_recorder (di_writer d)) + pc_cost p < 2 ^ 30"
  shows "\<exists>d2 off. (if rp_safepoint p then dump_object_pool fuel non_oop sf (begin_pc d p) (Some [0..<length (rp_objects p)]) else Some (begin_pc d p)) = Some d2 \<and>
    rec_inv non_oop sf (rp_objects p) d2 \<and> later_dir non_oop d d2 \<and> all_visited (rp_objects p) (di_writer d2) \<and>
    load (rp_objects p) (di_writer d2) \<le> rec_used (dw_recorder (di_writer d)) + objects_cost (rp_objects p) + length (rp_objects p) \<and>
    di_pcs d2 = di_pcs d @ [new_pc_desc (rp_pc p) serialized_null off] \<and> di_prev_safepoint_pc d2 = di_prev_safepoint_pc d \<and>
    di_recording_non_safepoints d2 = di_recording_non_safepoints d \<and>
    (\<forall>nm. holds non_oop resolve d2 nm \<longrightarrow> (\<exists>objects. pool_ok (rp_objects p) (initialize_immediate_oop non_oop resolve) fuel nm off objects))"
proof -
  note b = begin_pc_ok [OF ok(1), where p = p]
  have r1: "rec_ok non_oop (dw_recorder (di_writer (begin_pc d p)))" using ok(2) b(2) by simp
  have g: "graph_ok non_oop (rp_objects p)" "length (rp_objects p) < fuel" using p by (simp_all add: pc_ok_def)
  have upd: "(new_pc_desc x s o1)\<lparr>pd_obj_decode_offset := o2\<rparr> = new_pc_desc x s o2" for x s o1 o2 by (simp add: new_pc_desc_def)
  show ?thesis
  proof (cases "rp_safepoint p")
    case True
    have "di_pcs (begin_pc d p) \<noteq> []" "rec_used (dw_recorder (di_writer (begin_pc d p))) + objects_cost (rp_objects p) + length (rp_objects p) < 2 ^ 30"
      using fit b(2,4) by (simp_all add: pc_cost_def)
    from dump_object_pool_ok [OF b(1) r1 g(1) b(3) this(1) g(2) this(2), of resolve] show ?thesis
      using True b(2,4,6,7) later_dir_trans [OF b(5)] by (auto simp: upd)
  next
    case False
    then have e: "rp_objects p = []" using p by (simp add: pc_ok_def)
    have w: "winv non_oop [] (di_writer (begin_pc d p))" using b(1,3) r1 g(1) e by (simp add: winv_def dir_ok_def)
    have "all_visited [] (di_writer (begin_pc d p))" using b(3) e by (simp add: all_visited_def dw_visited_def)
    then show ?thesis using False e b w unfolding rec_inv_def
      by (auto simp: load_def todo_def pool_ok_def decode_object_values_def opool_def objects_cost_def intro!: exI [of _ serialized_null])
  qed
qed

lemma pc_described:
  assumes ok: "dir_ok sf d" "rec_ok non_oop (dw_recorder (di_writer d))" and p: "pc_ok non_oop fuel p"
    and fit: "rec_used (dw_recorder (di_writer d)) + pc_cost p < 2 ^ 30"
  shows "\<exists>d3 pd. record_pc fuel non_oop sf d p = Some (end_scopes d3 (rp_pc p) (rp_safepoint p)) \<and> dir_ok sf d3 \<and> rec_ok non_oop (dw_recorder (di_writer d3)) \<and>
    rec_used (dw_recorder (di_writer d3)) \<le> rec_used (dw_recorder (di_writer d)) + pc_cost p \<and> later_dir non_oop d d3 \<and>
    di_pcs d3 = di_pcs d @ [pd] \<and> pd_pc_offset pd = rp_pc p \<and> di_prev_safepoint_pc d3 = di_prev_safepoint_pc d \<and> decoded_later non_oop resolve fuel d3 p pd"
proof -
  let ?objs = "rp_objects p" and ?imm = "initialize_immediate_oop non_oop resolve"
  obtain d2 off where d2: "(if rp_safepoint p then dump_object_pool fuel non_oop sf (begin_pc d p) (Some [0..<length ?objs]) else Some (begin_pc d p)) = Some d2"
    "rec_inv non_oop sf ?objs d2" "later_dir non_oop d d2" "all_visited ?objs (di_writer d2)"
    "load ?objs (di_writer d2) \<le> rec_used (dw_recorder (di_writer d)) + objects_cost ?objs + length ?objs"
    "di_pcs d2 = di_pcs d @ [new_pc_desc (rp_pc p) serialized_null off]" "di_prev_safepoint_pc d2 = di_prev_safepoint_pc d"
    and pool: "\<And>nm. holds non_oop resolve d2 nm \<Longrightarrow> \<exists>objects. pool_ok ?objs ?imm fuel nm off objects"
    using pool_dumped [OF ok p fit, of resolve] by blast
  have f: "list_all (frame_ok non_oop (length ?objs)) (rp_frames p)" "length ?objs < fuel" "rp_frames p \<noteq> []" using p by (simp_all add: pc_ok_def)
  have last: "pd_scope_decode_offset (last (di_pcs d2)) = serialized_null" "pd_pc_offset (last (di_pcs d2)) = rp_pc p" "pd_obj_decode_offset (last (di_pcs d2)) = off"
    using d2(6) by (simp_all add: new_pc_desc_def)
  have pos: "pd_scope_decode_offset (last (di_pcs d2)) < di_position d2" using d2(2) last(1) by (simp add: rec_inv_def dir_ok_def serialized_null_def)
  have fit2: "load ?objs (di_writer d2) + (\<Sum>f \<leftarrow> rp_frames p. frame_cost f) < 2 ^ 30" using fit d2(5) by (simp add: pc_cost_def)
  have ne: "di_pcs d2 \<noteq> []" using d2(6) by simp
  obtain d3 pd where d3: "describe_frames fuel non_oop sf d2 (rp_frames p) = Some d3" "rec_step non_oop sf ?objs d2 (\<Sum>f \<leftarrow> rp_frames p. frame_cost f) d3"
    "di_pcs d3 = di_pcs d @ [pd]" "pd_pc_offset pd = rp_pc p" "pd_obj_decode_offset pd = off" "pd_flags_are (fr_scope (last (rp_frames p))) pd"
    "di_prev_safepoint_pc d3 = di_prev_safepoint_pc d" "frames_described non_oop resolve ?objs fuel d2 (rp_frames p) d3"
    using describe_frames_ok [OF d2(2) ne f(1,2) fit2 d2(4) pos, of resolve] d2(6,7) last(2,3) f(3) by auto
  have "pc_decoded ?imm fuel nm p pd" if h: "holds non_oop resolve d3 nm" and len: "length (nm_scopes_data nm) < 2 ^ 32" for nm
  proof -
    have "holds non_oop resolve d2 nm" using holds_later h d3(2) by (auto simp: rec_step_def)
    then obtain objects where o: "pool_ok ?objs ?imm fuel nm off objects" using pool by blast
    have "chain ?objs ?imm fuel nm objects (pd_scope_decode_offset (last (di_pcs d3))) (rev (rp_frames p) @ [])"
      using d3(8) h len pool_ok_pool_for [OF d2(4) o] last(1) unfolding frames_described_def by (metis chain.simps(1))
    then show ?thesis using o d3(3,5,6) by (auto simp: pc_decoded_def)
  qed
  then have "decoded_later non_oop resolve fuel d3 p pd" by (simp add: decoded_later_def)
  moreover have "record_pc fuel non_oop sf d p = Some (end_scopes d3 (rp_pc p) (rp_safepoint p))" using d2(1) d3(1) by (simp add: record_pc_def)
  moreover have "dir_ok sf d3" "rec_ok non_oop (dw_recorder (di_writer d3))" "rec_used (dw_recorder (di_writer d3)) \<le> load ?objs (di_writer d3)"
    using d3(2) by (simp_all add: rec_step_def rec_inv_def winv_def load_def)
  moreover have "load ?objs (di_writer d3) \<le> rec_used (dw_recorder (di_writer d)) + pc_cost p" using d3(2) d2(5) by (simp add: rec_step_def pc_cost_def)
  moreover have "later_dir non_oop d d3" using later_dir_trans [OF d2(3)] d3(2) by (simp add: rec_step_def)
  ultimately show ?thesis using d3(3,4,7) by (intro exI [of _ d3] exI [of _ pd]) simp
qed

section \<open>Coalescing\<close>

definition pcs_after :: "bool \<Rightarrow> int \<Rightarrow> pc_desc list \<Rightarrow> pc_desc \<Rightarrow> int \<Rightarrow> pc_desc list" where
  "pcs_after rn prev pcs pd pc =
     (if rn \<and> prev < pd_pc_offset (last pcs) \<and> is_same_info (last pcs) pd then butlast pcs @ [(last pcs)\<lparr>pd_pc_offset := pc\<rparr>] else pcs @ [pd])"

lemma end_scopes_ok:
  assumes pcs: "di_pcs d = pcs @ [pd]" "pcs \<noteq> []"
  shows "di_pcs (end_scopes d pc sp) = pcs_after (di_recording_non_safepoints d) (di_prev_safepoint_pc d) pcs pd pc"
    and "di_prev_safepoint_pc (end_scopes d pc sp) = (if sp then pc else di_prev_safepoint_pc d)" and "di_writer (end_scopes d pc sp) = di_writer d"
    and "dir_ok sf (end_scopes d pc sp) = dir_ok sf d"
proof -
  obtain ys y where y: "pcs = ys @ [y]" using pcs(2) by (metis append_butlast_last_id)
  have n: "length (di_pcs d) = length ys + 2" "di_pcs d ! (length ys + 2 - 1) = pd" "di_pcs d ! (length ys + 2 - 2) = y"
    using pcs(1) y by (simp_all add: nth_append)
  have t: "take (length ys + 2 - 1) ((di_pcs d)[length ys + 2 - 2 := z]) = ys @ [z]" for z
    using pcs(1) y by (simp add: list_update_append)
  show "di_pcs (end_scopes d pc sp) = pcs_after (di_recording_non_safepoints d) (di_prev_safepoint_pc d) pcs pd pc"
    unfolding end_scopes_def Let_def n(1) n(2,3) t pcs_after_def using pcs(1) y by simp
  show "di_prev_safepoint_pc (end_scopes d pc sp) = (if sp then pc else di_prev_safepoint_pc d)" "di_writer (end_scopes d pc sp) = di_writer d"
    by (simp_all add: end_scopes_def Let_def)
  show "dir_ok sf (end_scopes d pc sp) = dir_ok sf d" by (simp add: end_scopes_def Let_def dir_ok_def di_bytes_def di_position_def)
qed

text \<open>
  Every instruction recorded has the information \<open>Q\<close> in the first descriptor at or after it, and a
  safepoint in a descriptor of its own.
\<close>

definition covered :: "(pc_info \<Rightarrow> pc_desc \<Rightarrow> bool) \<Rightarrow> pc_desc list \<Rightarrow> pc_info \<Rightarrow> nat \<Rightarrow> bool" where
  "covered Q pcs p i \<longleftrightarrow> first_at pcs (rp_pc p) i \<and> Q p (pcs ! i) \<and> (rp_safepoint p \<longrightarrow> pd_pc_offset (pcs ! i) = rp_pc p)"

definition tab :: "(pc_info \<Rightarrow> pc_desc \<Rightarrow> bool) \<Rightarrow> int \<Rightarrow> pc_desc list \<Rightarrow> pc_info list \<Rightarrow> bool" where
  "tab Q prev pcs ps \<longleftrightarrow> pcs \<noteq> [] \<and> pd_pc_offset (hd pcs) = lower_offset_limit \<and> sorted_wrt (\<lambda>a b. pd_pc_offset a < pd_pc_offset b) pcs \<and>
     lower_offset_limit \<le> prev \<and> (\<forall>p \<in> set ps. (\<exists>i. covered Q pcs p i) \<and> (rp_safepoint p \<longrightarrow> rp_pc p \<le> prev))"

lemma first_at_append: "first_at xs x i \<Longrightarrow> first_at (xs @ ys) x i"
  by (auto simp: first_at_def nth_append)

lemma covered_append: "covered Q xs p i \<Longrightarrow> covered Q (xs @ ys) p i"
  using first_at_append [of xs "rp_pc p" i ys] by (auto simp: covered_def nth_append first_at_def)

lemma tab_append:
  assumes t: "tab Q prev pcs ps" and pc: "pd_pc_offset (last pcs) < rp_pc p" "pd_pc_offset pd = rp_pc p" and q: "Q p pd"
    and prev: "prev' = (if rp_safepoint p then rp_pc p else prev)" "prev \<le> rp_pc p"
  shows "tab Q prev' (pcs @ [pd]) (ps @ [p])"
proof -
  have ne: "pcs \<noteq> []" using t by (simp add: tab_def)
  then have "pd_pc_offset a \<le> pd_pc_offset (last pcs)" if "a \<in> set pcs" for a
    using t that unfolding tab_def by (cases pcs rule: rev_cases) (auto simp: sorted_wrt_append intro: less_imp_le)
  then have "sorted_wrt (\<lambda>a b. pd_pc_offset a < pd_pc_offset b) (pcs @ [pd])" using t pc by (fastforce simp: tab_def sorted_wrt_append)
  moreover have "covered Q (pcs @ [pd]) p (length pcs)" using ne pc q by (auto simp: covered_def first_at_def nth_append last_conv_nth)
  moreover have "(\<exists>i. covered Q (pcs @ [pd]) p' i) \<and> (rp_safepoint p' \<longrightarrow> rp_pc p' \<le> prev')" if "p' \<in> set ps" for p'
  proof -
    from t that obtain i where "covered Q pcs p' i" "rp_safepoint p' \<longrightarrow> rp_pc p' \<le> prev" by (auto simp: tab_def)
    then show ?thesis using covered_append [of Q pcs p' i "[pd]"] prev by (auto intro: exI [of _ i])
  qed
  moreover have "lower_offset_limit \<le> prev'" using t prev by (auto simp: tab_def)
  ultimately show ?thesis using t ne prev(1) by (auto simp: tab_def)
qed

lemma tab_coalesce:
  assumes t: "tab Q prev pcs ps" and pc: "pd_pc_offset (last pcs) < rp_pc p" and q: "Q p ((last pcs)\<lparr>pd_pc_offset := rp_pc p\<rparr>)"
    and same: "\<And>p x. Q p (last pcs) \<Longrightarrow> Q p ((last pcs)\<lparr>pd_pc_offset := x\<rparr>)" and np: "prev < pd_pc_offset (last pcs)"
    and prev: "prev' = (if rp_safepoint p then rp_pc p else prev)"
  shows "tab Q prev' (butlast pcs @ [(last pcs)\<lparr>pd_pc_offset := rp_pc p\<rparr>]) (ps @ [p])"
proof -
  obtain ys y where y: "pcs = ys @ [y]" using t by (metis append_butlast_last_id tab_def)
  let ?y = "y\<lparr>pd_pc_offset := rp_pc p\<rparr>"
  have low: "lower_offset_limit \<le> prev" using t by (simp add: tab_def)
  then have ys: "ys \<noteq> []" using t np y by (auto simp: tab_def)
  have "sorted_wrt (\<lambda>a b. pd_pc_offset a < pd_pc_offset b) (ys @ [?y])" using t y pc by (fastforce simp: tab_def sorted_wrt_append)
  moreover have "pd_pc_offset (hd (ys @ [?y])) = lower_offset_limit" using t y ys by (simp add: tab_def)
  moreover have "covered Q (ys @ [?y]) p (length ys)"
  proof -
    have "pd_pc_offset (last ys) < pd_pc_offset y" using t y ys by (auto simp: tab_def sorted_wrt_append)
    then show ?thesis using y ys pc q by (auto simp: covered_def first_at_def nth_append last_conv_nth)
  qed
  moreover have "\<exists>i. covered Q (ys @ [?y]) p' i" if p': "p' \<in> set ps" for p'
  proof -
    from t p' obtain i where i: "covered Q pcs p' i" and sp: "rp_safepoint p' \<longrightarrow> rp_pc p' \<le> prev" by (auto simp: tab_def)
    have "i \<le> length ys" using i y by (simp add: covered_def first_at_def)
    then show ?thesis
    proof (cases "i = length ys")
      case True
      have "\<not> rp_safepoint p'" using i sp np y True by (auto simp: covered_def nth_append)
      then have "covered Q (ys @ [?y]) p' i" using i y ys True pc same by (auto simp: covered_def first_at_def nth_append)
      then show ?thesis by blast
    next
      case False
      then have "i < length ys" "i - 1 < length ys" using \<open>i \<le> length ys\<close> by auto
      then have "covered Q ys p' i" using i y by (simp add: covered_def first_at_def nth_append)
      then show ?thesis using covered_append by blast
    qed
  qed
  moreover have "rp_safepoint p' \<longrightarrow> rp_pc p' \<le> prev'" if "p' \<in> set (ps @ [p])" for p'
    using that t pc np prev by (fastforce simp: tab_def)
  ultimately show ?thesis using y prev low pc np by (auto simp: tab_def)
qed

lemma tab_step:
  assumes t: "tab Q prev pcs ps" and pc: "pd_pc_offset (last pcs) < rp_pc p" "pd_pc_offset pd = rp_pc p" and q: "Q p pd"
    and same: "\<And>p a b. is_same_info a b \<Longrightarrow> Q p b \<Longrightarrow> Q p a" and prev: "prev \<le> rp_pc p"
  shows "tab Q (if rp_safepoint p then rp_pc p else prev) (pcs_after rn prev pcs pd (rp_pc p)) (ps @ [p]) \<and>
    pd_pc_offset (last (pcs_after rn prev pcs pd (rp_pc p))) = rp_pc p"
proof (cases "rn \<and> prev < pd_pc_offset (last pcs) \<and> is_same_info (last pcs) pd")
  case True
  have upd: "is_same_info (a\<lparr>pd_pc_offset := x\<rparr>) b = is_same_info a b" for a b x by (simp add: is_same_info_def)
  have "Q p ((last pcs)\<lparr>pd_pc_offset := rp_pc p\<rparr>)" using same [OF _ q] True upd by blast
  moreover have "Q p' ((last pcs)\<lparr>pd_pc_offset := x\<rparr>)" if "Q p' (last pcs)" for p' x
    using same [OF _ that] upd by (simp add: is_same_info_def)
  ultimately show ?thesis using tab_coalesce [OF t pc(1) _ _ _ refl] True by (simp add: pcs_after_def)
next
  case False
  then show ?thesis using tab_append [where Q = Q, OF t pc q refl prev] pc(2) by (auto simp: pcs_after_def)
qed

end
