(* ===== verification/DebugInfoRec_Size.thy ===== *)
theory DebugInfoRec_Size
  imports DebugInfoRec_Table
begin

text \<open>
  The size of the serialised information: at most fifty bytes per value, object and frame recorded.
  An object that has not been written yet counts in advance, because it is written with the first
  value that refers to it.
\<close>

section \<open>Monitors and frames\<close>

lemma grows_monitors: "cw_ok (dw_stream w) \<Longrightarrow> write_monitors fuel non_oop w ms = Some w' \<Longrightarrow> grows (26 * length ms) w w'"
proof (induction ms arbitrary: w)
  case (Cons m ms)
  then obtain w1 w2 w3 where w: "put_with location_write_on w (mv_basic_lock m) = Some w1" "write_on fuel non_oop w1 (mv_owner m) = Some w2"
    "put_with write_bool w2 (if mv_eliminated m then 1 else 0) = Some w3" "write_monitors fuel non_oop w3 ms = Some w'"
    by (auto simp: monitor_write_on_def split: Option.bind_split_asm)
  have g1: "grows 5 w w1" by (rule grows_put [OF location_codec.stream_codec_axioms Cons.prems(1) w(1)]) (simp add: enc_int_length)
  have g2: "grows 20 w1 w2" by (rule grows_write_on [OF grows_ok [OF g1] w(2)])
  have g3: "grows 1 w2 w3" by (rule grows_put [OF bool_codec.stream_codec_axioms grows_ok [OF g2] w(3)]) simp
  have g4: "grows (26 * length ms) w3 w'" by (rule Cons.IH [OF grows_ok [OF g3] w(4)])
  from grows_trans [OF g1 grows_trans [OF g2 grows_trans [OF g3 g4]]] show ?case by (simp add: algebra_simps)
qed (simp add: grows_def)

lemma grows_scope:
  assumes ok: "cw_ok (dw_stream w)" and s: "write_scope non_oop sender x w = Some w'"
  shows "grows 30 w w'"
proof -
  obtain w1 w2 w3 w4 w5 where w: "put_with write_int w (of_nat sender) = Some w1" "write_metadata non_oop w1 (method_enc x) = Some w2"
    "put_with write_int w2 (ds_bci x - InvocationEntryBci) = Some w3" "put_with write_int w3 (of_nat (ds_locals x)) = Some w4"
    "put_with write_int w4 (of_nat (ds_expressions x)) = Some w5" "put_with write_int w5 (of_nat (ds_monitors x)) = Some w'"
    using s by (auto simp: write_scope_def write_bci_def split: Option.bind_split_asm)
  note g1 = grows_int [OF ok w(1)]
  have g2: "grows 5 w1 w2" using grows_table [OF grows_ok [OF g1]] w(2) by blast
  note g3 = grows_int [OF grows_ok [OF g2] w(3)]
  note g4 = grows_int [OF grows_ok [OF g3] w(4)]
  note g5 = grows_int [OF grows_ok [OF g4] w(5)]
  note g6 = grows_int [OF grows_ok [OF g5] w(6)]
  from grows_trans [OF g1 grows_trans [OF g2 grows_trans [OF g3 grows_trans [OF g4 grows_trans [OF g5 g6]]]]]
  show ?thesis by simp
qed

section \<open>The recorder\<close>

abbreviation dgrows :: "nat \<Rightarrow> debug_recorder \<Rightarrow> debug_recorder \<Rightarrow> bool" where
  "dgrows c d d' \<equiv> grows c (di_writer d) (di_writer d')"

lemma find_sharable_writer: "find_sharable_decode_offset sf d p = (s, d') \<Longrightarrow> di_writer d' = di_writer d"
  by (auto simp: find_sharable_decode_offset_def Let_def split: if_split_asm prod.split_asm option.split_asm)

lemma set_last_pc_writer: "di_writer (set_last_pc d pd) = di_writer d"
  by (simp add: set_last_pc_def)

lemma grows_truncated:
  assumes "dgrows c d d2" and "di_writer d3 = di_writer d2"
  shows "dgrows c d (set_position d3 (di_position d))"
  using assms by (simp add: grows_def set_position_def di_position_def pos_def pot_def cw_ok_def)

lemma grows_share:
  assumes "dgrows c d d2" and "share_bytes sf d2 (di_position d) = (off, d')"
  shows "dgrows c d d'"
proof -
  obtain s d3 where f: "find_sharable_decode_offset sf d2 (di_position d) = (s, d3)" by fastforce
  note w = find_sharable_writer [OF f]
  show ?thesis using assms f w grows_truncated [OF assms(1) w] by (auto simp: share_bytes_def split: if_split_asm)
qed

lemma grows_serialize:
  assumes ok: "cw_ok (dw_stream (di_writer d))" and f: "\<And>w w'. cw_ok (dw_stream w) \<Longrightarrow> f w = Some w' \<Longrightarrow> grows c w w'"
    and s: "do { d1 \<leftarrow> with_writer (\<lambda>w. put_with write_int w n) d; d2 \<leftarrow> with_writer f d1; Some (share_bytes sf d2 (di_position d)) } = Some (off, d')"
  shows "dgrows (5 + c) d d'"
proof -
  obtain w1 w2 where w: "put_with write_int (di_writer d) n = Some w1" "f w1 = Some w2" "share_bytes sf (d\<lparr>di_writer := w2\<rparr>) (di_position d) = (off, d')"
    using s by (auto simp: with_writer_def split: Option.bind_split_asm)
  have g: "grows 5 (di_writer d) w1" by (rule grows_int [OF ok w(1)])
  have "dgrows (5 + c) d (d\<lparr>di_writer := w2\<rparr>)" using grows_trans [OF g f [OF grows_ok [OF g] w(2)]] by simp
  from grows_share [OF this w(3)] show ?thesis .
qed

lemma grows_scope_values:
  assumes "cw_ok (dw_stream (di_writer d))" and "serialize_scope_values fuel non_oop sf d vs = Some (off, d')"
  shows "dgrows (5 + 20 * olen vs) d d'"
proof (cases "vs = None \<or> vs = Some []")
  case True
  then show ?thesis using assms by (auto simp: serialize_scope_values_def grows_def)
next
  case False
  then obtain xs where "vs = Some xs" "xs \<noteq> []" by auto
  then show ?thesis using grows_serialize [OF assms(1) grows_values [OF grows_write_on]] assms(2) by (fastforce simp: serialize_scope_values_def olen_def)
qed

lemma grows_monitor_values:
  assumes "cw_ok (dw_stream (di_writer d))" and "serialize_monitor_values fuel non_oop sf d ms = Some (off, d')"
  shows "dgrows (5 + 26 * olen ms) d d'"
proof (cases "ms = None \<or> ms = Some []")
  case True
  then show ?thesis using assms by (auto simp: serialize_monitor_values_def grows_def)
next
  case False
  then obtain xs where "ms = Some xs" "xs \<noteq> []" by auto
  then show ?thesis using grows_serialize [OF assms(1) grows_monitors] assms(2) by (fastforce simp: serialize_monitor_values_def olen_def)
qed

lemma grows_describe_scope:
  assumes ok: "cw_ok (dw_stream (di_writer d))" and ds: "describe_scope non_oop sf d x = Some d'"
  shows "dgrows 30 d d'"
proof -
  obtain pd where pd: "last_pc d = Some pd" using ds by (auto simp: describe_scope_def split: Option.bind_split_asm)
  obtain w where w: "write_scope non_oop (pd_scope_decode_offset pd) x (di_writer d) = Some w"
    using ds pd by (auto simp: describe_scope_def with_writer_def set_last_pc_writer Let_def split: Option.bind_split_asm)
  let ?pd = "scope_pc x (di_position d) pd"
  obtain s d2 where f: "find_sharable_decode_offset sf ((set_last_pc d ?pd)\<lparr>di_writer := w\<rparr>) (di_position d) = (s, d2)" by fastforce
  have d': "d' = (if s \<noteq> serialized_null then set_last_pc (set_position d2 (di_position d)) (?pd\<lparr>pd_scope_decode_offset := s\<rparr>) else d2)"
    using ds pd w f by (simp add: describe_scope_def with_writer_def set_last_pc_writer Let_def scope_pc_def [symmetric])
  have g: "dgrows 30 d (d\<lparr>di_writer := w\<rparr>)" using grows_scope [OF ok w] by simp
  have "di_writer d2 = di_writer (d\<lparr>di_writer := w\<rparr>)" using find_sharable_writer [OF f] by simp
  then show ?thesis using d' g grows_truncated [OF g] by (simp add: set_last_pc_writer)
qed

lemma grows_frame:
  assumes ok: "cw_ok (dw_stream (di_writer d))" and s: "describe_frame fuel non_oop sf d f = Some d'"
  shows "dgrows (45 * frame_cost f) d d'"
proof -
  obtain l d1 e d2 m d3 where w: "create_scope_values fuel non_oop sf d (fr_locals f) = Some (l, d1)"
    "create_scope_values fuel non_oop sf d1 (fr_expressions f) = Some (e, d2)" "create_monitor_values fuel non_oop sf d2 (fr_monitors f) = Some (m, d3)"
    "describe_scope non_oop sf d3 (with_tokens (fr_scope f) l e m) = Some d'"
    using s by (auto simp: describe_frame_def split: Option.bind_split_asm)
  note g1 = grows_scope_values [OF ok w(1) [unfolded create_scope_values_def]]
  note g2 = grows_scope_values [OF grows_ok [OF g1] w(2) [unfolded create_scope_values_def]]
  note g3 = grows_monitor_values [OF grows_ok [OF g2] w(3) [unfolded create_monitor_values_def]]
  note g4 = grows_describe_scope [OF grows_ok [OF g3] w(4)]
  from grows_trans [OF g1 grows_trans [OF g2 grows_trans [OF g3 g4]]] show ?thesis
    by (rule grows_mono) (simp add: frame_cost_def)
qed

lemma grows_frames: "cw_ok (dw_stream (di_writer d)) \<Longrightarrow> describe_frames fuel non_oop sf d fs = Some d' \<Longrightarrow> dgrows (45 * (\<Sum>f \<leftarrow> fs. frame_cost f)) d d'"
proof (induction fs arbitrary: d)
  case (Cons f fs)
  then obtain d1 where d1: "describe_frame fuel non_oop sf d f = Some d1" "describe_frames fuel non_oop sf d1 fs = Some d'" by (auto split: Option.bind_split_asm)
  note g = grows_frame [OF Cons.prems(1) d1(1)]
  from grows_trans [OF g Cons.IH [OF grows_ok [OF g] d1(2)]] show ?case by (simp add: algebra_simps)
qed (simp add: grows_def)

lemma objects_pot: "(\<Sum>ov \<leftarrow> objs. to_come ov) \<le> 20 * objects_cost objs"
proof -
  have "(\<Sum>ov \<leftarrow> objs. to_come ov) \<le> (\<Sum>ov \<leftarrow> objs. 20 * (2 + length (ov_field_values ov)))" by (rule sum_list_mono) (simp add: to_come_def)
  also have "\<dots> = 20 * objects_cost objs"
    by (simp add: objects_cost_def sum_list_sum_nth sum_distrib_left atLeast0LessThan lessThan_def [symmetric] del: mult_Suc_right)
  finally show ?thesis .
qed

lemma grows_pc:
  assumes ok: "cw_ok (dw_stream (di_writer d))" and ne: "rp_frames p \<noteq> []" and r: "record_pc fuel non_oop sf d p = Some d'"
  shows "cw_ok (dw_stream (di_writer d'))" and "di_position d' \<le> di_position d + 50 * pc_cost p"
proof -
  let ?n = "length (rp_objects p)" and ?d1 = "begin_pc d p"
  obtain d2 d3 where s: "(if rp_safepoint p then dump_object_pool fuel non_oop sf ?d1 (Some [0..<?n]) else Some ?d1) = Some d2"
    "describe_frames fuel non_oop sf d2 (rp_frames p) = Some d3" "d' = end_scopes d3 (rp_pc p) (rp_safepoint p)"
    using r by (auto simp: record_pc_def Let_def split: Option.bind_split_asm)
  have b: "dw_objects (di_writer ?d1) = rp_objects p" "dw_stream (di_writer ?d1) = dw_stream (di_writer d)"
    by (simp_all add: begin_pc_def with_objects_def add_safepoint_def add_non_safepoint_def add_oopmap_def add_new_pc_offset_def Let_def)
  have g2: "cw_ok (dw_stream (di_writer d2)) \<and> pos (di_writer d2) + pot (di_writer d2) \<le> pos (di_writer d) + 20 * objects_cost (rp_objects p) + 5 + 20 * ?n"
  proof (cases "rp_safepoint p")
    case True
    have c: "clear_visited [0..<?n] (rp_objects p) = map unvisit (rp_objects p)" by (rule clear_all)
    define dc where "dc = ?d1\<lparr>di_writer := (di_writer ?d1)\<lparr>dw_objects := map unvisit (rp_objects p)\<rparr>\<rparr>"
    obtain off d4 pd where v: "serialize_scope_values fuel non_oop sf dc (Some (map ObjectValue [0..<?n])) = Some (off, d4)" "d2 = set_last_pc d4 pd"
      using s(1) True by (auto simp: dump_object_pool_def b(1) c dc_def Let_def split: Option.bind_split_asm)
    have "cw_ok (dw_stream (di_writer dc))" "pos (di_writer dc) = pos (di_writer d)" using ok b(2) by (simp_all add: dc_def pos_def)
    moreover have "pot (di_writer dc) \<le> 20 * objects_cost (rp_objects p)"
      using objects_pot [of "map unvisit (rp_objects p)"] by (simp add: dc_def pot_def objects_cost_def unvisit_def)
    ultimately show ?thesis using grows_scope_values [OF _ v(1)] v(2) by (simp add: grows_def set_last_pc_writer olen_def)
  next
    case False
    then show ?thesis using s(1) ok b objects_pot [of "rp_objects p"] by (auto simp: pos_def pot_def)
  qed
  have g3: "dgrows (45 * (\<Sum>f \<leftarrow> rp_frames p. frame_cost f)) d2 d3" using grows_frames [OF _ s(2)] g2 by blast
  have w: "di_writer d' = di_writer d3" by (simp add: s(3) end_scopes_def Let_def)
  show "cw_ok (dw_stream (di_writer d'))" using grows_ok [OF g3] w by simp
  obtain f fs where "rp_frames p = f # fs" using ne by (cases "rp_frames p") auto
  then have "1 \<le> (\<Sum>f \<leftarrow> rp_frames p. frame_cost f)" by (simp add: frame_cost_def)
  then show "di_position d' \<le> di_position d + 50 * pc_cost p" using g2 g3 w by (simp add: grows_def pos_def di_position_def pc_cost_def)
qed

text \<open>Fifty bytes for each unit of cost.\<close>

lemma record_all_size:
  assumes "cw_ok (dw_stream (di_writer d))" and "\<forall>p \<in> set ps. rp_frames p \<noteq> []" and "record_all fuel non_oop sf d ps = Some d'"
  shows "di_position d' \<le> di_position d + 50 * (\<Sum>p \<leftarrow> ps. pc_cost p)"
  using assms
proof (induction ps arbitrary: d)
  case (Cons p ps)
  then obtain d1 where d1: "record_pc fuel non_oop sf d p = Some d1" "record_all fuel non_oop sf d1 ps = Some d'" by (auto split: Option.bind_split_asm)
  have "rp_frames p \<noteq> []" using Cons.prems(2) by simp
  note g = grows_pc [OF Cons.prems(1) this d1(1)]
  show ?case using Cons.IH [OF g(1) _ d1(2)] g(2) Cons.prems(2) by (auto simp: algebra_simps)
qed simp

end
