(* ===== verification/DebugInfoRec_Theorems.thy ===== *)
theory DebugInfoRec_Theorems
  imports DebugInfoRec_Size
begin

text \<open>
  From the recorder to the reader: the debugging information of every instruction that was recorded is
  found in the compiled method and decoded, scope by scope, and byte runs are shared soundly.
\<close>

section \<open>Walking the scopes\<close>

text \<open>\<open>nmethod::scope_desc_at\<close>; the guarantee that there is a descriptor is \<open>None\<close> when it fails.\<close>

definition scope_desc_at :: "nat \<Rightarrow> int \<Rightarrow> nmethod_debug \<Rightarrow> pc_cache \<Rightarrow> int \<Rightarrow> (scope_desc \<times> pc_cache) option" where
  "scope_desc_at fuel before nm cache pc =
     do { (pd, cache') \<leftarrow> pc_desc_at before (nm_scopes_pcs nm) cache pc;
          i \<leftarrow> pd;
          sd \<leftarrow> scope_desc_for fuel nm (nm_scopes_pcs nm ! i);
          Some (sd, cache') }"

record scope_seen =
  ss_method :: handle
  ss_bci :: jint
  ss_locals :: "scope_value list option"
  ss_expressions :: "scope_value list option"
  ss_monitors :: "monitor_value list option"

text \<open>The scopes from \<open>sd\<close> outwards; \<open>None\<close> when there are more than \<open>k\<close>.\<close>

fun walk :: "nat \<Rightarrow> nmethod_debug \<Rightarrow> nat \<Rightarrow> scope_desc \<Rightarrow> scope_seen list option" where
  "walk fuel nm 0 sd = None"
| "walk fuel nm (Suc k) sd =
     do { ls \<leftarrow> sd_locals fuel nm sd;
          es \<leftarrow> sd_expressions fuel nm sd;
          ms \<leftarrow> sd_monitors fuel nm sd;
          snd \<leftarrow> sd_sender nm sd;
          rest \<leftarrow> (case snd of None \<Rightarrow> Some [] | Some s \<Rightarrow> walk fuel nm k s);
          Some (\<lparr>ss_method = sd_method sd, ss_bci = sd_bci sd, ss_locals = ls, ss_expressions = es, ss_monitors = ms\<rparr> # rest) }"

definition frame_seen :: "object_value list \<Rightarrow> (handle \<Rightarrow> oop) \<Rightarrow> jint list \<Rightarrow> frame \<Rightarrow> scope_seen \<Rightarrow> bool" where
  "frame_seen objs imm ids f s \<longleftrightarrow> ss_method s = method_enc (fr_scope f) \<and> ss_bci s = ds_bci (fr_scope f) \<and>
     list_rel (val_rel objs imm ids) (fr_locals f) (ss_locals s) \<and> list_rel (val_rel objs imm ids) (fr_expressions f) (ss_expressions s) \<and>
     list_rel (mon_rel objs imm ids) (fr_monitors f) (ss_monitors s)"

lemma frame_at_decoded:
  assumes f: "frame_at objs imm fuel nm objects off sender f" and sd: "sd_objects sd = objects" "sd_decode_offset sd = off"
  shows "\<exists>sd' ls es ms. decode_body nm sd = Some sd' \<and> sd_objects sd' = objects \<and> sd_sender_decode_offset sd' = sender \<and>
    sd_reexecute sd' = sd_reexecute sd \<and> sd_rethrow_exception sd' = sd_rethrow_exception sd \<and> sd_return_oop sd' = sd_return_oop sd \<and>
    sd_locals fuel nm sd' = Some ls \<and> sd_expressions fuel nm sd' = Some es \<and> sd_monitors fuel nm sd' = Some ms \<and>
    frame_seen objs imm (map ov_id (opool objects)) f \<lparr>ss_method = sd_method sd', ss_bci = sd_bci sd', ss_locals = ls, ss_expressions = es, ss_monitors = ms\<rparr>"
proof -
  obtain x ls es ms where x: "decode_body nm sd = Some (scope_fields sender x sd)" "method_enc x = method_enc (fr_scope f)" "ds_bci x = ds_bci (fr_scope f)"
    "decode_scope_values fuel nm objects (ds_locals x) = Some ls" "list_rel (val_rel objs imm (map ov_id (opool objects))) (fr_locals f) ls"
    "decode_scope_values fuel nm objects (ds_expressions x) = Some es" "list_rel (val_rel objs imm (map ov_id (opool objects))) (fr_expressions f) es"
    "decode_monitor_values fuel nm objects (ds_monitors x) = Some ms" "list_rel (mon_rel objs imm (map ov_id (opool objects))) (fr_monitors f) ms"
    using f sd unfolding frame_at_def by blast
  then show ?thesis using sd by (simp add: scope_fields_def sd_locals_def sd_expressions_def sd_monitors_def frame_seen_def)
qed

lemma chain_walk:
  assumes "chain objs imm fuel nm objects off (f # fs)" and "sd_objects sd = objects" and "sd_decode_offset sd = off"
  shows "\<exists>sd' seen. decode_body nm sd = Some sd' \<and> sd_objects sd' = objects \<and>
    sd_reexecute sd' = sd_reexecute sd \<and> sd_rethrow_exception sd' = sd_rethrow_exception sd \<and> sd_return_oop sd' = sd_return_oop sd \<and>
    walk fuel nm (length (f # fs)) sd' = Some seen \<and> list_all2 (frame_seen objs imm (map ov_id (opool objects))) (f # fs) seen"
  using assms
proof (induction fs arbitrary: f off sd)
  case Nil
  then obtain sender where "frame_at objs imm fuel nm objects off sender f" "sender = serialized_null" by auto
  from frame_at_decoded [OF this(1) Nil(2,3)] this(2) show ?case by (auto simp: sd_sender_def is_top_def)
next
  case (Cons g gs)
  obtain sender where s: "frame_at objs imm fuel nm objects off sender f" "chain objs imm fuel nm objects sender (g # gs)" using Cons.prems(1) by auto
  have n: "sender \<noteq> serialized_null" using s(2) by (auto simp: frame_at_def)
  obtain sd' ls es ms where d: "decode_body nm sd = Some sd'" "sd_objects sd' = objects" "sd_sender_decode_offset sd' = sender"
    "sd_reexecute sd' = sd_reexecute sd" "sd_rethrow_exception sd' = sd_rethrow_exception sd" "sd_return_oop sd' = sd_return_oop sd"
    "sd_locals fuel nm sd' = Some ls" "sd_expressions fuel nm sd' = Some es" "sd_monitors fuel nm sd' = Some ms"
    "frame_seen objs imm (map ov_id (opool objects)) f \<lparr>ss_method = sd_method sd', ss_bci = sd_bci sd', ss_locals = ls, ss_expressions = es, ss_monitors = ms\<rparr>"
    using frame_at_decoded [OF s(1) Cons.prems(2,3)] by blast
  define sdn where "sdn = sd'\<lparr>sd_decode_offset := sender, sd_reexecute := False, sd_rethrow_exception := False, sd_return_oop := False\<rparr>"
  have "sd_objects sdn = objects" "sd_decode_offset sdn = sender" using d(2) by (simp_all add: sdn_def)
  from Cons.IH [OF s(2) this] obtain t seen where t: "decode_body nm sdn = Some t" "walk fuel nm (length (g # gs)) t = Some seen"
    "list_all2 (frame_seen objs imm (map ov_id (opool objects))) (g # gs) seen" by blast
  have "sd_sender nm sd' = Some (Some t)" using n d(3) t(1) by (simp add: sd_sender_def is_top_def scope_desc_initialize_def sdn_def)
  then have "walk fuel nm (length (f # g # gs)) sd' =
      Some (\<lparr>ss_method = sd_method sd', ss_bci = sd_bci sd', ss_locals = ls, ss_expressions = es, ss_monitors = ms\<rparr> # seen)"
    using t(2) d(7-9) by simp
  then show ?case using d(1,2,4-6,10) t(3) by (intro exI [of _ sd']) simp
qed

text \<open>The scopes read from \<open>sd\<close> outwards are the frames of the instruction, innermost first, with its objects.\<close>

definition scopes_decoded :: "(handle \<Rightarrow> oop) \<Rightarrow> nat \<Rightarrow> nmethod_debug \<Rightarrow> pc_info \<Rightarrow> scope_desc \<Rightarrow> bool" where
  "scopes_decoded imm fuel nm p sd \<longleftrightarrow>
     (let ids = map ov_id (opool (sd_objects sd)); x = fr_scope (last (rp_frames p)) in
      sd_reexecute sd = ds_reexecute x \<and> sd_rethrow_exception sd = ds_rethrow_exception x \<and> sd_return_oop sd = ds_return_oop x \<and>
      distinct ids \<and> set ids = set (map ov_id (rp_objects p)) \<and>
      (\<forall>ov' \<in> set (opool (sd_objects sd)). \<exists>ov \<in> set (rp_objects p). obj_rel (rp_objects p) imm ids ov ov') \<and>
      (\<exists>seen. walk fuel nm (length (rp_frames p)) sd = Some seen \<and> list_all2 (frame_seen (rp_objects p) imm ids) (rev (rp_frames p)) seen))"

lemma pc_decoded_scopes:
  assumes d: "pc_decoded imm fuel nm p pd" and ne: "rp_frames p \<noteq> []"
  shows "\<exists>sd. scope_desc_for fuel nm pd = Some sd \<and> scopes_decoded imm fuel nm p sd"
proof -
  obtain objects where o: "pool_ok (rp_objects p) imm fuel nm (pd_obj_decode_offset pd) objects"
    "chain (rp_objects p) imm fuel nm objects (pd_scope_decode_offset pd) (rev (rp_frames p))" and fl: "pd_flags_are (fr_scope (last (rp_frames p))) pd"
    using d by (auto simp: pc_decoded_def)
  obtain f fs where f: "rev (rp_frames p) = f # fs" using ne by (cases "rev (rp_frames p)") auto
  define sd where "sd = \<lparr>sd_method = 0, sd_bci = 0, sd_reexecute = pd_should_reexecute pd, sd_rethrow_exception = pd_rethrow_exception pd,
    sd_return_oop = pd_return_oop pd, sd_decode_offset = pd_scope_decode_offset pd, sd_sender_decode_offset = 0, sd_locals_decode_offset = 0,
    sd_expressions_decode_offset = 0, sd_monitors_decode_offset = 0, sd_objects = objects\<rparr>"
  have len: "length (f # fs) = length (rp_frames p)" using arg_cong [OF f, of length] by simp
  have "sd_objects sd = objects" "sd_decode_offset sd = pd_scope_decode_offset pd" by (simp_all add: sd_def)
  from chain_walk [OF o(2) [unfolded f] this] obtain sd' seen where w: "decode_body nm sd = Some sd'" "sd_objects sd' = objects"
    "sd_reexecute sd' = sd_reexecute sd" "sd_rethrow_exception sd' = sd_rethrow_exception sd" "sd_return_oop sd' = sd_return_oop sd"
    "walk fuel nm (length (f # fs)) sd' = Some seen" "list_all2 (frame_seen (rp_objects p) imm (map ov_id (opool objects))) (f # fs) seen" by blast
  have "scope_desc_for fuel nm pd = Some sd'" using o(1) w(1) by (simp add: scope_desc_for_def new_scope_desc_def pool_ok_def sd_def)
  moreover have "scopes_decoded imm fuel nm p sd'"
    unfolding scopes_decoded_def Let_def w(2) using o(1) w(3-7) fl unfolding len f by (auto simp: sd_def pool_ok_def pd_flags_are_def)
  ultimately show ?thesis by blast
qed

section \<open>Recording a method\<close>

definition recorded :: "handle \<Rightarrow> (handle \<Rightarrow> oop) \<Rightarrow> share_flags \<Rightarrow> nat \<Rightarrow> debug_recorder \<Rightarrow> pc_info list \<Rightarrow> bool" where
  "recorded non_oop resolve sf fuel d ps \<longleftrightarrow> dir_ok sf d \<and> rec_ok non_oop (dw_recorder (di_writer d)) \<and>
     di_prev_safepoint_pc d \<le> pd_pc_offset (last (di_pcs d)) \<and> tab (decoded_later non_oop resolve fuel d) (di_prev_safepoint_pc d) (di_pcs d) ps"

lemma tab_mono: "tab Q prev pcs ps \<Longrightarrow> (\<And>p pd. Q p pd \<Longrightarrow> R p pd) \<Longrightarrow> tab R prev pcs ps"
  unfolding tab_def covered_def by blast

lemma record_pc_ok:
  assumes r: "recorded non_oop resolve sf fuel d ps" and p: "pc_ok non_oop fuel p" and pc: "pd_pc_offset (last (di_pcs d)) < rp_pc p"
    and fit: "rec_used (dw_recorder (di_writer d)) + pc_cost p < 2 ^ 30"
  shows "\<exists>d'. record_pc fuel non_oop sf d p = Some d' \<and> recorded non_oop resolve sf fuel d' (ps @ [p]) \<and> pd_pc_offset (last (di_pcs d')) = rp_pc p \<and>
    rec_used (dw_recorder (di_writer d')) \<le> rec_used (dw_recorder (di_writer d)) + pc_cost p"
proof -
  have ok: "dir_ok sf d" "rec_ok non_oop (dw_recorder (di_writer d))" "di_prev_safepoint_pc d \<le> pd_pc_offset (last (di_pcs d))"
    and tab: "tab (decoded_later non_oop resolve fuel d) (di_prev_safepoint_pc d) (di_pcs d) ps" using r by (simp_all add: recorded_def)
  obtain d3 pd where d3: "record_pc fuel non_oop sf d p = Some (end_scopes d3 (rp_pc p) (rp_safepoint p))" "dir_ok sf d3" "rec_ok non_oop (dw_recorder (di_writer d3))"
    "rec_used (dw_recorder (di_writer d3)) \<le> rec_used (dw_recorder (di_writer d)) + pc_cost p" "later_dir non_oop d d3" "di_pcs d3 = di_pcs d @ [pd]"
    "pd_pc_offset pd = rp_pc p" "di_prev_safepoint_pc d3 = di_prev_safepoint_pc d" "decoded_later non_oop resolve fuel d3 p pd"
    using pc_described [OF ok(1,2) p fit, of resolve] by blast
  define d' where "d' = end_scopes d3 (rp_pc p) (rp_safepoint p)"
  have "di_pcs d \<noteq> []" using tab by (simp add: tab_def)
  note e = end_scopes_ok [OF d3(6) this, where pc = "rp_pc p" and sp = "rp_safepoint p", folded d'_def]
  have t3: "tab (decoded_later non_oop resolve fuel d3) (di_prev_safepoint_pc d) (di_pcs d) ps" by (rule tab_mono [OF tab decoded_later_mono [OF d3(5)]])
  have le: "di_prev_safepoint_pc d \<le> rp_pc p" using ok(3) pc by simp
  have same: "decoded_later non_oop resolve fuel d' = decoded_later non_oop resolve fuel d3"
    by (intro ext) (simp add: decoded_later_def holds_def e(3) di_bytes_def)
  have "tab (decoded_later non_oop resolve fuel d') (di_prev_safepoint_pc d') (di_pcs d') (ps @ [p]) \<and> pd_pc_offset (last (di_pcs d')) = rp_pc p"
    unfolding e(1,2) d3(8) same by (rule tab_step [OF t3 pc d3(7,9) decoded_later_same le])
  then show ?thesis using d3(1-4) e(2-4) le d3(8) unfolding recorded_def d'_def by auto
qed

lemma record_all_ok:
  assumes "recorded non_oop resolve sf fuel d ps" and "list_all (pc_ok non_oop fuel) qs" and "sorted_wrt (<) (pd_pc_offset (last (di_pcs d)) # map rp_pc qs)"
    and "rec_used (dw_recorder (di_writer d)) + (\<Sum>q \<leftarrow> qs. pc_cost q) < 2 ^ 30"
  shows "\<exists>d'. record_all fuel non_oop sf d qs = Some d' \<and> recorded non_oop resolve sf fuel d' (ps @ qs) \<and>
    pd_pc_offset (last (di_pcs d')) = last (pd_pc_offset (last (di_pcs d)) # map rp_pc qs)"
  using assms
proof (induction qs arbitrary: d ps)
  case (Cons q qs)
  have q: "pc_ok non_oop fuel q" "pd_pc_offset (last (di_pcs d)) < rp_pc q" "rec_used (dw_recorder (di_writer d)) + pc_cost q < 2 ^ 30" using Cons.prems by auto
  obtain d1 where d1: "record_pc fuel non_oop sf d q = Some d1" "recorded non_oop resolve sf fuel d1 (ps @ [q])" "pd_pc_offset (last (di_pcs d1)) = rp_pc q"
    "rec_used (dw_recorder (di_writer d1)) \<le> rec_used (dw_recorder (di_writer d)) + pc_cost q" using record_pc_ok [OF Cons.prems(1) q] by blast
  have "list_all (pc_ok non_oop fuel) qs" "sorted_wrt (<) (pd_pc_offset (last (di_pcs d1)) # map rp_pc qs)"
    "rec_used (dw_recorder (di_writer d1)) + (\<Sum>q \<leftarrow> qs. pc_cost q) < 2 ^ 30" using Cons.prems(2-4) d1(3,4) by auto
  from Cons.IH [OF d1(2) this] show ?case using d1(1,3) by auto
qed simp

section \<open>The compiled method\<close>

text \<open>The table of the compiled method: the recorded descriptors and the final sentinel.\<close>

definition final_table :: "pc_desc list \<Rightarrow> nat \<Rightarrow> int \<Rightarrow> pc_desc list" where
  "final_table pcs room content_size = pcs @ replicate (Suc (room - Suc (length pcs))) ((new_pc_desc upper_offset_limit serialized_null serialized_null)\<lparr>pd_pc_offset := content_size + 1\<rparr>)"

lemma copied:
  assumes ok: "dir_ok sf d" and pcs: "di_pcs d \<noteq> []" "pd_pc_offset (last (di_pcs d)) < upper_offset_limit"
  shows "\<exists>n d1. pcs_size d = Some (n, d1) \<and> di_writer d1 = di_writer d \<and> nm_scopes_pcs (copy_to room content_size d1 nm0) = final_table (di_pcs d) room content_size \<and>
    nm_scopes_data (copy_to room content_size d1 nm0) = di_bytes d \<and> nm_tables (copy_to room content_size d1 nm0) = nm_tables nm0"
proof -
  define d1 where "d1 = add_new_pc_offset d upper_offset_limit"
  have w: "di_writer d1 = di_writer d" "di_pcs d1 = di_pcs d @ [new_pc_desc upper_offset_limit serialized_null serialized_null]"
    by (simp_all add: d1_def add_new_pc_offset_def Let_def)
  have "pcs_size d = Some (length (di_pcs d1) * 16, d1)" using pcs by (simp add: pcs_size_def last_pc_def d1_def Let_def)
  moreover have "nm_scopes_data (copy_to room content_size d1 nm0) = di_bytes d"
    by (simp add: copy_to_def copy_scopes_pcs_def copy_scopes_data_def Let_def di_bytes_def cw_bytes_def di_buffer_def di_position_def w(1))
  moreover have "nm_scopes_pcs (copy_to room content_size d1 nm0) = final_table (di_pcs d) room content_size"
    by (simp add: copy_to_def copy_scopes_pcs_def copy_scopes_data_def Let_def w(2) final_table_def)
  moreover have "nm_tables (copy_to room content_size d1 nm0) = nm_tables nm0"
    by (simp add: copy_to_def copy_scopes_pcs_def copy_scopes_data_def Let_def)
  ultimately show ?thesis using w(1) by blast
qed

lemma sorted_wrt_copies: "R x x \<Longrightarrow> sorted_wrt R (replicate n x)"
  by (induction n) auto

lemma final_table_ok:
  assumes t: "tab Q prev pcs ps" and l: "pd_pc_offset (last pcs) \<le> content_size"
  shows "pc_table (final_table pcs room content_size)" and "pd_pc_offset (last (final_table pcs room content_size)) = content_size + 1"
proof -
  have ne: "pcs \<noteq> []" and s: "sorted_wrt (\<lambda>a b. pd_pc_offset a < pd_pc_offset b) pcs" using t by (simp_all add: tab_def)
  have le: "pd_pc_offset a \<le> content_size" if "a \<in> set pcs" for a
    using s that l ne by (cases pcs rule: rev_cases) (auto simp: sorted_wrt_append intro: less_imp_le order_trans)
  show last: "pd_pc_offset (last (final_table pcs room content_size)) = content_size + 1" by (simp add: final_table_def)
  have "pd_pc_offset (final_table pcs room content_size ! 0) = lower_offset_limit" using t ne by (cases pcs) (simp_all add: tab_def final_table_def)
  moreover have "sorted_wrt (\<lambda>a b. pd_pc_offset a < pd_pc_offset b \<or> (pd_pc_offset a = pd_pc_offset b \<and> pd_pc_offset a = content_size + 1)) (final_table pcs room content_size)"
    (is "sorted_wrt ?R _")
  proof -
    have "sorted_wrt ?R pcs" by (rule sorted_wrt_mono_rel [OF _ s]) blast
    then show ?thesis using le sorted_wrt_copies [of ?R] unfolding final_table_def sorted_wrt_append by fastforce
  qed
  moreover have "2 \<le> length (final_table pcs room content_size)" using ne by (cases pcs) (simp_all add: final_table_def)
  ultimately show "pc_table (final_table pcs room content_size)" unfolding pc_table_def last by blast
qed

text \<open>Looking up the instruction finds its scopes; \<open>scope_desc_at\<close> is for safepoints only.\<close>

definition pc_found :: "(handle \<Rightarrow> oop) \<Rightarrow> nat \<Rightarrow> int \<Rightarrow> nmethod_debug \<Rightarrow> pc_cache \<Rightarrow> pc_info \<Rightarrow> bool" where
  "pc_found imm fuel before nm cache p \<longleftrightarrow>
     (\<exists>i cache' sd. pc_desc_near before (nm_scopes_pcs nm) cache (rp_pc p) = Some (Some i, cache') \<and>
        scope_desc_for fuel nm (nm_scopes_pcs nm ! i) = Some sd \<and> scopes_decoded imm fuel nm p sd) \<and>
     (rp_safepoint p \<longrightarrow> (\<exists>sd cache'. scope_desc_at fuel before nm cache (rp_pc p) = Some (sd, cache') \<and> scopes_decoded imm fuel nm p sd))"

lemma covered_found:
  assumes t: "pc_table (nm_scopes_pcs nm)" and x: "pc_in (nm_scopes_pcs nm) (rp_pc p)" and c: "cache_ok (nm_scopes_pcs nm) cache" and ne: "rp_frames p \<noteq> []"
    and i: "covered (pc_decoded imm fuel nm) (nm_scopes_pcs nm) p i"
  shows "pc_found imm fuel before nm cache p"
proof -
  let ?pcs = "nm_scopes_pcs nm"
  note f = find_pc_desc_ok [OF t x c, of before]
  have fi: "first_at ?pcs (rp_pc p) i" "pc_decoded imm fuel nm p (?pcs ! i)" "i < length ?pcs" using i by (simp_all add: covered_def first_at_def)
  obtain sd where sd: "scope_desc_for fuel nm (?pcs ! i) = Some sd" "scopes_decoded imm fuel nm p sd" using pc_decoded_scopes [OF fi(2) ne] by blast
  have un: "j = i" if "wanted ?pcs (rp_pc p) a j" for a j using first_at_unique [OF t _ fi(1)] that by (simp add: wanted_def)
  obtain res cache' where r: "find_pc_desc before ?pcs cache (rp_pc p) True = Some (res, cache')" "search_right ?pcs (rp_pc p) True res" using f by blast
  then have "res = Some i" using un by (cases res) (auto simp: search_right_def)
  moreover have "\<exists>cache'. pc_desc_at before ?pcs cache (rp_pc p) = Some (Some i, cache')" if "rp_safepoint p"
  proof -
    have e: "pd_pc_offset (?pcs ! i) = rp_pc p" using i that by (simp add: covered_def)
    obtain res cache' where r: "find_pc_desc before ?pcs cache (rp_pc p) False = Some (res, cache')" "search_right ?pcs (rp_pc p) False res" using f by blast
    then have "res = Some i" using un e fi(3) by (cases res) (auto simp: search_right_def)
    then show ?thesis using r(1) by (simp add: pc_desc_at_def)
  qed
  ultimately show ?thesis using r(1) sd unfolding pc_found_def pc_desc_near_def scope_desc_at_def by fastforce
qed

lemma recorded_found:
  assumes r: "recorded non_oop resolve sf fuel d ps" and p: "p \<in> set ps" "rp_frames p \<noteq> []" "0 \<le> rp_pc p" "rp_pc p \<le> content_size"
    and l: "pd_pc_offset (last (di_pcs d)) \<le> content_size" "content_size + 1 < upper_offset_limit" and h: "holds non_oop resolve d nm"
    and nm: "nm_scopes_pcs nm = final_table (di_pcs d) room content_size" "length (nm_scopes_data nm) < 2 ^ 32" and c: "cache_ok (nm_scopes_pcs nm) cache"
  shows "pc_found (initialize_immediate_oop non_oop resolve) fuel before nm cache p"
proof -
  have tab: "tab (decoded_later non_oop resolve fuel d) (di_prev_safepoint_pc d) (di_pcs d) ps" using r by (simp add: recorded_def)
  note t = final_table_ok [OF tab l(1), of room, folded nm(1)]
  have x: "pc_in (nm_scopes_pcs nm) (rp_pc p)" using t(2) p(3,4) l(2) by (simp add: pc_in_def)
  from tab p(1) obtain i where "covered (decoded_later non_oop resolve fuel d) (di_pcs d) p i" by (auto simp: tab_def)
  then have "covered (pc_decoded (initialize_immediate_oop non_oop resolve) fuel nm) (di_pcs d) p i" using h nm(2) by (auto simp: covered_def decoded_later_def)
  then show ?thesis using covered_found [OF t(1) x c p(2)] covered_append unfolding nm(1) final_table_def by blast
qed

definition compiled_method :: "handle \<Rightarrow> (handle \<Rightarrow> oop) \<Rightarrow> nat \<Rightarrow> int \<Rightarrow> debug_recorder \<Rightarrow> nmethod_debug \<Rightarrow> nmethod_debug" where
  "compiled_method non_oop resolve room content_size d nm =
     copy_to room content_size d (nm\<lparr>nm_tables := copy_values_to non_oop resolve (or_freeze (dw_recorder (di_writer d)))\<rparr>)"

text \<open>
  C3: Debugging information survives recording and compilation.  Record any instructions of a method at increasing offsets, each with its frames (method, bytecode
  index, flags, locals, expressions, monitors) and, for a safepoint, with objects that may refer to each other in
  cycles; let the recorder share equal byte runs and coalesce neighbouring descriptors as it does; copy the result
  into a compiled method.  Then every recording succeeds, and for every instruction \<open>pc_desc_near\<close> finds a
  descriptor, and for every safepoint \<open>scope_desc_at\<close> a scope, from which following the senders gives exactly
  the frames recorded, innermost first, with objects of the same shape.  This holds for every valid content of the
  descriptor cache.  The bounds are those of the 32-bit offsets and of the tables of handles.
\<close>

theorem debug_info_recorded:
  assumes "list_all (pc_ok non_oop fuel) ps" and "sorted_wrt (<) (map rp_pc ps)" and "\<forall>p \<in> set ps. 0 \<le> rp_pc p \<and> rp_pc p \<le> content_size"
    and "0 \<le> content_size" and "content_size + 1 < upper_offset_limit" and "(\<Sum>p \<leftarrow> ps. pc_cost p) < 2 ^ 26"
  shows "\<exists>d0 d n d1. new_debug_recorder non_safepoints (new_oop_recorder arena) = Some d0 \<and> record_all fuel non_oop sf d0 ps = Some d \<and> pcs_size d = Some (n, d1) \<and>
    data_size d1 \<le> 1 + 50 * (\<Sum>p \<leftarrow> ps. pc_cost p) \<and>
    (\<forall>room nm0 cache before p. p \<in> set ps \<longrightarrow>
       cache_ok (nm_scopes_pcs (compiled_method non_oop resolve room content_size d1 nm0)) cache \<longrightarrow>
       pc_found (initialize_immediate_oop non_oop resolve) fuel before (compiled_method non_oop resolve room content_size d1 nm0) cache p)"
proof -
  obtain d0 where d0: "new_debug_recorder non_safepoints (new_oop_recorder arena) = Some d0" "dir_ok sf d0" "di_pcs d0 = [new_pc_desc lower_offset_limit 0 0]"
    "di_prev_safepoint_pc d0 = lower_offset_limit" "dw_recorder (di_writer d0) = new_oop_recorder arena" "di_bytes d0 = [0xFF]"
    using new_debug_recorder_ok [of non_safepoints "new_oop_recorder arena" sf] by blast
  have r0: "recorded non_oop resolve sf fuel d0 []" using d0 rec_new(1) by (simp add: recorded_def tab_def new_pc_desc_def)
  have low: "pd_pc_offset (last (di_pcs d0)) = - 1" using d0(3) by (simp add: new_pc_desc_def lower_offset_limit_def)
  have s: "sorted_wrt (<) (pd_pc_offset (last (di_pcs d0)) # map rp_pc ps)" using assms(2,3) low by auto
  have fit: "rec_used (dw_recorder (di_writer d0)) + (\<Sum>p \<leftarrow> ps. pc_cost p) < 2 ^ 30" using assms(6) d0(5) rec_new(2) by simp
  obtain d where d: "record_all fuel non_oop sf d0 ps = Some d" "recorded non_oop resolve sf fuel d ps"
    "pd_pc_offset (last (di_pcs d)) = last (- 1 # map rp_pc ps)" using record_all_ok [OF r0 assms(1) s fit] low by auto
  have l: "pd_pc_offset (last (di_pcs d)) \<le> content_size" using d(3) assms(3,4) by (auto simp: last_map)
  have ok: "dir_ok sf d" "di_pcs d \<noteq> []" using d(2) by (simp_all add: recorded_def tab_def)
  have lt: "pd_pc_offset (last (di_pcs d)) < upper_offset_limit" using l assms(5) by simp
  obtain n d1 where d1: "pcs_size d = Some (n, d1)" "di_writer d1 = di_writer d" using copied [OF ok lt] by blast
  have d0pos: "di_position d0 = 1" "cw_ok (dw_stream (di_writer d0))" using d0(2,6) di_bytes_length [of d0] by (simp_all add: dir_ok_def)
  have "\<forall>p \<in> set ps. rp_frames p \<noteq> []" using assms(1) by (auto simp: list_all_iff pc_ok_def)
  from record_all_size [OF d0pos(2) this d(1)] have bound: "data_size d1 \<le> 1 + 50 * (\<Sum>p \<leftarrow> ps. pc_cost p)"
    using d0pos(1) d1(2) by (simp add: data_size_def di_position_def)
  then have sz: "data_size d1 < 2 ^ 32" using assms(6) by simp
  have "pc_found (initialize_immediate_oop non_oop resolve) fuel before nm cache p"
    if p: "p \<in> set ps" and nm: "nm = compiled_method non_oop resolve room content_size d1 nm0" and c: "cache_ok (nm_scopes_pcs nm) cache"
    for room nm0 nm cache before p
  proof -
    have k: "nm_scopes_pcs nm = final_table (di_pcs d) room content_size" "nm_scopes_data nm = di_bytes d"
      "nm_tables nm = copy_values_to non_oop resolve (or_freeze (dw_recorder (di_writer d)))"
      using copied [OF ok lt, of room content_size] d1 unfolding nm compiled_method_def by auto
    have h: "holds non_oop resolve d nm" unfolding holds_def using k(2,3) rec_later_freeze by (metis append_Nil2)
    have "length (nm_scopes_data nm) < 2 ^ 32" using sz k(2) d1(2) ok(1) di_bytes_length [of d] by (simp add: data_size_def di_position_def dir_ok_def)
    moreover have "rp_frames p \<noteq> []" using assms(1) p by (auto simp: list_all_iff pc_ok_def)
    ultimately show ?thesis using recorded_found [OF d(2) p _ _ _ l assms(5) h k(1) _ c] assms(3) p by blast
  qed
  then show ?thesis using d0(1) d(1) d1(1) bound by blast
qed

text \<open>A method with a profile point and a safepoint in an inlined call; the locals refer to an object that refers to itself.\<close>

definition demo_scope :: "handle \<Rightarrow> jint \<Rightarrow> scope_args" where
  "demo_scope m bci = \<lparr>ds_methodH = m, ds_method = None, ds_bci = bci, ds_reexecute = False, ds_rethrow_exception = False,
     ds_is_method_handle_invoke = False, ds_return_oop = True, ds_locals = 0, ds_expressions = 0, ds_monitors = 0\<rparr>"

definition demo_object :: object_value where
  "demo_object = \<lparr>ov_id = 7, ov_auto_box = False, ov_klass = Some (ConstantOopWriteValue 16), ov_base_object = Some MarkerValue,
     ov_field_values = [ObjectValue 0, ConstantIntValue 3], ov_visited = False\<rparr>"

definition demo_outer :: frame where
  "demo_outer = \<lparr>fr_locals = None, fr_expressions = None, fr_monitors = None, fr_scope = demo_scope 32 5\<rparr>"

definition demo_inner :: frame where
  "demo_inner = \<lparr>fr_locals = Some [ObjectValue 0, ConstantIntValue 4], fr_expressions = None,
     fr_monitors = Some [\<lparr>mv_owner = ObjectValue 0, mv_basic_lock = 0, mv_eliminated = True\<rparr>], fr_scope = demo_scope 48 2\<rparr>"

definition demo_point :: pc_info where
  "demo_point = \<lparr>rp_pc = 3, rp_safepoint = False, rp_map = 0, rp_objects = [], rp_frames = [demo_outer]\<rparr>"

definition demo_safepoint :: pc_info where
  "demo_safepoint = \<lparr>rp_pc = 8, rp_safepoint = True, rp_map = 0, rp_objects = [demo_object], rp_frames = [demo_outer, demo_inner]\<rparr>"

definition demo_nmethod :: nmethod_debug where
  "demo_nmethod = \<lparr>nm_tables = \<lparr>nm_oops = [], nm_metadata = []\<rparr>, nm_method = 32, nm_scopes_data = [], nm_scopes_pcs = [], nm_has_method_handle_invokes = False\<rparr>"

lemma compiled_pcs: "pcs_size d = Some (n, d1) \<Longrightarrow> nm_scopes_pcs (compiled_method non_oop resolve room content_size d1 nm) \<noteq> []"
  by (auto simp: pcs_size_def last_pc_def compiled_method_def copy_to_def copy_scopes_pcs_def copy_scopes_data_def add_new_pc_offset_def Let_def
      split: if_split_asm)

theorem debug_info_recorded_witness:
  "\<exists>d0 d n d1 sd cache'. new_debug_recorder True (new_oop_recorder True) = Some d0 \<and>
     record_all 2 1 \<lparr>sf_include_jvmci = True, sf_is_default = True, sf_share_debug_info = True\<rparr> d0 [demo_point, demo_safepoint] = Some d \<and>
     pcs_size d = Some (n, d1) \<and>
     scope_desc_at 2 0 (compiled_method 1 (\<lambda>h. h + 1) 5 100 d1 demo_nmethod) (reset_to (Some 0)) 8 = Some (sd, cache') \<and>
     scopes_decoded (initialize_immediate_oop 1 (\<lambda>h. h + 1)) 2 (compiled_method 1 (\<lambda>h. h + 1) 5 100 d1 demo_nmethod) demo_safepoint sd"
proof -
  let ?sf = "\<lparr>sf_include_jvmci = True, sf_is_default = True, sf_share_debug_info = True\<rparr>"
  note demo = demo_point_def demo_safepoint_def demo_outer_def demo_inner_def demo_scope_def demo_object_def
  have "list_all (pc_ok 1 2) [demo_point, demo_safepoint]"
    by (simp add: demo pc_ok_def graph_ok_def ov_ok_def val_ok_def handle_ok_def is_real_def frame_ok_def mon_ok_def method_enc_def)
  moreover have "sorted_wrt (<) (map rp_pc [demo_point, demo_safepoint])" "\<forall>p \<in> set [demo_point, demo_safepoint]. 0 \<le> rp_pc p \<and> rp_pc p \<le> 100"
    by (simp_all add: demo)
  moreover have "(\<Sum>p \<leftarrow> [demo_point, demo_safepoint]. pc_cost p) < 2 ^ 26"
    by (simp add: demo pc_cost_def frame_cost_def objects_cost_def olen_def)
  moreover have "(0 :: int) \<le> 100" "100 + 1 < upper_offset_limit" by (simp_all add: upper_offset_limit_def)
  ultimately obtain d0 d n d1 where d: "new_debug_recorder True (new_oop_recorder True) = Some d0" "record_all 2 1 ?sf d0 [demo_point, demo_safepoint] = Some d"
    "pcs_size d = Some (n, d1)"
    and f: "\<And>room nm0 cache before p. p \<in> set [demo_point, demo_safepoint] \<Longrightarrow> cache_ok (nm_scopes_pcs (compiled_method 1 (\<lambda>h. h + 1) room 100 d1 nm0)) cache \<Longrightarrow>
       pc_found (initialize_immediate_oop 1 (\<lambda>h. h + 1)) 2 before (compiled_method 1 (\<lambda>h. h + 1) room 100 d1 nm0) cache p"
    using debug_info_recorded [of 1 2 "[demo_point, demo_safepoint]" 100 True True ?sf "\<lambda>h. h + 1"] by blast
  have "cache_ok (nm_scopes_pcs (compiled_method 1 (\<lambda>h. h + 1) 5 100 d1 demo_nmethod)) (reset_to (Some 0))"
    using compiled_pcs [OF d(3)] by (intro reset_to_ok) simp
  from f [OF _ this, of demo_safepoint 0] d show ?thesis by (auto simp: pc_found_def demo_safepoint_def)
qed

end
