(* ===== verification/Spec2Isabelle.thy ===== *)
theory Spec2Isabelle
  imports CodeHeap_Theorems CompressedStream_Correct Utf8_Correct TaskQueue_Theorems TaskQueueSet_Correct BitMap2D ObjectLookup DebugInfoRec_Theorems
begin

text \<open>
  A verification library for parts of the HotSpot virtual machine of graal-jvmci-8
  (\<open>src/src/share/vm\<close>; file names below are relative to it).

  \<^bold>\<open>How the parts interact.\<close>
  A compiler records the debugging information of a method: handles go into an \<open>OopRecorder\<close>, values
  and scopes into a \<open>CompressedStream\<close> through the \<open>DebugInformationRecorder\<close>, and one \<open>PcDesc\<close> per
  instruction into a table.  The method is placed in the \<open>CodeHeap\<close>, which lives in a \<open>VirtualSpace\<close>.
  At run time \<open>nmethod\<close> finds the descriptor of an instruction and \<open>ScopeDesc\<close> decodes its scopes.
  \<open>GrowableArray\<close> and \<open>BitMap\<close> are containers these and other parts use; \<open>taskqueue.hpp\<close> distributes the
  work of the parallel collectors, and \<open>utf8.cpp\<close> converts names.

  \<^bold>\<open>Conventions.\<close>
  Theory \<open>HS_Prelude\<close> has the machine types (\<open>jint\<close> is \<open>32 word\<close>, \<open>u_char\<close> is \<open>8 word\<close>; a \<open>size_t\<close> is a \<open>nat\<close>,
  and additions and subtractions of the source that can wrap are \<open>uadd64\<close> and \<open>usub64\<close>) and shared lemmas.
  A class is a record with its fields, an operation a function on it.  A failing guarantee, a fatal error or an
  access outside of an array that the code could make is \<open>None\<close>.  Assertions of debug builds are left out, except
  where the text of a definition says otherwise (\<open>read_object_value\<close>, for one, does not check that an object is
  read once only); what they assert appears as an invariant or as a hypothesis where a theorem needs it.
  A pointer is an index into the array it points into.
  For a component \<open>X\<close>, theory \<open>X\<close> has the definitions; \<open>X_Correct\<close> and the theories after it have the lemmas.

  \<^bold>\<open>Memory of compiled code.\<close>
  \<open>VirtualSpace\<close> models \<open>runtime/virtualspace.cpp\<close> (\<open>initialize\<close>, \<open>expand_by\<close>, \<open>shrink_by\<close>).  Whether the
  OS accepts a commit or an uncommit is a parameter; the calls it has accepted are part of the state, and the
  invariant says that the marks of a space agree with them.  \<open>CodeHeap\<close> models \<open>memory/heap.cpp\<close>: a \<open>HeapBlock*\<close> is the
  index of its first segment.  \<open>CodeHeap_Correct\<close>, \<open>CodeHeap_Alloc\<close> and \<open>CodeHeap_Props\<close> relate a heap to the
  list of its blocks, \<open>CodeHeap_Contract\<close> states the contract of an allocator as a locale and interprets it, and
  \<open>CodeHeap_Theorems\<close> shows that every reachable heap is consistent as long as the OS grants the commits of the
  segment map, what is lost when it does not, that allocation, deallocation, lookup
  and iteration do what they promise, and that a reserve for critical requests wraps around.

  \<^bold>\<open>Streams and text.\<close>
  \<open>CompressedStream\<close> models \<open>code/compressedStream.cpp\<close>: UNSIGNED5 and everything built on it.  A locale
  \<open>stream_codec\<close> (what is written is appended, in a buffer of at most twice the position, and read back) is interpreted for each type, and gives the round
  trip of arbitrary sequences.  \<open>Utf8\<close> models \<open>utilities/utf8.cpp\<close>: round trip of the conversions, exact
  lengths, and quoting.

  \<^bold>\<open>Work stealing.\<close>
  \<open>TaskQueue\<close> models \<open>utilities/taskqueue.hpp\<close> as steps on shared memory, one per access to a shared
  field, for an owner and any number of thieves; memory is sequentially consistent.  \<open>TaskQueue_Theorems\<close>
  shows that the queue is linearizable and loses and duplicates nothing.  \<open>TaskQueueSet\<close> adds
  stealing between queues, \<open>randomParkAndMiller\<close> and the termination protocol of \<open>taskqueue.cpp\<close>,
  in which other threads may step in between the look for work and the withdrawal of an offer.

  \<^bold>\<open>Containers.\<close>
  \<open>BitMap\<close> and \<open>BitMap2D\<close> model \<open>utilities/bitMap.cpp\<close> and its headers: word-wise operations refine operations on
  sets of bits; \<open>BitMap_Par\<close> has the interleaved \<open>par_set_bit\<close>.  \<open>GrowableArray\<close> models
  \<open>utilities/growableArray.hpp\<close>, which refines lists; its binary search is proved in a locale \<open>sorted_search\<close> that is
  interpreted for object addresses and for the byte chunks of the recorder.

  \<^bold>\<open>Handles.\<close>
  \<open>OopRecorder\<close> models \<open>code/oopRecorder.cpp\<close>: the list of handles with its cache of indexes, and \<open>ObjectLookup\<close>
  the deduplication by object address, across collections that move the objects.

  \<^bold>\<open>Debugging information.\<close>
  \<open>Location\<close> and \<open>DebugInfo\<close> model \<open>code/location.cpp\<close> and \<open>code/debugInfo.cpp\<close>: values of all kinds,
  among them objects that refer to each other in cycles; \<open>DebugInfo_Size\<close> bounds the bytes they take.  \<open>DebugInfoRec\<close> models \<open>code/debugInfoRec.cpp\<close> and
  \<open>code/pcDesc.hpp\<close>; \<open>ScopeDesc\<close> models \<open>code/scopeDesc.cpp\<close>; \<open>PcDescSearch\<close> the search of \<open>code/nmethod.cpp\<close>
  for a descriptor, with the entries racing threads load from the cache as arguments.
  \<open>DebugInfoRec_Share\<close> shows that sharing byte runs is sound and, with JVMCI, complete; \<open>DebugInfoRec_Correct\<close>,
  \<open>DebugInfo_Monitors\<close>, \<open>DebugInfoRec_Scopes\<close>, \<open>DebugInfoRec_Frames\<close> and \<open>DebugInfoRec_Pool\<close> that values, monitors, scopes,
  frames and object pools are decoded later; \<open>DebugInfoRec_Table\<close> that coalescing descriptors loses no
  instruction; \<open>DebugInfoRec_Size\<close> bounds the bytes; and \<open>DebugInfoRec_Theorems\<close> composes recorder, compiled
  method, search and decoder into one round trip.

  \<^bold>\<open>Bounds and fuel.\<close>
  Writing and reading values recurse through objects with fuel; an object is written once, so one more
  than the number of objects is enough, and the theorems require just that.  Tables of handles have fewer
  than two to the 30th entries, so that indexes are positive \<open>int\<close>s.  Sizes and positions of streams are natural numbers;
  a stream of less than two to the 30th bytes has a buffer of less than two to the 31st, the range of an \<open>int\<close>.  Values and
  fields that add up to less than two to the 25th stay within that bound.  A method whose values, objects and frames add
  up to less than two to the 26th needs less than two to the 32nd bytes, and its offsets are read back as unsigned
  numbers of 32 bits; below two to the 25th they are also positive \<open>int\<close>s.  The lengths of \<open>utf8.cpp\<close> are \<open>jint\<close>s
  that wrap; the theorems require strings whose length fits.  Growable arrays have at
  most two to the 30th elements, beyond which the doubling of the capacity overflows.

  \<^bold>\<open>Not modelled.\<close>
  Printing, statistics, and code that exists in debug builds only, apart from the linear search the
  assertions compare with.  \<open>ReservedSpace\<close> depends on the OS.  Sorting with \<open>qsort\<close> is in the C library: its result is the
  sorted list.  Weaker memory models.  Of \<open>nmethod\<close> only the debugging information is modelled; its life cycle,
  relocations and inline caches depend on machine code.  The interpreter, the C1 and C2 compilers, the
  collectors, the class loader, the runtime, JVMTI, JFR, the CPU and OS ports and the Java sources of JVMCI and of
  the serviceability agent are outside of the library.
\<close>

end
